(* ===== verification/Prelude.thy ===== *)
theory Prelude
  imports Main "HOL-Library.Word"
begin

unbundle bit_operations_syntax

section \<open>Shared vocabulary of the kernel model\<close>

text \<open>
  This theory holds what every component of the model of the x86 kernel uses: the machine
  types of \<^verbatim>\<open>lib/stdint.h\<close>, the ways a kernel function can end, two small monads (one for pure
  routines that may fail, one for routines on the kernel state that may also put the calling
  thread to sleep), a partial-correctness and a total-correctness triple with their rules, and
  generic lemmas on lists, bounded search and words.
\<close>

subsection \<open>Machine types (lib/stdint.h)\<close>

type_synonym u8 = "8 word"
type_synonym u16 = "16 word"
type_synonym u32 = "32 word"

text \<open>A C pointer is a 32-bit address, \<^verbatim>\<open>NULL\<close> is address 0.\<close>

type_synonym addr = u32

abbreviation NULL :: addr where "NULL \<equiv> 0"

text \<open>\<^verbatim>\<open>PG_SIZE\<close> and \<^verbatim>\<open>DIV_ROUND_UP\<close> of \<^verbatim>\<open>kernel/global.h\<close>.\<close>

definition PG_SIZE :: nat where
  "PG_SIZE = 4096"

definition DIV_ROUND_UP :: "nat \<Rightarrow> nat \<Rightarrow> nat" where
  "DIV_ROUND_UP x step = (x + step - 1) div step"

subsection \<open>How a kernel routine can end\<close>

text \<open>
  \<open>Panic\<close> is a failed \<^verbatim>\<open>ASSERT\<close> or a \<^verbatim>\<open>PANIC\<close> (\<^verbatim>\<open>panic_spin\<close> of \<^verbatim>\<open>kernel/debug.c\<close> prints a
  message and spins with interrupts off, so the routine never returns). \<open>Out_Of_Bounds\<close> is an
  access outside the object a pointer points into. \<open>Page_Fault\<close> is an access through an absent
  page-table entry. \<open>Diverges\<close> is a loop whose state no longer changes.
\<close>

datatype fault = Panic | Out_Of_Bounds | Page_Fault | Diverges

type_synonym 'a res = "fault + 'a"

fun bindR :: "'e + 'a \<Rightarrow> ('a \<Rightarrow> 'e + 'b) \<Rightarrow> 'e + 'b" where
  "bindR (Inl e) f = Inl e"
| "bindR (Inr a) f = f a"

definition ASSERT :: "bool \<Rightarrow> unit res" where
  "ASSERT b = (if b then Inr () else Inl Panic)"

text \<open>Reading and writing one cell of an array object of known extent.\<close>

definition rd :: "'a list \<Rightarrow> nat \<Rightarrow> 'a res" where
  "rd xs i = (if i < length xs then Inr (xs ! i) else Inl Out_Of_Bounds)"

definition wr :: "'a list \<Rightarrow> nat \<Rightarrow> 'a \<Rightarrow> 'a list res" where
  "wr xs i v = (if i < length xs then Inr (xs[i := v]) else Inl Out_Of_Bounds)"

lemma bindR_cong [fundef_cong]:
  "m = m' \<Longrightarrow> (\<And>a. m' = Inr a \<Longrightarrow> f a = g a) \<Longrightarrow> bindR m f = bindR m' g"
  by (cases m) auto

lemma bindR_Inr_iff: "bindR m f = Inr b \<longleftrightarrow> (\<exists>a. m = Inr a \<and> f a = Inr b)"
  by (cases m) auto

lemma bindR_Inl_iff: "bindR m f = Inl e \<longleftrightarrow> m = Inl e \<or> (\<exists>a. m = Inr a \<and> f a = Inl e)"
  by (cases m) auto

lemma bindR_assoc: "bindR (bindR m f) g = bindR m (\<lambda>a. bindR (f a) g)"
  by (cases m) auto

lemma ASSERT_simps [simp]:
  "ASSERT b = Inr u \<longleftrightarrow> b"
  "ASSERT b = Inl e \<longleftrightarrow> \<not> b \<and> e = Panic"
  by (auto simp: ASSERT_def)

lemma ASSERT_True [simp]: "ASSERT True = Inr ()"
  by (simp add: ASSERT_def)

lemma rd_in [simp]: "i < length xs \<Longrightarrow> rd xs i = Inr (xs ! i)"
  by (simp add: rd_def)

lemma rd_out [simp]: "length xs \<le> i \<Longrightarrow> rd xs i = Inl Out_Of_Bounds"
  by (simp add: rd_def)

lemma rd_Inr_iff: "rd xs i = Inr v \<longleftrightarrow> i < length xs \<and> v = xs ! i"
  by (auto simp: rd_def)

lemma wr_in [simp]: "i < length xs \<Longrightarrow> wr xs i v = Inr (xs[i := v])"
  by (simp add: wr_def)

lemma wr_out [simp]: "length xs \<le> i \<Longrightarrow> wr xs i v = Inl Out_Of_Bounds"
  by (simp add: wr_def)

lemma wr_Inr_iff: "wr xs i v = Inr ys \<longleftrightarrow> i < length xs \<and> ys = xs[i := v]"
  by (auto simp: wr_def)

lemmas res_iffs = bindR_Inr_iff bindR_Inl_iff rd_Inr_iff wr_Inr_iff

subsection \<open>Routines on the kernel state\<close>

text \<open>
  A routine started in a state either returns a value in a new state, or reaches a point where
  the scheduler takes the calling thread off the processor (\<open>Blk\<close>, with the state at that
  moment), or ends in a fault.
\<close>

datatype ('s, 'a) outcome = Ret 'a 's | Blk 's | Flt fault

type_synonym ('s, 'a) kop = "'s \<Rightarrow> ('s, 'a) outcome"

definition retK :: "'a \<Rightarrow> ('s, 'a) kop" where
  "retK a = (\<lambda>s. Ret a s)"

definition bindK :: "('s, 'a) kop \<Rightarrow> ('a \<Rightarrow> ('s, 'b) kop) \<Rightarrow> ('s, 'b) kop" where
  "bindK m f = (\<lambda>s. case m s of Ret a t \<Rightarrow> f a t | Blk t \<Rightarrow> Blk t | Flt e \<Rightarrow> Flt e)"

definition thenK :: "('s, 'a) kop \<Rightarrow> ('s, 'b) kop \<Rightarrow> ('s, 'b) kop" where
  "thenK m n = bindK m (\<lambda>_. n)"

definition getK :: "('s \<Rightarrow> 'a) \<Rightarrow> ('s, 'a) kop" where
  "getK f = (\<lambda>s. Ret (f s) s)"

definition modK :: "('s \<Rightarrow> 's) \<Rightarrow> ('s, unit) kop" where
  "modK f = (\<lambda>s. Ret () (f s))"

definition fltK :: "fault \<Rightarrow> ('s, 'a) kop" where
  "fltK e = (\<lambda>s. Flt e)"

definition assertK :: "('s \<Rightarrow> bool) \<Rightarrow> ('s, unit) kop" where
  "assertK P = (\<lambda>s. if P s then Ret () s else Flt Panic)"

definition whenK :: "bool \<Rightarrow> ('s, unit) kop \<Rightarrow> ('s, unit) kop" where
  "whenK b m = (if b then m else retK ())"

text \<open>A pure routine that may fail, run inside the kernel state.\<close>

definition liftR :: "'a res \<Rightarrow> ('s, 'a) kop" where
  "liftR r = (\<lambda>s. case r of Inl e \<Rightarrow> Flt e | Inr a \<Rightarrow> Ret a s)"

text \<open>A state update that may fail.\<close>

definition updR :: "('s \<Rightarrow> 's res) \<Rightarrow> ('s, unit) kop" where
  "updR f = (\<lambda>s. case f s of Inl e \<Rightarrow> Flt e | Inr s' \<Rightarrow> Ret () s')"

lemmas kop_defs = retK_def bindK_def thenK_def getK_def modK_def fltK_def assertK_def
  whenK_def liftR_def

lemma kop_run [simp]:
  "retK a s = Ret a s"
  "getK g s = Ret (g s) s"
  "modK h s = Ret () (h s)"
  "fltK e s = Flt e"
  "assertK P s = (if P s then Ret () s else Flt Panic)"
  "liftR (Inr a) s = Ret a s"
  "liftR (Inl e) s = Flt e"
  by (simp_all add: kop_defs)

lemma bindK_run [simp]:
  "m s = Ret a t \<Longrightarrow> bindK m f s = f a t"
  "m s = Blk t \<Longrightarrow> bindK m f s = Blk t"
  "m s = Flt e \<Longrightarrow> bindK m f s = Flt e"
  by (simp_all add: bindK_def)

lemma thenK_run [simp]:
  "m s = Ret a t \<Longrightarrow> thenK m n s = n t"
  "m s = Blk t \<Longrightarrow> thenK m n s = Blk t"
  "m s = Flt e \<Longrightarrow> thenK m n s = Flt e"
  by (simp_all add: thenK_def)

lemma bindK_Ret_iff:
  "bindK m f s = Ret b u \<longleftrightarrow> (\<exists>a t. m s = Ret a t \<and> f a t = Ret b u)"
  by (auto simp: bindK_def split: outcome.splits)

lemma thenK_Ret_iff:
  "thenK m n s = Ret b u \<longleftrightarrow> (\<exists>a t. m s = Ret a t \<and> n t = Ret b u)"
  by (auto simp: thenK_def bindK_Ret_iff)

lemma assertK_Ret_iff: "assertK P s = Ret u t \<longleftrightarrow> P s \<and> t = s"
  by (auto simp: kop_defs)

lemma liftR_Ret_iff: "liftR r s = Ret a t \<longleftrightarrow> r = Inr a \<and> t = s"
  by (auto simp: kop_defs split: sum.splits)

lemma updR_Ret_iff: "updR f s = Ret u t \<longleftrightarrow> f s = Inr t"
  by (auto simp: updR_def split: sum.splits)

lemma updR_run [simp]:
  "f s = Inr t \<Longrightarrow> updR f s = Ret () t" "f s = Inl e \<Longrightarrow> updR f s = Flt e"
  by (simp_all add: updR_def)

lemma whenK_simps [simp]: "whenK True m = m" "whenK False m = retK ()"
  by (simp_all add: whenK_def)

lemmas kop_iffs = bindK_Ret_iff thenK_Ret_iff assertK_Ret_iff liftR_Ret_iff updR_Ret_iff

subsection \<open>Triples\<close>

text \<open>
  \<open>valid P m Q\<close>: whenever \<open>m\<close>, started in a state with \<open>P\<close>, returns, the value and the final
  state satisfy \<open>Q\<close>. \<open>tvalid P m Q\<close>: started in a state with \<open>P\<close>, \<open>m\<close> does return, and with \<open>Q\<close>.
\<close>

definition valid :: "('s \<Rightarrow> bool) \<Rightarrow> ('s, 'a) kop \<Rightarrow> ('a \<Rightarrow> 's \<Rightarrow> bool) \<Rightarrow> bool" where
  "valid P m Q \<longleftrightarrow> (\<forall>s a t. P s \<longrightarrow> m s = Ret a t \<longrightarrow> Q a t)"

definition tvalid :: "('s \<Rightarrow> bool) \<Rightarrow> ('s, 'a) kop \<Rightarrow> ('a \<Rightarrow> 's \<Rightarrow> bool) \<Rightarrow> bool" where
  "tvalid P m Q \<longleftrightarrow> (\<forall>s. P s \<longrightarrow> (\<exists>a t. m s = Ret a t \<and> Q a t))"

named_theorems wp \<open>rules that compose triples of kernel routines\<close>

lemma valid_bind [wp]:
  "valid P m R \<Longrightarrow> (\<And>a. valid (R a) (f a) Q) \<Longrightarrow> valid P (bindK m f) Q"
  unfolding valid_def by (fastforce simp: bindK_Ret_iff)

lemma valid_then [wp]:
  "valid P m (\<lambda>_. R) \<Longrightarrow> valid R n Q \<Longrightarrow> valid P (thenK m n) Q"
  unfolding thenK_def by (erule valid_bind) simp

lemma tvalid_bind [wp]:
  "tvalid P m R \<Longrightarrow> (\<And>a. tvalid (R a) (f a) Q) \<Longrightarrow> tvalid P (bindK m f) Q"
  unfolding tvalid_def by (metis bindK_Ret_iff)

lemma tvalid_then [wp]:
  "tvalid P m (\<lambda>_. R) \<Longrightarrow> tvalid R n Q \<Longrightarrow> tvalid P (thenK m n) Q"
  unfolding thenK_def by (erule tvalid_bind) simp

lemma valid_pre: "valid P m Q \<Longrightarrow> (\<And>s. P' s \<Longrightarrow> P s) \<Longrightarrow> valid P' m Q"
  by (auto simp: valid_def)

lemma valid_post: "valid P m Q \<Longrightarrow> (\<And>a s. Q a s \<Longrightarrow> Q' a s) \<Longrightarrow> valid P m Q'"
  by (auto simp: valid_def)

lemma tvalidI: "(\<And>s. P s \<Longrightarrow> \<exists>a t. m s = Ret a t \<and> Q a t) \<Longrightarrow> tvalid P m Q"
  by (auto simp: tvalid_def)

lemma validI: "(\<And>s a t. P s \<Longrightarrow> m s = Ret a t \<Longrightarrow> Q a t) \<Longrightarrow> valid P m Q"
  by (auto simp: valid_def)

lemma tvalid_valid: "tvalid P m Q \<Longrightarrow> valid P m Q"
  unfolding tvalid_def valid_def by (metis outcome.inject(1))

subsection \<open>Bit masks\<close>

text \<open>The bits of the contiguous masks the code writes as numerals, for bitwise reasoning.\<close>

lemma bit_shifted_mask:
  "bit (push_bit m (mask k) :: 'a::len word) n \<longleftrightarrow> m \<le> n \<and> n < m + k \<and> n < LENGTH('a)"
  by (auto simp: bit_push_bit_iff bit_mask_iff)

lemma bit_ff_32: "bit (0xff :: 32 word) n \<longleftrightarrow> n < 8"
  using bit_shifted_mask [where 'a = 32, of 0 8 n] by (auto simp: mask_eq_exp_minus_1)

lemma bit_fff_32: "bit (0xfff :: 32 word) n \<longleftrightarrow> n < 12"
  using bit_shifted_mask [where 'a = 32, of 0 12 n] by (auto simp: mask_eq_exp_minus_1)

lemma bit_ffff_32: "bit (0xffff :: 32 word) n \<longleftrightarrow> n < 16"
  using bit_shifted_mask [where 'a = 32, of 0 16 n] by (auto simp: mask_eq_exp_minus_1)

lemma bit_ff0000_32: "bit (0xff0000 :: 32 word) n \<longleftrightarrow> 16 \<le> n \<and> n < 24"
  using bit_shifted_mask [where 'a = 32, of 16 8 n] by (auto simp: mask_eq_exp_minus_1)

lemma bit_f0000_32: "bit (0xf0000 :: 32 word) n \<longleftrightarrow> 16 \<le> n \<and> n < 20"
  using bit_shifted_mask [where 'a = 32, of 16 4 n] by (auto simp: mask_eq_exp_minus_1)

lemma bit_ffff0000_32: "bit (0xffff0000 :: 32 word) n \<longleftrightarrow> 16 \<le> n \<and> n < 32"
  using bit_shifted_mask [where 'a = 32, of 16 16 n] by (auto simp: mask_eq_exp_minus_1)

lemma bit_fffff000_32: "bit (0xfffff000 :: 32 word) n \<longleftrightarrow> 12 \<le> n \<and> n < 32"
  using bit_shifted_mask [where 'a = 32, of 12 20 n] by (auto simp: mask_eq_exp_minus_1)

lemma bit_ffc00000_32: "bit (0xffc00000 :: 32 word) n \<longleftrightarrow> 22 \<le> n \<and> n < 32"
  using bit_shifted_mask [where 'a = 32, of 22 10 n] by (auto simp: mask_eq_exp_minus_1)

lemma bit_003ff000_32: "bit (0x003ff000 :: 32 word) n \<longleftrightarrow> 12 \<le> n \<and> n < 22"
  using bit_shifted_mask [where 'a = 32, of 12 10 n] by (auto simp: mask_eq_exp_minus_1)

lemma bit_ffff_16: "bit (0xffff :: 16 word) n \<longleftrightarrow> n < 16"
  using bit_shifted_mask [where 'a = 16, of 0 16 n] by (auto simp: mask_eq_exp_minus_1)

lemma bit_ff_8: "bit (0xff :: 8 word) n \<longleftrightarrow> n < 8"
  using bit_shifted_mask [where 'a = 8, of 0 8 n] by (auto simp: mask_eq_exp_minus_1)

lemma bit_0f_8: "bit (0x0f :: 8 word) n \<longleftrightarrow> n < 4"
  using bit_shifted_mask [where 'a = 8, of 0 4 n] by (auto simp: mask_eq_exp_minus_1)

lemma bit_f0_8: "bit (0xf0 :: 8 word) n \<longleftrightarrow> 4 \<le> n \<and> n < 8"
  using bit_shifted_mask [where 'a = 8, of 4 4 n] by (auto simp: mask_eq_exp_minus_1)

lemmas mask_bits = bit_ff_32 bit_fff_32 bit_ffff_32 bit_ff0000_32 bit_f0000_32 bit_ffff0000_32 bit_fffff000_32 bit_ffc00000_32 bit_003ff000_32 bit_ffff_16 bit_ff_8 bit_0f_8 bit_f0_8

lemmas word_bits = bit_or_iff bit_and_iff bit_push_bit_iff bit_drop_bit_eq bit_ucast_iff
  bit_take_bit_iff mask_bits

text \<open>Widening keeps the number.\<close>

lemma unat_ucast_widen [simp]:
  "unat (ucast (b :: u8) :: u32) = unat b"
  "unat (ucast (b :: u8) :: u16) = unat b"
  "unat (ucast (h :: u16) :: u32) = unat h"
  by (transfer; simp add: take_bit_eq_mod)+

subsection \<open>Arithmetic of array indices\<close>

lemma DIV_ROUND_UP_covers:
  assumes "0 < step"
  shows "x \<le> DIV_ROUND_UP x step * step"
proof -
  have "x + step - 1 < (x + step - 1) div step * step + step"
    using dividend_less_div_times [OF assms, of "x + step - 1"] by (simp add: add.commute)
  then show ?thesis
    using assms by (simp add: DIV_ROUND_UP_def)
qed

lemma div_mod_8_inj: "(i::nat) div 8 = j div 8 \<Longrightarrow> i mod 8 = j mod 8 \<Longrightarrow> i = j"
  by (metis div_mult_mod_eq)

lemma less_mod_8_shift: "k < n mod 8 \<Longrightarrow> 8 * (n div 8) + k < (n::nat)"
  by (metis add_less_cancel_left mult_div_mod_eq)

lemma div_8_less: "(i::nat) < 8 * n \<longleftrightarrow> i div 8 < n"
  by auto

end
