(* ===== verification/Bitmap.thy ===== *)
theory Bitmap
  imports Prelude
begin

section \<open>Bitmaps (lib/kernel/bitmap.c)\<close>

text \<open>
  A bitmap is a length in bytes and a pointer to the bytes. The model holds the length and the
  bytes that can be read from the pointer on: \<open>bits\<close> has at least \<open>btmp_bytes_len\<close> elements, and
  more where the bitmap is followed by other memory, as the pool bitmaps at
  \<^verbatim>\<open>MEM_BITMAP_BASE\<close> are. Reading past the last element is \<open>Out_Of_Bounds\<close>. Bit indices are
  natural numbers: the lengths in use are far below \<open>2^28\<close> bytes, so the 32-bit index
  arithmetic of the code does not wrap.
\<close>

record bitmap =
  btmp_bytes_len :: nat
  bits :: "u8 list"

definition BITMAP_MASK :: u8 where
  "BITMAP_MASK = 1"

definition bitmap_init :: "bitmap \<Rightarrow> bitmap res" where
  "bitmap_init b = (if btmp_bytes_len b \<le> length (bits b)
     then Inr (b\<lparr>bits := replicate (btmp_bytes_len b) 0 @ drop (btmp_bytes_len b) (bits b)\<rparr>)
     else Inl Out_Of_Bounds)"

definition bitmap_scan_test :: "bitmap \<Rightarrow> nat \<Rightarrow> bool res" where
  "bitmap_scan_test b bit_idx =
     (let byte_idx = bit_idx div 8; bit_odd = bit_idx mod 8 in
      bindR (rd (bits b) byte_idx) (\<lambda>v. Inr (v AND push_bit bit_odd BITMAP_MASK \<noteq> 0)))"

text \<open>The first loop of \<^verbatim>\<open>bitmap_scan\<close>. The byte is read before the index is compared.\<close>

function scan_bytes :: "bitmap \<Rightarrow> nat \<Rightarrow> nat res" where
  "scan_bytes b idx_byte = bindR (rd (bits b) idx_byte) (\<lambda>v.
     if v = 0xff \<and> idx_byte < btmp_bytes_len b then scan_bytes b (idx_byte + 1)
     else Inr idx_byte)"
  by pat_completeness auto
termination
  by (relation "measure (\<lambda>(b, i). btmp_bytes_len b - i)") auto

text \<open>
  The second loop: the first clear bit of a byte. The cast of the shifted mask to \<^verbatim>\<open>uint8_t\<close>
  makes it 0 from bit 8 on, which ends the loop.
\<close>

lemma mask_and_iff: "push_bit k BITMAP_MASK AND v \<noteq> 0 \<longleftrightarrow> bit v k"
  by (simp add: BITMAP_MASK_def bit_iff_and_push_bit_not_eq_0 and.commute)

function scan_bits :: "u8 \<Rightarrow> nat \<Rightarrow> nat" where
  "scan_bits v idx_bit =
     (if push_bit idx_bit BITMAP_MASK AND v \<noteq> 0 then scan_bits v (idx_bit + 1) else idx_bit)"
  by pat_completeness auto
termination
  by (relation "measure (\<lambda>(v, k). 8 - k)")
    (auto simp: mask_and_iff dest: bit_imp_le_length)

text \<open>
  The third loop: \<open>bit_left\<close> rounds, each testing \<open>next_bit\<close>, counting the clear bits in a row.
\<close>

fun scan_run :: "bitmap \<Rightarrow> nat \<Rightarrow> nat \<Rightarrow> nat \<Rightarrow> nat \<Rightarrow> int res" where
  "scan_run b cnt 0 next_bit count = Inr (-1)"
| "scan_run b cnt (Suc bit_left) next_bit count =
     bindR (bitmap_scan_test b next_bit) (\<lambda>t.
       let count = (if \<not> t then count + 1 else 0) in
       if count = cnt then Inr (int next_bit - int cnt + 1)
       else scan_run b cnt bit_left (next_bit + 1) count)"

definition bitmap_scan :: "bitmap \<Rightarrow> nat \<Rightarrow> int res" where
  "bitmap_scan b cnt =
     bindR (scan_bytes b 0) (\<lambda>idx_byte.
     bindR (ASSERT (idx_byte < btmp_bytes_len b)) (\<lambda>_.
     if idx_byte = btmp_bytes_len b then Inr (-1)
     else bindR (rd (bits b) idx_byte) (\<lambda>v.
       let bit_idx_start = idx_byte * 8 + scan_bits v 0 in
       if cnt = 1 then Inr (int bit_idx_start)
       else scan_run b cnt (btmp_bytes_len b * 8 - bit_idx_start) (bit_idx_start + 1) 1)))"

definition bitmap_set :: "bitmap \<Rightarrow> nat \<Rightarrow> int \<Rightarrow> bitmap res" where
  "bitmap_set b bit_idx v =
     bindR (ASSERT (v = 0 \<or> v = 1)) (\<lambda>_.
     let byte_idx = bit_idx div 8; bit_odd = bit_idx mod 8 in
     bindR (rd (bits b) byte_idx) (\<lambda>old.
     bindR (wr (bits b) byte_idx
       (if v \<noteq> 0 then old OR push_bit bit_odd BITMAP_MASK
        else old AND NOT (push_bit bit_odd BITMAP_MASK))) (\<lambda>bs.
     Inr (b\<lparr>bits := bs\<rparr>))))"

declare scan_bytes.simps [simp del] scan_bits.simps [simp del]

subsection \<open>What a bitmap represents\<close>

text \<open>Bit \<open>i\<close> of the map, and a run of clear (free) bits.\<close>

definition bitmap_bit :: "bitmap \<Rightarrow> nat \<Rightarrow> bool" where
  "bitmap_bit b i = bit (bits b ! (i div 8)) (i mod 8)"

definition free_run :: "bitmap \<Rightarrow> nat \<Rightarrow> nat \<Rightarrow> bool" where
  "free_run b s cnt \<longleftrightarrow> (\<forall>j. s \<le> j \<and> j < s + cnt \<longrightarrow> \<not> bitmap_bit b j)"

definition wf_bitmap :: "bitmap \<Rightarrow> bool" where
  "wf_bitmap b \<longleftrightarrow> btmp_bytes_len b \<le> length (bits b)"

lemma wf_readable: "wf_bitmap b \<Longrightarrow> i < 8 * btmp_bytes_len b \<Longrightarrow> i div 8 < length (bits b)"
  by (auto simp: wf_bitmap_def)

lemma bitmap_scan_test_eq:
  "i div 8 < length (bits b) \<Longrightarrow> bitmap_scan_test b i = Inr (bitmap_bit b i)"
  by (simp add: bitmap_scan_test_def bitmap_bit_def mask_and_iff and.commute [of _ "push_bit _ _"])

lemma bitmap_scan_test_out:
  "length (bits b) \<le> i div 8 \<Longrightarrow> bitmap_scan_test b i = Inl Out_Of_Bounds"
  by (simp add: bitmap_scan_test_def)

subsection \<open>Setting and clearing\<close>

lemma bit_set_mask:
  "k < 8 \<Longrightarrow> bit (v OR push_bit m BITMAP_MASK) k \<longleftrightarrow> bit v k \<or> k = m"
  by (auto simp: BITMAP_MASK_def bit_simps)

lemma bit_clear_mask:
  "k < 8 \<Longrightarrow> bit (v AND NOT (push_bit m BITMAP_MASK)) k \<longleftrightarrow> bit v k \<and> k \<noteq> m"
  by (auto simp: BITMAP_MASK_def bit_simps)

lemma bitmap_set_Inr:
  assumes "i div 8 < length (bits b)" and "v = 0 \<or> v = 1"
  obtains b' where "bitmap_set b i v = Inr b'"
    and "btmp_bytes_len b' = btmp_bytes_len b" and "length (bits b') = length (bits b)"
    and "\<And>j. bitmap_bit b' j = (if j = i then v = 1 else bitmap_bit b j)"
proof
  define w where "w = (if v \<noteq> 0 then bits b ! (i div 8) OR push_bit (i mod 8) BITMAP_MASK
    else bits b ! (i div 8) AND NOT (push_bit (i mod 8) BITMAP_MASK))"
  define b' where "b' = b\<lparr>bits := (bits b)[i div 8 := w]\<rparr>"
  show "bitmap_set b i v = Inr b'"
    using assms by (auto simp: bitmap_set_def w_def b'_def Let_def)
  show "btmp_bytes_len b' = btmp_bytes_len b" and "length (bits b') = length (bits b)"
    by (simp_all add: b'_def)
  have w: "bit w k = (if k = i mod 8 then v = 1 else bit (bits b ! (i div 8)) k)" if "k < 8" for k
    using that assms(2) by (auto simp: w_def bit_set_mask bit_clear_mask)
  show "bitmap_bit b' j = (if j = i then v = 1 else bitmap_bit b j)" for j
    using assms(1) w [of "j mod 8"] div_mod_8_inj [of j i]
    by (cases "j div 8 = i div 8") (auto simp: bitmap_bit_def b'_def)
qed

lemma bitmap_set_out:
  "length (bits b) \<le> i div 8 \<Longrightarrow> v = 0 \<or> v = 1 \<Longrightarrow> bitmap_set b i v = Inl Out_Of_Bounds"
  by (auto simp: bitmap_set_def Let_def)

subsection \<open>The three loops of the scan\<close>

lemma u8_full_iff: "v = (0xff :: u8) \<longleftrightarrow> (\<forall>k<8. bit v k)"
proof
  assume "v = 0xff"
  then have "v = mask 8"
    by (simp add: mask_eq_exp_minus_1)
  then show "\<forall>k<8. bit v k"
    by (simp add: bit_simps)
next
  assume "\<forall>k<8. bit v k"
  then have "v = mask 8"
    by (intro bit_word_eqI) (simp add: bit_simps)
  then show "v = 0xff"
    by (simp add: mask_eq_exp_minus_1)
qed

lemma scan_bits_spec:
  "k \<le> scan_bits v k \<and> \<not> bit v (scan_bits v k) \<and> (\<forall>j. k \<le> j \<and> j < scan_bits v k \<longrightarrow> bit v j)"
proof (induction v k rule: scan_bits.induct)
  case (1 v k)
  show ?case
  proof (cases "bit v k")
    case True
    with 1 show ?thesis
      by (auto simp: scan_bits.simps [of v k] mask_and_iff)
        (metis Suc_eq_plus1 le_SucE Suc_leI nat_less_le)
  next
    case False
    then show ?thesis
      by (auto simp: scan_bits.simps [of v k] mask_and_iff)
  qed
qed

lemma scan_bits_less_8:
  assumes "v \<noteq> 0xff"
  shows "scan_bits v 0 < 8"
proof (rule ccontr)
  assume "\<not> scan_bits v 0 < 8"
  then have "\<forall>k<8. bit v k"
    using scan_bits_spec [of 0 v] by auto
  with assms show False
    by (simp add: u8_full_iff)
qed

lemma scan_bytes_found:
  assumes "wf_bitmap b" and "i \<le> m" and "m < btmp_bytes_len b" and "bits b ! m \<noteq> 0xff"
    and "\<And>j. i \<le> j \<Longrightarrow> j < m \<Longrightarrow> bits b ! j = 0xff"
  shows "scan_bytes b i = Inr m"
  using assms(2-)
proof (induction "m - i" arbitrary: i)
  case 0
  with assms(1) show ?case
    by (simp add: scan_bytes.simps [of b i] wf_bitmap_def)
next
  case (Suc n)
  with assms(1) have "scan_bytes b (i + 1) = Inr m"
    by auto
  moreover have "bits b ! i = 0xff"
    using Suc by auto
  ultimately show ?case
    using Suc assms(1) by (simp add: scan_bytes.simps [of b i] wf_bitmap_def)
qed

lemma scan_bytes_full:
  assumes "wf_bitmap b" and "i \<le> btmp_bytes_len b"
    and "\<And>j. i \<le> j \<Longrightarrow> j < btmp_bytes_len b \<Longrightarrow> bits b ! j = 0xff"
  shows "scan_bytes b i =
    (if btmp_bytes_len b < length (bits b) then Inr (btmp_bytes_len b) else Inl Out_Of_Bounds)"
  using assms(2-)
proof (induction "btmp_bytes_len b - i" arbitrary: i)
  case 0
  then show ?case
    by (auto simp: scan_bytes.simps [of b i])
next
  case (Suc n)
  then have "i < btmp_bytes_len b"
    by simp
  with Suc assms(1) show ?case
    by (simp add: scan_bytes.simps [of b i] wf_bitmap_def)
qed

text \<open>
  \<open>ends_run b cnt e\<close>: the \<open>cnt\<close> bits up to and including bit \<open>e\<close> are free. \<open>run_inv\<close> is the
  invariant of the third loop: the \<open>count\<close> bits before \<open>next\<close> are free, and the bit before them,
  if there is one, is taken.
\<close>

definition ends_run :: "bitmap \<Rightarrow> nat \<Rightarrow> nat \<Rightarrow> bool" where
  "ends_run b cnt e \<longleftrightarrow> cnt \<le> e + 1 \<and> free_run b (e + 1 - cnt) cnt"

definition run_inv :: "bitmap \<Rightarrow> nat \<Rightarrow> nat \<Rightarrow> nat \<Rightarrow> bool" where
  "run_inv b cnt nxt count \<longleftrightarrow> count \<le> nxt \<and> count < cnt \<and> free_run b (nxt - count) count \<and>
     (count < nxt \<longrightarrow> bitmap_bit b (nxt - count - 1))"

lemma run_inv_free:
  assumes "run_inv b cnt nxt count" and "\<not> bitmap_bit b nxt"
  shows "ends_run b cnt nxt \<longleftrightarrow> count + 1 = cnt"
    and "count + 1 \<noteq> cnt \<Longrightarrow> run_inv b cnt (nxt + 1) (count + 1)"
proof -
  have fr: "free_run b (nxt - count) (count + 1)"
    using assms by (auto simp: run_inv_def free_run_def nat_less_le)
  show "ends_run b cnt nxt \<longleftrightarrow> count + 1 = cnt"
  proof
    assume e: "ends_run b cnt nxt"
    show "count + 1 = cnt"
    proof (rule ccontr)
      assume "count + 1 \<noteq> cnt"
      then have "count + 1 < cnt" and "count < nxt"
        using assms(1) e by (auto simp: run_inv_def ends_run_def)
      moreover have "\<not> bitmap_bit b j" if "Suc nxt - cnt \<le> j" and "j \<le> nxt" for j
        using e that by (auto simp: ends_run_def free_run_def)
      ultimately have "\<not> bitmap_bit b (nxt - count - 1)"
        by simp
      with assms(1) \<open>count < nxt\<close> show False
        by (simp add: run_inv_def)
    qed
  next
    assume "count + 1 = cnt"
    with fr assms(1) show "ends_run b cnt nxt"
      by (auto simp: ends_run_def run_inv_def)
  qed
  show "run_inv b cnt (nxt + 1) (count + 1)" if "count + 1 \<noteq> cnt"
    using that fr assms(1) by (auto simp: run_inv_def)
qed

lemma run_inv_taken:
  assumes "run_inv b cnt nxt count" and "bitmap_bit b nxt"
  shows "\<not> ends_run b cnt nxt" and "run_inv b cnt (nxt + 1) 0"
  using assms by (auto simp: run_inv_def ends_run_def free_run_def)

lemma scan_run_step:
  assumes inv: "run_inv b cnt nxt count" and rdb: "nxt div 8 < length (bits b)"
  obtains (stop) "ends_run b cnt nxt"
      "scan_run b cnt (Suc left) nxt count = Inr (int nxt - int cnt + 1)"
    | (go) count' where "\<not> ends_run b cnt nxt" "run_inv b cnt (nxt + 1) count'"
      "scan_run b cnt (Suc left) nxt count = scan_run b cnt left (nxt + 1) count'"
proof (cases "bitmap_bit b nxt")
  case True
  then have "scan_run b cnt (Suc left) nxt count = scan_run b cnt left (nxt + 1) 0"
    using inv rdb by (auto simp: bitmap_scan_test_eq run_inv_def)
  with True inv go run_inv_taken show thesis
    by blast
next
  case False
  show thesis
  proof (cases "count + 1 = cnt")
    case True
    then show thesis
      using False inv rdb run_inv_free(1) [OF inv False]
      by (intro stop) (auto simp: bitmap_scan_test_eq)
  next
    case no: False
    then have "scan_run b cnt (Suc left) nxt count = scan_run b cnt left (nxt + 1) (count + 1)"
      using False rdb by (auto simp: bitmap_scan_test_eq)
    with no go run_inv_free [OF inv False] show thesis
      by blast
  qed
qed

lemma scan_run_found:
  assumes "run_inv b cnt nxt count" and "nxt \<le> e" and "e < nxt + left"
    and "e div 8 < length (bits b)" and "ends_run b cnt e"
    and "\<And>e'. nxt \<le> e' \<Longrightarrow> e' < e \<Longrightarrow> \<not> ends_run b cnt e'"
  shows "scan_run b cnt left nxt count = Inr (int e - int cnt + 1)"
  using assms(1-3,6)
proof (induction left arbitrary: nxt count)
  case 0
  then show ?case by simp
next
  case (Suc left)
  have rdb: "nxt div 8 < length (bits b)"
    using Suc.prems(2) assms(4) by (meson div_le_mono le_less_trans)
  show ?case
    using Suc.prems(1) rdb
  proof (cases rule: scan_run_step [where left = left])
    case stop
    then have "nxt = e"
      using Suc.prems by (meson le_neq_implies_less le_refl)
    with stop show ?thesis by simp
  next
    case (go count')
    then have "nxt \<noteq> e"
      using assms(5) by blast
    with go Suc show ?thesis by simp
  qed
qed

lemma scan_run_none:
  assumes "run_inv b cnt nxt count"
    and "\<And>e. nxt \<le> e \<Longrightarrow> e < nxt + left \<Longrightarrow> e div 8 < length (bits b) \<and> \<not> ends_run b cnt e"
  shows "scan_run b cnt left nxt count = Inr (-1)"
  using assms
proof (induction left arbitrary: nxt count)
  case 0
  then show ?case by simp
next
  case (Suc left)
  have rdb: "nxt div 8 < length (bits b)"
    using Suc.prems(2) by simp
  show ?case
    using Suc.prems(1) rdb
  proof (cases rule: scan_run_step [where left = left])
    case stop
    with Suc.prems(2) show ?thesis by simp
  next
    case (go count')
    with Suc show ?thesis by simp
  qed
qed

lemma scan_run_overrun:
  assumes "run_inv b cnt nxt count" and "nxt \<le> m" and "m < nxt + left"
    and "length (bits b) \<le> m div 8"
    and "\<And>e. nxt \<le> e \<Longrightarrow> e < m \<Longrightarrow> e div 8 < length (bits b) \<and> \<not> ends_run b cnt e"
  shows "scan_run b cnt left nxt count = Inl Out_Of_Bounds"
  using assms
proof (induction left arbitrary: nxt count)
  case 0
  then show ?case by simp
next
  case (Suc left)
  show ?case
  proof (cases "nxt = m")
    case True
    with Suc.prems show ?thesis
      by (simp add: bitmap_scan_test_out)
  next
    case False
    with Suc.prems have rdb: "nxt div 8 < length (bits b)"
      by simp
    show ?thesis
      using Suc.prems(1) rdb
    proof (cases rule: scan_run_step [where left = left])
      case stop
      with Suc.prems False show ?thesis by simp
    next
      case (go count')
      with Suc False show ?thesis by simp
    qed
  qed
qed

subsection \<open>The scan as a whole\<close>

text \<open>The first free bit, found by the first two loops.\<close>

lemma byte_full_iff:
  "bits b ! m = 0xff \<longleftrightarrow> (\<forall>j. j div 8 = m \<longrightarrow> bitmap_bit b j)"
proof
  show "bits b ! m = 0xff \<Longrightarrow> \<forall>j. j div 8 = m \<longrightarrow> bitmap_bit b j"
    by (auto simp: bitmap_bit_def u8_full_iff)
next
  assume *: "\<forall>j. j div 8 = m \<longrightarrow> bitmap_bit b j"
  have "bit (bits b ! m) k" if "k < 8" for k
    using * [rule_format, of "8 * m + k"] that by (simp add: bitmap_bit_def)
  then show "bits b ! m = 0xff"
    by (simp add: u8_full_iff)
qed

lemma scan_first_free:
  assumes wf: "wf_bitmap b" and f: "f < 8 * btmp_bytes_len b" "\<not> bitmap_bit b f"
    and first: "\<And>j. j < f \<Longrightarrow> bitmap_bit b j"
  shows "scan_bytes b 0 = Inr (f div 8)" and "scan_bits (bits b ! (f div 8)) 0 = f mod 8"
proof -
  have full: "bits b ! j = 0xff" if "j < f div 8" for j
    unfolding byte_full_iff using that first by (metis div_le_mono leI less_le_not_le)
  have free: "bits b ! (f div 8) \<noteq> 0xff"
    unfolding byte_full_iff using f(2) by blast
  show "scan_bytes b 0 = Inr (f div 8)"
    using wf f(1) full free by (intro scan_bytes_found) auto
  let ?k = "scan_bits (bits b ! (f div 8)) 0"
  have k8: "?k < 8"
    using free by (rule scan_bits_less_8)
  have k: "\<not> bit (bits b ! (f div 8)) ?k" "\<And>j. j < ?k \<Longrightarrow> bit (bits b ! (f div 8)) j"
    using scan_bits_spec [of 0 "bits b ! (f div 8)"] by auto
  have "\<not> ?k < f mod 8"
    using first [of "8 * (f div 8) + ?k"] k(1) k8
    by (auto simp: bitmap_bit_def less_mod_8_shift)
  moreover have "\<not> f mod 8 < ?k"
    using k(2) [of "f mod 8"] f(2) by (auto simp: bitmap_bit_def)
  ultimately show "?k = f mod 8"
    by simp
qed

lemma bitmap_scan_from_first_free:
  assumes "wf_bitmap b" and "f < 8 * btmp_bytes_len b" and "\<not> bitmap_bit b f"
    and "\<And>j. j < f \<Longrightarrow> bitmap_bit b j"
  shows "bitmap_scan b cnt = (if cnt = 1 then Inr (int f)
    else scan_run b cnt (8 * btmp_bytes_len b - f) (f + 1) 1)"
proof -
  have "f div 8 < btmp_bytes_len b" "f div 8 < length (bits b)"
    using assms(1,2) by (auto simp: wf_bitmap_def)
  then show ?thesis
    using scan_first_free [OF assms]
    by (auto simp: bitmap_scan_def Let_def mult.commute)
qed

lemma run_inv_first_free:
  assumes "\<not> bitmap_bit b f" and "\<And>j. j < f \<Longrightarrow> bitmap_bit b j" and "1 < cnt"
  shows "run_inv b cnt (f + 1) 1"
  using assms by (auto simp: run_inv_def free_run_def le_less_Suc_eq)

lemma least_free_bit:
  assumes "\<not> bitmap_bit b i"
  obtains f where "f \<le> i" and "\<not> bitmap_bit b f" and "\<And>j. j < f \<Longrightarrow> bitmap_bit b j"
proof
  let ?f = "LEAST f. \<not> bitmap_bit b f"
  show "?f \<le> i" using assms by (rule Least_le)
  show "\<not> bitmap_bit b ?f" using assms by (rule LeastI)
  show "\<And>j. j < ?f \<Longrightarrow> bitmap_bit b j" using not_less_Least by blast
qed

lemma bitmap_scan_full:
  assumes "wf_bitmap b" and "\<And>j. j < 8 * btmp_bytes_len b \<Longrightarrow> bitmap_bit b j"
  shows "bitmap_scan b cnt =
    Inl (if btmp_bytes_len b < length (bits b) then Panic else Out_Of_Bounds)"
proof -
  have "bits b ! m = 0xff" if "m < btmp_bytes_len b" for m
    unfolding byte_full_iff using that assms(2) by auto
  then have "scan_bytes b 0 =
    (if btmp_bytes_len b < length (bits b) then Inr (btmp_bytes_len b) else Inl Out_Of_Bounds)"
    using assms(1) by (intro scan_bytes_full) auto
  then show ?thesis
    by (simp add: bitmap_scan_def ASSERT_def)
qed

lemma scan_first_fit:
  assumes "wf_bitmap b" and "0 < cnt"
    and "free_run b s cnt" and "s + cnt \<le> 8 * btmp_bytes_len b"
    and "\<And>s'. s' < s \<Longrightarrow> \<not> free_run b s' cnt"
  shows "bitmap_scan b cnt = Inr (int s)"
proof -
  have "\<not> bitmap_bit b s"
    using assms(2,3) by (simp add: free_run_def)
  then obtain f where f: "f \<le> s" "\<not> bitmap_bit b f" "\<And>j. j < f \<Longrightarrow> bitmap_bit b j"
    using least_free_bit by blast
  have scan: "bitmap_scan b cnt = (if cnt = 1 then Inr (int f)
    else scan_run b cnt (8 * btmp_bytes_len b - f) (f + 1) 1)"
    using assms(1,2,4) f by (intro bitmap_scan_from_first_free) auto
  show ?thesis
  proof (cases "cnt = 1")
    case True
    then have "free_run b f cnt"
      using f(2) by (auto simp: free_run_def le_less_Suc_eq)
    with assms(5) f(1) have "f = s"
      by (meson le_neq_implies_less)
    with scan True show ?thesis by simp
  next
    case False
    let ?e = "s + cnt - 1"
    have no: "\<not> ends_run b cnt e'" if "e' < ?e" for e'
      using assms(5) [of "e' + 1 - cnt"] that by (auto simp: ends_run_def)
    have "scan_run b cnt (8 * btmp_bytes_len b - f) (f + 1) 1 = Inr (int ?e - int cnt + 1)"
      using False assms f no
      by (intro scan_run_found run_inv_first_free wf_readable) (auto simp: ends_run_def)
    with scan False assms(2) show ?thesis
      by (simp add: of_nat_diff)
  qed
qed

text \<open>Taking one bit: the first clear one is found and set.\<close>

lemma scan_one:
  assumes "wf_bitmap b" "i < 8 * btmp_bytes_len b" "\<not> bitmap_bit b i"
  obtains f b' where "bitmap_scan b 1 = Inr (int f)" "f \<le> i" "\<not> bitmap_bit b f" "\<And>j. j < f \<Longrightarrow> bitmap_bit b j"
    "bitmap_set b f 1 = Inr b'" "btmp_bytes_len b' = btmp_bytes_len b" "length (bits b') = length (bits b)"
    "\<And>j. bitmap_bit b' j = (j = f \<or> bitmap_bit b j)"
proof -
  obtain f where f: "f \<le> i" "\<not> bitmap_bit b f" "\<And>j. j < f \<Longrightarrow> bitmap_bit b j"
    using least_free_bit [OF assms(3)] by blast
  have "f < 8 * btmp_bytes_len b"
    using f(1) assms(2) by simp
  moreover from this have "bitmap_scan b 1 = Inr (int f)"
    using bitmap_scan_from_first_free [OF assms(1) _ f(2,3), where cnt = 1] by simp
  moreover obtain b' where "bitmap_set b f 1 = Inr b'" "btmp_bytes_len b' = btmp_bytes_len b"
    "length (bits b') = length (bits b)" "\<And>j. bitmap_bit b' j = (if j = f then (1::int) = 1 else bitmap_bit b j)"
    using bitmap_set_Inr [of f b 1] wf_readable [OF assms(1) \<open>f < _\<close>] by blast
  ultimately show ?thesis
    using f by (intro that [of f b']) auto
qed

subsection \<open>Properties\<close>

text \<open>C28: \<^verbatim>\<open>bitmap_set\<close> on a readable index returns, sets exactly the addressed bit to the given
  value, and leaves the answer of \<^verbatim>\<open>bitmap_scan_test\<close> for every other index (out-of-range ones
  included), the length and the extent of the map unchanged.\<close>

theorem bitmap_set_then_test:
  assumes "i div 8 < length (bits b)" and "v = 0 \<or> v = 1"
  shows "\<exists>b'. bitmap_set b i v = Inr b' \<and> btmp_bytes_len b' = btmp_bytes_len b \<and>
    length (bits b') = length (bits b) \<and>
    (\<forall>j. bitmap_scan_test b' j = (if j = i then Inr (v = 1) else bitmap_scan_test b j))"
proof -
  obtain b' where b': "bitmap_set b i v = Inr b'" "btmp_bytes_len b' = btmp_bytes_len b"
    "length (bits b') = length (bits b)"
    "\<And>j. bitmap_bit b' j = (if j = i then v = 1 else bitmap_bit b j)"
    using bitmap_set_Inr [OF assms] by metis
  have "bitmap_scan_test b' j = (if j = i then Inr (v = 1) else bitmap_scan_test b j)" for j
    using b' assms(1)
    by (cases "j div 8 < length (bits b)")
      (auto simp: bitmap_scan_test_eq bitmap_scan_test_out)
  with b' show ?thesis by blast
qed

theorem bitmap_set_then_test_witness:
  "\<exists>b'. bitmap_set \<lparr>btmp_bytes_len = 2, bits = [0xff, 0x01]\<rparr> 11 1 = Inr b' \<and>
     bitmap_scan_test b' 11 = Inr True \<and> bitmap_scan_test b' 12 = Inr False"
  using bitmap_set_then_test [of 11 "\<lparr>btmp_bytes_len = 2, bits = [0xff, 0x01]\<rparr>" 1]
  by (auto simp: bitmap_scan_test_eq bitmap_bit_def bit_simps)

text \<open>C27: \<^verbatim>\<open>bitmap_scan\<close> is first fit: when some run of \<open>cnt\<close> clear bits lies inside the map, it returns
  the start of the leftmost such run.\<close>

theorem bitmap_scan_first_fit:
  assumes "wf_bitmap b" and "0 < cnt"
    and "free_run b s cnt" and "s + cnt \<le> 8 * btmp_bytes_len b"
    and "\<And>s'. s' < s \<Longrightarrow> \<not> free_run b s' cnt"
  shows "bitmap_scan b cnt = Inr (int s)"
  using assms by (rule scan_first_fit)

theorem bitmap_scan_first_fit_witness:
  "bitmap_scan \<lparr>btmp_bytes_len = 2, bits = [0xf5, 0x1c]\<rparr> 2 = Inr 8"
proof -
  let ?b = "\<lparr>btmp_bytes_len = 2, bits = [0xf5::u8, 0x1c]\<rparr>"
  have bits: "bitmap_bit ?b 0" "bitmap_bit ?b 2" "bitmap_bit ?b 4" "bitmap_bit ?b 5"
    "bitmap_bit ?b 6" "bitmap_bit ?b 7" "\<not> bitmap_bit ?b 8" "\<not> bitmap_bit ?b 9"
    by (simp_all add: bitmap_bit_def bit_simps)
  have "free_run ?b 8 2"
    using bits(7,8) by (auto simp: free_run_def numeral_eq_Suc le_less_Suc_eq less_Suc_eq)
  moreover have "\<not> free_run ?b s' 2" if "s' < 8" for s'
  proof -
    have "s' \<in> {0, 1, 2, 3, 4, 5, 6, 7}" using that by auto
    moreover have "\<not> free_run ?b s' 2" if "bitmap_bit ?b s' \<or> bitmap_bit ?b (s' + 1)"
      using that by (auto simp: free_run_def intro: exI [of _ "Suc s'"])
    ultimately show ?thesis using bits by (auto simp: numeral_2_eq_2 [symmetric])
  qed
  ultimately show ?thesis
    using bitmap_scan_first_fit [of ?b 2 8] by (simp add: wf_bitmap_def)
qed

text \<open>C32: On a map with no clear bit \<^verbatim>\<open>bitmap_scan\<close> never reports failure with -1, contrary to its
  description: the loop reads the byte after the map, and then either that read is outside the
  object or the assertion on the byte index fails. Every allocation from an exhausted pool
  therefore stops the kernel.\<close>

theorem bitmap_scan_full_never_minus_one:
  assumes "wf_bitmap b" and "\<And>j. j < 8 * btmp_bytes_len b \<Longrightarrow> bitmap_bit b j"
  shows "bitmap_scan b cnt =
    Inl (if btmp_bytes_len b < length (bits b) then Panic else Out_Of_Bounds)"
  using assms by (rule bitmap_scan_full)

theorem bitmap_scan_full_never_minus_one_witness:
  "bitmap_scan \<lparr>btmp_bytes_len = 1, bits = [0xff, 0]\<rparr> 1 = Inl Panic"
proof -
  have "bitmap_bit \<lparr>btmp_bytes_len = 1, bits = [0xff, 0]\<rparr> j" if "j < 8" for j
  proof -
    have "j \<in> {0, 1, 2, 3, 4, 5, 6, 7}" using that by auto
    then show ?thesis by (auto simp: bitmap_bit_def bit_simps)
  qed
  then show ?thesis
    using bitmap_scan_full_never_minus_one [of "\<lparr>btmp_bytes_len = 1, bits = [0xff, 0]\<rparr>" 1]
    by (simp add: wf_bitmap_def)
qed

text \<open>C33: \<^verbatim>\<open>bitmap_scan\<close> can grant a run that leaves the map: when the last \<open>cnt - 1\<close> bits of the map and
  the first bit after it are clear and no run of \<open>cnt\<close> bits lies inside, the returned run ends
  one bit past the last valid index.\<close>

theorem bitmap_scan_overruns_map:
  assumes "btmp_bytes_len b < length (bits b)" and "1 < cnt" and "cnt \<le> 8 * btmp_bytes_len b"
    and "free_run b (8 * btmp_bytes_len b + 1 - cnt) cnt"
    and "\<And>s. s + cnt \<le> 8 * btmp_bytes_len b \<Longrightarrow> \<not> free_run b s cnt"
  shows "\<exists>s. bitmap_scan b cnt = Inr (int s) \<and> s + cnt = 8 * btmp_bytes_len b + 1"
proof -
  let ?m = "8 * btmp_bytes_len b" let ?s = "8 * btmp_bytes_len b + 1 - cnt"
  have wf: "wf_bitmap b"
    using assms(1) by (simp add: wf_bitmap_def)
  have "\<not> bitmap_bit b ?s"
    using assms(2,4) by (simp add: free_run_def)
  then obtain f where f: "f \<le> ?s" "\<not> bitmap_bit b f" "\<And>j. j < f \<Longrightarrow> bitmap_bit b j"
    using least_free_bit by blast
  have scan: "bitmap_scan b cnt = scan_run b cnt (?m - f) (f + 1) 1"
    using assms(2,3) f wf by (subst bitmap_scan_from_first_free [of _ f]) auto
  have no: "\<not> ends_run b cnt e'" if "e' < ?m" for e'
    using assms(5) [of "e' + 1 - cnt"] that by (auto simp: ends_run_def)
  have "scan_run b cnt (?m - f) (f + 1) 1 = Inr (int ?m - int cnt + 1)"
    using assms f no
    by (intro scan_run_found run_inv_first_free) (auto simp: ends_run_def)
  with scan assms(3) show ?thesis
    by (intro exI [of _ ?s]) auto
qed

theorem bitmap_scan_overruns_map_witness:
  "\<exists>s. bitmap_scan \<lparr>btmp_bytes_len = 1, bits = [0x7f, 0x00]\<rparr> 2 = Inr (int s) \<and> s + 2 = 9"
proof -
  let ?b = "\<lparr>btmp_bytes_len = 1, bits = [0x7f::u8, 0x00]\<rparr>"
  have bits: "bitmap_bit ?b 0" "bitmap_bit ?b 1" "bitmap_bit ?b 2" "bitmap_bit ?b 3"
    "bitmap_bit ?b 4" "bitmap_bit ?b 5" "bitmap_bit ?b 6" "\<not> bitmap_bit ?b 7" "\<not> bitmap_bit ?b 8"
    by (simp_all add: bitmap_bit_def bit_simps)
  have "free_run ?b 7 2"
    using bits(8,9) by (auto simp: free_run_def numeral_eq_Suc le_less_Suc_eq less_Suc_eq)
  moreover have "\<not> free_run ?b s 2" if "s + 2 \<le> 8" for s
  proof -
    have "s \<in> {0, 1, 2, 3, 4, 5, 6}" using that by auto
    then have "bitmap_bit ?b s" using bits by auto
    then show ?thesis by (auto simp: free_run_def)
  qed
  ultimately show ?thesis
    using bitmap_scan_overruns_map [of ?b 2] by simp
qed

end
