(* ===== verification/Cpu.thy ===== *)
theory Cpu
  imports Prelude
begin

section \<open>Interrupt flag, descriptor tables, interrupt and timer chips\<close>

text \<open>
  The part of the machine the kernel programs directly: \<^verbatim>\<open>kernel/interrupt.c\<close> (the IF flag, the
  interrupt descriptor table, the handler table, the 8259A controllers), \<^verbatim>\<open>device/timer.c\<close> (the
  8253 counter) and \<^verbatim>\<open>userprog/tss.c\<close> (the task state segment and its GDT entries). Writes to I/O
  ports are recorded in \<open>port_log\<close> in program order, console output is left out. A handler is
  named by its address. \<open>iflag\<close> is bit 9 of eflags.
\<close>

subsection \<open>Data\<close>

datatype intr_status = INTR_OFF | INTR_ON

record gate_desc =
  func_offset_low_word :: u16
  selector :: u16
  dcount :: u8
  attribute :: u8
  func_offset_high_word :: u16

record gdt_desc =
  limit_low_word :: u16
  base_low_word :: u16
  base_mid_byte :: u8
  attr_low_byte :: u8
  limit_high_attr_high :: u8
  base_high_byte :: u8

record tss =
  tss_backlink :: u32
  tss_esp0 :: u32
  tss_ss0 :: u32
  tss_esp1 :: u32
  tss_ss1 :: u32
  tss_esp2 :: u32
  tss_ss2 :: u32
  tss_cr3 :: u32
  tss_eip :: u32
  tss_eflags :: u32
  tss_eax :: u32
  tss_ecx :: u32
  tss_edx :: u32
  tss_ebx :: u32
  tss_esp :: u32
  tss_ebp :: u32
  tss_esi :: u32
  tss_edi :: u32
  tss_es :: u32
  tss_cs :: u32
  tss_ss :: u32
  tss_ds :: u32
  tss_fs :: u32
  tss_gs :: u32
  tss_ldt :: u32
  tss_trace :: u32
  tss_io_base :: u32

record cpu =
  iflag :: bool
  port_log :: "(u16 \<times> u8) list"
  idt :: "gate_desc list"
  idt_table :: "addr list"
  intr_name :: "string list"
  idtr :: "64 word"
  gdt :: "gdt_desc list"
  gdtr :: "64 word"
  tr :: u16
  g_tss :: tss

subsection \<open>Constants of kernel/global.h\<close>

definition SELECTOR_K_CODE :: nat where
  "SELECTOR_K_CODE = 1 * 2 ^ 3 + 0 * 2 ^ 2 + 0"

definition SELECTOR_K_DATA :: nat where
  "SELECTOR_K_DATA = 2 * 2 ^ 3 + 0 * 2 ^ 2 + 0"

abbreviation SELECTOR_K_STACK :: nat where
  "SELECTOR_K_STACK \<equiv> SELECTOR_K_DATA"

definition SELECTOR_U_CODE :: nat where
  "SELECTOR_U_CODE = 5 * 2 ^ 3 + 0 * 2 ^ 2 + 3"

definition SELECTOR_U_DATA :: nat where
  "SELECTOR_U_DATA = 6 * 2 ^ 3 + 0 * 2 ^ 2 + 3"

definition SELECTOR_TSS :: nat where
  "SELECTOR_TSS = 4 * 2 ^ 3 + 0 * 2 ^ 2 + 0"

text \<open>Present bit, privilege level, segment/system bit and type of a descriptor's attribute byte.\<close>

definition desc_attr :: "nat \<Rightarrow> nat \<Rightarrow> nat \<Rightarrow> nat \<Rightarrow> u8" where
  "desc_attr p dpl s typ = of_nat (p * 2 ^ 7 + dpl * 2 ^ 5 + s * 2 ^ 4 + typ)"

definition GDT_ATTR_HIGH :: u8 where
  "GDT_ATTR_HIGH = of_nat (1 * 2 ^ 7 + 1 * 2 ^ 6 + 0 * 2 ^ 5 + 0 * 2 ^ 4)"

definition GDT_CODE_ATTR_LOW_DPL3 :: u8 where
  "GDT_CODE_ATTR_LOW_DPL3 = desc_attr 1 3 1 8"

definition GDT_DATA_ATTR_LOW_DPL3 :: u8 where
  "GDT_DATA_ATTR_LOW_DPL3 = desc_attr 1 3 1 2"

definition TSS_ATTR_HIGH :: u8 where
  "TSS_ATTR_HIGH = of_nat (1 * 2 ^ 7 + 0 * 2 ^ 6 + 0 * 2 ^ 5 + 0 * 2 ^ 4 + 0)"

definition TSS_ATTR_LOW :: u8 where
  "TSS_ATTR_LOW = desc_attr 1 0 0 9"

definition IDT_DESC_ATTR_DPL0 :: u8 where
  "IDT_DESC_ATTR_DPL0 = desc_attr 1 0 0 0xE"

definition IDT_DESC_ATTR_DPL3 :: u8 where
  "IDT_DESC_ATTR_DPL3 = desc_attr 1 3 0 0xE"

definition IDT_DESC_CNT :: nat where
  "IDT_DESC_CNT = 0x81"

subsection \<open>The interrupt flag\<close>

definition intr_get_status :: "'a cpu_scheme \<Rightarrow> intr_status" where
  "intr_get_status s = (if iflag s then INTR_ON else INTR_OFF)"

definition intr_enable :: "'a cpu_scheme \<Rightarrow> intr_status \<times> 'a cpu_scheme" where
  "intr_enable s = (if INTR_ON = intr_get_status s then (INTR_ON, s)
     else (INTR_OFF, s\<lparr>iflag := True\<rparr>))"

definition intr_disable :: "'a cpu_scheme \<Rightarrow> intr_status \<times> 'a cpu_scheme" where
  "intr_disable s = (if INTR_ON = intr_get_status s then (INTR_ON, s\<lparr>iflag := False\<rparr>)
     else (INTR_OFF, s))"

definition intr_set_status :: "intr_status \<Rightarrow> 'a cpu_scheme \<Rightarrow> intr_status \<times> 'a cpu_scheme" where
  "intr_set_status st s = (if st = INTR_ON then intr_enable s else intr_disable s)"

subsection \<open>I/O ports and the 8259A\<close>

definition outb :: "u16 \<Rightarrow> u8 \<Rightarrow> 'a cpu_scheme \<Rightarrow> 'a cpu_scheme" where
  "outb port data s = s\<lparr>port_log := port_log s @ [(port, data)]\<rparr>"

definition PIC_M_CTRL :: u16 where "PIC_M_CTRL = 0x20"
definition PIC_M_DATA :: u16 where "PIC_M_DATA = 0x21"
definition PIC_S_CTRL :: u16 where "PIC_S_CTRL = 0xa0"
definition PIC_S_DATA :: u16 where "PIC_S_DATA = 0xa1"

definition pic_init :: "'a cpu_scheme \<Rightarrow> 'a cpu_scheme" where
  "pic_init s = fold (\<lambda>(p, d). outb p d)
     [(PIC_M_CTRL, 0x11), (PIC_M_DATA, 0x20), (PIC_M_DATA, 0x04), (PIC_M_DATA, 0x01),
      (PIC_S_CTRL, 0x11), (PIC_S_DATA, 0x28), (PIC_S_DATA, 0x02), (PIC_S_DATA, 0x01),
      (PIC_M_DATA, 0xf8), (PIC_S_DATA, 0xbf)] s"

subsection \<open>The interrupt descriptor table\<close>

definition make_idt_desc :: "u8 \<Rightarrow> addr \<Rightarrow> gate_desc" where
  "make_idt_desc attr function_addr =
     \<lparr>func_offset_low_word = ucast (function_addr AND 0x0000FFFF),
      selector = of_nat SELECTOR_K_CODE,
      dcount = 0,
      attribute = attr,
      func_offset_high_word = ucast (drop_bit 16 (function_addr AND 0xFFFF0000))\<rparr>"

text \<open>
  The loop over the table. \<open>entries\<close> is what can be read from the symbol \<^verbatim>\<open>intr_entry_table\<close> of
  \<^verbatim>\<open>kernel/kernel.S\<close> on.
\<close>

fun idt_fill :: "addr list \<Rightarrow> nat \<Rightarrow> nat \<Rightarrow> gate_desc list \<Rightarrow> gate_desc list res" where
  "idt_fill entries 0 i t = Inr t"
| "idt_fill entries (Suc n) i t =
     bindR (rd entries i) (\<lambda>e.
     bindR (wr t i (make_idt_desc IDT_DESC_ATTR_DPL0 e)) (idt_fill entries n (i + 1)))"

definition idt_desc_init :: "addr list \<Rightarrow> addr \<Rightarrow> gate_desc list \<Rightarrow> gate_desc list res" where
  "idt_desc_init entries syscall_handler t =
     (let lastindex = IDT_DESC_CNT - 1 in
      bindR (idt_fill entries IDT_DESC_CNT 0 t) (\<lambda>t.
      wr t lastindex (make_idt_desc IDT_DESC_ATTR_DPL3 syscall_handler)))"

text \<open>
  The default handler: it returns for the two spurious interrupts, prints a message and spins
  with interrupts off for every other vector.
\<close>

definition general_intr_handler :: "u8 \<Rightarrow> unit res" where
  "general_intr_handler vec_nr =
     (if vec_nr = 0x27 \<or> vec_nr = 0x2f then Inr () else Inl Diverges)"

definition exception_names :: "(nat \<times> string) list" where
  "exception_names =
     [(0, ''#DE Divide Error''),
      (1, ''#DB Debug Exception''),
      (2, ''NMI Interrupt''),
      (3, ''#BP Breakpoint Exception''),
      (4, ''#OF Overflow Exception''),
      (5, ''#BR BOUND Range Exceeded Exception''),
      (6, ''#UD Invalid Opcode Exception''),
      (7, ''#NM Device Not Available Exception''),
      (8, ''#DF Double Fault Exception''),
      (9, ''Coprocessor Segment Overrun''),
      (10, ''#TS Invalid TSS Exception''),
      (11, ''#NP Segment Not Present''),
      (12, ''#SS Stack Fault Exception''),
      (13, ''#GP General Protection Exception''),
      (14, ''#PF Page-Fault Exception''),
      (16, ''#MF x87 FPU Floating-Point Error''),
      (17, ''#AC Alignment Check Exception''),
      (18, ''#MC Machine-Check Exception''),
      (19, ''#XF SIMD Floating-Point Exception'')]"

definition exception_init :: "addr \<Rightarrow> 'a cpu_scheme \<Rightarrow> 'a cpu_scheme" where
  "exception_init general_handler s = s\<lparr>
     idt_table := replicate IDT_DESC_CNT general_handler,
     intr_name := fold (\<lambda>(i, n) names. names[i := n]) exception_names
       (replicate IDT_DESC_CNT ''unknown'')\<rparr>"

definition register_handler :: "u8 \<Rightarrow> addr \<Rightarrow> 'a cpu_scheme \<Rightarrow> 'a cpu_scheme res" where
  "register_handler vector_no function_addr s =
     bindR (wr (idt_table s) (unat vector_no) function_addr) (\<lambda>t. Inr (s\<lparr>idt_table := t\<rparr>))"

text \<open>The 48-bit operand of \<^verbatim>\<open>lidt\<close> and \<^verbatim>\<open>lgdt\<close>: limit in the low 16 bits, base above.\<close>

definition table_operand :: "nat \<Rightarrow> addr \<Rightarrow> 64 word" where
  "table_operand limit base = of_nat limit OR push_bit 16 (ucast base)"

definition idt_init :: "addr list \<Rightarrow> addr \<Rightarrow> addr \<Rightarrow> addr \<Rightarrow> 'a cpu_scheme \<Rightarrow> 'a cpu_scheme res" where
  "idt_init entries syscall_handler general_handler idt_addr s =
     bindR (idt_desc_init entries syscall_handler (idt s)) (\<lambda>t.
     let s = s\<lparr>idt := t\<rparr>;
         s = exception_init general_handler s;
         s = pic_init s
     in Inr (s\<lparr>idtr := table_operand (8 * IDT_DESC_CNT - 1) idt_addr\<rparr>))"

subsection \<open>The 8253 timer\<close>

definition IRQ0_FREQUENCY :: nat where "IRQ0_FREQUENCY = 100"
definition INPUT_FREQUENCY :: nat where "INPUT_FREQUENCY = 1193180"
definition COUNTER0_VALUE :: nat where "COUNTER0_VALUE = INPUT_FREQUENCY div IRQ0_FREQUENCY"
definition CONTRER0_PORT :: u8 where "CONTRER0_PORT = 0x40"
definition PIT_CONTROL_PORT :: u16 where "PIT_CONTROL_PORT = 0x43"

text \<open>
  In the last line the cast binds tighter than the shift, as in the source: the value is cut to
  8 bits and then shifted right by 8.
\<close>

definition frequency_set :: "u8 \<Rightarrow> u8 \<Rightarrow> u8 \<Rightarrow> u8 \<Rightarrow> u16 \<Rightarrow> 'a cpu_scheme \<Rightarrow> 'a cpu_scheme" where
  "frequency_set counter_port counter_no rwl counter_mode counter_value s =
     (let s = outb PIT_CONTROL_PORT
            (push_bit 6 counter_no OR push_bit 4 rwl OR push_bit 1 counter_mode) s;
          s = outb (ucast counter_port) (ucast counter_value) s
      in outb (ucast counter_port) (drop_bit 8 (ucast counter_value :: u8)) s)"

definition timer_init :: "addr \<Rightarrow> 'a cpu_scheme \<Rightarrow> 'a cpu_scheme res" where
  "timer_init timer_handler s =
     register_handler 0x20 timer_handler
       (frequency_set CONTRER0_PORT 0 3 2 (of_nat COUNTER0_VALUE) s)"

subsection \<open>The task state segment and its descriptors\<close>

definition update_tss_esp :: "addr \<Rightarrow> 'a cpu_scheme \<Rightarrow> 'a cpu_scheme" where
  "update_tss_esp pthread s =
     s\<lparr>g_tss := (g_tss s)\<lparr>tss_esp0 := pthread + of_nat PG_SIZE\<rparr>\<rparr>"

definition make_gdt_desc :: "addr \<Rightarrow> u32 \<Rightarrow> u8 \<Rightarrow> u8 \<Rightarrow> gdt_desc" where
  "make_gdt_desc desc_base limit attr_low attr_high =
     \<lparr>limit_low_word = ucast (limit AND 0x0000ffff),
      base_low_word = ucast (desc_base AND 0x0000ffff),
      base_mid_byte = ucast (drop_bit 16 (desc_base AND 0x00ff0000)),
      attr_low_byte = attr_low,
      limit_high_attr_high =
        ucast (drop_bit 16 (limit AND 0x000f0000) + ucast attr_high :: u32),
      base_high_byte = ucast (drop_bit 24 desc_base)\<rparr>"

definition tss_size :: nat where
  "tss_size = 27 * 4"

definition tss_zero :: tss where
  "tss_zero = \<lparr>tss_backlink = 0, tss_esp0 = 0, tss_ss0 = 0, tss_esp1 = 0, tss_ss1 = 0,
     tss_esp2 = 0, tss_ss2 = 0, tss_cr3 = 0, tss_eip = 0, tss_eflags = 0, tss_eax = 0,
     tss_ecx = 0, tss_edx = 0, tss_ebx = 0, tss_esp = 0, tss_ebp = 0, tss_esi = 0, tss_edi = 0,
     tss_es = 0, tss_cs = 0, tss_ss = 0, tss_ds = 0, tss_fs = 0, tss_gs = 0, tss_ldt = 0,
     tss_trace = 0, tss_io_base = 0\<rparr>"

text \<open>
  The GDT starts at \<^verbatim>\<open>0xc0000900\<close>, its entries are 8 bytes: the three writes go to entries 4, 5, 6.
\<close>

definition GDT_BASE :: addr where "GDT_BASE = 0xc0000900"

definition gdt_write :: "addr \<Rightarrow> gdt_desc \<Rightarrow> gdt_desc list \<Rightarrow> gdt_desc list res" where
  "gdt_write p d g = wr g (unat (p - GDT_BASE) div 8) d"

definition tss_init :: "addr \<Rightarrow> 'a cpu_scheme \<Rightarrow> 'a cpu_scheme res" where
  "tss_init g_tss_addr s =
     (let s = s\<lparr>g_tss := tss_zero\<lparr>tss_ss0 := of_nat SELECTOR_K_STACK,
                                   tss_io_base := of_nat tss_size\<rparr>\<rparr> in
      bindR (gdt_write 0xc0000920
        (make_gdt_desc g_tss_addr (of_nat (tss_size - 1)) TSS_ATTR_LOW TSS_ATTR_HIGH) (gdt s)) (\<lambda>g.
      bindR (gdt_write 0xc0000928
        (make_gdt_desc 0 0xfffff GDT_CODE_ATTR_LOW_DPL3 GDT_ATTR_HIGH) g) (\<lambda>g.
      bindR (gdt_write 0xc0000930
        (make_gdt_desc 0 0xfffff GDT_DATA_ATTR_LOW_DPL3 GDT_ATTR_HIGH) g) (\<lambda>g.
      Inr (s\<lparr>gdt := g, gdtr := table_operand (8 * 7 - 1) GDT_BASE,
             tr := of_nat SELECTOR_TSS\<rparr>)))))"

subsection \<open>How the processor reads the tables\<close>

text \<open>Reference decoders: the fields of gates and segment descriptors as the processor combines them.\<close>

definition gate_offset :: "gate_desc \<Rightarrow> u32" where
  "gate_offset d = push_bit 16 (ucast (func_offset_high_word d)) OR ucast (func_offset_low_word d)"

definition attr_dpl :: "u8 \<Rightarrow> u8" where
  "attr_dpl a = drop_bit 5 a AND 3"

definition seg_base :: "gdt_desc \<Rightarrow> u32" where
  "seg_base d = push_bit 24 (ucast (base_high_byte d)) OR push_bit 16 (ucast (base_mid_byte d))
     OR ucast (base_low_word d)"

text \<open>The limit field counts bytes, or pages of 4 KiB when the granularity bit (G) is set.\<close>

definition limit_field :: "gdt_desc \<Rightarrow> u32" where
  "limit_field d = push_bit 16 (ucast (limit_high_attr_high d AND 0x0f)) OR ucast (limit_low_word d)"

definition seg_limit :: "gdt_desc \<Rightarrow> u32" where
  "seg_limit d = (if bit (limit_high_attr_high d) 7 then push_bit 12 (limit_field d) OR 0xfff else limit_field d)"

definition attr_type :: "u8 \<Rightarrow> u8" where
  "attr_type a = a AND 0x1f"

definition seg_flags :: "gdt_desc \<Rightarrow> u8" where
  "seg_flags d = limit_high_attr_high d AND 0xf0"

text \<open>The processor takes the offset of the I/O permission bitmap from bytes 102 and 103 of the task state segment, the
  upper half of the double word at offset 100; there is no bitmap when it is not below the limit of the segment.\<close>

definition io_map_base :: "tss \<Rightarrow> u16" where
  "io_map_base t = ucast (drop_bit 16 (tss_trace t))"

definition no_io_bitmap :: "tss \<Rightarrow> gdt_desc \<Rightarrow> bool" where
  "no_io_bitmap t d \<longleftrightarrow> seg_limit d \<le> ucast (io_map_base t)"

lemmas attr_defs = desc_attr_def GDT_ATTR_HIGH_def GDT_CODE_ATTR_LOW_DPL3_def
  GDT_DATA_ATTR_LOW_DPL3_def TSS_ATTR_HIGH_def TSS_ATTR_LOW_def IDT_DESC_ATTR_DPL0_def
  IDT_DESC_ATTR_DPL3_def

lemma intr_disable_off [simp]:
  "iflag (snd (intr_disable s)) = False"
  "fst (intr_disable s) = intr_get_status s"
  by (auto simp: intr_disable_def intr_get_status_def)

lemma intr_set_status_iflag [simp]:
  "iflag (snd (intr_set_status st s)) = (st = INTR_ON)"
  by (cases st) (auto simp: intr_set_status_def intr_enable_def intr_disable_def intr_get_status_def)

lemma intr_eqs:
  "intr_disable s = (if iflag s then INTR_ON else INTR_OFF, s\<lparr>iflag := False\<rparr>)"
  "intr_enable s = (if iflag s then INTR_ON else INTR_OFF, s\<lparr>iflag := True\<rparr>)"
  "snd (intr_set_status st s) = s\<lparr>iflag := (st = INTR_ON)\<rparr>"
  by (cases st; auto simp: intr_disable_def intr_enable_def intr_set_status_def
    intr_get_status_def)+

lemma make_idt_desc_offset [simp]: "gate_offset (make_idt_desc a f) = f"
proof (rule bit_word_eqI)
  fix n assume "n < LENGTH(32)"
  then show "bit (gate_offset (make_idt_desc a f)) n \<longleftrightarrow> bit f n"
    unfolding gate_offset_def make_idt_desc_def gate_desc.simps word_bits
    by (cases "16 \<le> n") auto
qed

lemma idt_fill_spec:
  assumes "i + n \<le> length t" and "i + n \<le> length entries"
  shows "\<exists>t'. idt_fill entries n i t = Inr t' \<and> length t' = length t \<and>
    (\<forall>j < length t. t' ! j = (if i \<le> j \<and> j < i + n
       then make_idt_desc IDT_DESC_ATTR_DPL0 (entries ! j) else t ! j))"
  using assms
proof (induction n arbitrary: i t)
  case 0
  then show ?case by auto
next
  case (Suc n)
  let ?t = "t[i := make_idt_desc IDT_DESC_ATTR_DPL0 (entries ! i)]"
  obtain t' where "idt_fill entries n (i + 1) ?t = Inr t'" "length t' = length ?t"
    "\<forall>j < length ?t. t' ! j = (if i + 1 \<le> j \<and> j < i + 1 + n
       then make_idt_desc IDT_DESC_ATTR_DPL0 (entries ! j) else ?t ! j)"
    using Suc.IH [of "i + 1" ?t] Suc.prems by auto
  with Suc.prems show ?case
    by (auto simp: nth_list_update)
qed

lemma idt_fill_short:
  assumes "i \<le> length entries" and "length entries < i + n" and "i + n \<le> length t"
  shows "idt_fill entries n i t = Inl Out_Of_Bounds"
  using assms
proof (induction n arbitrary: i t)
  case 0
  then show ?case by simp
next
  case (Suc n)
  then show ?case by (cases "i = length entries") auto
qed

lemma make_idt_desc_fields [simp]:
  "selector (make_idt_desc a f) = of_nat SELECTOR_K_CODE"
  "attribute (make_idt_desc a f) = a"
  by (simp_all add: make_idt_desc_def)

lemma idt_desc_init_spec:
  assumes "length t = IDT_DESC_CNT" and "IDT_DESC_CNT \<le> length entries"
  shows "idt_desc_init entries sysc t = Inr (map (\<lambda>v.
    if v = IDT_DESC_CNT - 1 then make_idt_desc IDT_DESC_ATTR_DPL3 sysc
    else make_idt_desc IDT_DESC_ATTR_DPL0 (entries ! v)) [0..<IDT_DESC_CNT])"
proof -
  obtain t' where "idt_fill entries IDT_DESC_CNT 0 t = Inr t'" "length t' = IDT_DESC_CNT"
    "\<forall>j < IDT_DESC_CNT. t' ! j = make_idt_desc IDT_DESC_ATTR_DPL0 (entries ! j)"
    using idt_fill_spec [of 0 IDT_DESC_CNT t entries] assms by auto
  moreover have "0 < IDT_DESC_CNT"
    by (simp add: IDT_DESC_CNT_def)
  ultimately show ?thesis
    by (auto simp: idt_desc_init_def Let_def intro!: nth_equalityI)
qed

lemma pic_init_keeps [simp]:
  "idt (pic_init s) = idt s" "iflag (pic_init s) = iflag s"
  "idt_table (pic_init s) = idt_table s"
  by (simp_all add: pic_init_def outb_def)

lemma seg_base_make [simp]: "seg_base (make_gdt_desc b l al ah) = b"
proof (rule bit_word_eqI)
  fix n assume "n < LENGTH(32)"
  then show "bit (seg_base (make_gdt_desc b l al ah)) n \<longleftrightarrow> bit b n"
    unfolding seg_base_def make_gdt_desc_def gdt_desc.simps word_bits
    by (cases "24 \<le> n"; cases "16 \<le> n") auto
qed

lemma low_nibble_clear:
  assumes "ah AND 0x0f = (0 :: u8)" and "n < 4"
  shows "\<not> bit ah n"
  using arg_cong [OF assms(1), of "\<lambda>w. bit w n"] assms(2) unfolding bit_and_iff bit_0f_8 by simp

lemma limit_high_or:
  fixes ah :: u8
  assumes "ah AND 0x0f = 0"
  shows "drop_bit 16 (l AND 0x000f0000) + ucast ah = drop_bit 16 (l AND 0x000f0000) OR (ucast ah :: u32)"
proof (rule disjunctive_add)
  fix n
  have "\<not> bit ah n" if "n < 4"
    using assms that by (rule low_nibble_clear)
  then show "\<not> bit (drop_bit 16 (l AND 0x000f0000)) n \<or> \<not> bit (ucast ah :: u32) n"
    unfolding word_bits by auto
qed

lemma limit_field_make:
  assumes "ah AND 0x0f = 0"
  shows "limit_field (make_gdt_desc b l al ah) = take_bit 20 l"
    and "seg_flags (make_gdt_desc b l al ah) = ah"
proof -
  have lo: "\<not> bit ah n" if "n < 4" for n
    using assms that by (rule low_nibble_clear)
  show "limit_field (make_gdt_desc b l al ah) = take_bit 20 l"
  proof (rule bit_word_eqI)
    fix n assume "n < LENGTH(32)"
    then show "bit (limit_field (make_gdt_desc b l al ah)) n \<longleftrightarrow> bit (take_bit 20 l) n"
      using lo [of "n - 16"]
      unfolding limit_field_def make_gdt_desc_def gdt_desc.simps limit_high_or [OF assms] word_bits
      by (cases "16 \<le> n") auto
  qed
  show "seg_flags (make_gdt_desc b l al ah) = ah"
  proof (rule bit_word_eqI)
    fix n assume "n < LENGTH(8)"
    then show "bit (seg_flags (make_gdt_desc b l al ah)) n \<longleftrightarrow> bit ah n"
      using lo [of n]
      unfolding seg_flags_def make_gdt_desc_def gdt_desc.simps limit_high_or [OF assms] word_bits
      by (cases "n < 4") auto
  qed
qed

lemma seg_limit_make:
  assumes "ah AND 0x0f = 0"
  shows "seg_limit (make_gdt_desc b l al ah) = (if bit ah 7 then push_bit 12 (take_bit 20 l) OR 0xfff else take_bit 20 l)"
proof -
  have "bit (limit_high_attr_high (make_gdt_desc b l al ah)) 7 = bit (seg_flags (make_gdt_desc b l al ah)) 7"
    by (simp add: seg_flags_def bit_simps)
  then show ?thesis
    by (simp add: seg_limit_def limit_field_make [OF assms])
qed

lemma make_gdt_desc_attr [simp]: "attr_low_byte (make_gdt_desc b l al ah) = al"
  by (simp add: make_gdt_desc_def)

lemma drop_bit_u8_8 [simp]: "drop_bit 8 (w :: u8) = 0"
  by (rule bit_word_eqI) (auto simp: bit_drop_bit_eq dest: bit_imp_le_length)

text \<open>A machine before initialisation.\<close>

definition cpu_reset :: cpu where
  "cpu_reset = \<lparr>iflag = False, port_log = [], idt = replicate IDT_DESC_CNT (make_idt_desc 0 0),
     idt_table = replicate IDT_DESC_CNT 0, intr_name = replicate IDT_DESC_CNT [], idtr = 0,
     gdt = replicate 7 (make_gdt_desc 0 0 0 0), gdtr = 0, tr = 0, g_tss = tss_zero\<rparr>"

subsection \<open>Properties\<close>

text \<open>C34: What \<^verbatim>\<open>idt_init\<close> makes of the entry table of \<^verbatim>\<open>kernel/kernel.S\<close>, which has 48 entries, when the 81 words
  behind it can be read as well (the loop reads 129). Vectors below \<open>0x30\<close> go to their assembly entry and are closed to
  user mode (DPL 0); vector \<open>0x80\<close> goes to the system-call entry and is open to user mode (DPL 3); the 80 vectors between
  go, closed to user mode, to whatever addresses the words behind the table are. Every gate is a present 32-bit interrupt gate into
  the kernel code segment, every vector starts with the general handler, and the table register covers
  the 129 gates.\<close>

theorem idt_init_gates:
  assumes "length (idt s) = IDT_DESC_CNT" and "length table = 0x30" and "IDT_DESC_CNT \<le> length (table @ behind)"
  shows "\<exists>s'. idt_init (table @ behind) sysc gen a s = Inr s' \<and> length (idt s') = IDT_DESC_CNT \<and>
    (\<forall>v < 0x30. gate_offset (idt s' ! v) = table ! v \<and> attr_dpl (attribute (idt s' ! v)) = 0) \<and>
    (\<forall>v. 0x30 \<le> v \<and> v < 0x80 \<longrightarrow>
       gate_offset (idt s' ! v) = behind ! (v - 0x30) \<and> attr_dpl (attribute (idt s' ! v)) = 0) \<and>
    gate_offset (idt s' ! 0x80) = sysc \<and> attr_dpl (attribute (idt s' ! 0x80)) = 3 \<and>
    (\<forall>g \<in> set (idt s'). selector g = of_nat SELECTOR_K_CODE \<and> bit (attribute g) 7 \<and> attr_type (attribute g) = 0xe) \<and>
    idt_table s' = replicate IDT_DESC_CNT gen \<and> iflag s' = iflag s \<and>
    idtr s' = 129 * 8 - 1 OR push_bit 16 (ucast a)"
  using idt_desc_init_spec [OF assms(1,3)] assms(2)
  by (simp add: idt_init_def Let_def exception_init_def table_operand_def)
    (auto simp: IDT_DESC_CNT_def attr_defs attr_dpl_def attr_type_def nth_append bit_simps simp del: upt_Suc)

theorem idt_init_gates_witness:
  "\<exists>s'. idt_init (map of_nat [0..<0x30] @ replicate 81 5) 7 9 0 cpu_reset = Inr s' \<and>
     gate_offset (idt s' ! 0x20) = 0x20 \<and> gate_offset (idt s' ! 0x30) = 5 \<and> gate_offset (idt s' ! 0x80) = 7"
  using idt_init_gates [of cpu_reset "map of_nat [0..<0x30]" "replicate 81 5" 7 9 0]
  by (auto simp: IDT_DESC_CNT_def cpu_reset_def simp del: upt_Suc)

text \<open>The entry table of \<^verbatim>\<open>kernel/kernel.S\<close> has 48 entries, but \<^verbatim>\<open>idt_desc_init\<close> reads one for each of
  the 129 vectors: with a table of fewer than 129 entries the initialisation reads past its end.\<close>

theorem idt_init_short_entry_table:
  assumes "length (idt s) = IDT_DESC_CNT" and "length entries < IDT_DESC_CNT"
  shows "idt_init entries sysc gen a s = Inl Out_Of_Bounds"
  using idt_fill_short [of 0 entries IDT_DESC_CNT "idt s"] assms
  by (simp add: idt_init_def idt_desc_init_def Let_def)

theorem idt_init_short_entry_table_witness:
  "idt_init (map of_nat [0..<0x30]) 7 9 0 cpu_reset = Inl Out_Of_Bounds"
  using idt_init_short_entry_table [of cpu_reset "map of_nat [0..<0x30]" 7 9 0]
  by (simp add: IDT_DESC_CNT_def cpu_reset_def del: upt_Suc)

text \<open>C35: \<^verbatim>\<open>tss_init\<close> fills GDT entries 4 to 6 so that the processor reads from them: for the task register's
  selector a present, free 32-bit task state segment (type 9) of privilege 0 at \<^verbatim>\<open>g_tss\<close>; for the user code selector a
  flat 4 GiB segment of privilege 3, present, 32-bit and execute-only code, and for the user data selector the same as
  writable data. The other entries stay, the table register covers the 7 entries, and the TSS gets the kernel stack
  segment. Since the granularity bit is set for the TSS as well, its limit is 108 pages and not 108 bytes, and the offset of
  the I/O bitmap, which the processor does not read from the field \<^verbatim>\<open>io_base\<close> but from the upper half of
  \<^verbatim>\<open>trace\<close>, is 0: the TSS does not say that there is no bitmap, and not even the value of \<^verbatim>\<open>io_base\<close> reaches the limit.\<close>

theorem tss_init_segments:
  assumes "length (gdt s) = 7"
  shows "\<exists>s'. tss_init a s = Inr s' \<and> length (gdt s') = 7 \<and> tr s' = of_nat SELECTOR_TSS \<and>
    gdtr s' = 7 * 8 - 1 OR push_bit 16 0xc0000900 \<and>
    (let d = gdt s' ! (unat (tr s') div 8) in
       seg_base d = a \<and> seg_limit d = 108 * 4096 - 1 \<and> bit (attr_low_byte d) 7 \<and>
       attr_dpl (attr_low_byte d) = 0 \<and> attr_type (attr_low_byte d) = 0x09 \<and>
       \<not> no_io_bitmap (g_tss s') d \<and> tss_io_base (g_tss s') < seg_limit d) \<and>
    (\<forall>(sel, typ) \<in> {(SELECTOR_U_CODE, 0x18), (SELECTOR_U_DATA, 0x12)}. let d = gdt s' ! (sel div 8) in
       seg_base d = 0 \<and> seg_limit d = 0xffffffff \<and> bit (attr_low_byte d) 7 \<and>
       attr_dpl (attr_low_byte d) = 3 \<and> attr_type (attr_low_byte d) = typ \<and> bit (seg_flags d) 6) \<and>
    (\<forall>i < 4. gdt s' ! i = gdt s ! i) \<and>
    tss_ss0 (g_tss s') = of_nat SELECTOR_K_STACK \<and> tss_io_base (g_tss s') = of_nat tss_size"
  using assms
  by (simp add: tss_init_def Let_def gdt_write_def GDT_BASE_def SELECTOR_TSS_def SELECTOR_U_CODE_def
    SELECTOR_U_DATA_def seg_limit_make limit_field_make(2) attr_defs attr_dpl_def attr_type_def tss_size_def make_gdt_desc_attr
    table_operand_def no_io_bitmap_def io_map_base_def tss_zero_def bit_simps)

theorem tss_init_segments_witness:
  "\<exists>s'. tss_init 0xc0005000 cpu_reset = Inr s' \<and> seg_base (gdt s' ! 4) = 0xc0005000 \<and> tr s' = 0x20"
proof -
  have "length (gdt cpu_reset) = 7"
    by (simp add: cpu_reset_def)
  from tss_init_segments [OF this, of "0xc0005000"] show ?thesis
    by (auto simp: Let_def SELECTOR_TSS_def)
qed

text \<open>C36: \<^verbatim>\<open>frequency_set\<close> never sends the high byte of the counter value: the chip is always loaded with the
  low byte and 0. For the 100 Hz the kernel asks for, the counter gets 155 instead of 11931.\<close>

theorem frequency_set_loses_high_byte:
  "port_log (frequency_set cp no rwl md v s) = port_log s @
     [(PIT_CONTROL_PORT, push_bit 6 no OR push_bit 4 rwl OR push_bit 1 md),
      (ucast cp, ucast v), (ucast cp, 0)]"
  by (simp add: frequency_set_def outb_def drop_bit_u8_8)

end
