(* ===== verification/KList.thy ===== *)
theory KList
  imports Cpu
begin

section \<open>Intrusive doubly linked lists (lib/kernel/list.c)\<close>

text \<open>
  The kernel threads its queues (ready threads, all threads, waiters, free memory blocks, open
  inodes, partitions) through \<^verbatim>\<open>struct list_elem\<close> members of the queued objects. The model keeps
  one heap of list elements, \<open>links\<close>, from the address of an element to its two pointers; a
  \<^verbatim>\<open>struct list\<close> at \<open>p\<close> has its head element at \<open>p\<close> and its tail element at \<open>p + 8\<close>. Elements at
  different addresses do not overlap: they are members of different objects, or different
  members of one.

  The second half proves that any sequence of operations on any number of lists in one heap
  behaves like the same operations on HOL lists, and states the contract the other components
  use as the locale \<open>queue_lists\<close>.
\<close>

record list_elem =
  prev :: addr
  nxt :: addr

type_synonym heap = "addr \<Rightarrow> list_elem"

record lists = cpu +
  links :: heap

text \<open>\<^verbatim>\<open>&plist->head\<close> is \<open>plist\<close> itself.\<close>

abbreviation tail :: "addr \<Rightarrow> addr" where "tail plist \<equiv> plist + 8"

subsection \<open>Operations\<close>

definition set_next :: "addr \<Rightarrow> addr \<Rightarrow> 'a lists_scheme \<Rightarrow> 'a lists_scheme" where
  "set_next a v s = s\<lparr>links := (links s)(a := (links s a)\<lparr>nxt := v\<rparr>)\<rparr>"

definition set_prev :: "addr \<Rightarrow> addr \<Rightarrow> 'a lists_scheme \<Rightarrow> 'a lists_scheme" where
  "set_prev a v s = s\<lparr>links := (links s)(a := (links s a)\<lparr>prev := v\<rparr>)\<rparr>"

definition list_init :: "addr \<Rightarrow> 'a lists_scheme \<Rightarrow> 'a lists_scheme" where
  "list_init l s =
     (let s = set_prev l NULL s;
          s = set_next l (tail l) s;
          s = set_prev (tail l) l s
      in set_next (tail l) NULL s)"

definition list_insert_before :: "addr \<Rightarrow> addr \<Rightarrow> 'a lists_scheme \<Rightarrow> 'a lists_scheme" where
  "list_insert_before before elem s =
     (let (old_status, s) = intr_disable s;
          s = set_next (prev (links s before)) elem s;
          s = set_prev elem (prev (links s before)) s;
          s = set_next elem before s;
          s = set_prev before elem s
      in snd (intr_set_status old_status s))"

definition list_push :: "addr \<Rightarrow> addr \<Rightarrow> 'a lists_scheme \<Rightarrow> 'a lists_scheme" where
  "list_push plist elem s = list_insert_before (nxt (links s plist)) elem s"

definition list_append :: "addr \<Rightarrow> addr \<Rightarrow> 'a lists_scheme \<Rightarrow> 'a lists_scheme" where
  "list_append plist elem s = list_insert_before (tail plist) elem s"

definition list_remove :: "addr \<Rightarrow> 'a lists_scheme \<Rightarrow> 'a lists_scheme" where
  "list_remove pelem s =
     (let (old_status, s) = intr_disable s;
          s = set_next (prev (links s pelem)) (nxt (links s pelem)) s;
          s = set_prev (nxt (links s pelem)) (prev (links s pelem)) s
      in snd (intr_set_status old_status s))"

definition list_pop :: "addr \<Rightarrow> 'a lists_scheme \<Rightarrow> addr \<times> 'a lists_scheme" where
  "list_pop plist s = (let elem = nxt (links s plist) in (elem, list_remove elem s))"

definition list_empty :: "addr \<Rightarrow> 'a lists_scheme \<Rightarrow> bool" where
  "list_empty plist s \<longleftrightarrow> nxt (links s plist) = tail plist"

text \<open>
  The walks may not end on a damaged list; then their value is \<open>None\<close>. The callback of
  \<^verbatim>\<open>list_traversal\<close> may change the state.
\<close>

partial_function (option) find_walk :: "heap \<Rightarrow> addr \<Rightarrow> addr \<Rightarrow> addr \<Rightarrow> bool option" where
  "find_walk h obj_elem end_elem elem =
     (if elem = end_elem then Some False
      else if elem = obj_elem then Some True
      else find_walk h obj_elem end_elem (nxt (h elem)))"

definition elem_find :: "addr \<Rightarrow> addr \<Rightarrow> 'a lists_scheme \<Rightarrow> bool option" where
  "elem_find plist obj_elem s =
     find_walk (links s) obj_elem (tail plist) (nxt (links s plist))"

partial_function (option) traversal_walk ::
  "(addr \<Rightarrow> 'b \<Rightarrow> 'a lists_scheme \<Rightarrow> bool \<times> 'a lists_scheme) \<Rightarrow> 'b \<Rightarrow> addr \<Rightarrow> addr \<Rightarrow>
   'a lists_scheme \<Rightarrow> (addr \<times> 'a lists_scheme) option" where
  "traversal_walk func arg end_elem elem s =
     (if elem = end_elem then Some (NULL, s)
      else case func elem arg s of (hit, s) \<Rightarrow>
        if hit then Some (elem, s)
        else traversal_walk func arg end_elem (nxt (links s elem)) s)"

definition list_traversal ::
  "addr \<Rightarrow> (addr \<Rightarrow> 'b \<Rightarrow> 'a lists_scheme \<Rightarrow> bool \<times> 'a lists_scheme) \<Rightarrow> 'b \<Rightarrow>
   'a lists_scheme \<Rightarrow> (addr \<times> 'a lists_scheme) option" where
  "list_traversal plist func arg s =
     (let elem = nxt (links s plist) in
      if list_empty plist s then Some (NULL, s)
      else traversal_walk func arg (tail plist) elem s)"

partial_function (option) len_walk :: "heap \<Rightarrow> addr \<Rightarrow> addr \<Rightarrow> u32 \<Rightarrow> u32 option" where
  "len_walk h end_elem elem len =
     (if elem = end_elem then Some len
      else len_walk h end_elem (nxt (h elem)) (len + 1))"

definition list_len :: "addr \<Rightarrow> 'a lists_scheme \<Rightarrow> u32 option" where
  "list_len plist s = len_walk (links s) (tail plist) (nxt (links s plist)) 0"

text \<open>\<^verbatim>\<open>elem2entry\<close> of \<^verbatim>\<open>list.h\<close>: from a member at a known offset back to its object.\<close>

definition elem2entry :: "u32 \<Rightarrow> addr \<Rightarrow> addr" where
  "elem2entry member_offset elem_ptr = elem_ptr - member_offset"

lemma elem2entry_member [simp]: "elem2entry d (p + d) = p"
  unfolding elem2entry_def by (rule add_diff_cancel_right')

subsection \<open>Linked sequences of elements\<close>

fun linked :: "heap \<Rightarrow> addr list \<Rightarrow> bool" where
  "linked h (a # b # ns) \<longleftrightarrow> nxt (h a) = b \<and> prev (h b) = a \<and> linked h (b # ns)"
| "linked h _ \<longleftrightarrow> True"

lemma linked_append: "linked h (us @ a # vs) \<longleftrightarrow> linked h (us @ [a]) \<and> linked h (a # vs)"
proof (induction us)
  case (Cons u us)
  then show ?case by (cases us) auto
qed simp

lemma linked_frame:
  assumes "\<And>a. a \<in> set (butlast ns) \<Longrightarrow> nxt (h' a) = nxt (h a)"
    and "\<And>a. a \<in> set (tl ns) \<Longrightarrow> prev (h' a) = prev (h a)"
  shows "linked h' ns = linked h ns"
  using assms
proof (induction h ns rule: linked.induct)
  case (1 h a b ns)
  have "linked h' (b # ns) = linked h (b # ns)"
    using 1 by (intro "1.IH") (auto split: if_splits)
  with "1.prems"(1) [of a] "1.prems"(2) [of b] show ?case
    by simp
qed simp_all

text \<open>The cells of a list, and the heap representing a list.\<close>

definition cells :: "addr \<Rightarrow> addr list \<Rightarrow> addr list" where
  "cells p xs = p # xs @ [p + 8]"

definition is_list :: "heap \<Rightarrow> addr \<Rightarrow> addr list \<Rightarrow> bool" where
  "is_list h p xs \<longleftrightarrow> distinct (cells p xs) \<and> linked h (cells p xs)"

lemma links_ops:
  "links (list_insert_before before elem s) =
     (let h = links s; u = prev (h before);
          h = h(u := (h u)\<lparr>nxt := elem\<rparr>);
          h = h(elem := (h elem)\<lparr>prev := prev (h before)\<rparr>);
          h = h(elem := (h elem)\<lparr>nxt := before\<rparr>)
      in h(before := (h before)\<lparr>prev := elem\<rparr>))"
  "links (list_remove pelem s) =
     (let h = links s; h = h(prev (h pelem) := (h (prev (h pelem)))\<lparr>nxt := nxt (h pelem)\<rparr>)
      in h(nxt (h pelem) := (h (nxt (h pelem)))\<lparr>prev := prev (h pelem)\<rparr>))"
  by (simp_all add: list_insert_before_def list_remove_def intr_eqs set_next_def set_prev_def Let_def)

lemma rest_ops:
  "list_insert_before before elem s =
     s\<lparr>links := links (list_insert_before before elem s)\<rparr>"
  "list_remove pelem s = s\<lparr>links := links (list_remove pelem s)\<rparr>"
  "list_init p s = s\<lparr>links := links (list_init p s)\<rparr>"
  by (simp_all add: list_insert_before_def list_remove_def list_init_def intr_eqs set_next_def
    set_prev_def Let_def)

subsection \<open>What one operation does to one list\<close>

lemma tail_neq [simp]: "p \<noteq> p + (8 :: addr)" "p + (8 :: addr) \<noteq> p"
  by simp_all

text \<open>Inserting before the first element of \<open>vs\<close>, or before the tail when \<open>vs\<close> is empty.\<close>

lemma insert_before_links:
  assumes "distinct (us @ u # v # vs)" and "x \<notin> set (us @ u # v # vs)"
    and "linked (links s) (us @ u # v # vs)"
  shows "linked (links (list_insert_before v x s)) (us @ u # x # v # vs)"
    and "\<And>a. a \<notin> {u, x, v} \<Longrightarrow> links (list_insert_before v x s) a = links s a"
proof -
  let ?h = "links s" and ?h' = "links (list_insert_before v x s)"
  have l: "linked ?h (us @ [u])" "nxt (?h u) = v" "prev (?h v) = u" "linked ?h (v # vs)"
    using assms(3) linked_append [of ?h us u "v # vs"] by auto
  have h': "?h' = ?h(u := (?h u)\<lparr>nxt := x\<rparr>, x := (?h x)\<lparr>prev := u, nxt := v\<rparr>,
      v := (?h v)\<lparr>prev := x\<rparr>)"
    using assms(1,2) l(3) by (auto simp: links_ops Let_def)
  have "linked ?h' (us @ [u])"
    using l(1) assms(1,2) by (subst linked_frame [where h = ?h]) (auto simp: h' butlast_append tl_append
      split: list.splits)
  moreover have "linked ?h' (v # vs)"
    using l(4) assms(1,2) by (subst linked_frame [where h = ?h]) (auto simp: h' dest: in_set_butlastD
      split: if_splits)
  moreover have "nxt (?h' u) = x" "prev (?h' x) = u" "nxt (?h' x) = v" "prev (?h' v) = x"
    using assms(1,2) by (auto simp: h')
  ultimately show "linked ?h' (us @ u # x # v # vs)"
    using linked_append [of ?h' us u "x # v # vs"] by simp
  show "\<And>a. a \<notin> {u, x, v} \<Longrightarrow> ?h' a = ?h a"
    by (simp add: h')
qed

lemma remove_links:
  assumes "distinct (us @ u # x # v # vs)" and "linked (links s) (us @ u # x # v # vs)"
  shows "linked (links (list_remove x s)) (us @ u # v # vs)"
    and "\<And>a. a \<notin> {u, v} \<Longrightarrow> links (list_remove x s) a = links s a"
proof -
  let ?h = "links s" and ?h' = "links (list_remove x s)"
  have l: "linked ?h (us @ [u])" "nxt (?h u) = x" "prev (?h x) = u" "nxt (?h x) = v"
    "prev (?h v) = x" "linked ?h (v # vs)"
    using assms(2) linked_append [of ?h us u "x # v # vs"] by auto
  have h': "?h' = ?h(u := (?h u)\<lparr>nxt := v\<rparr>, v := (?h v)\<lparr>prev := u\<rparr>)"
    using assms(1) l by (auto simp: links_ops Let_def)
  have "linked ?h' (us @ [u])"
    using l(1) assms(1) by (subst linked_frame [where h = ?h]) (auto simp: h' butlast_append tl_append
      split: list.splits)
  moreover have "linked ?h' (v # vs)"
    using l(6) assms(1) by (subst linked_frame [where h = ?h]) (auto simp: h' dest: in_set_butlastD
      split: if_splits)
  moreover have "nxt (?h' u) = v" "prev (?h' v) = u"
    using assms(1) by (auto simp: h')
  ultimately show "linked ?h' (us @ u # v # vs)"
    using linked_append [of ?h' us u "v # vs"] by simp
  show "\<And>a. a \<notin> {u, v} \<Longrightarrow> ?h' a = ?h a"
    by (simp add: h')
qed

lemma is_list_first: "is_list h p xs \<Longrightarrow> nxt (h p) = (case xs of [] \<Rightarrow> p + 8 | x # _ \<Rightarrow> x)"
  by (cases xs) (auto simp: is_list_def cells_def)

lemma push_is_list:
  assumes "is_list (links s) p xs" and "x \<notin> set (cells p xs)"
  shows "is_list (links (list_push p x s)) p (x # xs)"
    and "\<And>a. a \<notin> set (cells p (x # xs)) \<Longrightarrow> links (list_push p x s) a = links s a"
proof -
  obtain v vs where v: "xs @ [p + 8] = v # vs"
    by (cases xs) auto
  then have n: "nxt (links s p) = v"
    using assms(1) by (auto simp: is_list_def cells_def)
  have p: "distinct ([] @ p # v # vs)" "x \<notin> set ([] @ p # v # vs)"
    "linked (links s) ([] @ p # v # vs)"
    using assms v by (auto simp: is_list_def cells_def simp del: linked.simps)
  show "is_list (links (list_push p x s)) p (x # xs)"
    using insert_before_links(1) [OF p] p assms n v
    by (auto simp: list_push_def is_list_def cells_def simp del: linked.simps)
  show "links (list_push p x s) a = links s a" if "a \<notin> set (cells p (x # xs))" for a
  proof -
    have "v \<in> set (cells p xs)"
      using v by (simp add: cells_def)
    with that have "a \<notin> {p, x, v}"
      by (auto simp: cells_def)
    then show ?thesis
      using insert_before_links(2) [OF p] n by (simp add: list_push_def)
  qed
qed

lemma append_is_list:
  assumes "is_list (links s) p xs" and "x \<notin> set (cells p xs)"
  shows "is_list (links (list_append p x s)) p (xs @ [x])"
    and "\<And>a. a \<notin> set (cells p (xs @ [x])) \<Longrightarrow> links (list_append p x s) a = links s a"
proof -
  obtain us u where u: "p # xs = us @ [u]"
    by (metis append_butlast_last_id list.distinct(1))
  have c: "cells p xs = us @ u # [p + 8]" "cells p (xs @ [x]) = us @ u # x # [p + 8]"
    using u by (simp_all add: cells_def)
  have p: "distinct (us @ u # (p + 8) # [])" "x \<notin> set (us @ u # (p + 8) # [])"
    "linked (links s) (us @ u # (p + 8) # [])"
    using assms by (auto simp: is_list_def c simp del: linked.simps)
  show "is_list (links (list_append p x s)) p (xs @ [x])"
    using insert_before_links(1) [OF p] p
    by (auto simp: list_append_def is_list_def c simp del: linked.simps)
  show "\<And>a. a \<notin> set (cells p (xs @ [x])) \<Longrightarrow> links (list_append p x s) a = links s a"
    using insert_before_links(2) [OF p] by (auto simp: list_append_def c)
qed

lemma remove_is_list:
  assumes "is_list (links s) p (xs @ x # ys)"
  shows "is_list (links (list_remove x s)) p (xs @ ys)"
    and "\<And>a. a \<notin> set (cells p (xs @ ys)) \<Longrightarrow> links (list_remove x s) a = links s a"
proof -
  obtain us u where u: "p # xs = us @ [u]"
    by (metis append_butlast_last_id list.distinct(1))
  obtain v vs where v: "ys @ [p + 8] = v # vs"
    by (cases ys) auto
  have c: "cells p (xs @ x # ys) = us @ u # x # v # vs" "cells p (xs @ ys) = us @ u # v # vs"
    using u v by (simp_all add: cells_def)
  have p: "distinct (us @ u # x # v # vs)" "linked (links s) (us @ u # x # v # vs)"
    using assms by (auto simp: is_list_def c simp del: linked.simps)
  show "is_list (links (list_remove x s)) p (xs @ ys)"
    using remove_links(1) [OF p] p by (auto simp: is_list_def c simp del: linked.simps)
  show "\<And>a. a \<notin> set (cells p (xs @ ys)) \<Longrightarrow> links (list_remove x s) a = links s a"
    using remove_links(2) [OF p] by (auto simp: c)
qed

subsection \<open>Several lists in one heap\<close>

text \<open>
  The abstract view: an association list from the addresses of the \<^verbatim>\<open>struct list\<close> objects to their
  contents. The heap represents it when each list is linked and no cell is used twice.
\<close>

type_synonym aview = "(addr \<times> addr list) list"

definition all_cells :: "aview \<Rightarrow> addr list" where
  "all_cells A = concat (map (\<lambda>(p, xs). cells p xs) A)"

definition rep :: "heap \<Rightarrow> aview \<Rightarrow> bool" where
  "rep h A \<longleftrightarrow> distinct (all_cells A) \<and> (\<forall>(p, xs) \<in> set A. linked h (cells p xs))"

definition set_list :: "addr \<Rightarrow> addr list \<Rightarrow> aview \<Rightarrow> aview" where
  "set_list p xs A = map (\<lambda>(q, ys). if q = p then (q, xs) else (q, ys)) A"

lemma all_cells_simps [simp]:
  "all_cells [] = []"
  "all_cells ((p, xs) # A) = cells p xs @ all_cells A"
  "all_cells (A @ B) = all_cells A @ all_cells B"
  by (simp_all add: all_cells_def)

lemma cells_set [simp]: "set (cells p xs) = insert p (insert (p + 8) (set xs))"
  by (auto simp: cells_def)

lemma fst_all_cells: "(p, xs) \<in> set A \<Longrightarrow> set (cells p xs) \<subseteq> set (all_cells A)"
  by (force simp: all_cells_def)

lemma set_list_absent: "p \<notin> fst ` set A \<Longrightarrow> set_list p xs A = A"
  by (induction A) (auto simp: set_list_def)

lemma set_list_mid:
  assumes "distinct (all_cells (A @ (p, xs) # B))"
  shows "set_list p ys (A @ (p, xs) # B) = A @ (p, ys) # B"
proof -
  have "p \<notin> fst ` set A" "p \<notin> fst ` set B"
    using assms fst_all_cells by fastforce+
  then show ?thesis
    using set_list_absent [of p A ys] set_list_absent [of p B ys] by (simp add: set_list_def)
qed

lemma rep_listE:
  assumes "rep h A" and "map_of A p = Some xs"
  obtains B C where "A = B @ (p, xs) # C" and "is_list h p xs"
  using map_of_SomeD [OF assms(2)] assms(1)
  by (auto simp: rep_def is_list_def dest!: split_list)

lemma linked_cong:
  assumes "\<And>a. a \<in> set ns \<Longrightarrow> h' a = h a"
  shows "linked h' ns = linked h ns"
proof (rule linked_frame)
  show "nxt (h' a) = nxt (h a)" if "a \<in> set (butlast ns)" for a
    using assms in_set_butlastD [OF that] by simp
  show "prev (h' a) = prev (h a)" if "a \<in> set (tl ns)" for a
    using assms that by (cases ns) auto
qed

text \<open>Changing one list keeps the others: the one frame argument all operations share.\<close>

lemma rep_update:
  assumes "rep h A" and "map_of A p = Some xs" and "is_list h' p ys"
    and h': "\<And>a. a \<notin> set (cells p xs) \<union> set ys \<Longrightarrow> h' a = h a"
    and ys: "set ys \<inter> set (all_cells A) \<subseteq> set xs"
  shows "rep h' (set_list p ys A)"
proof -
  obtain B C where A: "A = B @ (p, xs) # C" and l: "is_list h p xs"
    using assms(1,2) by (rule rep_listE)
  have d: "distinct (all_cells A)"
    using assms(1) by (simp add: rep_def)
  have out: "set (cells p xs) \<inter> set (all_cells (B @ C)) = {}" "set ys \<inter> set (all_cells (B @ C)) = {}"
    using d ys A by auto
  have "linked h' (cells q zs)" if "(q, zs) \<in> set (B @ C)" for q zs
  proof -
    have "linked h (cells q zs)"
      using assms(1) that A by (auto simp: rep_def)
    moreover have "set (cells q zs) \<inter> (set (cells p xs) \<union> set ys) = {}"
      using fst_all_cells [OF that] out by blast
    ultimately show ?thesis
      using h' by (subst linked_cong [where h = h]) blast+
  qed
  moreover have "distinct (all_cells (B @ (p, ys) # C))"
    using d A out assms(3) by (auto simp: is_list_def)
  ultimately have "rep h' (B @ (p, ys) # C)"
    using assms(3) by (auto simp: rep_def is_list_def)
  then show ?thesis
    using d A by (simp add: set_list_mid)
qed

lemma rep_init:
  assumes "rep (links s) A" and "p \<notin> set (all_cells A)" and "p + 8 \<notin> set (all_cells A)"
  shows "rep (links (list_init p s)) ((p, []) # A)"
proof -
  let ?h' = "links (list_init p s)"
  have h': "?h' = (links s)(p := \<lparr>prev = NULL, nxt = p + 8\<rparr>, p + 8 := \<lparr>prev = p, nxt = NULL\<rparr>)"
    by (auto simp: list_init_def Let_def set_next_def set_prev_def)
  have "linked ?h' (cells q ys)" if "(q, ys) \<in> set A" for q ys
  proof -
    have "linked (links s) (cells q ys)"
      using assms(1) that by (auto simp: rep_def)
    moreover have "p \<notin> set (cells q ys)" "p + 8 \<notin> set (cells q ys)"
      using assms(2,3) fst_all_cells [OF that] by blast+
    ultimately show ?thesis
      by (subst linked_cong [where h = "links s"]) (auto simp: h' simp del: cells_set)
  qed
  then show ?thesis
    using assms by (auto simp: rep_def cells_def h')
qed

lemma rep_push:
  assumes "rep (links s) A" and "map_of A p = Some xs" and "x \<notin> set (all_cells A)"
  shows "rep (links (list_push p x s)) (set_list p (x # xs) A)"
proof (rule rep_update [OF assms(1,2)])
  obtain B C where A: "A = B @ (p, xs) # C" and l: "is_list (links s) p xs"
    using assms(1,2) by (rule rep_listE)
  then have x: "x \<notin> set (cells p xs)"
    using assms(3) by simp
  show "is_list (links (list_push p x s)) p (x # xs)"
    using l x by (rule push_is_list)
  show "\<And>a. a \<notin> set (cells p xs) \<union> set (x # xs) \<Longrightarrow> links (list_push p x s) a = links s a"
    using push_is_list(2) [OF l x] by simp
  show "set (x # xs) \<inter> set (all_cells A) \<subseteq> set xs"
    using assms(3) by auto
qed

lemma rep_append:
  assumes "rep (links s) A" and "map_of A p = Some xs" and "x \<notin> set (all_cells A)"
  shows "rep (links (list_append p x s)) (set_list p (xs @ [x]) A)"
proof (rule rep_update [OF assms(1,2)])
  obtain B C where A: "A = B @ (p, xs) # C" and l: "is_list (links s) p xs"
    using assms(1,2) by (rule rep_listE)
  then have x: "x \<notin> set (cells p xs)"
    using assms(3) by simp
  show "is_list (links (list_append p x s)) p (xs @ [x])"
    using l x by (rule append_is_list)
  show "\<And>a. a \<notin> set (cells p xs) \<union> set (xs @ [x]) \<Longrightarrow> links (list_append p x s) a = links s a"
    using append_is_list(2) [OF l x] by simp
  show "set (xs @ [x]) \<inter> set (all_cells A) \<subseteq> set xs"
    using assms(3) by auto
qed

lemma rep_remove:
  assumes "rep (links s) A" and "map_of A p = Some xs" and "x \<in> set xs"
  shows "rep (links (list_remove x s)) (set_list p (remove1 x xs) A)"
proof (rule rep_update [OF assms(1,2)])
  obtain B C where A: "A = B @ (p, xs) # C" and l: "is_list (links s) p xs"
    using assms(1,2) by (rule rep_listE)
  obtain ys zs where xs: "xs = ys @ x # zs" and "x \<notin> set ys"
    using assms(3) by (meson split_list_first)
  then have r: "remove1 x xs = ys @ zs"
    by (simp add: remove1_append)
  show "is_list (links (list_remove x s)) p (remove1 x xs)"
    using remove_is_list(1) [OF l [unfolded xs]] r by simp
  show "\<And>a. a \<notin> set (cells p xs) \<union> set (remove1 x xs) \<Longrightarrow> links (list_remove x s) a = links s a"
    using remove_is_list(2) [OF l [unfolded xs]] r xs by simp
  show "set (remove1 x xs) \<inter> set (all_cells A) \<subseteq> set xs"
    using set_remove1_subset by fastforce
qed

lemma rep_pop:
  assumes "rep (links s) A" and "map_of A p = Some (x # xs)"
  shows "fst (list_pop p s) = x" and "rep (links (snd (list_pop p s))) (set_list p xs A)"
proof -
  obtain B C where "A = B @ (p, x # xs) # C" and l: "is_list (links s) p (x # xs)"
    using assms by (rule rep_listE)
  show "fst (list_pop p s) = x" "rep (links (snd (list_pop p s))) (set_list p xs A)"
    using is_list_first [OF l] rep_remove [OF assms, of x] by (simp_all add: list_pop_def Let_def)
qed

lemma rep_empty:
  assumes "rep (links s) A" and "map_of A p = Some xs"
  shows "list_empty p s \<longleftrightarrow> xs = []"
proof -
  obtain B C where "is_list (links s) p xs"
    using assms by (rule rep_listE)
  then show ?thesis
    using is_list_first [of "links s" p xs]
    by (auto simp: list_empty_def is_list_def cells_def split: list.splits)
qed

subsection \<open>Walks along a list\<close>

lemma find_walk_linked:
  "linked h (u # ys @ [e]) \<Longrightarrow> e \<notin> set ys \<Longrightarrow> find_walk h x e (nxt (h u)) = Some (x \<in> set ys)"
proof (induction ys arbitrary: u)
  case Nil
  then show ?case by (simp add: find_walk.simps)
next
  case (Cons y ys)
  then have "find_walk h x e (nxt (h y)) = Some (x \<in> set ys)"
    by auto
  with Cons.prems show ?case
    by (subst find_walk.simps) auto
qed

lemma len_walk_linked:
  "linked h (u # ys @ [e]) \<Longrightarrow> e \<notin> set ys \<Longrightarrow>
     len_walk h e (nxt (h u)) n = Some (n + of_nat (length ys))"
proof (induction ys arbitrary: u n)
  case Nil
  then show ?case by (simp add: len_walk.simps)
next
  case (Cons y ys)
  then have "len_walk h e (nxt (h y)) (n + 1) = Some (n + 1 + of_nat (length ys))"
    by auto
  with Cons.prems show ?case
    by (subst len_walk.simps) (auto simp: add.assoc)
qed

text \<open>\<^verbatim>\<open>list_traversal\<close> over a HOL list: stop at the first element the callback accepts.\<close>

fun trav :: "(addr \<Rightarrow> 'b \<Rightarrow> 's \<Rightarrow> bool \<times> 's) \<Rightarrow> 'b \<Rightarrow> addr list \<Rightarrow> 's \<Rightarrow> addr \<times> 's" where
  "trav func arg [] s = (NULL, s)"
| "trav func arg (x # xs) s = (case func x arg s of (hit, s) \<Rightarrow>
     if hit then (x, s) else trav func arg xs s)"

lemma traversal_walk_linked:
  assumes "linked h (u # ys @ [e])" and "e \<notin> set ys" and "links s = h"
    and "\<And>x s. links s = h \<Longrightarrow> x \<in> set ys \<Longrightarrow> links (snd (func x arg s)) = h"
  shows "traversal_walk func arg e (nxt (h u)) s = Some (trav func arg ys s)"
  using assms
proof (induction ys arbitrary: u s)
  case Nil
  then show ?case by (simp add: traversal_walk.simps)
next
  case (Cons y ys)
  obtain hit t where f: "func y arg s = (hit, t)"
    by (cases "func y arg s")
  then have t: "links t = h"
    using Cons.prems(4) [of s y] Cons.prems(3) by simp
  have "traversal_walk func arg e (nxt (h y)) t = Some (trav func arg ys t)"
    using Cons.prems t by (intro Cons.IH) auto
  with Cons.prems f t show ?case
    by (subst traversal_walk.simps) auto
qed

lemma rep_walks:
  assumes "rep (links s) A" and "map_of A p = Some xs"
  shows "elem_find p x s = Some (x \<in> set xs)"
    and "list_len p s = Some (of_nat (length xs))"
    and "(\<And>x t. links t = links s \<Longrightarrow> x \<in> set xs \<Longrightarrow> links (snd (func x arg t)) = links s) \<Longrightarrow>
      list_traversal p func arg s = Some (trav func arg xs s)"
proof -
  obtain B C where l: "is_list (links s) p xs"
    using assms by (rule rep_listE)
  then have lk: "linked (links s) (p # xs @ [p + 8])" "p + 8 \<notin> set xs"
    by (auto simp: is_list_def cells_def)
  show "elem_find p x s = Some (x \<in> set xs)" "list_len p s = Some (of_nat (length xs))"
    using find_walk_linked [OF lk] len_walk_linked [OF lk, of 0]
    by (simp_all add: elem_find_def list_len_def)
  show "list_traversal p func arg s = Some (trav func arg xs s)"
    if f: "\<And>x t. links t = links s \<Longrightarrow> x \<in> set xs \<Longrightarrow> links (snd (func x arg t)) = links s"
  proof (cases xs)
    case Nil
    then show ?thesis
      using rep_empty [OF assms] by (simp add: list_traversal_def)
  next
    case (Cons y ys)
    then show ?thesis
      using rep_empty [OF assms] traversal_walk_linked [OF lk, of s func arg] f
      by (simp add: list_traversal_def)
  qed
qed

subsection \<open>The contract of the list component\<close>

lemma map_of_set_list:
  "map_of (set_list p ys A) q = (if q = p then map_option (\<lambda>_. ys) (map_of A p) else map_of A q)"
  by (induction A) (auto simp: set_list_def)

lemma all_cells_set_list:
  assumes "distinct (all_cells A)" and "map_of A p = Some xs"
  shows "set (all_cells (set_list p ys A)) = set (all_cells A) - set xs \<union> set ys"
proof -
  obtain B C where A: "A = B @ (p, xs) # C"
    using map_of_SomeD [OF assms(2)] by (auto dest!: split_list)
  with assms(1) show ?thesis
    by (auto simp: set_list_mid cells_def)
qed

text \<open>Popping \<open>n\<close> times with a given pop operation.\<close>

fun pop_n :: "(addr \<Rightarrow> 's \<Rightarrow> addr \<times> 's) \<Rightarrow> addr \<Rightarrow> nat \<Rightarrow> 's \<Rightarrow> addr list \<times> 's" where
  "pop_n pop p 0 s = ([], s)"
| "pop_n pop p (Suc n) s = (let (x, s) = pop p s; (xs, s) = pop_n pop p n s in (x # xs, s))"

locale queue_lists =
  fixes rel :: "'s \<Rightarrow> aview \<Rightarrow> bool"
    and app :: "addr \<Rightarrow> addr \<Rightarrow> 's \<Rightarrow> 's"
    and push :: "addr \<Rightarrow> addr \<Rightarrow> 's \<Rightarrow> 's"
    and rem :: "addr \<Rightarrow> 's \<Rightarrow> 's"
    and pop :: "addr \<Rightarrow> 's \<Rightarrow> addr \<times> 's"
    and emp :: "addr \<Rightarrow> 's \<Rightarrow> bool"
  assumes rel_distinct: "rel s A \<Longrightarrow> distinct (all_cells A)"
    and app_law: "rel s A \<Longrightarrow> map_of A p = Some xs \<Longrightarrow> x \<notin> set (all_cells A) \<Longrightarrow>
      rel (app p x s) (set_list p (xs @ [x]) A)"
    and push_law: "rel s A \<Longrightarrow> map_of A p = Some xs \<Longrightarrow> x \<notin> set (all_cells A) \<Longrightarrow>
      rel (push p x s) (set_list p (x # xs) A)"
    and rem_law: "rel s A \<Longrightarrow> map_of A p = Some xs \<Longrightarrow> x \<in> set xs \<Longrightarrow>
      rel (rem x s) (set_list p (remove1 x xs) A)"
    and pop_law: "rel s A \<Longrightarrow> map_of A p = Some (x # xs) \<Longrightarrow>
      fst (pop p s) = x \<and> rel (snd (pop p s)) (set_list p xs A)"
    and emp_law: "rel s A \<Longrightarrow> map_of A p = Some xs \<Longrightarrow> emp p s \<longleftrightarrow> xs = []"
begin

lemma set_list_twice: "set_list p ys (set_list p xs A) = set_list p ys A"
  by (induction A) (auto simp: set_list_def)

lemma append_all:
  assumes "rel s A" and "map_of A p = Some xs" and "distinct ys"
    and "set ys \<inter> set (all_cells A) = {}"
  shows "rel (fold (app p) ys s) (set_list p (xs @ ys) A)"
  using assms
proof (induction ys arbitrary: s A xs)
  case Nil
  then have "set_list p xs A = A"
    using map_of_SomeD [OF Nil(2)] rel_distinct [OF Nil(1)]
    by (auto simp: set_list_mid dest!: split_list)
  with Nil show ?case by simp
next
  case (Cons y ys)
  have d: "distinct (all_cells A)"
    using Cons.prems(1) by (rule rel_distinct)
  have "set xs \<subseteq> set (all_cells A)"
    using fst_all_cells [OF map_of_SomeD [OF Cons.prems(2)]] by simp
  then have "rel (fold (app p) ys (app p y s)) (set_list p ((xs @ [y]) @ ys) (set_list p (xs @ [y]) A))"
    using Cons.prems app_law [of s A p xs y] all_cells_set_list [OF d Cons.prems(2)]
    by (intro Cons.IH) (auto simp: map_of_set_list)
  then show ?case
    by (simp add: set_list_twice)
qed

lemma pop_all:
  assumes "rel s A" and "map_of A p = Some (ys @ zs)"
  shows "\<exists>t. pop_n pop p (length ys) s = (ys, t) \<and> rel t (set_list p zs A)"
  using assms
proof (induction ys arbitrary: s A)
  case Nil
  then have "set_list p zs A = A"
    using map_of_SomeD [OF Nil(2)] rel_distinct [OF Nil(1)]
    by (auto simp: set_list_mid dest!: split_list)
  with Nil show ?case by simp
next
  case (Cons y ys)
  then obtain t where t: "pop p s = (y, t)" "rel t (set_list p (ys @ zs) A)"
    using pop_law [of s A p y "ys @ zs"] by (cases "pop p s") auto
  then obtain u where "pop_n pop p (length ys) t = (ys, u)" "rel u (set_list p zs A)"
    using Cons.IH [OF t(2)] Cons.prems by (auto simp: map_of_set_list set_list_twice)
  with t show ?case by simp
qed

lemma fifo:
  assumes "rel s A" and "map_of A p = Some []" and "distinct ys"
    and "set ys \<inter> set (all_cells A) = {}"
  shows "\<exists>t. pop_n pop p (length ys) (fold (app p) ys s) = (ys, t) \<and> rel t A \<and> emp p t"
proof -
  have "rel (fold (app p) ys s) (set_list p ys A)"
    using append_all [OF assms] by simp
  then obtain t where t: "pop_n pop p (length ys) (fold (app p) ys s) = (ys, t)"
    "rel t (set_list p [] (set_list p ys A))"
    using pop_all [of _ _ p ys "[]"] assms(2) by (fastforce simp: map_of_set_list)
  moreover have "set_list p [] A = A"
    using map_of_SomeD [OF assms(2)] rel_distinct [OF assms(1)]
    by (auto simp: set_list_mid dest!: split_list)
  ultimately show ?thesis
    using emp_law [of t A p "[]"] assms(2) by (auto simp: set_list_twice)
qed

end

interpretation heap_lists: queue_lists "\<lambda>s :: 'a lists_scheme. rep (links s)"
  list_append list_push list_remove list_pop list_empty
  by unfold_locales (auto intro: rep_append rep_push rep_remove rep_pop rep_empty simp: rep_empty,
    simp add: rep_def)

subsection \<open>Refinement of whole runs\<close>

text \<open>
  Any sequence of calls, on the heap and on the abstract view. The abstract step is \<open>None\<close> when the
  caller breaks the rules of the component: inserting an element that is in a list already,
  removing one that is in none, popping an empty list, using a list that was not initialised.
\<close>

datatype lop = Init addr | Push addr addr | Append addr addr | Remove addr | Pop addr
  | Find addr addr | Len addr | Empty addr

datatype lout = Done | Elem addr | Found bool | Count u32

fun exec_lop :: "lop \<Rightarrow> 'a lists_scheme \<Rightarrow> (lout \<times> 'a lists_scheme) option" where
  "exec_lop (Init p) s = Some (Done, list_init p s)"
| "exec_lop (Push p x) s = Some (Done, list_push p x s)"
| "exec_lop (Append p x) s = Some (Done, list_append p x s)"
| "exec_lop (Remove x) s = Some (Done, list_remove x s)"
| "exec_lop (Pop p) s = (case list_pop p s of (x, s) \<Rightarrow> Some (Elem x, s))"
| "exec_lop (Find p x) s = map_option (\<lambda>b. (Found b, s)) (elem_find p x s)"
| "exec_lop (Len p) s = map_option (\<lambda>n. (Count n, s)) (list_len p s)"
| "exec_lop (Empty p) s = Some (Found (list_empty p s), s)"

fun spec_lop :: "lop \<Rightarrow> aview \<Rightarrow> (lout \<times> aview) option" where
  "spec_lop (Init p) A = (if p \<notin> set (all_cells A) \<and> p + 8 \<notin> set (all_cells A)
     then Some (Done, (p, []) # A) else None)"
| "spec_lop (Push p x) A = (case map_of A p of None \<Rightarrow> None | Some xs \<Rightarrow>
     if x \<in> set (all_cells A) then None else Some (Done, set_list p (x # xs) A))"
| "spec_lop (Append p x) A = (case map_of A p of None \<Rightarrow> None | Some xs \<Rightarrow>
     if x \<in> set (all_cells A) then None else Some (Done, set_list p (xs @ [x]) A))"
| "spec_lop (Remove x) A = (case find (\<lambda>(p, xs). x \<in> set xs) A of None \<Rightarrow> None
     | Some (p, xs) \<Rightarrow> Some (Done, set_list p (remove1 x xs) A))"
| "spec_lop (Pop p) A = (case map_of A p of Some (x # xs) \<Rightarrow> Some (Elem x, set_list p xs A)
     | _ \<Rightarrow> None)"
| "spec_lop (Find p x) A = map_option (\<lambda>xs. (Found (x \<in> set xs), A)) (map_of A p)"
| "spec_lop (Len p) A = map_option (\<lambda>xs. (Count (of_nat (length xs)), A)) (map_of A p)"
| "spec_lop (Empty p) A = map_option (\<lambda>xs. (Found (xs = []), A)) (map_of A p)"

fun run_lops :: "('o \<Rightarrow> 's \<Rightarrow> ('r \<times> 's) option) \<Rightarrow> 'o list \<Rightarrow> 's \<Rightarrow> ('r list \<times> 's) option" where
  "run_lops ex [] s = Some ([], s)"
| "run_lops ex (c # cs) s = (case ex c s of None \<Rightarrow> None
     | Some (r, s) \<Rightarrow> map_option (\<lambda>(rs, s). (r # rs, s)) (run_lops ex cs s))"

lemma map_of_mem:
  "distinct (all_cells A) \<Longrightarrow> (p, xs) \<in> set A \<Longrightarrow> map_of A p = Some xs"
proof (induction A)
  case (Cons a A)
  then show ?case
    using fst_all_cells [of p xs A] by (cases a) auto
qed simp

lemma list_ops_iflag [simp]:
  "iflag (list_insert_before b e s) = iflag s" "iflag (list_remove e s) = iflag s"
  "iflag (list_init p s) = iflag s"
  by (subst rest_ops, simp)+

lemma exec_lop_refines:
  assumes "rep (links s) A" and "spec_lop c A = Some (r, B)"
  shows "\<exists>t. exec_lop c s = Some (r, t) \<and> rep (links t) B \<and> iflag t = iflag s"
proof (cases c)
  case (Init p)
  then show ?thesis
    using assms rep_init [of s A p] by (auto split: if_splits)
next
  case (Push p x)
  then show ?thesis
    using assms rep_push [of s A p] by (auto simp: list_push_def split: if_splits option.splits)
next
  case (Append p x)
  then show ?thesis
    using assms rep_append [of s A p] by (auto simp: list_append_def split: if_splits option.splits)
next
  case (Remove x)
  then obtain p xs where f: "find (\<lambda>(p, xs). x \<in> set xs) A = Some (p, xs)"
    and B: "B = set_list p (remove1 x xs) A" "r = Done"
    using assms(2) by (auto split: option.splits)
  have "(p, xs) \<in> set A" "x \<in> set xs"
    using f by (auto simp: find_Some_iff) (metis nth_mem)
  then show ?thesis
    using rep_remove [OF assms(1), of p xs x] assms(1) B Remove by (auto simp: rep_def map_of_mem)
next
  case (Pop p)
  then show ?thesis
    using assms rep_pop [of s A p]
    by (cases "list_pop p s") (auto simp: list_pop_def Let_def split: option.splits list.splits)
qed (use assms in \<open>auto simp: rep_walks rep_empty\<close>)

subsection \<open>Properties\<close>

text \<open>C25: Any sequence of calls of the list component, on any number of lists threaded through one heap,
  returns what the same calls on HOL lists return and leaves a heap that represents the resulting
  lists, provided the callers keep the rules (no element in two lists, none removed that is not
  in a list, no pop from an empty list). In particular every walk ends. The interrupt flag is as before.\<close>

theorem list_runs_refine:
  assumes "rep (links s) A" and "run_lops spec_lop cs A = Some (rs, B)"
  shows "\<exists>t. run_lops exec_lop cs s = Some (rs, t) \<and> rep (links t) B \<and> iflag t = iflag s"
  using assms
proof (induction cs arbitrary: s A rs)
  case Nil
  then show ?case by auto
next
  case (Cons c cs)
  then obtain r A' rs' where c: "spec_lop c A = Some (r, A')" "rs = r # rs'"
    "run_lops spec_lop cs A' = Some (rs', B)"
    by (auto split: option.splits)
  obtain t where "exec_lop c s = Some (r, t)" "rep (links t) A'" "iflag t = iflag s"
    using exec_lop_refines [OF Cons.prems(1) c(1)] by blast
  with Cons.IH [of t A' rs'] c show ?case by fastforce
qed

text \<open>A heap with no list in it.\<close>

definition no_lists :: lists where
  "no_lists = cpu.extend cpu_reset (lists.fields (\<lambda>_. \<lparr>prev = NULL, nxt = NULL\<rparr>))"

theorem list_runs_refine_witness:
  "\<exists>t. run_lops exec_lop [Init 100, Init 200, Append 100 1000, Append 100 1008, Push 200 2000,
      Push 100 3000, Remove 1000, Len 100, Pop 100, Pop 100, Empty 100, Find 200 2000] no_lists =
    Some ([Done, Done, Done, Done, Done, Done, Done, Count 2, Elem 3000, Elem 1008, Found True,
      Found True], t) \<and> rep (links t) [(200, [2000]), (100, [])] \<and> iflag t = iflag no_lists"
proof (rule list_runs_refine [where A = "[]"])
  show "rep (links no_lists) []"
    by (simp add: rep_def)
qed (simp add: cells_def set_list_def)

text \<open>C26: A list used with append and pop is first in, first out: elements appended to an empty list
  come out in the order they went in, and the list is empty again afterwards. This is what makes
  the ready queue and the waiting queues fair.\<close>

theorem list_is_fifo:
  assumes "rep (links s) A" and "map_of A p = Some []" and "distinct ys"
    and "set ys \<inter> set (all_cells A) = {}"
  shows "\<exists>t. pop_n list_pop p (length ys) (fold (list_append p) ys s) = (ys, t) \<and>
    rep (links t) A \<and> list_empty p t"
  using assms by (rule heap_lists.fifo)

theorem list_is_fifo_witness:
  "\<exists>t. pop_n list_pop 100 3 (fold (list_append 100) [8, 16, 24] (list_init 100 no_lists)) =
    ([8, 16, 24], t) \<and> list_empty 100 t"
proof -
  have "rep (links (list_init 100 no_lists)) [(100, [])]"
    by (rule rep_init) (simp_all add: rep_def)
  from list_is_fifo [OF this, of 100 "[8, 16, 24]"] show ?thesis
    by (auto simp: cells_def numeral_3_eq_3)
qed

end
