(* ===== verification/CString.thy ===== *)
theory CString
  imports Prelude
begin

section \<open>Byte memory and the string library (lib/string.c)\<close>

text \<open>
  Memory is a partial map from addresses to bytes; an access to an address without a byte is a
  page fault. The functions of \<^verbatim>\<open>lib/string.c\<close> take addresses, so overlapping arguments are covered.
  Pointer arithmetic wraps at 32 bits. The loops that look for a terminating 0 need not end: they
  are partial functions, and their value is \<open>None\<close> when they never return. A failed \<^verbatim>\<open>assert\<close>
  (\<^verbatim>\<open>user_spin\<close> prints and spins) is the fault \<open>Panic\<close>. \<^verbatim>\<open>char\<close> is signed, as on x86.
\<close>

type_synonym mem = "addr \<Rightarrow> u8 option"

definition ld :: "mem \<Rightarrow> addr \<Rightarrow> u8 res" where
  "ld m a = (case m a of None \<Rightarrow> Inl Page_Fault | Some v \<Rightarrow> Inr v)"

definition st :: "mem \<Rightarrow> addr \<Rightarrow> u8 \<Rightarrow> mem res" where
  "st m a v = (case m a of None \<Rightarrow> Inl Page_Fault | Some _ \<Rightarrow> Inr (m(a \<mapsto> v)))"

subsection \<open>Memory functions\<close>

fun memset_loop :: "mem \<Rightarrow> addr \<Rightarrow> u8 \<Rightarrow> nat \<Rightarrow> mem res" where
  "memset_loop m dst v 0 = Inr m"
| "memset_loop m dst v (Suc sz) = bindR (st m dst v) (\<lambda>m. memset_loop m (dst + 1) v sz)"

definition memset :: "mem \<Rightarrow> addr \<Rightarrow> u8 \<Rightarrow> u32 \<Rightarrow> mem res" where
  "memset m dst v sz = bindR (ASSERT (dst \<noteq> NULL)) (\<lambda>_. memset_loop m dst v (unat sz))"

fun memcpy_loop :: "mem \<Rightarrow> addr \<Rightarrow> addr \<Rightarrow> nat \<Rightarrow> mem res" where
  "memcpy_loop m dst src 0 = Inr m"
| "memcpy_loop m dst src (Suc sz) =
     bindR (ld m src) (\<lambda>v. bindR (st m dst v) (\<lambda>m. memcpy_loop m (dst + 1) (src + 1) sz))"

definition memcpy :: "mem \<Rightarrow> addr \<Rightarrow> addr \<Rightarrow> u32 \<Rightarrow> mem res" where
  "memcpy m dst src sz =
     bindR (ASSERT (dst \<noteq> NULL \<and> src \<noteq> NULL)) (\<lambda>_. memcpy_loop m dst src (unat sz))"

fun memcmp_loop :: "mem \<Rightarrow> addr \<Rightarrow> addr \<Rightarrow> nat \<Rightarrow> int res" where
  "memcmp_loop m a b 0 = Inr 0"
| "memcmp_loop m a b (Suc sz) =
     bindR (ld m a) (\<lambda>x. bindR (ld m b) (\<lambda>y.
       if x \<noteq> y then Inr (if sint x > sint y then 1 else -1)
       else memcmp_loop m (a + 1) (b + 1) sz))"

definition memcmp :: "mem \<Rightarrow> addr \<Rightarrow> addr \<Rightarrow> u32 \<Rightarrow> int res" where
  "memcmp m a b sz =
     bindR (ASSERT (a \<noteq> NULL \<or> b \<noteq> NULL)) (\<lambda>_. memcmp_loop m a b (unat sz))"

subsection \<open>String functions\<close>

partial_function (option) strcpy_loop :: "mem \<Rightarrow> addr \<Rightarrow> addr \<Rightarrow> mem res option" where
  "strcpy_loop m dst src = (case ld m src of Inl e \<Rightarrow> Some (Inl e) | Inr v \<Rightarrow>
     (case st m dst v of Inl e \<Rightarrow> Some (Inl e) | Inr m \<Rightarrow>
       if v \<noteq> 0 then strcpy_loop m (dst + 1) (src + 1) else Some (Inr m)))"

definition strcpy :: "mem \<Rightarrow> addr \<Rightarrow> addr \<Rightarrow> (addr \<times> mem) res option" where
  "strcpy m dst src = (if dst \<noteq> NULL \<and> src \<noteq> NULL
     then map_option (\<lambda>r. bindR r (\<lambda>m. Inr (dst, m))) (strcpy_loop m dst src)
     else Some (Inl Panic))"

text \<open>The pointer after the loop \<^verbatim>\<open>while (*p++);\<close>, one past the terminating 0.\<close>

partial_function (option) skip_string :: "mem \<Rightarrow> addr \<Rightarrow> addr res option" where
  "skip_string m p = (case ld m p of Inl e \<Rightarrow> Some (Inl e) | Inr v \<Rightarrow>
     if v \<noteq> 0 then skip_string m (p + 1) else Some (Inr (p + 1)))"

definition strlen :: "mem \<Rightarrow> addr \<Rightarrow> u32 res option" where
  "strlen m str = (if str \<noteq> NULL
     then map_option (\<lambda>r. bindR r (\<lambda>p. Inr (p - str - 1))) (skip_string m str)
     else Some (Inl Panic))"

partial_function (option) strcmp_loop :: "mem \<Rightarrow> addr \<Rightarrow> addr \<Rightarrow> int res option" where
  "strcmp_loop m a b = (case ld m a of Inl e \<Rightarrow> Some (Inl e) | Inr x \<Rightarrow>
     (case ld m b of Inl e \<Rightarrow> Some (Inl e) | Inr y \<Rightarrow>
       if x \<noteq> 0 \<and> x = y then strcmp_loop m (a + 1) (b + 1)
       else Some (Inr (if sint x < sint y then -1 else if sint x > sint y then 1 else 0))))"

definition strcmp :: "mem \<Rightarrow> addr \<Rightarrow> addr \<Rightarrow> int res option" where
  "strcmp m a b = (if a \<noteq> NULL \<and> b \<noteq> NULL then strcmp_loop m a b else Some (Inl Panic))"

text \<open>
  \<^verbatim>\<open>*str == ch\<close> compares a signed \<^verbatim>\<open>char\<close> with a \<^verbatim>\<open>uint8_t\<close> after both are promoted to \<^verbatim>\<open>int\<close>.
\<close>

definition char_eq :: "u8 \<Rightarrow> u8 \<Rightarrow> bool" where
  "char_eq c ch \<longleftrightarrow> sint c = uint ch"

partial_function (option) strchr_loop :: "mem \<Rightarrow> addr \<Rightarrow> u8 \<Rightarrow> addr res option" where
  "strchr_loop m str ch = (case ld m str of Inl e \<Rightarrow> Some (Inl e) | Inr c \<Rightarrow>
     if c \<noteq> 0 then (if char_eq c ch then Some (Inr str) else strchr_loop m (str + 1) ch)
     else Some (Inr NULL))"

definition strchr :: "mem \<Rightarrow> addr \<Rightarrow> u8 \<Rightarrow> addr res option" where
  "strchr m str ch = (if str \<noteq> NULL then strchr_loop m str ch else Some (Inl Panic))"

partial_function (option) strrchr_loop :: "mem \<Rightarrow> addr \<Rightarrow> u8 \<Rightarrow> addr \<Rightarrow> addr res option" where
  "strrchr_loop m str ch last_char = (case ld m str of Inl e \<Rightarrow> Some (Inl e) | Inr c \<Rightarrow>
     if c \<noteq> 0 then strrchr_loop m (str + 1) ch (if char_eq c ch then str else last_char)
     else Some (Inr last_char))"

definition strrchr :: "mem \<Rightarrow> addr \<Rightarrow> u8 \<Rightarrow> addr res option" where
  "strrchr m str ch = (if str \<noteq> NULL then strrchr_loop m str ch NULL else Some (Inl Panic))"

definition strcat :: "mem \<Rightarrow> addr \<Rightarrow> addr \<Rightarrow> (addr \<times> mem) res option" where
  "strcat m dst src = (if dst \<noteq> NULL \<and> src \<noteq> NULL
     then (case skip_string m dst of None \<Rightarrow> None
       | Some (Inl e) \<Rightarrow> Some (Inl e)
       | Some (Inr str) \<Rightarrow>
           map_option (\<lambda>r. bindR r (\<lambda>m. Inr (dst, m))) (strcpy_loop m (str - 1) src))
     else Some (Inl Panic))"

partial_function (option) strchrs_loop :: "mem \<Rightarrow> addr \<Rightarrow> u8 \<Rightarrow> u32 \<Rightarrow> u32 res option" where
  "strchrs_loop m p ch ch_cnt = (case ld m p of Inl e \<Rightarrow> Some (Inl e) | Inr c \<Rightarrow>
     if c \<noteq> 0 then strchrs_loop m (p + 1) ch (if char_eq c ch then ch_cnt + 1 else ch_cnt)
     else Some (Inr ch_cnt))"

definition strchrs :: "mem \<Rightarrow> addr \<Rightarrow> u8 \<Rightarrow> u32 res option" where
  "strchrs m str ch = (if str \<noteq> NULL then strchrs_loop m str ch 0 else Some (Inl Panic))"

subsection \<open>Regions and strings in memory\<close>

text \<open>The bytes \<open>bs\<close> from \<open>a\<close> on; the 0-terminated string \<open>s\<close> at \<open>a\<close>; a writable region.\<close>

fun bytes_at :: "mem \<Rightarrow> addr \<Rightarrow> u8 list \<Rightarrow> bool" where
  "bytes_at m a [] \<longleftrightarrow> True"
| "bytes_at m a (b # bs) \<longleftrightarrow> m a = Some b \<and> bytes_at m (a + 1) bs"

definition cstr :: "mem \<Rightarrow> addr \<Rightarrow> u8 list \<Rightarrow> bool" where
  "cstr m a s \<longleftrightarrow> 0 \<notin> set s \<and> bytes_at m a (s @ [0])"

fun region :: "addr \<Rightarrow> nat \<Rightarrow> addr list" where
  "region a 0 = []"
| "region a (Suc n) = a # region (a + 1) n"

definition writable :: "mem \<Rightarrow> addr \<Rightarrow> nat \<Rightarrow> bool" where
  "writable m a n \<longleftrightarrow> (\<forall>b \<in> set (region a n). m b \<noteq> None)"

lemma ld_st_simps [simp]:
  "m a = Some v \<Longrightarrow> ld m a = Inr v"
  "m a = None \<Longrightarrow> ld m a = Inl Page_Fault"
  "m a \<noteq> None \<Longrightarrow> st m a w = Inr (m(a \<mapsto> w))"
  "m a = None \<Longrightarrow> st m a w = Inl Page_Fault"
  by (auto simp: ld_def st_def)

lemma cstr_simps [simp]:
  "cstr m a [] \<longleftrightarrow> m a = Some 0"
  "cstr m a (c # s) \<longleftrightarrow> c \<noteq> 0 \<and> m a = Some c \<and> cstr m (a + 1) s"
  by (auto simp: cstr_def)

lemma writable_simps [simp]:
  "writable m a 0"
  "writable m a (Suc n) \<longleftrightarrow> m a \<noteq> None \<and> writable m (a + 1) n"
  by (auto simp: writable_def)

lemma region_numeral [simp]: "region a (numeral n) = a # region (a + 1) (pred_numeral n)"
  by (simp add: numeral_eq_Suc)

lemma writable_numeral [simp]:
  "writable m a (numeral n) \<longleftrightarrow> m a \<noteq> None \<and> writable m (a + 1) (pred_numeral n)"
  by (simp add: numeral_eq_Suc)

lemma length_region [simp]: "length (region a n) = n"
  by (induction n arbitrary: a) auto

lemma region_nth: "i < n \<Longrightarrow> region a n ! i = a + of_nat i"
proof (induction n arbitrary: a i)
  case (Suc n)
  then show ?case by (cases i) (auto simp: algebra_simps)
qed simp

lemma region_map: "region a n = map (\<lambda>i. a + of_nat i) [0..<n]"
  by (rule nth_equalityI) (simp_all add: region_nth)

lemma set_region: "set (region a n) = (\<lambda>i. a + of_nat i) ` {..<n}"
  by (auto simp: region_map)

lemma region_append: "region a (n + k) = region a n @ region (a + of_nat n) k"
  by (induction n arbitrary: a) (auto simp: algebra_simps)

lemma bytes_at_append:
  "bytes_at m a (bs @ cs) \<longleftrightarrow> bytes_at m a bs \<and> bytes_at m (a + of_nat (length bs)) cs"
  by (induction bs arbitrary: a) (auto simp: algebra_simps)

lemma bytes_at_frame:
  "(\<And>b. b \<in> set (region a (length bs)) \<Longrightarrow> m' b = m b) \<Longrightarrow> bytes_at m' a bs = bytes_at m a bs"
  by (induction bs arbitrary: a) auto

lemma distinct_region: "n \<le> 2 ^ 32 \<Longrightarrow> distinct (region a n)"
proof (rule distinct_conv_nth [THEN iffD2], intro allI impI)
  fix i j
  assume "n \<le> 2 ^ 32" "i < length (region a n)" "j < length (region a n)" "i \<noteq> j"
  moreover have "of_nat i \<noteq> (of_nat j :: addr)" if "i < 2 ^ 32" "j < 2 ^ 32" "i \<noteq> j"
    using that by (simp add: word_of_nat_eq_iff take_bit_nat_eq_self)
  ultimately show "region a n ! i \<noteq> region a n ! j"
    by (simp add: region_nth)
qed

lemma writable_mono: "dom m \<subseteq> dom m' \<Longrightarrow> writable m a n \<Longrightarrow> writable m' a n"
  unfolding writable_def by (meson domIff subsetD)

lemma writable_upd: "m a = Some u \<Longrightarrow> writable (m(a \<mapsto> v)) b n = writable m b n"
  by (auto simp: writable_def)

lemma writable_append: "writable m a (n + k) \<longleftrightarrow> writable m a n \<and> writable m (a + of_nat n) k"
  by (auto simp: writable_def region_append)

text \<open>Storing a block of bytes.\<close>

fun store :: "mem \<Rightarrow> addr \<Rightarrow> u8 list \<Rightarrow> mem" where
  "store m a [] = m"
| "store m a (b # bs) = store (m(a \<mapsto> b)) (a + 1) bs"

lemma store_outside [simp]: "c \<notin> set (region a (length bs)) \<Longrightarrow> store m a bs c = m c"
  by (induction bs arbitrary: m a) auto

lemma store_bytes_at: "length bs \<le> 2 ^ 32 \<Longrightarrow> bytes_at (store m a bs) a bs"
proof (induction bs arbitrary: m a)
  case (Cons b bs)
  have "distinct (region a (length (b # bs)))"
    using Cons.prems by (rule distinct_region)
  with Cons show ?case by simp
qed simp

lemma store_append: "store m a (bs @ cs) = store (store m a bs) (a + of_nat (length bs)) cs"
  by (induction bs arbitrary: m a) (auto simp: algebra_simps)

lemma dom_store: "writable m a (length bs) \<Longrightarrow> dom (store m a bs) = dom m"
proof (induction bs arbitrary: m a)
  case (Cons b bs)
  then have "writable (m(a \<mapsto> b)) (a + 1) (length bs)"
    by (auto intro: writable_mono [of m])
  then have "dom (store (m(a \<mapsto> b)) (a + 1) bs) = dom (m(a \<mapsto> b))"
    by (rule Cons.IH)
  with Cons.prems show ?case
    by (simp add: insert_absorb domIff)
qed simp

lemma writable_store [simp]:
  "writable m b (length bs) \<Longrightarrow> writable (store m b bs) a n = writable m a n"
  using writable_mono [of m "store m b bs"] writable_mono [of "store m b bs" m]
  by (auto simp: dom_store)

lemma memset_store:
  "writable m dst n \<Longrightarrow> memset_loop m dst v n = Inr (store m dst (replicate n v))"
proof (induction n arbitrary: m dst)
  case (Suc n)
  then have "writable (m(dst \<mapsto> v)) (dst + 1) n"
    by (auto intro: writable_mono [of m])
  with Suc show ?case by simp
qed simp

lemma memcpy_store:
  assumes "bytes_at m src bs" and "writable m dst (length bs)"
    and "set (region dst (length bs)) \<inter> set (region src (length bs)) = {}"
  shows "memcpy_loop m dst src (length bs) = Inr (store m dst bs)"
  using assms
proof (induction bs arbitrary: m dst src)
  case (Cons b bs)
  have "bytes_at (m(dst \<mapsto> b)) (src + 1) bs"
    using Cons.prems by (subst bytes_at_frame [where m = m]) auto
  moreover have "writable (m(dst \<mapsto> b)) (dst + 1) (length bs)"
    using Cons.prems(2) by (auto intro: writable_mono [of m])
  ultimately show ?case
    using Cons by auto
qed simp

lemma strcpy_store:
  assumes "cstr m src s" and "writable m dst (Suc (length s))"
    and "set (region dst (Suc (length s))) \<inter> set (region src (Suc (length s))) = {}"
  shows "strcpy_loop m dst src = Some (Inr (store m dst (s @ [0])))"
  using assms
proof (induction s arbitrary: m dst src)
  case Nil
  then show ?case by (subst strcpy_loop.simps) auto
next
  case (Cons c s)
  have "cstr (m(dst \<mapsto> c)) (src + 1) s"
    using Cons.prems unfolding cstr_def
    by (subst bytes_at_frame [where m = m]) (auto simp: cstr_def)
  moreover have "writable (m(dst \<mapsto> c)) (dst + 1) (Suc (length s))"
    using Cons.prems(2) writable_mono [of m "m(dst \<mapsto> c)"] by (auto simp del: writable_simps(2)
      simp add: writable_simps(2) [of _ _ "Suc _"])
  moreover have "set (region (dst + 1) (Suc (length s))) \<inter> set (region (src + 1) (Suc (length s))) = {}"
    using Cons.prems(3) region.simps(2) [of dst "Suc (length s)"]
      region.simps(2) [of src "Suc (length s)"] by (auto simp del: region.simps)
  ultimately have "strcpy_loop (m(dst \<mapsto> c)) (dst + 1) (src + 1) =
      Some (Inr (store (m(dst \<mapsto> c)) (dst + 1) (s @ [0])))"
    by (rule Cons.IH)
  with Cons.prems show ?case
    by (subst strcpy_loop.simps) auto
qed

lemma skip_string_cstr:
  "cstr m a s \<Longrightarrow> skip_string m a = Some (Inr (a + of_nat (length s) + 1))"
proof (induction s arbitrary: a)
  case Nil
  then show ?case by (subst skip_string.simps) simp
next
  case (Cons c s)
  then show ?case by (subst skip_string.simps) (simp add: algebra_simps)
qed

lemma strlen_cstr: "cstr m a s \<Longrightarrow> a \<noteq> NULL \<Longrightarrow> strlen m a = Some (Inr (of_nat (length s)))"
  by (simp add: strlen_def skip_string_cstr)

text \<open>The comparison of two strings as sequences of signed characters.\<close>

fun cmp_spec :: "u8 list \<Rightarrow> u8 list \<Rightarrow> int" where
  "cmp_spec [] [] = 0"
| "cmp_spec [] (d # t) = (if 0 < sint d then -1 else 1)"
| "cmp_spec (c # s) [] = (if sint c < 0 then -1 else 1)"
| "cmp_spec (c # s) (d # t) = (if c = d then cmp_spec s t else if sint c < sint d then -1 else 1)"

lemma sint_eq_iff [simp]: "sint (x :: 'a::len word) = sint y \<longleftrightarrow> x = y"
  by (auto intro: signed_word_eqI)

lemma sint_nz: "(x :: u8) \<noteq> 0 \<Longrightarrow> sint x < 0 \<or> 0 < sint x"
  using sint_eq_iff [of x 0] by (auto simp del: sint_eq_iff)

lemma strcmp_cstr:
  "cstr m a s \<Longrightarrow> cstr m b t \<Longrightarrow> strcmp_loop m a b = Some (Inr (cmp_spec s t))"
proof (induction s t arbitrary: a b rule: cmp_spec.induct)
  case (4 c s d t)
  then show ?case
    by (subst strcmp_loop.simps) (auto simp: not_less_iff_gr_or_eq)
qed (subst strcmp_loop.simps; auto dest: sint_nz)+

lemma cmp_spec_0: "cmp_spec s t = 0 \<longleftrightarrow> s = t"
  by (induction s t rule: cmp_spec.induct) auto

lemma cmp_spec_swap: "0 \<notin> set s \<Longrightarrow> 0 \<notin> set t \<Longrightarrow> cmp_spec t s = - cmp_spec s t"
  by (induction s t rule: cmp_spec.induct) (auto dest: sint_nz simp: not_less_iff_gr_or_eq)

text \<open>The last position of a character.\<close>

fun last_occ :: "u8 list \<Rightarrow> u8 \<Rightarrow> nat option" where
  "last_occ [] ch = None"
| "last_occ (c # s) ch = (case last_occ s ch of Some i \<Rightarrow> Some (Suc i)
     | None \<Rightarrow> if char_eq c ch then Some 0 else None)"

lemma last_occ_Some:
  "last_occ s ch = Some i \<Longrightarrow>
     i < length s \<and> char_eq (s ! i) ch \<and> (\<forall>j. i < j \<and> j < length s \<longrightarrow> \<not> char_eq (s ! j) ch)"
proof (induction s arbitrary: i)
  case (Cons c s)
  have none: "last_occ s ch = None \<Longrightarrow> j < length s \<Longrightarrow> \<not> char_eq (s ! j) ch" for j
    by (induction s arbitrary: j) (auto simp: less_Suc_eq_0_disj split: option.splits if_splits)
  from Cons show ?case
    by (auto simp: less_Suc_eq_0_disj none split: option.splits if_splits)
qed simp

lemma strrchr_cstr:
  "cstr m a s \<Longrightarrow> strrchr_loop m a ch lst = Some (Inr
     (case last_occ s ch of None \<Rightarrow> lst | Some i \<Rightarrow> a + of_nat i))"
proof (induction s arbitrary: a lst)
  case Nil
  then show ?case by (subst strrchr_loop.simps) simp
next
  case (Cons c s)
  then show ?case
    by (subst strrchr_loop.simps) (auto simp: algebra_simps split: option.splits)
qed

lemma sint_uint_8: "sint (c :: u8) = uint c - 256 * of_bool (bit c 7)"
  using uint_lt2p [of c]
  by (simp add: sint_uint signed_take_bit_eq_take_bit_minus bit_uint_iff take_bit_int_eq_self)

text \<open>A byte below 128 is found where it stands; a byte from 128 on is never found.\<close>

lemma char_eq_iff: "char_eq c ch \<longleftrightarrow> c = ch \<and> \<not> bit ch 7"
proof -
  have "sint c \<noteq> uint ch" if "bit c 7"
  proof -
    have "sint c < 0"
      using that uint_lt2p [of c] by (simp add: sint_uint_8)
    then show ?thesis
      using uint_ge_0 [of ch] by linarith
  qed
  then show ?thesis
    unfolding char_eq_def by (cases "bit c 7") (auto simp: sint_uint_8 dest: word_uint_eqI)
qed

subsection \<open>Properties\<close>

text \<open>C37: \<^verbatim>\<open>strcpy\<close> and \<^verbatim>\<open>strcat\<close> return on 0-terminated arguments. Copying \<open>t\<close> to a buffer puts the string
  \<open>t\<close> there; appending to a buffer holding \<open>s\<close> leaves \<open>s @ t\<close>; nothing else in memory changes and
  the result is the destination. The destination must have room and not overlap the source.\<close>

theorem strcat_concatenates:
  assumes "cstr m dst s" and "cstr m src t" and "dst \<noteq> NULL" and "src \<noteq> NULL"
    and "writable m dst (length s + length t + 1)" and "length s + length t < 2 ^ 32"
    and "set (region dst (length s + length t + 1)) \<inter> set (region src (length t + 1)) = {}"
  shows "\<exists>m'. strcat m dst src = Some (Inr (dst, m')) \<and> cstr m' dst (s @ t) \<and>
    (\<forall>a. a \<notin> set (region dst (length s + length t + 1)) \<longrightarrow> m' a = m a)"
proof -
  let ?d = "dst + of_nat (length s)"
  let ?m' = "store m ?d (t @ [0])"
  have reg: "region dst (Suc (length s + length t)) = region dst (length s) @ region ?d (Suc (length t))"
    using region_append [of dst "length s" "Suc (length t)"] by (simp del: region.simps)
  have w: "writable m ?d (Suc (length t))"
    using assms(5) reg by (auto simp: writable_def simp del: region.simps)
  have "strcpy_loop m ?d src = Some (Inr ?m')"
    using assms(2,7) w by (intro strcpy_store) (auto simp: reg simp del: region.simps)
  then have run: "strcat m dst src = Some (Inr (dst, ?m'))"
    using assms(1,3,4) by (simp add: strcat_def skip_string_cstr)
  have frame: "?m' a = m a" if "a \<notin> set (region ?d (Suc (length t)))" for a
    using that by simp
  have dis: "distinct (region dst (length s + length t + 1))"
    using assms(6) by (intro distinct_region) simp
  have "bytes_at m dst s" "0 \<notin> set s" "0 \<notin> set t"
    using assms(1,2) by (auto simp: cstr_def bytes_at_append)
  moreover have "bytes_at ?m' dst s = bytes_at m dst s"
    using dis by (intro bytes_at_frame frame) (auto simp: reg simp del: region.simps)
  moreover have "bytes_at ?m' ?d (t @ [0])"
    using assms(6) by (intro store_bytes_at) simp
  ultimately have "cstr ?m' dst (s @ t)"
    by (auto simp: cstr_def bytes_at_append add.assoc simp flip: append_assoc)
  with run frame show ?thesis
    by (auto simp: reg simp del: region.simps)
qed

text \<open>A small memory with the strings ``ab'' at 16 and ``c'' at 32.\<close>

definition demo_mem :: mem where
  "demo_mem = (\<lambda>a. if a = 16 then Some 97 else if a = 17 then Some 98
     else if a = 32 then Some 99 else if 16 \<le> a \<and> a < 64 then Some 0 else None)"

theorem strcat_concatenates_witness:
  "\<exists>m'. strcat demo_mem 16 32 = Some (Inr (16, m')) \<and> cstr m' 16 [97, 98, 99]"
  using strcat_concatenates [of demo_mem 16 "[97, 98]" 32 "[99]"]
  by (auto simp: demo_mem_def)

text \<open>\<^verbatim>\<open>strcmp\<close> returns on 0-terminated strings, answers 0 exactly for equal strings, and swapping its
  arguments swaps the sign.\<close>

theorem strcmp_decides_equality:
  assumes "cstr m a s" and "cstr m b t" and "a \<noteq> NULL" and "b \<noteq> NULL"
  shows "\<exists>r. strcmp m a b = Some (Inr r) \<and> r \<in> {-1, 0, 1} \<and> (r = 0 \<longleftrightarrow> s = t) \<and>
    strcmp m b a = Some (Inr (- r))"
proof -
  have "0 \<notin> set s" "0 \<notin> set t"
    using assms(1,2) by (auto simp: cstr_def)
  moreover have "cmp_spec s t \<in> {-1, 0, 1}"
    by (induction s t rule: cmp_spec.induct) auto
  ultimately show ?thesis
    using assms strcmp_cstr [OF assms(1,2)] strcmp_cstr [OF assms(2,1)] cmp_spec_swap [of s t]
    by (simp add: strcmp_def cmp_spec_0)
qed

theorem strcmp_decides_equality_witness:
  "\<exists>r. strcmp demo_mem 16 32 = Some (Inr r) \<and> r \<noteq> 0 \<and> strcmp demo_mem 32 16 = Some (Inr (- r))"
  using strcmp_decides_equality [of demo_mem 16 "[97, 98]" 32 "[99]"]
  by (auto simp: demo_mem_def)

text \<open>\<^verbatim>\<open>memcpy\<close> of \<open>n\<close> readable bytes to a disjoint writable region returns, makes the destination equal to
  the source and changes nothing else; the source keeps its contents.\<close>

theorem memcpy_copies:
  assumes "bytes_at m src bs" and "writable m dst (length bs)" and "length bs < 2 ^ 32"
    and "set (region dst (length bs)) \<inter> set (region src (length bs)) = {}"
    and "dst \<noteq> NULL" and "src \<noteq> NULL"
  shows "\<exists>m'. memcpy m dst src (of_nat (length bs)) = Inr m' \<and> bytes_at m' dst bs \<and>
    bytes_at m' src bs \<and> (\<forall>a. a \<notin> set (region dst (length bs)) \<longrightarrow> m' a = m a)"
proof -
  have "unat (of_nat (length bs) :: u32) = length bs"
    using assms(3) by (simp add: unat_of_nat take_bit_nat_eq_self)
  then have "memcpy m dst src (of_nat (length bs)) = Inr (store m dst bs)"
    using assms by (simp add: memcpy_def memcpy_store)
  moreover have "bytes_at (store m dst bs) src bs"
    using assms(1,4) by (subst bytes_at_frame [where m = m]) (auto intro!: store_outside)
  moreover have "bytes_at (store m dst bs) dst bs"
    using assms(3) by (intro store_bytes_at) simp
  ultimately show ?thesis
    using store_outside by blast
qed

theorem memcpy_copies_witness:
  "\<exists>m'. memcpy demo_mem 40 16 2 = Inr m' \<and> bytes_at m' 40 [97, 98] \<and> bytes_at m' 16 [97, 98]"
  using memcpy_copies [of demo_mem 16 "[97, 98]" 40]
  by (auto simp: demo_mem_def)

end
