(* ===== verification/Stdio.thy ===== *)
theory Stdio
  imports CString
begin

section \<open>Formatted output (lib/stdio.c)\<close>

text \<open>
  \<^verbatim>\<open>itoa\<close> and \<^verbatim>\<open>vsprintf\<close> on the byte memory of the string library. The variable arguments are words
  on the stack: \<^verbatim>\<open>va_arg\<close> first advances the pointer by 4 and then reads there. \<^verbatim>\<open>vsprintf\<close> writes the
  formatted text but no terminating 0 of its own; \<open>vsprintf_renders\<close> below states what it computes
  in a buffer that was cleared before, as in \<^verbatim>\<open>printf\<close> and \<^verbatim>\<open>printk\<close>.
\<close>

definition bindO :: "'a res option \<Rightarrow> ('a \<Rightarrow> 'b res option) \<Rightarrow> 'b res option" where
  "bindO r f = Option.bind r (\<lambda>r. case r of Inl e \<Rightarrow> Some (Inl e) | Inr a \<Rightarrow> f a)"

lemma bindO_simps [simp]:
  "bindO (Some (Inr a)) f = f a" "bindO (Some (Inl e)) f = Some (Inl e)" "bindO None f = None"
  by (simp_all add: bindO_def)

lemma bindO_mono [partial_function_mono]:
  assumes "mono_option B" and "\<And>y. mono_option (\<lambda>f. C y f)"
  shows "mono_option (\<lambda>f. bindO (B f) (\<lambda>y. C y f))"
  unfolding bindO_def
proof (intro bind_mono assms(1))
  show "mono_option (\<lambda>f. case y of Inl e \<Rightarrow> Some (Inl e) | Inr a \<Rightarrow> C a f)" for y
    by (cases y) (simp_all add: assms(2) option.const_mono)
qed

subsection \<open>Integers to text\<close>

text \<open>With base 0 the division traps, with base 1 the recursion never ends.\<close>

function itoa :: "u32 \<Rightarrow> u8 \<Rightarrow> mem \<Rightarrow> addr \<Rightarrow> (mem \<times> addr) res" where
  "itoa v base mem buf_ptr = (if base < 2 then Inl Diverges else
     let m = v mod ucast base; i = v div ucast base in
     bindR (if i \<noteq> 0 then itoa i base mem buf_ptr else Inr (mem, buf_ptr)) (\<lambda>(mem, buf_ptr).
     bindR (st mem buf_ptr (if m < 10 then ucast (m + 48) else ucast (m - 10 + 65))) (\<lambda>mem.
     Inr (mem, buf_ptr + 1))))"
  by pat_completeness auto
termination
proof (relation "measure (\<lambda>(v, _). unat v)")
  fix v :: u32 and base :: u8 and mem buf_ptr m i
  assume "\<not> base < 2" "i = v div ucast base" "i \<noteq> 0"
  then have "1 < unat base" and "v \<noteq> 0"
    by (auto simp: word_less_nat_alt)
  then show "((i, base, mem, buf_ptr), (v, base, mem, buf_ptr)) \<in> measure (\<lambda>(v, _). unat v)"
    using \<open>i = _\<close> by (simp add: unat_div unat_gt_0)
qed auto

declare itoa.simps [simp del]

subsection \<open>The format interpreter\<close>

definition ld32 :: "mem \<Rightarrow> addr \<Rightarrow> u32 res" where
  "ld32 m a = bindR (ld m a) (\<lambda>b0. bindR (ld m (a + 1)) (\<lambda>b1. bindR (ld m (a + 2)) (\<lambda>b2.
     bindR (ld m (a + 3)) (\<lambda>b3.
     Inr (ucast b0 OR push_bit 8 (ucast b1) OR push_bit 16 (ucast b2) OR push_bit 24 (ucast b3))))))"

partial_function (option) vsprintf_loop ::
  "mem \<Rightarrow> addr \<Rightarrow> addr \<Rightarrow> u8 \<Rightarrow> addr \<Rightarrow> (mem \<times> addr) res option" where
  "vsprintf_loop m buf_ptr index_ptr index_char ap =
     (if index_char = 0 then Some (Inr (m, buf_ptr))
      else if index_char \<noteq> 37 then
        bindO (Some (st m buf_ptr index_char)) (\<lambda>m.
        bindO (Some (ld m (index_ptr + 1))) (\<lambda>index_char.
        vsprintf_loop m (buf_ptr + 1) (index_ptr + 1) index_char ap))
      else
        bindO (Some (ld m (index_ptr + 1))) (\<lambda>index_char.
        let index_ptr = index_ptr + 1 in
        if index_char = 115 then
          bindO (Some (ld32 m (ap + 4))) (\<lambda>arg_str.
          bindO (strcpy m buf_ptr arg_str) (\<lambda>(_, m).
          bindO (strlen m arg_str) (\<lambda>n.
          bindO (Some (ld m (index_ptr + 1))) (\<lambda>index_char.
          vsprintf_loop m (buf_ptr + n) (index_ptr + 1) index_char (ap + 4)))))
        else if index_char = 99 then
          bindO (Some (ld m (ap + 4))) (\<lambda>c.
          bindO (Some (st m buf_ptr c)) (\<lambda>m.
          bindO (Some (ld m (index_ptr + 1))) (\<lambda>index_char.
          vsprintf_loop m (buf_ptr + 1) (index_ptr + 1) index_char (ap + 4))))
        else if index_char = 100 then
          bindO (Some (ld32 m (ap + 4))) (\<lambda>arg_int.
          bindO (Some (if sint arg_int < 0 then bindR (st m buf_ptr 45) (\<lambda>m. Inr (m, buf_ptr + 1))
                       else Inr (m, buf_ptr))) (\<lambda>(m, buf_ptr).
          bindO (Some (itoa (if sint arg_int < 0 then 0 - arg_int else arg_int) 10 m buf_ptr))
            (\<lambda>(m, buf_ptr).
          bindO (Some (ld m (index_ptr + 1))) (\<lambda>index_char.
          vsprintf_loop m buf_ptr (index_ptr + 1) index_char (ap + 4)))))
        else if index_char = 120 then
          bindO (Some (ld32 m (ap + 4))) (\<lambda>arg_int.
          bindO (Some (itoa arg_int 16 m buf_ptr)) (\<lambda>(m, buf_ptr).
          bindO (Some (ld m (index_ptr + 1))) (\<lambda>index_char.
          vsprintf_loop m buf_ptr (index_ptr + 1) index_char (ap + 4))))
        else vsprintf_loop m buf_ptr index_ptr index_char ap))"

definition vsprintf :: "mem \<Rightarrow> addr \<Rightarrow> addr \<Rightarrow> addr \<Rightarrow> (u32 \<times> mem) res option" where
  "vsprintf m str format ap =
     bindO (Some (ld m format)) (\<lambda>index_char.
     bindO (vsprintf_loop m str format index_char ap) (\<lambda>(m, _).
     bindO (strlen m str) (\<lambda>n. Some (Inr (n, m)))))"

text \<open>\<^verbatim>\<open>va_start\<close> makes the argument pointer the address of the last fixed parameter.\<close>

definition sprintf :: "mem \<Rightarrow> addr \<Rightarrow> addr \<Rightarrow> addr \<Rightarrow> (u32 \<times> mem) res option" where
  "sprintf m buf format format_slot = vsprintf m buf format format_slot"

subsection \<open>What the digits mean\<close>

text \<open>The digits of a number in a base, most significant first, and their value.\<close>

definition digit :: "nat \<Rightarrow> u8" where
  "digit d = of_nat (if d < 10 then d + 48 else d - 10 + 65)"

definition digit_val :: "u8 \<Rightarrow> nat" where
  "digit_val c = (if c < 58 then unat c - 48 else unat c - 55)"

function digits :: "nat \<Rightarrow> nat \<Rightarrow> u8 list" where
  "digits b v = (if b < 2 then []
     else (if v div b = 0 then [] else digits b (v div b)) @ [digit (v mod b)])"
  by pat_completeness auto
termination
  by (relation "measure snd") (auto intro!: div_less_dividend Nat.gr0I)

declare digits.simps [simp del]

definition number :: "nat \<Rightarrow> u8 list \<Rightarrow> nat" where
  "number b ds = foldl (\<lambda>a c. a * b + digit_val c) 0 ds"

lemma digit_val_digit [simp]: "d < 36 \<Longrightarrow> digit_val (digit d) = d"
  by (auto simp: digit_def digit_val_def word_less_nat_alt unat_of_nat take_bit_nat_eq_self)

lemma number_digits: "2 \<le> b \<Longrightarrow> b \<le> 36 \<Longrightarrow> number b (digits b v) = v"
proof (induction b v rule: digits.induct)
  case (1 b v)
  have "v mod b < 36"
    using "1.prems" mod_less_divisor [of b v] by linarith
  with 1 show ?case
    using div_mult_mod_eq [of v b] by (subst digits.simps) (auto simp: number_def div_eq_0_iff)
qed

lemma length_digits: "2 \<le> b \<Longrightarrow> v < b ^ n \<Longrightarrow> 0 < n \<Longrightarrow> length (digits b v) \<le> n"
proof (induction n arbitrary: v)
  case (Suc n)
  show ?case
  proof (cases "v div b = 0")
    case False
    with Suc have "0 < n" "v div b < b ^ n"
      by (auto simp: div_less_iff_less_mult mult.commute intro: Nat.gr0I)
    with Suc False show ?thesis
      by (subst digits.simps) simp
  qed (simp add: digits.simps [of b v])
qed simp

lemma digits_nz: "2 \<le> b \<Longrightarrow> b \<le> 36 \<Longrightarrow> 0 \<notin> set (digits b v)"
proof (induction b v rule: digits.induct)
  case (1 b v)
  have "digit d \<noteq> 0" if "d < 36" for d
    using that by (auto simp: digit_def word_eq_iff_unsigned unat_of_nat take_bit_nat_eq_self
      simp flip: unat_eq_0)
  moreover have "v mod b < 36"
    using "1.prems" mod_less_divisor [of b v] by linarith
  ultimately show ?case
    using 1 by (subst digits.simps) auto
qed

lemma ucast_of_nat_8 [simp]: "(ucast (of_nat n :: u32) :: u8) = of_nat n"
  by transfer (simp add: take_bit_eq_mod mod_mod_cancel)

lemma digit_code:
  assumes "d < 36"
  shows "(if (of_nat d :: u32) < 10 then ucast (of_nat d + 48 :: u32)
    else ucast (of_nat d - 10 + 65 :: u32)) = digit d"
proof -
  have "(of_nat d :: u32) < 10 \<longleftrightarrow> d < 10"
    using assms by (simp add: word_less_nat_alt unat_of_nat take_bit_nat_eq_self)
  moreover have "of_nat d + 48 = (of_nat (d + 48) :: u32)"
    by simp
  moreover have "of_nat d - 10 + 65 = (of_nat (d - 10 + 65) :: u32)" if "\<not> d < 10"
    using that by (simp add: of_nat_diff)
  ultimately show ?thesis
    by (cases "d < 10")
      (simp_all only: digit_def ucast_of_nat_8 if_True if_False not_False_eq_True)
qed

lemma itoa_store:
  assumes "2 \<le> unat base" and "unat base \<le> 36"
    and "writable m buf (length (digits (unat base) (unat v)))"
  shows "itoa v base m buf = Inr (store m buf (digits (unat base) (unat v)),
    buf + of_nat (length (digits (unat base) (unat v))))"
  using assms
proof (induction v base m buf rule: itoa.induct)
  case (1 v base m buf)
  let ?b = "unat base" and ?v = "unat v"
  let ?q = "digits ?b (?v div ?b)"
  have b: "\<not> base < 2"
    using "1.prems"(1) by (simp add: word_less_nat_alt)
  have q: "v div ucast base = 0 \<longleftrightarrow> ?v div ?b = 0"
    using unat_eq_0 [of "v div ucast base"] unat_div [of v "ucast base"] by simp
  have "?v mod ?b < 36"
    using "1.prems" mod_less_divisor [of ?b ?v] by linarith
  have m: "v mod ucast base = of_nat (?v mod ?b)"
    by (simp flip: unat_ucast_widen(1) unat_mod)
  have c: "(if v mod ucast base < 10 then ucast (v mod ucast base + 48)
      else ucast (v mod ucast base - 10 + 65)) = digit (?v mod ?b)"
    unfolding m using \<open>?v mod ?b < 36\<close> by (rule digit_code)
  have unf: "itoa v base m buf =
      bindR (if ?v div ?b = 0 then Inr (m, buf) else itoa (v div ucast base) base m buf)
        (\<lambda>(m, p). bindR (st m p (digit (?v mod ?b))) (\<lambda>m. Inr (m, p + 1)))"
    unfolding itoa.simps [of v] Let_def c using b q by simp
  show ?case
  proof (cases "?v div ?b = 0")
    case True
    then show ?thesis
      using "1.prems" unf digits.simps [of ?b ?v] by (simp add: fun_upd_def)
  next
    case False
    have d: "digits ?b ?v = ?q @ [digit (?v mod ?b)]"
      using False "1.prems"(1) digits.simps [of ?b ?v] by simp
    have w: "writable m buf (length ?q)" "writable m (buf + of_nat (length ?q)) 1"
      using "1.prems"(3) writable_append [of m buf "length ?q" 1] by (auto simp: d)
    then have "writable (store m buf ?q) (buf + of_nat (length ?q)) 1"
      by (simp del: One_nat_def)
    moreover have "itoa (v div ucast base) base m buf = Inr (store m buf ?q, buf + of_nat (length ?q))"
      using "1.IH" [OF b refl refl] "1.prems" w False q by (simp add: unat_div)
    ultimately show ?thesis
      using False unf by (simp add: d store_append algebra_simps fun_upd_def)
  qed
qed

subsection \<open>What the format interpreter computes\<close>

text \<open>
  The reference: the text of a format (without its terminating 0) for argument words \<open>ws\<close>, with
  \<open>strs\<close> giving the string at an address. A percent sign before an unknown character is dropped
  and the character is taken as it is (a second percent sign starts a new directive).
\<close>

definition signed_text :: "u32 \<Rightarrow> u8 list" where
  "signed_text w = (if sint w < 0 then 45 # digits 10 (unat (0 - w)) else digits 10 (unat w))"

fun render :: "(addr \<Rightarrow> u8 list) \<Rightarrow> u8 list \<Rightarrow> u32 list \<Rightarrow> u8 list option" where
  "render strs [] ws = Some []"
| "render strs [c] ws = (if c \<noteq> 37 then Some [c] else Some [])"
| "render strs (c # d # f) ws = (if c \<noteq> 37 then map_option (\<lambda>out. c # out) (render strs (d # f) ws)
     else if d \<in> {115, 99, 100, 120} then (case ws of [] \<Rightarrow> None | w # ws \<Rightarrow>
       map_option (\<lambda>out. (if d = 115 then strs w else if d = 99 then [ucast w]
         else if d = 100 then signed_text w else digits 16 (unat w)) @ out) (render strs f ws))
     else render strs (d # f) ws)"

text \<open>The argument words from \<open>a\<close> on, and the addresses the interpreter reads.\<close>

fun words_at :: "mem \<Rightarrow> addr \<Rightarrow> u32 list \<Rightarrow> bool" where
  "words_at m a [] \<longleftrightarrow> True"
| "words_at m a (w # ws) \<longleftrightarrow> ld32 m a = Inr w \<and> words_at m (a + 4) ws"

definition word_of_bytes :: "u8 \<Rightarrow> u8 \<Rightarrow> u8 \<Rightarrow> u8 \<Rightarrow> u32" where
  "word_of_bytes b0 b1 b2 b3 =
     ucast b0 OR push_bit 8 (ucast b1) OR push_bit 16 (ucast b2) OR push_bit 24 (ucast b3)"

lemma ld32_Inr:
  "ld32 m a = Inr w \<longleftrightarrow> (\<exists>b0 b1 b2 b3. m a = Some b0 \<and> m (a + 1) = Some b1 \<and>
     m (a + 2) = Some b2 \<and> m (a + 3) = Some b3 \<and> w = word_of_bytes b0 b1 b2 b3)"
  by (auto simp: ld32_def ld_def word_of_bytes_def res_iffs split: option.splits)

lemma ld32_low: "ld32 m a = Inr w \<Longrightarrow> ld m a = Inr (ucast w)"
proof -
  have "ucast (word_of_bytes b0 b1 b2 b3) = b0" for b0 b1 b2 b3
  proof (rule bit_word_eqI)
    fix n assume "n < LENGTH(8)"
    then show "bit (ucast (word_of_bytes b0 b1 b2 b3) :: u8) n \<longleftrightarrow> bit b0 n"
      unfolding word_of_bytes_def word_bits by auto
  qed
  then show "ld32 m a = Inr w \<Longrightarrow> ld m a = Inr (ucast w)"
    by (auto simp: ld32_Inr)
qed

lemma region_4: "region a 4 = [a, a + 1, a + 2, a + 3]"
  by (simp add: eval_nat_numeral add.commute)

lemma words_at_frame:
  "(\<And>b. b \<in> set (region a (4 * length ws)) \<Longrightarrow> m' b = m b) \<Longrightarrow> words_at m' a ws = words_at m a ws"
proof (induction ws arbitrary: a)
  case (Cons w ws)
  have "region a (4 * length (w # ws)) = region a 4 @ region (a + 4) (4 * length ws)"
    using region_append [of a 4 "4 * length ws"] by simp
  with Cons show ?case by (simp add: region_4 ld32_Inr)
qed simp

text \<open>A step that wrote the text \<open>out\<close> at \<open>buf\<close>, and perhaps a 0 behind it, and nothing else.\<close>

definition wrote :: "mem \<Rightarrow> addr \<Rightarrow> u8 list \<Rightarrow> mem \<Rightarrow> bool" where
  "wrote m buf out m' \<longleftrightarrow> dom m' = dom m \<and> bytes_at m' buf out \<and>
     (\<forall>a. a \<notin> set (region buf (length out)) \<longrightarrow>
        m' a = m a \<or> a = buf + of_nat (length out) \<and> m' a = Some 0)"

lemma wrote_store:
  "length out < 2 ^ 32 \<Longrightarrow> writable m buf (length out) \<Longrightarrow> wrote m buf out (store m buf out)"
  by (simp add: wrote_def dom_store store_bytes_at)

lemma wrote_store_0:
  assumes "length out < 2 ^ 32" and "writable m buf (Suc (length out))"
  shows "wrote m buf out (store m buf (out @ [0]))"
proof -
  have "bytes_at (store m buf (out @ [0])) buf (out @ [0])"
    using assms(1) by (intro store_bytes_at) simp
  moreover have "store m buf (out @ [0]) a = m a"
    if "a \<notin> set (region buf (length out))" "a \<noteq> buf + of_nat (length out)" for a
    using that region_append [of buf "length out" 1] by (intro store_outside) simp
  ultimately show ?thesis
    using assms(2) dom_store [of m buf "out @ [0]"]
    by (auto simp: wrote_def bytes_at_append simp del: region.simps)
qed

lemma wrote_append:
  assumes "wrote m buf xs m1" and "wrote m1 (buf + of_nat (length xs)) ys m2"
    and "length xs + length ys < 2 ^ 32"
  shows "wrote m buf (xs @ ys) m2"
proof -
  let ?e = "buf + of_nat (length xs)" and ?r = "region buf (length xs)"
  have reg: "region buf (Suc (length xs + length ys)) = ?r @ region ?e (Suc (length ys))"
    using region_append [of buf "length xs" "Suc (length ys)"] by (simp del: region.simps)
  have "distinct (region buf (Suc (length xs + length ys)))"
    using assms(3) by (intro distinct_region) simp
  then have dis: "set ?r \<inter> set (region ?e (Suc (length ys))) = {}"
    by (simp add: reg del: region.simps)
  have e: "?e + of_nat (length ys) \<in> set (region ?e (Suc (length ys)))"
    unfolding set_region by (rule image_eqI [of _ _ "length ys"]) simp_all
  have sub: "set (region ?e (length ys)) \<subseteq> set (region ?e (Suc (length ys)))"
    unfolding set_region by (intro image_mono) auto
  have "m2 a = m1 a" if "a \<in> set ?r" for a
  proof -
    have "a \<notin> set (region ?e (length ys))" "a \<noteq> ?e + of_nat (length ys)"
      using that dis e sub by blast+
    then show ?thesis
      using assms(2) unfolding wrote_def by blast
  qed
  then have "bytes_at m2 buf xs"
    using assms(1) bytes_at_frame [of buf xs m2 m1] by (simp add: wrote_def)
  moreover have "m2 a = m a \<or> a = buf + of_nat (length (xs @ ys)) \<and> m2 a = Some 0"
    if "a \<notin> set (region buf (length (xs @ ys)))" for a
  proof -
    have "a \<notin> set ?r" "a \<notin> set (region ?e (length ys))"
      using that region_append [of buf "length xs" "length ys"] by simp_all
    then have "m1 a = m a \<or> a = ?e \<and> m1 a = Some 0"
      and "m2 a = m1 a \<or> a = ?e + of_nat (length ys) \<and> m2 a = Some 0"
      using assms(1,2) unfolding wrote_def by blast+
    moreover have "a \<noteq> ?e" if "ys \<noteq> []"
      using that \<open>a \<notin> set (region ?e (length ys))\<close> by (cases ys) auto
    moreover have "buf + of_nat (length (xs @ ys)) = ?e + of_nat (length ys)"
      by simp
    ultimately show ?thesis
      by (cases "ys = []") auto
  qed
  ultimately show ?thesis
    using assms(1,2) by (auto simp: wrote_def bytes_at_append)
qed

text \<open>The room the interpreter needs: memory it reads is as at the start and apart from the buffer.\<close>

definition room :: "mem \<Rightarrow> addr set \<Rightarrow> mem \<Rightarrow> addr \<Rightarrow> nat \<Rightarrow> bool" where
  "room m0 safe m buf n \<longleftrightarrow> (\<forall>a \<in> safe. m a = m0 a) \<and> writable m buf (Suc n) \<and>
     set (region buf (Suc n)) \<inter> insert NULL safe = {} \<and> n < 2 ^ 32"

lemma room_step:
  assumes "room m0 safe m buf (length xs + n)" and "wrote m buf xs m'"
  shows "room m0 safe m' (buf + of_nat (length xs)) n"
proof -
  let ?e = "buf + of_nat (length xs)"
  have reg: "region buf (Suc (length xs + n)) = region buf (length xs) @ region ?e (Suc n)"
    using region_append [of buf "length xs" "Suc n"] by (simp del: region.simps)
  have "m' a = m a" if "a \<in> safe" for a
  proof -
    have "a \<notin> set (region buf (length xs))" "a \<noteq> ?e"
      using assms(1) that region.simps(2) [of ?e n]
      by (auto simp: room_def reg simp del: region.simps writable_simps)
    with assms(2) show ?thesis by (auto simp: wrote_def)
  qed
  moreover have "writable m' ?e (Suc n)"
    using assms writable_mono [of m m' ?e "Suc n"] writable_append [of m buf "length xs" "Suc n"]
    by (simp add: room_def wrote_def del: region.simps writable_simps)
  ultimately show ?thesis
    using assms(1) by (auto simp: room_def reg simp del: region.simps writable_simps)
qed

lemma room_writable:
  assumes "room m0 safe m buf (length xs + n)"
  shows "writable m buf (length xs)" and "writable m buf (Suc (length xs))" and "buf \<noteq> NULL"
    and "length xs < 2 ^ 32" and "set (region buf (Suc (length xs))) \<inter> safe = {}"
proof -
  have reg: "region buf (Suc (length xs + n)) = region buf (Suc (length xs)) @ region (buf + of_nat (Suc (length xs))) n"
    using region_append [of buf "Suc (length xs)" n] by (simp del: region.simps)
  show "writable m buf (length xs)" "writable m buf (Suc (length xs))" "length xs < 2 ^ 32"
    "set (region buf (Suc (length xs))) \<inter> safe = {}"
    using assms writable_append [of m buf "Suc (length xs)" n] writable_append [of m buf "length xs" "Suc n"]
    by (auto simp: room_def reg simp del: region.simps writable_simps)
  show "buf \<noteq> NULL"
    using assms by (auto simp: room_def)
qed

text \<open>One directive: the text it writes and where the loop goes on.\<close>

definition directive :: "(addr \<Rightarrow> u8 list) \<Rightarrow> u8 \<Rightarrow> u32 \<Rightarrow> u8 list" where
  "directive strs d w = (if d = 115 then strs w else if d = 99 then [ucast w]
     else if d = 100 then signed_text w else digits 16 (unat w))"

lemma directive_step:
  assumes room: "room m0 safe m buf (length (directive strs d w) + n)"
    and d: "d \<in> {115, 99, 100, 120}" and ip: "m0 (ip + 1) = Some d" "m0 (ip + 2) = Some nextc"
    and safe: "ip + 1 \<in> safe" "ip + 2 \<in> safe"
    and w: "ld32 m (ap + 4) = Inr w"
    and str: "d = 115 \<Longrightarrow> cstr m0 w (strs w) \<and> w \<noteq> NULL \<and> set (region w (Suc (length (strs w)))) \<subseteq> safe"
  shows "\<exists>m'. wrote m buf (directive strs d w) m' \<and> vsprintf_loop m buf ip 37 ap =
    vsprintf_loop m' (buf + of_nat (length (directive strs d w))) (ip + 2) nextc (ap + 4)"
proof -
  let ?out = "directive strs d w"
  note rw = room_writable [OF room]
  have m: "m (ip + 1) = Some d"
    using room safe ip by (simp add: room_def)
  have next_char: "m' (ip + 2) = Some nextc" if "wrote m buf ?out m'" for m'
    using room_step [OF room that] safe ip by (simp add: room_def)
  have ws: "wrote m buf ?out (store m buf ?out)"
    using rw by (intro wrote_store)
  show ?thesis
  proof (cases "d = 115")
    case True
    let ?m' = "store m buf (?out @ [0])"
    have o: "?out = strs w"
      using True by (simp add: directive_def)
    have w0: "wrote m buf ?out ?m'"
      using rw by (intro wrote_store_0)
    have safe_m: "\<And>a. a \<in> safe \<Longrightarrow> m a = m0 a"
      using room by (simp add: room_def)
    have "bytes_at m w (strs w @ [0]) = bytes_at m0 w (strs w @ [0])"
      using str [OF True] safe_m by (intro bytes_at_frame) (auto simp del: region.simps)
    then have c: "cstr m w (strs w)"
      using str [OF True] by (simp add: cstr_def)
    have dis: "set (region buf (Suc (length (strs w)))) \<inter> set (region w (Suc (length (strs w)))) = {}"
      using rw(5) str [OF True] o by (auto simp del: region.simps)
    have "strcpy_loop m buf w = Some (Inr ?m')"
      using c rw(2) dis unfolding o by (rule strcpy_store)
    moreover have "bytes_at ?m' w (strs w @ [0]) = bytes_at m w (strs w @ [0])"
      using dis o by (intro bytes_at_frame store_outside) (auto simp del: region.simps)
    then have "strlen ?m' w = Some (Inr (of_nat (length (strs w))))"
      using c str [OF True] by (intro strlen_cstr) (auto simp: cstr_def)
    ultimately have "vsprintf_loop m buf ip 37 ap =
        vsprintf_loop ?m' (buf + of_nat (length ?out)) (ip + 2) nextc (ap + 4)"
      using True m w str [OF True] rw(3) next_char [OF w0] o
      by (subst vsprintf_loop.simps) (simp add: strcpy_def add.assoc)
    with w0 show ?thesis by blast
  next
    case False
    have "vsprintf_loop m buf ip 37 ap =
        vsprintf_loop (store m buf ?out) (buf + of_nat (length ?out)) (ip + 2) nextc (ap + 4)"
      using False d m w ld32_low [OF w] rw next_char [OF ws]
      by (subst vsprintf_loop.simps)
        (auto simp: directive_def signed_text_def itoa_store writable_upd add.assoc)
    with ws show ?thesis by blast
  qed
qed

text \<open>The argument words that are taken as strings.\<close>

fun str_args :: "u8 list \<Rightarrow> u32 list \<Rightarrow> u32 list" where
  "str_args (c # d # f) ws = (if c \<noteq> 37 then str_args (d # f) ws
     else if d \<in> {115, 99, 100, 120} then (case ws of [] \<Rightarrow> [] | w # ws \<Rightarrow>
       (if d = 115 then [w] else []) @ str_args f ws)
     else str_args (d # f) ws)"
| "str_args _ ws = []"

definition str_ok :: "mem \<Rightarrow> addr set \<Rightarrow> (addr \<Rightarrow> u8 list) \<Rightarrow> addr \<Rightarrow> bool" where
  "str_ok m safe strs w \<longleftrightarrow>
     cstr m w (strs w) \<and> w \<noteq> NULL \<and> set (region w (Suc (length (strs w)))) \<subseteq> safe"

text \<open>A plain character, and the end of the format.\<close>

lemma plain_step:
  assumes "room m0 safe m buf (Suc n)" and "c \<noteq> 0" and "c \<noteq> 37"
    and "m0 (ip + 1) = Some nextc" and "ip + 1 \<in> safe"
  shows "\<exists>m'. wrote m buf [c] m' \<and>
    vsprintf_loop m buf ip c ap = vsprintf_loop m' (buf + 1) (ip + 1) nextc ap"
proof -
  have r: "room m0 safe m buf (length [c] + n)"
    using assms(1) by simp
  have w: "wrote m buf [c] (store m buf [c])"
    using room_writable [OF r] by (intro wrote_store)
  then have "store m buf [c] (ip + 1) = Some nextc"
    using room_step [OF r w] assms(4,5) by (simp add: room_def)
  moreover have "m buf \<noteq> None"
    using room_writable(1) [OF r] by simp
  ultimately have "vsprintf_loop m buf ip c ap =
      vsprintf_loop (store m buf [c]) (buf + 1) (ip + 1) nextc ap"
    using assms(2,3) by (subst vsprintf_loop.simps) simp
  with w show ?thesis by blast
qed

lemma loop_end: "vsprintf_loop m buf ip 0 ap = Some (Inr (m, buf))"
  by (subst vsprintf_loop.simps) simp

lemma wrote_nothing: "wrote m buf [] m"
  by (simp add: wrote_def)

lemma room_less: "room m0 safe m buf n \<Longrightarrow> n < 2 ^ 32"
  by (simp add: room_def)

lemma vsprintf_loop_renders:
  assumes "render strs f ws = Some out" and "0 \<notin> set f" and "bytes_at m0 ip (f @ [0])"
    and "set (region ip (Suc (length f))) \<subseteq> safe" and "words_at m0 (ap + 4) ws"
    and "set (region (ap + 4) (4 * length ws)) \<subseteq> safe"
    and "\<forall>w \<in> set (str_args f ws). str_ok m0 safe strs w" and "room m0 safe m buf (length out)"
  shows "\<exists>m'. vsprintf_loop m buf ip (hd (f @ [0])) ap = Some (Inr (m', buf + of_nat (length out))) \<and>
    wrote m buf out m'"
  using assms
proof (induction strs f ws arbitrary: out m buf ip ap rule: render.induct)
  case (1 strs ws)
  then show ?case
    using wrote_nothing by (simp add: loop_end)
next
  case (2 strs c ws)
  show ?case
  proof (cases "c = 37")
    case True
    then have "m (ip + 1) = Some 0"
      using 2 by (auto simp: room_def)
    with True 2 show ?thesis
      by (subst vsprintf_loop.simps) (simp add: loop_end wrote_nothing)
  next
    case False
    with 2 have "\<exists>m'. wrote m buf [c] m' \<and>
        vsprintf_loop m buf ip c ap = vsprintf_loop m' (buf + 1) (ip + 1) 0 ap"
      by (intro plain_step [where ?m0.0 = m0 and safe = safe and n = 0]) auto
    with 2 False show ?thesis
      by (auto simp: loop_end)
  qed
next
  case (3 strs c d f ws)
  note ih_plain = "3.IH"(1) and ih_dir = "3.IH"(2) and ih_other = "3.IH"(3)
  have next1: "m0 (ip + 1) = Some d" "ip + 1 \<in> safe" "bytes_at m0 (ip + 1) ((d # f) @ [0])"
    "set (region (ip + 1) (Suc (length (d # f)))) \<subseteq> safe" "0 \<notin> set (d # f)"
    using "3.prems" by auto
  consider (plain) "c \<noteq> 37" | (dir) "c = 37" "d \<in> {115, 99, 100, 120}"
    | (other) "c = 37" "d \<notin> {115, 99, 100, 120}"
    by blast
  then show ?case
  proof cases
    case plain
    then obtain out' where out: "out = c # out'" "render strs (d # f) ws = Some out'"
      using "3.prems"(1) by auto
    obtain m1 where m1: "wrote m buf [c] m1"
      "vsprintf_loop m buf ip c ap = vsprintf_loop m1 (buf + 1) (ip + 1) d ap"
      using plain_step [of m0 safe m buf "length out'" c ip d ap] plain "3.prems" next1 out by auto
    have "room m0 safe m1 (buf + 1) (length out')"
      using room_step [of m0 safe m buf "[c]" "length out'"] m1(1) "3.prems"(8) out by simp
    then obtain m2 where "vsprintf_loop m1 (buf + 1) (ip + 1) d ap =
        Some (Inr (m2, buf + 1 + of_nat (length out')))" "wrote m1 (buf + 1) out' m2"
      using ih_plain [OF plain out(2), of "ip + 1" ap m1 "buf + 1"] next1 "3.prems"(5-7) plain by auto
    moreover have "wrote m buf ([c] @ out') m2"
      using wrote_append [OF m1(1), of out' m2] calculation(2) room_less [OF "3.prems"(8)] out by simp
    ultimately show ?thesis
      using m1(2) out by (simp add: algebra_simps)
  next
    case dir
    then obtain w ws' out' where ws: "ws = w # ws'" and out: "out = directive strs d w @ out'"
      "render strs f ws' = Some out'"
      using "3.prems"(1) by (auto simp: directive_def split: list.splits)
    let ?t = "directive strs d w"
    let ?nc = "hd (f @ [0])"
    have next2: "m0 (ip + 2) = Some ?nc" "ip + 2 \<in> safe" "bytes_at m0 (ip + 2) (f @ [0])"
      "set (region (ip + 2) (Suc (length f))) \<subseteq> safe" "0 \<notin> set f"
      using next1 by (cases f; auto simp: add.assoc)+
    have args: "words_at m0 (ap + 4 + 4) ws'" "set (region (ap + 4 + 4) (4 * length ws')) \<subseteq> safe"
      "\<forall>w \<in> set (str_args f ws'). str_ok m0 safe strs w" "d = 115 \<Longrightarrow> str_ok m0 safe strs w"
      using "3.prems"(5-7) dir ws region_append [of "ap + 4" 4 "4 * length ws'"] by auto
    have "words_at m (ap + 4) ws"
      using "3.prems"(5,6,8) by (subst words_at_frame [where m = m0]) (auto simp: room_def)
    then have w: "ld32 m (ap + 4) = Inr w"
      by (simp add: ws)
    have room: "room m0 safe m buf (length ?t + length out')"
      using "3.prems"(8) out by simp
    obtain m1 where m1: "wrote m buf ?t m1" "vsprintf_loop m buf ip 37 ap =
        vsprintf_loop m1 (buf + of_nat (length ?t)) (ip + 2) ?nc (ap + 4)"
      using directive_step [OF room dir(2) next1(1) next2(1) next1(2) next2(2) w] args(4)
      by (auto simp: str_ok_def)
    obtain m2 where m2: "vsprintf_loop m1 (buf + of_nat (length ?t)) (ip + 2) ?nc (ap + 4) =
        Some (Inr (m2, buf + of_nat (length ?t) + of_nat (length out')))"
      "wrote m1 (buf + of_nat (length ?t)) out' m2"
      using ih_dir [OF _ dir(2) ws out(2) next2(5,3,4) args(1,2,3) room_step [OF room m1(1)]] dir(1)
      by auto
    have "wrote m buf (?t @ out') m2"
      using wrote_append [OF m1(1) m2(2)] room_less [OF room] by simp
    then show ?thesis
      using m1(2) m2(1) out dir(1) by (simp add: add.assoc)
  next
    case other
    have "m (ip + 1) = Some d"
      using next1 "3.prems"(8) by (simp add: room_def)
    then have "vsprintf_loop m buf ip 37 ap = vsprintf_loop m buf (ip + 1) d ap"
      using other by (subst vsprintf_loop.simps) simp
    moreover have "\<exists>m'. vsprintf_loop m buf (ip + 1) (hd ((d # f) @ [0])) ap =
        Some (Inr (m', buf + of_nat (length out))) \<and> wrote m buf out m'"
      using ih_other [of out "ip + 1" ap m buf] other next1 "3.prems" by auto
    ultimately show ?thesis
      using other by simp
  qed
qed

subsection \<open>Properties\<close>

text \<open>C39: \<^verbatim>\<open>itoa\<close> in base 10 or 16 returns, and writes digits (most significant first, at most ten) whose
  value in that base is the number; it returns the address behind them and changes nothing else.\<close>

theorem itoa_writes_the_number:
  assumes "base = 10 \<or> base = 16" and "writable m buf 10"
  shows "\<exists>ds m'. itoa v base m buf = Inr (m', buf + of_nat (length ds)) \<and> bytes_at m' buf ds \<and>
    number (unat base) ds = unat v \<and> 0 < length ds \<and> length ds \<le> 10 \<and>
    (\<forall>a. a \<notin> set (region buf (length ds)) \<longrightarrow> m' a = m a)"
proof -
  let ?ds = "digits (unat base) (unat v)"
  have b: "unat base = 10 \<or> unat base = 16"
    using assms(1) by auto
  have "unat v < 2 ^ LENGTH(32)"
    by (rule unsigned_less)
  then have v: "unat v < unat base ^ 10"
    using b by auto
  then have len: "length ?ds \<le> 10"
    using b by (intro length_digits) auto
  then have w: "writable m buf (length ?ds)"
    using assms(2) writable_append [of m buf "length ?ds" "10 - length ?ds"]
    by (simp del: writable_numeral)
  have "itoa v base m buf = Inr (store m buf ?ds, buf + of_nat (length ?ds))"
    using b w by (intro itoa_store) auto
  moreover have "0 < length ?ds"
    using b digits.simps [of "unat base" "unat v"] by auto
  moreover have "number (unat base) ?ds = unat v"
    using b by (intro number_digits) auto
  moreover have "bytes_at (store m buf ?ds) buf ?ds"
    using len by (intro store_bytes_at) simp
  ultimately show ?thesis
    using len store_outside by blast
qed

theorem itoa_writes_the_number_witness:
  "\<exists>ds m'. itoa 255 16 (\<lambda>_. Some 0) 100 = Inr (m', 100 + of_nat (length ds)) \<and>
     bytes_at m' 100 ds \<and> number 16 ds = 255"
  using itoa_writes_the_number [of 16 "\<lambda>_. Some 0" 100 255] by (auto simp: writable_def)

text \<open>C38: \<^verbatim>\<open>vsprintf\<close> returns and leaves in the buffer exactly the text of the format with its directives
  replaced (\<open>%s\<close>, \<open>%c\<close>, \<open>%d\<close>, \<open>%x\<close> each taking the next argument word), 0-terminated, and returns
  its length; nothing outside the text changes. Needed: the arguments are there, the buffer has
  room, overlaps nothing the call reads, and holds a 0 where the text will end, since \<^verbatim>\<open>vsprintf\<close>
  itself writes no terminator.\<close>

theorem vsprintf_renders:
  assumes "render strs f ws = Some out" and "cstr m fmt f" and "0 \<notin> set out"
    and "words_at m (ap + 4) ws" and "\<forall>w \<in> set (str_args f ws). cstr m w (strs w) \<and> w \<noteq> NULL"
    and "safe = set (region fmt (Suc (length f))) \<union> set (region (ap + 4) (4 * length ws)) \<union>
      (\<Union>w \<in> set (str_args f ws). set (region w (Suc (length (strs w)))))"
    and "room m safe m str (length out)" and "m (str + of_nat (length out)) = Some 0"
  shows "\<exists>m'. vsprintf m str fmt ap = Some (Inr (of_nat (length out), m')) \<and> cstr m' str out \<and>
    (\<forall>a. a \<notin> set (region str (length out)) \<longrightarrow> m' a = m a)"
proof -
  have f: "0 \<notin> set f" "bytes_at m fmt (f @ [0])"
    using assms(2) by (auto simp: cstr_def)
  then have c: "m fmt = Some (hd (f @ [0]))"
    by (cases f) auto
  obtain m' where m': "vsprintf_loop m str fmt (hd (f @ [0])) ap =
      Some (Inr (m', str + of_nat (length out)))" and w: "wrote m str out m'"
    using vsprintf_loop_renders [OF assms(1) f _ assms(4) _ _ assms(7)] assms(5,6)
    by (auto simp: str_ok_def simp del: region.simps)
  have "str + of_nat (length out) \<notin> set (region str (length out))"
  proof -
    have "distinct (region str (Suc (length out)))"
      using room_less [OF assms(7)] by (intro distinct_region) simp
    moreover have "region str (length out + 1) = region str (length out) @ [str + of_nat (length out)]"
      by (subst region_append) simp
    ultimately show ?thesis by (simp del: region.simps)
  qed
  moreover have frame: "\<forall>a. a \<notin> set (region str (length out)) \<longrightarrow> m' a = m a"
    using w assms(8) by (auto simp: wrote_def)
  ultimately have "m' (str + of_nat (length out)) = Some 0"
    using assms(8) by simp
  then have s: "cstr m' str out"
    using w assms(3) by (simp add: cstr_def bytes_at_append wrote_def)
  have "str \<noteq> NULL"
    using assms(7) by (auto simp: room_def)
  then have "vsprintf m str fmt ap = Some (Inr (of_nat (length out), m'))"
    using c m' strlen_cstr [OF s] by (simp add: vsprintf_def)
  with s frame show ?thesis by blast
qed

text \<open>Memory for an example: the format \<^verbatim>\<open>%x!\<close> at 16, the word 171 at 36, cleared buffer from 64 on.\<close>

definition fmt_mem :: mem where
  "fmt_mem = (\<lambda>a. if a = 16 then Some 37 else if a = 17 then Some 120 else if a = 18 then Some 33
     else if a = 36 then Some 171 else if 16 \<le> a \<and> a < 128 then Some 0 else None)"

theorem vsprintf_renders_witness:
  "\<exists>m'. vsprintf fmt_mem 64 16 32 = Some (Inr (3, m')) \<and> cstr m' 64 [65, 66, 33]"
proof -
  have d: "digits 16 171 = [65, 66]"
    by (simp add: digits.simps digit_def)
  have r: "render (\<lambda>_. []) [37, 120, 33] [171] = Some [65, 66, 33]"
    by (simp add: d)
  have c: "cstr fmt_mem 16 [37, 120, 33]" and w: "words_at fmt_mem (32 + 4) [171]"
    and e: "fmt_mem (64 + of_nat (length [65, 66, 33 :: u8])) = Some 0"
    by (simp_all add: fmt_mem_def ld32_def)
  have ro: "room fmt_mem (set (region 16 (Suc (length [37, 120, 33 :: u8]))) \<union>
      set (region (32 + 4) (4 * length [171 :: u32])) \<union>
      (\<Union>w \<in> set (str_args [37, 120, 33] [171]). set (region w (Suc (length ((\<lambda>_. []) w))))))
      fmt_mem 64 (length [65, 66, 33 :: u8])"
    by (simp add: room_def fmt_mem_def)
  show ?thesis
    using vsprintf_renders [OF r c _ w _ refl ro e] by auto
qed

end
