(* ===== verification/Machine.thy ===== *)
theory Machine
  imports Cpu
begin

section \<open>Paging hardware and the recursive page-table window (kernel/memory.c)\<close>

text \<open>
  The stack pointer, the page-directory register and physical memory (as 32-bit words at
  addresses divisible by 4), and the translation the processor performs: two-level tables, present
  bit 0 of an entry, frame address in its upper 20 bits. The last entry of every page directory
  points to the directory itself; \<^verbatim>\<open>pde_ptr\<close> and \<^verbatim>\<open>pte_ptr\<close> use that window to reach the entries of
  the active tables. The translation cache is not modelled: a translation always sees the tables.
\<close>

record machine = cpu +
  esp :: u32
  cr3 :: u32
  pmem :: "u32 \<Rightarrow> u32"

definition PG_P_1 :: u32 where "PG_P_1 = 1"
definition PG_RW_W :: u32 where "PG_RW_W = 2"
definition PG_US_U :: u32 where "PG_US_U = 4"

definition PDE_IDX :: "addr \<Rightarrow> u32" where
  "PDE_IDX a = drop_bit 22 (a AND 0xffc00000)"

definition PTE_IDX :: "addr \<Rightarrow> u32" where
  "PTE_IDX a = drop_bit 12 (a AND 0x003ff000)"

definition frame :: "u32 \<Rightarrow> addr" where
  "frame e = e AND 0xfffff000"

definition page_offset :: "addr \<Rightarrow> u32" where
  "page_offset a = a AND 0x00000fff"

text \<open>The walk of the processor.\<close>

definition pde_of :: "'a machine_scheme \<Rightarrow> addr \<Rightarrow> u32" where
  "pde_of s va = pmem s (frame (cr3 s) + PDE_IDX va * 4)"

definition pte_of :: "'a machine_scheme \<Rightarrow> addr \<Rightarrow> u32" where
  "pte_of s va = pmem s (frame (pde_of s va) + PTE_IDX va * 4)"

definition translate :: "'a machine_scheme \<Rightarrow> addr \<Rightarrow> addr option" where
  "translate s va = (if pde_of s va AND PG_P_1 = 0 \<or> pte_of s va AND PG_P_1 = 0 then None
     else Some (frame (pte_of s va) + page_offset va))"

definition vread :: "'a machine_scheme \<Rightarrow> addr \<Rightarrow> u32 res" where
  "vread s va = (case translate s va of None \<Rightarrow> Inl Page_Fault | Some pa \<Rightarrow> Inr (pmem s pa))"

definition vwrite :: "addr \<Rightarrow> u32 \<Rightarrow> 'a machine_scheme \<Rightarrow> 'a machine_scheme res" where
  "vwrite va w s = (case translate s va of None \<Rightarrow> Inl Page_Fault
     | Some pa \<Rightarrow> Inr (s\<lparr>pmem := (pmem s)(pa := w)\<rparr>))"

subsection \<open>Operations on the active tables\<close>

definition pte_ptr :: "addr \<Rightarrow> addr" where
  "pte_ptr vaddr = 0xffc00000 + drop_bit 10 (vaddr AND 0xffc00000) + PTE_IDX vaddr * 4"

definition pde_ptr :: "addr \<Rightarrow> addr" where
  "pde_ptr vaddr = 0xfffff000 + PDE_IDX vaddr * 4"

definition addr_v2p :: "'a machine_scheme \<Rightarrow> addr \<Rightarrow> addr res" where
  "addr_v2p s vaddr = bindR (vread s (pte_ptr vaddr)) (\<lambda>pte.
     Inr ((pte AND 0xfffff000) + (vaddr AND 0x00000fff)))"

text \<open>The \<^verbatim>\<open>invlpg\<close> of \<^verbatim>\<open>page_table_pte_remove\<close> concerns the translation cache only.\<close>

definition page_table_pte_remove :: "addr \<Rightarrow> 'a machine_scheme \<Rightarrow> 'a machine_scheme res" where
  "page_table_pte_remove vaddr s = bindR (vread s (pte_ptr vaddr)) (\<lambda>pte.
     vwrite (pte_ptr vaddr) (pte AND NOT PG_P_1) s)"

text \<open>\<^verbatim>\<open>memset(va, 0, 4 * n)\<close> on word-aligned memory.\<close>

fun vzero :: "addr \<Rightarrow> nat \<Rightarrow> 'a machine_scheme \<Rightarrow> 'a machine_scheme res" where
  "vzero va 0 s = Inr s"
| "vzero va (Suc n) s = bindR (vwrite va 0 s) (vzero (va + 4) n)"

subsection \<open>Arithmetic of the window\<close>

lemma bit_mul4: "bit (w * 4 :: u32) n \<longleftrightarrow> 2 \<le> n \<and> n < 32 \<and> bit w (n - 2)"
proof -
  have "w * 4 = push_bit 2 w"
    by (simp add: push_bit_eq_mult)
  then show ?thesis
    by (simp add: bit_push_bit_iff)
qed

lemma idx_bits:
  "bit (PDE_IDX a) n \<longleftrightarrow> n < 10 \<and> bit a (22 + n)"
  "bit (PTE_IDX a) n \<longleftrightarrow> n < 10 \<and> bit a (12 + n)"
  "bit (frame a) n \<longleftrightarrow> 12 \<le> n \<and> bit a n"
  "bit (page_offset a) n \<longleftrightarrow> n < 12 \<and> bit a n"
  unfolding PDE_IDX_def PTE_IDX_def frame_def page_offset_def word_bits
  by (auto dest: bit_imp_le_length)

text \<open>Sums of words with disjoint bits are their bitwise or.\<close>

lemma add_disjoint:
  "(\<And>n. n < 32 \<Longrightarrow> \<not> (bit (x :: u32) n \<and> bit y n)) \<Longrightarrow> x + y = x OR y"
  by (rule disjunctive_add) (use bit_imp_le_length in fastforce)

lemma pde_ptr_bits: "bit (pde_ptr va) n \<longleftrightarrow> n < 32 \<and> (12 \<le> n \<or> 2 \<le> n \<and> bit va (n + 20))"
proof -
  define p :: u32 where "p = 0xfffff000"
  have p: "bit p k \<longleftrightarrow> 12 \<le> k \<and> k < 32" for k
    unfolding p_def by (rule bit_fffff000_32)
  have "p + PDE_IDX va * 4 = p OR PDE_IDX va * 4"
    by (rule add_disjoint) (auto simp: p bit_mul4 idx_bits)
  then have "pde_ptr va = p OR PDE_IDX va * 4"
    by (simp only: pde_ptr_def p_def)
  then show ?thesis
    by (auto simp: bit_or_iff p bit_mul4 idx_bits add.commute)
qed

lemma pte_ptr_bits: "bit (pte_ptr va) n \<longleftrightarrow> n < 32 \<and> (22 \<le> n \<or> 2 \<le> n \<and> bit va (n + 10))"
proof -
  define d where "d = drop_bit 10 (va AND 0xffc00000)"
  define p :: u32 where "p = 0xffc00000"
  have p: "bit p k \<longleftrightarrow> 22 \<le> k \<and> k < 32" for k
    unfolding p_def by (rule bit_ffc00000_32)
  have d: "bit d k \<longleftrightarrow> 12 \<le> k \<and> k < 22 \<and> bit va (k + 10)" for k
    unfolding d_def bit_drop_bit_eq bit_and_iff o_def bit_ffc00000_32 by (auto simp: add.commute)
  have "p + d = p OR d"
    by (rule add_disjoint) (auto simp: p d)
  moreover have "(p OR d) + PTE_IDX va * 4 = (p OR d) OR PTE_IDX va * 4"
    by (rule add_disjoint) (auto simp: bit_or_iff p d bit_mul4 idx_bits)
  ultimately have "pte_ptr va = (p OR d) OR PTE_IDX va * 4"
    by (simp only: pte_ptr_def d_def p_def)
  then show ?thesis
    by (auto simp: bit_or_iff p d bit_mul4 idx_bits add.commute)
qed

lemma idx_last: "bit (0x3ff :: u32) n \<longleftrightarrow> n < 10"
  using bit_shifted_mask [where 'a = 32, of 0 10 n] by (auto simp: mask_eq_exp_minus_1)

lemma idx_ext:
  assumes "\<And>n. n < 32 \<Longrightarrow> bit (x :: u32) n = bit y n"
  shows "x = y"
  using assms by (intro bit_word_eqI) simp

lemma window_indices [simp]:
  "PDE_IDX (pte_ptr va) = 0x3ff" "PTE_IDX (pte_ptr va) = PDE_IDX va"
  "page_offset (pte_ptr va) = PTE_IDX va * 4"
  "PDE_IDX (pde_ptr va) = 0x3ff" "PTE_IDX (pde_ptr va) = 0x3ff"
  "page_offset (pde_ptr va) = PDE_IDX va * 4"
proof -
  show "PDE_IDX (pte_ptr va) = 0x3ff" "PDE_IDX (pde_ptr va) = 0x3ff" "PTE_IDX (pde_ptr va) = 0x3ff"
    by (rule idx_ext, unfold idx_bits pte_ptr_bits pde_ptr_bits idx_last, auto)+
  show "PTE_IDX (pte_ptr va) = PDE_IDX va" "page_offset (pte_ptr va) = PTE_IDX va * 4"
    "page_offset (pde_ptr va) = PDE_IDX va * 4"
    by (rule idx_ext, unfold idx_bits pte_ptr_bits pde_ptr_bits bit_mul4, auto simp: add.commute)+
qed

text \<open>Offsets stay inside the page they start from.\<close>

lemma small_bits: "(e :: u32) < 0x1000 \<Longrightarrow> bit e n \<Longrightarrow> n < 12"
proof -
  assume e: "e < 0x1000" and n: "bit e n"
  have "take_bit 12 (unat e) = unat e"
    using e by (intro take_bit_nat_eq_self) (simp add: word_less_nat_alt)
  then have "bit (take_bit 12 (unat e)) n"
    using n by (simp add: bit_unsigned_iff)
  then show ?thesis
    by (simp add: bit_take_bit_iff)
qed

lemma frame_add:
  assumes "frame t = t" "e < 0x1000"
  shows "frame (t + e) = t" "page_offset (t + e) = e"
proof -
  have t: "bit t n \<Longrightarrow> 12 \<le> n" for n
    using assms(1) idx_bits(3) by metis
  have "t + e = t OR e"
    using t small_bits [OF assms(2)] by (intro add_disjoint) fastforce
  then show "frame (t + e) = t" "page_offset (t + e) = e"
    using t small_bits [OF assms(2)] by (auto intro!: idx_ext simp: idx_bits bit_or_iff)
      (meson not_less)+
qed

text \<open>The last directory entry points back to the directory.\<close>

definition selfmap :: "'a machine_scheme \<Rightarrow> bool" where
  "selfmap s \<longleftrightarrow> frame (pmem s (frame (cr3 s) + 0x3ff * 4)) = frame (cr3 s) \<and>
     pmem s (frame (cr3 s) + 0x3ff * 4) AND PG_P_1 \<noteq> 0"

lemma translate_pde_ptr:
  "selfmap s \<Longrightarrow> translate s (pde_ptr va) = Some (frame (cr3 s) + PDE_IDX va * 4)"
  by (simp add: translate_def pde_of_def pte_of_def selfmap_def)

lemma translate_pte_ptr:
  "selfmap s \<Longrightarrow> translate s (pte_ptr va) =
     (if pde_of s va AND PG_P_1 = 0 then None else Some (frame (pde_of s va) + PTE_IDX va * 4))"
  by (simp add: translate_def pde_of_def pte_of_def selfmap_def)

lemma vread_pde: "selfmap s \<Longrightarrow> vread s (pde_ptr va) = Inr (pde_of s va)"
  by (simp add: vread_def translate_pde_ptr pde_of_def)

lemma vread_pte:
  "selfmap s \<Longrightarrow> pde_of s va AND PG_P_1 \<noteq> 0 \<Longrightarrow> vread s (pte_ptr va) = Inr (pte_of s va)"
  by (simp add: vread_def translate_pte_ptr pte_of_def)

lemma vwrite_pde:
  "selfmap s \<Longrightarrow> vwrite (pde_ptr va) w s =
     Inr (s\<lparr>pmem := (pmem s)(frame (cr3 s) + PDE_IDX va * 4 := w)\<rparr>)"
  by (simp add: vwrite_def translate_pde_ptr)

lemma vwrite_pte:
  "selfmap s \<Longrightarrow> pde_of s va AND PG_P_1 \<noteq> 0 \<Longrightarrow> vwrite (pte_ptr va) w s =
     Inr (s\<lparr>pmem := (pmem s)(frame (pde_of s va) + PTE_IDX va * 4 := w)\<rparr>)"
  by (simp add: vwrite_def translate_pte_ptr)

lemma addr_v2p_translate:
  "selfmap s \<Longrightarrow> translate s va = Some pa \<Longrightarrow> addr_v2p s va = Inr pa"
  by (auto simp: addr_v2p_def vread_pte translate_def frame_def page_offset_def split: if_splits)

end
