(* ===== verification/Thread.thy ===== *)
theory Thread
  imports Machine Bitmap
begin

section \<open>Threads and the scheduler (thread/thread.c, device/timer.c, userprog/process.c)\<close>

text \<open>
  The process control blocks, the ready and the all-threads queue, and the operations that move a
  thread between them. A PCB is a page: \<^verbatim>\<open>running_thread\<close> finds it by clearing the low 12 bits of the
  stack pointer. \<open>esp\<close> is the stack pointer at the granularity of C frames; the pushes and pops of
  \<^verbatim>\<open>switch_to\<close> are in theory \<^verbatim>\<open>Switch\<close>. The queues link the members \<^verbatim>\<open>general_tag\<close> and \<^verbatim>\<open>all_list_tag\<close>
  of the PCBs; here a queue is the list of the PCB addresses (\<^verbatim>\<open>elem2entry\<close> of the linked elements),
  which theory \<^verbatim>\<open>KList\<close> justifies: every run of list operations that inserts no linked element and
  removes none that is not linked acts like the operations on lists used here.

  \<^verbatim>\<open>schedule\<close> returns the state in which the next thread runs. For the calling thread the call ends
  when some later \<^verbatim>\<open>schedule\<close> picks it again.
\<close>

subsection \<open>Data (thread/thread.h, kernel/memory.h)\<close>

datatype task_status = TASK_RUNNING | TASK_READY | TASK_BLOCKED | TASK_WAITING | TASK_HANGING
  | TASK_DIED

record virtual_addr =
  vaddr_bitmap :: bitmap
  vaddr_start :: u32

record mem_block_desc =
  block_size :: nat
  blocks_per_arena :: nat
  free_list :: "addr list"

record task_struct =
  self_kstack :: addr
  pid :: "16 word"
  status :: task_status
  task_name :: "u8 list"
  priority :: u8
  task_ticks :: u8
  elapsed_ticks :: u32
  fd_table :: "int list"
  pgdir :: addr
  userprog_vaddr :: virtual_addr
  u_block_desc :: "mem_block_desc list"
  cwd_inode_nr :: u32
  parent_pid :: "16 word"
  exit_status :: u8
  stack_magic :: u32

definition TASK_NAME_LEN :: nat where "TASK_NAME_LEN = 16"
definition STACK_MAGIC :: u32 where "STACK_MAGIC = 0x19870916"

record sched = machine +
  tasks :: "addr \<Rightarrow> task_struct"
  thread_ready_list :: "addr list"
  thread_all_list :: "addr list"
  g_main_thread :: addr
  idle_thread :: addr
  ticks :: u32

definition set_task :: "addr \<Rightarrow> (task_struct \<Rightarrow> task_struct) \<Rightarrow> 'a sched_scheme \<Rightarrow> 'a sched_scheme" where
  "set_task t f s = s\<lparr>tasks := (tasks s)(t := f (tasks s t))\<rparr>"

definition running_thread :: "'a sched_scheme \<Rightarrow> addr" where
  "running_thread s = esp s AND 0xfffff000"

subsection \<open>Activating an address space (userprog/process.c)\<close>

definition page_dir_activate :: "addr \<Rightarrow> ('a sched_scheme, unit) kop" where
  "page_dir_activate p_thread s =
     (let d = pgdir (tasks s p_thread) in
      if d \<noteq> NULL then
        (case addr_v2p s d of Inl e \<Rightarrow> Flt e | Inr pa \<Rightarrow> Ret () (s\<lparr>cr3 := pa\<rparr>))
      else Ret () (s\<lparr>cr3 := 0x100000\<rparr>))"

definition process_activate :: "addr \<Rightarrow> ('a sched_scheme, unit) kop" where
  "process_activate p_thread =
     thenK (assertK (\<lambda>_. p_thread \<noteq> NULL))
    (thenK (page_dir_activate p_thread)
    (modK (\<lambda>s. if pgdir (tasks s p_thread) \<noteq> NULL then update_tss_esp p_thread s else s)))"

subsection \<open>Switching, blocking and waking (thread/thread.c)\<close>

text \<open>The two moves of \<^verbatim>\<open>switch_to\<close> that change the running thread.\<close>

definition switch_to :: "addr \<Rightarrow> addr \<Rightarrow> 'a sched_scheme \<Rightarrow> 'a sched_scheme" where
  "switch_to cur nextt s =
     (let s = set_task cur (\<lambda>t. t\<lparr>self_kstack := esp s\<rparr>) s
      in s\<lparr>esp := self_kstack (tasks s nextt)\<rparr>)"

definition blocked_status :: "task_status \<Rightarrow> bool" where
  "blocked_status st \<longleftrightarrow> st = TASK_BLOCKED \<or> st = TASK_WAITING \<or> st = TASK_HANGING"

definition thread_unblock :: "addr \<Rightarrow> ('a sched_scheme, unit) kop" where
  "thread_unblock pthread s =
     (let (old_status, s) = intr_disable s in
      if \<not> blocked_status (status (tasks s pthread)) then Flt Panic
      else if status (tasks s pthread) \<noteq> TASK_READY then
        (if pthread \<in> set (thread_ready_list s) then Flt Panic
         else
           let s = s\<lparr>thread_ready_list := pthread # thread_ready_list s\<rparr>;
               s = set_task pthread (\<lambda>t. t\<lparr>status := TASK_READY\<rparr>) s
           in Ret () (snd (intr_set_status old_status s)))
      else Ret () (snd (intr_set_status old_status s)))"

text \<open>The first half of \<^verbatim>\<open>schedule\<close>: the running thread goes to the end of the ready queue.\<close>

definition put_back :: "('a sched_scheme, unit) kop" where
  "put_back s =
     (let cur = running_thread s in
      if status (tasks s cur) = TASK_RUNNING then
        (if cur \<in> set (thread_ready_list s) then Flt Panic
         else
           let s = s\<lparr>thread_ready_list := thread_ready_list s @ [cur]\<rparr>
           in Ret () (set_task cur
                (\<lambda>t. t\<lparr>task_ticks := priority t, status := TASK_READY\<rparr>) s))
      else Ret () s)"

text \<open>The second half: take the first ready thread, activate its address space and switch to it.\<close>

definition take_next :: "('a sched_scheme, unit) kop" where
  "take_next s =
     (case thread_ready_list s of [] \<Rightarrow> Flt Panic
      | nextt # rest \<Rightarrow>
          let cur = running_thread s;
              s = s\<lparr>thread_ready_list := rest\<rparr>;
              s = set_task nextt (\<lambda>t. t\<lparr>status := TASK_RUNNING\<rparr>) s
          in thenK (process_activate nextt) (modK (switch_to cur nextt)) s)"

definition schedule :: "('a sched_scheme, unit) kop" where
  "schedule =
     thenK (assertK (\<lambda>s. intr_get_status s = INTR_OFF))
    (thenK put_back
    (thenK (\<lambda>s. if thread_ready_list s = [] then thread_unblock (idle_thread s) s else Ret () s)
     take_next))"

text \<open>
  \<^verbatim>\<open>thread_block\<close> and \<^verbatim>\<open>thread_yield\<close> up to the switch. The caller's saved interrupt status is
  restored when it runs again: the value returned is that status.
\<close>

definition thread_block :: "task_status \<Rightarrow> ('a sched_scheme, intr_status) kop" where
  "thread_block stat s =
     (if blocked_status stat then
        let (old_status, s) = intr_disable s;
            s = set_task (running_thread s) (\<lambda>t. t\<lparr>status := stat\<rparr>) s
        in thenK schedule (retK old_status) s
      else Flt Panic)"

definition thread_yield :: "('a sched_scheme, intr_status) kop" where
  "thread_yield s =
     (let cur = running_thread s;
          (old_status, s) = intr_disable s
      in if cur \<in> set (thread_ready_list s) then Flt Panic
         else
           let s = s\<lparr>thread_ready_list := thread_ready_list s @ [cur]\<rparr>;
               s = set_task cur (\<lambda>t. t\<lparr>status := TASK_READY\<rparr>) s
           in thenK schedule (retK old_status) s)"

subsection \<open>The timer interrupt (device/timer.c)\<close>

definition intr_timer_handler :: "('a sched_scheme, unit) kop" where
  "intr_timer_handler s =
     (let cur = running_thread s in
      if stack_magic (tasks s cur) \<noteq> STACK_MAGIC then Flt Panic
      else
        let s = set_task cur (\<lambda>t. t\<lparr>elapsed_ticks := elapsed_ticks t + 1\<rparr>) s;
            s = s\<lparr>ticks := ticks s + 1\<rparr>
        in if task_ticks (tasks s cur) = 0 then schedule s
           else Ret () (set_task cur (\<lambda>t. t\<lparr>task_ticks := task_ticks t - 1\<rparr>) s))"

subsection \<open>The invariant of the queues\<close>

text \<open>
  All address spaces map the page directories of all processes alike: \<open>root t\<close> is the physical page
  directory of process \<open>t\<close>, and from every address space in use \<^verbatim>\<open>addr_v2p\<close> finds it.
\<close>

definition roots :: "(addr \<Rightarrow> addr) \<Rightarrow> 'a sched_scheme \<Rightarrow> addr set" where
  "roots root s = insert 0x100000 (root ` {t \<in> set (thread_all_list s). pgdir (tasks s t) \<noteq> NULL})"

definition spaces :: "(addr \<Rightarrow> addr) \<Rightarrow> 'a sched_scheme \<Rightarrow> bool" where
  "spaces root s \<longleftrightarrow> cr3 s \<in> roots root s \<and>
     (\<forall>c \<in> roots root s. \<forall>t \<in> set (thread_all_list s). pgdir (tasks s t) \<noteq> NULL \<longrightarrow>
        addr_v2p (s\<lparr>cr3 := c\<rparr>) (pgdir (tasks s t)) = Inr (root t))"

text \<open>
  The queues fit the states: exactly the threads in state READY are in the ready queue, only the
  thread on the processor is RUNNING, every other thread's saved stack pointer is in its own page,
  and the idle thread is running, ready or blocked. This holds at every call of \<^verbatim>\<open>schedule\<close>, also
  when the caller is about to leave the processor.
\<close>

definition queues :: "'a sched_scheme \<Rightarrow> bool" where
  "queues s \<longleftrightarrow> distinct (thread_all_list s) \<and> distinct (thread_ready_list s) \<and>
     set (thread_ready_list s) \<subseteq> set (thread_all_list s) \<and>
     idle_thread s \<in> set (thread_all_list s) \<and>
     status (tasks s (idle_thread s)) \<in> {TASK_RUNNING, TASK_READY, TASK_BLOCKED} \<and>
     (\<forall>t \<in> set (thread_all_list s). t \<noteq> NULL \<and>
        (status (tasks s t) = TASK_READY \<longleftrightarrow> t \<in> set (thread_ready_list s)) \<and>
        (status (tasks s t) = TASK_RUNNING \<longrightarrow> t = running_thread s) \<and>
        (t \<noteq> running_thread s \<longrightarrow> self_kstack (tasks s t) AND 0xfffff000 = t)) \<and>
     (\<exists>root. spaces root s)"

text \<open>Between calls the thread on the processor is one of the threads, and it is RUNNING.\<close>

definition sched_inv :: "'a sched_scheme \<Rightarrow> bool" where
  "sched_inv s \<longleftrightarrow> queues s \<and> running_thread s \<in> set (thread_all_list s) \<and>
     status (tasks s (running_thread s)) = TASK_RUNNING"

lemma set_task_simps [simp]:
  "tasks (set_task t f s) = (tasks s)(t := f (tasks s t))"
  "thread_ready_list (set_task t f s) = thread_ready_list s"
  "thread_all_list (set_task t f s) = thread_all_list s"
  "idle_thread (set_task t f s) = idle_thread s"
  "g_main_thread (set_task t f s) = g_main_thread s"
  "esp (set_task t f s) = esp s" "cr3 (set_task t f s) = cr3 s" "pmem (set_task t f s) = pmem s"
  "iflag (set_task t f s) = iflag s" "ticks (set_task t f s) = ticks s"
  by (simp_all add: set_task_def)

lemma v2p_cong:
  "pmem s = pmem t \<Longrightarrow> cr3 s = cr3 t \<Longrightarrow> addr_v2p s = addr_v2p t"
  by (rule ext) (simp add: addr_v2p_def vread_def translate_def pde_of_def pte_of_def)

lemma v2p_at [simp]:
  "addr_v2p (set_task t f s\<lparr>cr3 := c\<rparr>) = addr_v2p (s\<lparr>cr3 := c\<rparr>)"
  "addr_v2p (s\<lparr>thread_ready_list := r, cr3 := c\<rparr>) = addr_v2p (s\<lparr>cr3 := c\<rparr>)"
  "addr_v2p (s\<lparr>esp := e, cr3 := c\<rparr>) = addr_v2p (s\<lparr>cr3 := c\<rparr>)"
  "addr_v2p (s\<lparr>iflag := i, cr3 := c\<rparr>) = addr_v2p (s\<lparr>cr3 := c\<rparr>)"
  "addr_v2p (s\<lparr>ticks := k, cr3 := c\<rparr>) = addr_v2p (s\<lparr>cr3 := c\<rparr>)"
  by (rule v2p_cong; simp)+

text \<open>What \<open>spaces\<close> looks at.\<close>

lemma spaces_cong:
  assumes "thread_all_list s' = thread_all_list s" and "pmem s' = pmem s"
    and "\<And>t. t \<in> set (thread_all_list s) \<Longrightarrow> pgdir (tasks s' t) = pgdir (tasks s t)"
    and "spaces root s" and "cr3 s' \<in> roots root s"
  shows "spaces root s'"
proof -
  have r: "roots root s' = roots root s"
    using assms(1,3) by (auto simp: roots_def)
  have "addr_v2p (s'\<lparr>cr3 := c\<rparr>) = addr_v2p (s\<lparr>cr3 := c\<rparr>)" for c
    using assms(2) by (intro v2p_cong) simp_all
  then show ?thesis
    using assms r by (simp add: spaces_def)
qed

lemma process_activate_ok:
  assumes "spaces root s" and "t \<in> set (thread_all_list s)" and "t \<noteq> NULL"
  shows "\<exists>c g. process_activate t s = Ret () (s\<lparr>cr3 := c, g_tss := g\<rparr>) \<and> c \<in> roots root s"
proof (cases "pgdir (tasks s t) = NULL")
  case True
  then have "process_activate t s = Ret () (s\<lparr>cr3 := 0x100000, g_tss := g_tss s\<rparr>)"
    using assms(3) by (simp add: process_activate_def page_dir_activate_def thenK_def bindK_def)
  then show ?thesis
    by (intro exI [of _ "0x100000"] exI [of _ "g_tss s"]) (simp add: roots_def)
next
  case False
  have "addr_v2p (s\<lparr>cr3 := cr3 s\<rparr>) (pgdir (tasks s t)) = Inr (root t)"
    using assms False unfolding spaces_def by blast
  then have "addr_v2p s (pgdir (tasks s t)) = Inr (root t)"
    by simp
  then have "process_activate t s = Ret () (update_tss_esp t (s\<lparr>cr3 := root t\<rparr>))"
    using assms(3) False by (simp add: process_activate_def page_dir_activate_def thenK_def bindK_def)
  then show ?thesis
    using assms(2) False by (auto simp: update_tss_esp_def roots_def)
qed

subsection \<open>Scheduling keeps the invariant\<close>

lemma running_thread_cong: "esp s = esp t \<Longrightarrow> running_thread s = running_thread t"
  by (simp add: running_thread_def)

lemma take_next_ok:
  assumes q: "queues s" and r: "thread_ready_list s = n # rest"
    and nr: "\<And>t. t \<in> set (thread_all_list s) \<Longrightarrow> status (tasks s t) \<noteq> TASK_RUNNING"
  shows "\<exists>s'. take_next s = Ret () s' \<and> sched_inv s' \<and> running_thread s' = n \<and>
    thread_ready_list s' = rest \<and> thread_all_list s' = thread_all_list s \<and>
    idle_thread s' = idle_thread s \<and> iflag s' = iflag s \<and>
    (\<forall>t. t \<noteq> n \<longrightarrow> status (tasks s' t) = status (tasks s t)) \<and>
    (\<forall>t. task_ticks (tasks s' t) = task_ticks (tasks s t))"
proof -
  let ?cur = "running_thread s"
  let ?s1 = "set_task n (\<lambda>t. t\<lparr>status := TASK_RUNNING\<rparr>) (s\<lparr>thread_ready_list := rest\<rparr>)"
  obtain root where root: "spaces root s"
    using q by (auto simp: queues_def)
  have n: "n \<in> set (thread_all_list s)" "n \<noteq> NULL" "n \<notin> set rest"
    using q r by (auto simp: queues_def)
  have root1: "spaces root ?s1"
    using root by (rule spaces_cong [rotated 3]) (use root in \<open>auto simp: spaces_def\<close>)
  obtain c g where act: "process_activate n ?s1 = Ret () (?s1\<lparr>cr3 := c, g_tss := g\<rparr>)"
    and c: "c \<in> roots root ?s1"
    using process_activate_ok [OF root1, of n] n by auto
  define s' where "s' = switch_to ?cur n (?s1\<lparr>cr3 := c, g_tss := g\<rparr>)"
  have run: "take_next s = Ret () s'"
    using act r by (simp add: take_next_def Let_def thenK_def bindK_def s'_def)
  have f: "tasks s' = (let m = (tasks s)(n := (tasks s n)\<lparr>status := TASK_RUNNING\<rparr>)
      in m(?cur := (m ?cur)\<lparr>self_kstack := esp s\<rparr>))"
    "thread_ready_list s' = rest" "thread_all_list s' = thread_all_list s"
    "idle_thread s' = idle_thread s" "iflag s' = iflag s" "pmem s' = pmem s" "cr3 s' = c"
    "esp s' = (if n = ?cur then esp s else self_kstack (tasks s n))"
    by (simp_all add: s'_def switch_to_def Let_def)
  have cur': "running_thread s' = n"
    using q n(1) f(8) by (auto simp: running_thread_def queues_def)
  have "spaces root s'"
    using root1 by (rule spaces_cong [rotated 3]) (use c in \<open>auto simp: f Let_def\<close>)
  moreover have "self_kstack (tasks s' t) AND 0xfffff000 = t"
    if "t \<in> set (thread_all_list s)" "t \<noteq> n" for t
    using q that by (auto simp: f Let_def queues_def running_thread_def)
  moreover have "status (tasks s' t) = (if t = n then TASK_RUNNING else status (tasks s t))" for t
    by (simp add: f Let_def)
  ultimately have "sched_inv s'"
    using q r n nr cur' unfolding sched_inv_def queues_def by (auto simp: f)
  moreover have "\<forall>t. task_ticks (tasks s' t) = task_ticks (tasks s t)"
    by (simp add: f Let_def)
  ultimately show ?thesis
    using run cur' f \<open>\<And>t. status (tasks s' t) = _\<close> by auto
qed

lemma queuesD:
  assumes "queues s"
  shows "t \<in> set (thread_all_list s) \<Longrightarrow>
      status (tasks s t) = TASK_READY \<longleftrightarrow> t \<in> set (thread_ready_list s)"
    and "t \<in> set (thread_all_list s) \<Longrightarrow> status (tasks s t) = TASK_RUNNING \<Longrightarrow> t = running_thread s"
    and "t \<in> set (thread_ready_list s) \<Longrightarrow> t \<in> set (thread_all_list s)"
    and "idle_thread s \<in> set (thread_all_list s)"
    and "status (tasks s (idle_thread s)) \<in> {TASK_RUNNING, TASK_READY, TASK_BLOCKED}"
    and "distinct (thread_all_list s)" and "distinct (thread_ready_list s)"
    and "\<exists>root. spaces root s"
    and "t \<in> set (thread_all_list s) \<Longrightarrow> t \<noteq> NULL"
    and "t \<in> set (thread_all_list s) \<Longrightarrow> t \<noteq> running_thread s \<Longrightarrow>
      self_kstack (tasks s t) AND 0xfffff000 = t"
  using assms unfolding queues_def by blast+

text \<open>A change of the states and the ready queue that keeps the rest.\<close>

lemma queues_change:
  assumes q: "queues s" and "thread_all_list s' = thread_all_list s" "idle_thread s' = idle_thread s"
    "pmem s' = pmem s" "cr3 s' = cr3 s" "running_thread s' = running_thread s"
    and "\<And>t. pgdir (tasks s' t) = pgdir (tasks s t)"
    and "\<And>t. self_kstack (tasks s' t) = self_kstack (tasks s t)"
    and "distinct (thread_ready_list s')" and "set (thread_ready_list s') \<subseteq> set (thread_all_list s)"
    and "\<And>t. t \<in> set (thread_all_list s) \<Longrightarrow>
      status (tasks s' t) = TASK_READY \<longleftrightarrow> t \<in> set (thread_ready_list s')"
    and "\<And>t. t \<in> set (thread_all_list s) \<Longrightarrow> status (tasks s' t) = TASK_RUNNING \<Longrightarrow> t = running_thread s"
    and "status (tasks s' (idle_thread s)) \<in> {TASK_RUNNING, TASK_READY, TASK_BLOCKED}"
  shows "queues s'"
proof -
  obtain root where root: "spaces root s"
    using queuesD(8) [OF q] by blast
  have "spaces root s'"
    using assms root by (intro spaces_cong [OF assms(2) assms(4) _ root]) (auto simp: spaces_def)
  then have "\<exists>root. spaces root s'" by blast
  moreover have "t \<noteq> NULL \<and> (t \<noteq> running_thread s \<longrightarrow> self_kstack (tasks s' t) AND 0xfffff000 = t)"
    if "t \<in> set (thread_all_list s)" for t
    using queuesD(9,10) [OF q that] assms(8) by simp
  ultimately show ?thesis
    unfolding queues_def using assms queuesD(4,6) [OF q] by simp
qed

text \<open>The queue \<^verbatim>\<open>schedule\<close> chooses from: the caller joins its end if it was only preempted.\<close>

definition runnable :: "'a sched_scheme \<Rightarrow> addr list" where
  "runnable s = thread_ready_list s @
     (if status (tasks s (running_thread s)) = TASK_RUNNING then [running_thread s] else [])"

lemma put_back_ok:
  assumes q: "queues s"
    and c: "status (tasks s (running_thread s)) = TASK_RUNNING \<Longrightarrow>
      running_thread s \<in> set (thread_all_list s)"
  shows "\<exists>s'. put_back s = Ret () s' \<and> queues s' \<and> thread_ready_list s' = runnable s \<and>
    (\<forall>t \<in> set (thread_all_list s). status (tasks s' t) \<noteq> TASK_RUNNING) \<and>
    thread_all_list s' = thread_all_list s \<and> idle_thread s' = idle_thread s \<and> iflag s' = iflag s \<and>
    running_thread s' = running_thread s \<and>
    (\<forall>t. blocked_status (status (tasks s' t)) = blocked_status (status (tasks s t)))"
proof (cases "status (tasks s (running_thread s)) = TASK_RUNNING")
  case True
  let ?cur = "running_thread s"
  let ?s' = "set_task ?cur (\<lambda>t. t\<lparr>task_ticks := priority t, status := TASK_READY\<rparr>)
    (s\<lparr>thread_ready_list := thread_ready_list s @ [?cur]\<rparr>)"
  have cur: "?cur \<in> set (thread_all_list s)" "?cur \<notin> set (thread_ready_list s)"
    using c [OF True] True queuesD(1) [OF q, of ?cur] by simp_all
  have "running_thread ?s' = ?cur"
    by (rule running_thread_cong) simp
  have "queues ?s'"
  proof (rule queues_change [OF q])
    show "status (tasks ?s' t) = TASK_READY \<longleftrightarrow> t \<in> set (thread_ready_list ?s')"
      if "t \<in> set (thread_all_list s)" for t
      using queuesD(1) [OF q that] by simp
    show "t = ?cur" if "t \<in> set (thread_all_list s)" "status (tasks ?s' t) = TASK_RUNNING" for t
      using queuesD(2) [OF q that(1)] that(2) by (auto split: if_splits)
    show "set (thread_ready_list ?s') \<subseteq> set (thread_all_list s)"
      using queuesD(3) [OF q] cur by auto
    show "status (tasks ?s' (idle_thread s)) \<in> {TASK_RUNNING, TASK_READY, TASK_BLOCKED}"
      using queuesD(5) [OF q] by simp
  qed (use queuesD(7) [OF q] cur \<open>running_thread ?s' = ?cur\<close> in simp_all)
  moreover have "\<forall>t \<in> set (thread_all_list s). status (tasks ?s' t) \<noteq> TASK_RUNNING"
    using queuesD(2) [OF q] by auto
  moreover have "put_back s = Ret () ?s'"
    using True cur by (simp add: put_back_def Let_def)
  moreover have "thread_ready_list ?s' = runnable s"
    using True by (simp add: runnable_def)
  ultimately show ?thesis
    using True \<open>running_thread ?s' = ?cur\<close>
    by (intro exI [of _ ?s'] conjI) (simp_all add: blocked_status_def)
next
  case False
  then have "\<forall>t \<in> set (thread_all_list s). status (tasks s t) \<noteq> TASK_RUNNING"
    using queuesD(2) [OF q] by metis
  then show ?thesis
    using q False by (intro exI [of _ s]) (simp add: put_back_def runnable_def)
qed

lemma thread_unblock_ok:
  assumes q: "queues s" and t: "t \<in> set (thread_all_list s)" "blocked_status (status (tasks s t))"
  shows "\<exists>s'. thread_unblock t s = Ret () s' \<and> queues s' \<and>
    thread_ready_list s' = t # thread_ready_list s \<and>
    thread_all_list s' = thread_all_list s \<and> idle_thread s' = idle_thread s \<and> iflag s' = iflag s \<and>
    running_thread s' = running_thread s \<and>
    tasks s' = (tasks s)(t := (tasks s t)\<lparr>status := TASK_READY\<rparr>)"
proof -
  let ?s' = "set_task t (\<lambda>t. t\<lparr>status := TASK_READY\<rparr>)
    (s\<lparr>thread_ready_list := t # thread_ready_list s\<rparr>)"
  have nr: "t \<notin> set (thread_ready_list s)" "status (tasks s t) \<noteq> TASK_RUNNING"
    "status (tasks s t) \<noteq> TASK_READY"
    using t queuesD(1) [OF q, of t] by (auto simp: blocked_status_def)
  have r: "running_thread ?s' = running_thread s"
    by (rule running_thread_cong) simp
  have "queues ?s'"
  proof (rule queues_change [OF q])
    show "status (tasks ?s' u) = TASK_READY \<longleftrightarrow> u \<in> set (thread_ready_list ?s')"
      if "u \<in> set (thread_all_list s)" for u
      using queuesD(1) [OF q that] by simp
    show "u = running_thread s" if "u \<in> set (thread_all_list s)" "status (tasks ?s' u) = TASK_RUNNING" for u
      using queuesD(2) [OF q that(1)] that(2) by (auto split: if_splits)
    show "set (thread_ready_list ?s') \<subseteq> set (thread_all_list s)"
      using queuesD(3) [OF q] t by auto
    show "status (tasks ?s' (idle_thread s)) \<in> {TASK_RUNNING, TASK_READY, TASK_BLOCKED}"
      using queuesD(5) [OF q] by simp
  qed (use queuesD(7) [OF q] nr r in simp_all)
  moreover have "thread_unblock t s = Ret () ?s'"
    using t nr by (simp add: thread_unblock_def Let_def intr_eqs set_task_def)
  ultimately show ?thesis
    using r by (intro exI [of _ ?s'] conjI) simp_all
qed

lemma schedule_ok:
  assumes q: "queues s" and i: "\<not> iflag s"
    and c: "status (tasks s (running_thread s)) = TASK_RUNNING \<Longrightarrow>
      running_thread s \<in> set (thread_all_list s)"
  shows "\<exists>s'. schedule s = Ret () s' \<and> sched_inv s' \<and> \<not> iflag s' \<and>
    running_thread s' # thread_ready_list s' = (if runnable s = [] then [idle_thread s] else runnable s) \<and>
    thread_all_list s' = thread_all_list s \<and> idle_thread s' = idle_thread s \<and>
    (\<forall>t. t \<noteq> idle_thread s \<longrightarrow> blocked_status (status (tasks s' t)) = blocked_status (status (tasks s t)))"
proof -
  obtain s1 where s1: "put_back s = Ret () s1" "queues s1" "thread_ready_list s1 = runnable s"
    "\<forall>t \<in> set (thread_all_list s). status (tasks s1 t) \<noteq> TASK_RUNNING"
    "thread_all_list s1 = thread_all_list s" "idle_thread s1 = idle_thread s" "iflag s1 = iflag s"
    "\<forall>t. blocked_status (status (tasks s1 t)) = blocked_status (status (tasks s t))"
    using put_back_ok [OF q c] by blast
  let ?wake = "\<lambda>s. if thread_ready_list s = [] then thread_unblock (idle_thread s) s else Ret () s"
  obtain s2 n rest where s2: "?wake s1 = Ret () s2" "queues s2" "thread_ready_list s2 = n # rest"
    "n # rest = (if runnable s = [] then [idle_thread s] else runnable s)"
    "\<forall>t \<in> set (thread_all_list s). status (tasks s2 t) \<noteq> TASK_RUNNING"
    "thread_all_list s2 = thread_all_list s" "idle_thread s2 = idle_thread s" "iflag s2 = iflag s"
    "\<forall>t. t \<noteq> idle_thread s \<longrightarrow> blocked_status (status (tasks s2 t)) = blocked_status (status (tasks s t))"
  proof (cases "runnable s")
    case Nil
    have idle: "idle_thread s1 \<in> set (thread_all_list s1)"
      by (rule queuesD(4) [OF s1(2)])
    have "status (tasks s1 (idle_thread s1)) = TASK_BLOCKED"
      using queuesD(5) [OF s1(2)] queuesD(1) [OF s1(2) idle] s1(3,4,5) idle Nil by auto
    then have "blocked_status (status (tasks s1 (idle_thread s1)))"
      by (simp add: blocked_status_def)
    with idle obtain s2 where "thread_unblock (idle_thread s1) s1 = Ret () s2" "queues s2"
      "thread_ready_list s2 = [idle_thread s]" "thread_all_list s2 = thread_all_list s"
      "idle_thread s2 = idle_thread s" "iflag s2 = iflag s"
      "tasks s2 = (tasks s1)(idle_thread s1 := (tasks s1 (idle_thread s1))\<lparr>status := TASK_READY\<rparr>)"
      using thread_unblock_ok [OF s1(2), of "idle_thread s1"] s1(3,5,6,7) Nil by auto
    then show ?thesis
      using that [of s2] s1 Nil by simp
  next
    case (Cons n rest)
    show ?thesis
      by (rule that [of s1 n rest]) (simp_all add: Cons s1(2,3,5,6,7,8), rule s1(4))
  qed
  then obtain s' where s': "take_next s2 = Ret () s'" "sched_inv s'" "running_thread s' = n"
    "thread_ready_list s' = rest" "thread_all_list s' = thread_all_list s"
    "idle_thread s' = idle_thread s" "iflag s' = iflag s"
    "\<forall>t. t \<noteq> n \<longrightarrow> status (tasks s' t) = status (tasks s2 t)"
    using take_next_ok [of s2 n rest] by auto
  have "n \<in> set (thread_all_list s2)" "n \<in> set (thread_ready_list s2)"
    using queuesD(3) [OF s2(2), of n] s2(3) by simp_all
  then have "\<not> blocked_status (status (tasks s2 n))" "\<not> blocked_status (status (tasks s' n))"
    using queuesD(1) [OF s2(2), of n] s'(2,3) by (auto simp: sched_inv_def blocked_status_def)
  then have b: "t \<noteq> idle_thread s \<longrightarrow> blocked_status (status (tasks s' t)) = blocked_status (status (tasks s t))" for t
    using s'(8) s2(9) by (cases "t = n") auto
  have "schedule s = Ret () s'"
    using i s1 s2 s' by (simp add: schedule_def thenK_def bindK_def intr_get_status_def)
  then show ?thesis
    using s' s2 i b by auto
qed

subsection \<open>Blocking, yielding and the timer\<close>

lemma sched_invD:
  assumes "sched_inv s"
  shows "queues s" "running_thread s \<in> set (thread_all_list s)"
    "status (tasks s (running_thread s)) = TASK_RUNNING"
    "running_thread s \<notin> set (thread_ready_list s)"
  using assms queuesD(1) [of s "running_thread s"] by (simp_all add: sched_inv_def)

lemma flag_inv [simp]:
  "running_thread (s\<lparr>iflag := b\<rparr>) = running_thread s"
  "queues (s\<lparr>iflag := b\<rparr>) = queues s"
  "sched_inv (s\<lparr>iflag := b\<rparr>) = sched_inv s"
proof -
  have v: "addr_v2p (s\<lparr>iflag := b, cr3 := c\<rparr>) = addr_v2p (s\<lparr>cr3 := c\<rparr>)" for c
    by (rule v2p_cong) simp_all
  show r: "running_thread (s\<lparr>iflag := b\<rparr>) = running_thread s"
    by (rule running_thread_cong) simp
  have "spaces root (s\<lparr>iflag := b\<rparr>) = spaces root s" for root
    unfolding spaces_def roots_def v by simp
  then show q: "queues (s\<lparr>iflag := b\<rparr>) = queues s"
    unfolding queues_def r by simp
  show "sched_inv (s\<lparr>iflag := b\<rparr>) = sched_inv s"
    unfolding sched_inv_def q r by simp
qed

lemma thread_block_ok:
  assumes inv: "sched_inv s" and st: "blocked_status st"
    and idle: "running_thread s = idle_thread s \<Longrightarrow> st = TASK_BLOCKED"
  shows "\<exists>s'. thread_block st s = Ret (intr_get_status s) s' \<and> sched_inv s' \<and> \<not> iflag s' \<and>
    running_thread s' # thread_ready_list s' =
      (if thread_ready_list s = [] then [idle_thread s] else thread_ready_list s) \<and>
    thread_all_list s' = thread_all_list s \<and> idle_thread s' = idle_thread s \<and>
    (\<forall>t. t \<noteq> idle_thread s \<longrightarrow> blocked_status (status (tasks s' t)) =
      (t = running_thread s \<or> blocked_status (status (tasks s t))))"
proof -
  let ?cur = "running_thread s"
  let ?s1 = "set_task ?cur (\<lambda>t. t\<lparr>status := st\<rparr>) (s\<lparr>iflag := False\<rparr>)"
  note q = sched_invD(1) [OF inv]
  have r: "running_thread ?s1 = ?cur"
    by (rule running_thread_cong) simp
  have "queues ?s1"
  proof (rule queues_change [OF q])
    show "status (tasks ?s1 t) = TASK_READY \<longleftrightarrow> t \<in> set (thread_ready_list ?s1)"
      if "t \<in> set (thread_all_list s)" for t
      using queuesD(1) [OF q that] sched_invD(4) [OF inv] st by (auto simp: blocked_status_def)
    show "t = ?cur" if "t \<in> set (thread_all_list s)" "status (tasks ?s1 t) = TASK_RUNNING" for t
      using queuesD(2) [OF q that(1)] that(2) by (auto split: if_splits)
    show "set (thread_ready_list ?s1) \<subseteq> set (thread_all_list s)"
      using queuesD(3) [OF q] by auto
    show "status (tasks ?s1 (idle_thread s)) \<in> {TASK_RUNNING, TASK_READY, TASK_BLOCKED}"
      using queuesD(5) [OF q] idle by auto
  qed (use queuesD(7) [OF q] r in simp_all)
  moreover have nr: "status (tasks ?s1 (running_thread ?s1)) \<noteq> TASK_RUNNING"
    using r st by (auto simp: blocked_status_def)
  ultimately obtain s' where s': "schedule ?s1 = Ret () s'" "sched_inv s'" "\<not> iflag s'"
    "running_thread s' # thread_ready_list s' =
      (if runnable ?s1 = [] then [idle_thread s] else runnable ?s1)"
    "thread_all_list s' = thread_all_list s" "idle_thread s' = idle_thread s"
    "\<forall>t. t \<noteq> idle_thread s \<longrightarrow> blocked_status (status (tasks s' t)) = blocked_status (status (tasks ?s1 t))"
    using schedule_ok [of ?s1] by auto
  have "runnable ?s1 = thread_ready_list s"
    using nr by (simp add: runnable_def)
  moreover have "thread_block st s = Ret (intr_get_status s) s'"
    using s'(1) st by (simp add: thread_block_def Let_def intr_eqs intr_get_status_def thenK_def bindK_def)
  ultimately show ?thesis
    using s' st by auto
qed

lemma thread_yield_ok:
  assumes inv: "sched_inv s"
  shows "\<exists>s'. thread_yield s = Ret (intr_get_status s) s' \<and> sched_inv s' \<and> \<not> iflag s' \<and>
    running_thread s' # thread_ready_list s' = thread_ready_list s @ [running_thread s] \<and>
    thread_all_list s' = thread_all_list s \<and> idle_thread s' = idle_thread s \<and>
    (\<forall>t. t \<noteq> idle_thread s \<longrightarrow> blocked_status (status (tasks s' t)) = blocked_status (status (tasks s t)))"
proof -
  let ?cur = "running_thread s"
  let ?s1 = "set_task ?cur (\<lambda>t. t\<lparr>status := TASK_READY\<rparr>)
    (s\<lparr>iflag := False, thread_ready_list := thread_ready_list s @ [?cur]\<rparr>)"
  note q = sched_invD(1) [OF inv]
  have r: "running_thread ?s1 = ?cur"
    by (rule running_thread_cong) simp
  have "queues ?s1"
  proof (rule queues_change [OF q])
    show "status (tasks ?s1 t) = TASK_READY \<longleftrightarrow> t \<in> set (thread_ready_list ?s1)"
      if "t \<in> set (thread_all_list s)" for t
      using queuesD(1) [OF q that] by auto
    show "t = ?cur" if "t \<in> set (thread_all_list s)" "status (tasks ?s1 t) = TASK_RUNNING" for t
      using queuesD(2) [OF q that(1)] that(2) by (auto split: if_splits)
    show "set (thread_ready_list ?s1) \<subseteq> set (thread_all_list s)"
      using queuesD(3) [OF q] sched_invD(2) [OF inv] by auto
    show "status (tasks ?s1 (idle_thread s)) \<in> {TASK_RUNNING, TASK_READY, TASK_BLOCKED}"
      using queuesD(5) [OF q] by auto
  qed (use queuesD(7) [OF q] sched_invD(4) [OF inv] r in simp_all)
  moreover have nr: "status (tasks ?s1 (running_thread ?s1)) \<noteq> TASK_RUNNING"
    using r by simp
  ultimately obtain s' where s': "schedule ?s1 = Ret () s'" "sched_inv s'" "\<not> iflag s'"
    "running_thread s' # thread_ready_list s' =
      (if runnable ?s1 = [] then [idle_thread s] else runnable ?s1)"
    "thread_all_list s' = thread_all_list s" "idle_thread s' = idle_thread s"
    "\<forall>t. t \<noteq> idle_thread s \<longrightarrow> blocked_status (status (tasks s' t)) = blocked_status (status (tasks ?s1 t))"
    using schedule_ok [of ?s1] by auto
  have "runnable ?s1 = thread_ready_list s @ [?cur]"
    using nr by (simp add: runnable_def)
  moreover have "thread_yield s = Ret (intr_get_status s) s'"
    using s'(1) sched_invD(4) [OF inv]
    by (simp add: thread_yield_def Let_def intr_eqs intr_get_status_def thenK_def bindK_def)
  ultimately show ?thesis
    using s' sched_invD(3) [OF inv] by (auto simp: blocked_status_def)
qed

lemma schedule_preempt:
  assumes inv: "sched_inv s" and "\<not> iflag s"
  shows "\<exists>s'. schedule s = Ret () s' \<and> sched_inv s' \<and> \<not> iflag s' \<and>
    running_thread s' # thread_ready_list s' = thread_ready_list s @ [running_thread s] \<and>
    thread_all_list s' = thread_all_list s \<and> idle_thread s' = idle_thread s \<and>
    (\<forall>t. t \<noteq> idle_thread s \<longrightarrow> blocked_status (status (tasks s' t)) = blocked_status (status (tasks s t)))"
  using schedule_ok [OF sched_invD(1) [OF inv] assms(2)] sched_invD(2,3) [OF inv]
  by (auto simp: runnable_def)

text \<open>The scheduler touches only the state, the saved stack pointer and the tick counts of a thread.\<close>

definition same_task :: "task_struct \<Rightarrow> task_struct \<Rightarrow> bool" where
  "same_task a b \<longleftrightarrow> b = a\<lparr>status := status b, self_kstack := self_kstack b,
     task_ticks := task_ticks b, elapsed_ticks := elapsed_ticks b\<rparr>"

definition same_tasks :: "'a sched_scheme \<Rightarrow> 'a sched_scheme \<Rightarrow> bool" where
  "same_tasks s s' \<longleftrightarrow> (\<forall>t. same_task (tasks s t) (tasks s' t))"

lemma same_tasks_refl: "tasks s' = tasks s \<Longrightarrow> same_tasks s s'"
  by (simp add: same_tasks_def same_task_def)

lemma same_task_trans: "same_task a b \<Longrightarrow> same_task b c \<Longrightarrow> same_task a c"
  by (cases a; cases b; cases c) (simp add: same_task_def)

lemma same_tasks_trans: "same_tasks s t \<Longrightarrow> same_tasks t u \<Longrightarrow> same_tasks s u"
  unfolding same_tasks_def using same_task_trans by blast

lemma same_tasks_set:
  "(\<And>x. same_task x (f x)) \<Longrightarrow> tasks s' = (tasks s)(t := f (tasks s t)) \<Longrightarrow> same_tasks s s'"
  by (simp add: same_tasks_def same_task_def)

lemma process_activate_tasks: "process_activate n s = Ret u s' \<Longrightarrow> tasks s' = tasks s"
  by (auto simp: process_activate_def page_dir_activate_def kop_iffs Let_def update_tss_esp_def
    split: if_splits sum.splits)

lemma thread_unblock_same: "thread_unblock t s = Ret u s' \<Longrightarrow> same_tasks s s'"
  by (rule same_tasks_set [where t = t and f = "\<lambda>x. x\<lparr>status := TASK_READY\<rparr>"])
    (auto simp: same_task_def thread_unblock_def Let_def intr_eqs blocked_status_def split: if_splits)

lemma put_back_same: "put_back s = Ret u s' \<Longrightarrow> same_tasks s s'"
  by (auto simp: put_back_def Let_def same_task_def same_tasks_def split: if_splits)

lemma take_next_same: "take_next s = Ret u s' \<Longrightarrow> same_tasks s s'"
  by (auto simp: take_next_def Let_def kop_iffs same_tasks_def same_task_def switch_to_def
    dest!: process_activate_tasks split: list.splits)

lemma schedule_same: "schedule s = Ret u s' \<Longrightarrow> same_tasks s s'"
  unfolding schedule_def
  by (auto simp: kop_iffs split: if_splits
    dest!: put_back_same take_next_same thread_unblock_same intro: same_tasks_trans)

lemma thread_block_same: "thread_block st s = Ret u s' \<Longrightarrow> same_tasks s s'"
proof -
  assume "thread_block st s = Ret u s'"
  then have "schedule (set_task (running_thread (s\<lparr>iflag := False\<rparr>)) (\<lambda>t. t\<lparr>status := st\<rparr>)
      (s\<lparr>iflag := False\<rparr>)) = Ret () s'"
    by (auto simp: thread_block_def Let_def intr_eqs kop_iffs split: if_splits)
  from schedule_same [OF this] show ?thesis
    by (rule same_tasks_trans [rotated]) (rule same_tasks_set [where f = "\<lambda>t. t\<lparr>status := st\<rparr>"],
      auto simp: same_task_def)
qed

lemma thread_yield_same: "thread_yield s = Ret u s' \<Longrightarrow> same_tasks s s'"
proof -
  let ?c = "running_thread s"
  assume "thread_yield s = Ret u s'"
  then have "schedule (set_task ?c (\<lambda>t. t\<lparr>status := TASK_READY\<rparr>)
      (s\<lparr>iflag := False, thread_ready_list := thread_ready_list s @ [?c]\<rparr>)) = Ret () s'"
    by (auto simp: thread_yield_def Let_def intr_eqs kop_iffs split: if_splits)
  from schedule_same [OF this] show ?thesis
    by (rule same_tasks_trans [rotated]) (rule same_tasks_set [where f = "\<lambda>t. t\<lparr>status := TASK_READY\<rparr>"],
      auto simp: same_task_def)
qed

text \<open>The scheduler leaves physical memory and everything outside its own record alone.\<close>

definition same_rest :: "'a sched_scheme \<Rightarrow> 'a sched_scheme \<Rightarrow> bool" where
  "same_rest s s' \<longleftrightarrow> pmem s' = pmem s \<and> sched.more s' = sched.more s \<and>
     g_main_thread s' = g_main_thread s"

lemma same_rest_trans: "same_rest s t \<Longrightarrow> same_rest t u \<Longrightarrow> same_rest s u"
  by (simp add: same_rest_def)

lemma same_rest_set: "same_rest s (set_task t f s)"
  by (simp add: same_rest_def set_task_def)

lemma thread_unblock_rest: "thread_unblock t s = Ret u s' \<Longrightarrow> same_rest s s'"
  by (auto simp: same_rest_def thread_unblock_def Let_def intr_eqs set_task_def split: if_splits)

lemma put_back_rest: "put_back s = Ret u s' \<Longrightarrow> same_rest s s'"
  by (auto simp: put_back_def Let_def same_rest_def set_task_def split: if_splits)

lemma process_activate_rest: "process_activate n s = Ret u s' \<Longrightarrow> same_rest s s'"
  by (auto simp: process_activate_def page_dir_activate_def kop_iffs Let_def update_tss_esp_def
    same_rest_def split: if_splits sum.splits)

lemma take_next_rest: "take_next s = Ret u s' \<Longrightarrow> same_rest s s'"
  by (auto simp: take_next_def Let_def kop_iffs switch_to_def same_rest_def set_task_def
    dest!: process_activate_rest split: list.splits)

lemma schedule_rest: "schedule s = Ret u s' \<Longrightarrow> same_rest s s'"
  unfolding schedule_def
  by (auto simp: kop_iffs split: if_splits
    dest!: put_back_rest take_next_rest thread_unblock_rest intro: same_rest_trans)

lemma thread_block_rest: "thread_block st s = Ret u s' \<Longrightarrow> same_rest s s'"
  by (auto simp: thread_block_def Let_def intr_eqs kop_iffs same_rest_def set_task_def
    dest!: schedule_rest split: if_splits)

lemma thread_yield_rest: "thread_yield s = Ret u s' \<Longrightarrow> same_rest s s'"
  by (auto simp: thread_yield_def Let_def intr_eqs kop_iffs same_rest_def set_task_def
    dest!: schedule_rest split: if_splits)

lemma timer_rest: "intr_timer_handler s = Ret u s' \<Longrightarrow> same_rest s s'"
  by (auto simp: intr_timer_handler_def Let_def same_rest_def set_task_def
    dest!: schedule_rest split: if_splits)

text \<open>One timer interrupt.\<close>

lemma timer_ok:
  assumes inv: "sched_inv s" and "\<not> iflag s"
    and magic: "stack_magic (tasks s (running_thread s)) = STACK_MAGIC"
  shows "\<exists>s'. intr_timer_handler s = Ret () s' \<and> sched_inv s' \<and> same_tasks s s' \<and>
    thread_all_list s' = thread_all_list s \<and> idle_thread s' = idle_thread s \<and> \<not> iflag s' \<and>
    (\<forall>t. t \<noteq> idle_thread s \<longrightarrow> blocked_status (status (tasks s' t)) = blocked_status (status (tasks s t))) \<and>
    (if task_ticks (tasks s (running_thread s)) = 0
     then running_thread s' # thread_ready_list s' = thread_ready_list s @ [running_thread s]
     else running_thread s' = running_thread s \<and> thread_ready_list s' = thread_ready_list s \<and>
       task_ticks (tasks s' (running_thread s)) = task_ticks (tasks s (running_thread s)) - 1)"
proof -
  let ?c = "running_thread s"
  let ?s1 = "set_task ?c (\<lambda>t. t\<lparr>elapsed_ticks := elapsed_ticks t + 1\<rparr>) s"
  let ?s2 = "?s1\<lparr>ticks := ticks s + 1\<rparr>"
  let ?s3 = "set_task ?c (\<lambda>t. t\<lparr>task_ticks := task_ticks t - 1\<rparr>) ?s2"
  note q = sched_invD(1) [OF inv]
  have keep: "sched_inv s'" if "tasks s' = (tasks s)(?c := t)" "status t = status (tasks s ?c)"
    "pgdir t = pgdir (tasks s ?c)" "self_kstack t = self_kstack (tasks s ?c)"
    "thread_ready_list s' = thread_ready_list s" "thread_all_list s' = thread_all_list s"
    "idle_thread s' = idle_thread s" "pmem s' = pmem s" "cr3 s' = cr3 s" "esp s' = esp s" for s' t
  proof -
    have r: "running_thread s' = ?c"
      using that by (intro running_thread_cong)
    have st: "status (tasks s' u) = status (tasks s u)" "pgdir (tasks s' u) = pgdir (tasks s u)"
      "self_kstack (tasks s' u) = self_kstack (tasks s u)" for u
      using that(1-4) by auto
    have "set (thread_ready_list s) \<subseteq> set (thread_all_list s)"
      using queuesD(3) [OF q] by blast
    then have "queues s'"
      by (intro queues_change [OF q]) (simp_all add: st r that(5-9) queuesD(1,2,7) [OF q] queuesD(5) [OF q, simplified])
    then show ?thesis
      using sched_invD(2,3) [OF inv] that r by (simp add: sched_inv_def)
  qed
  have inv2: "sched_inv ?s2"
    by (rule keep [of _ "tasks ?s2 ?c"]) simp_all
  have inv3: "sched_inv ?s3"
    by (rule keep [of _ "tasks ?s3 ?c"]) simp_all
  have r: "running_thread ?s2 = ?c" "running_thread ?s3 = ?c"
    by (rule running_thread_cong; simp)+
  have same2: "same_tasks s ?s2" and same3: "same_tasks s ?s3"
    by (simp_all add: same_tasks_def same_task_def)
  show ?thesis
  proof (cases "task_ticks (tasks s ?c) = 0")
    case True
    obtain s' where s': "schedule ?s2 = Ret () s'" "sched_inv s'" "\<not> iflag s'"
      "running_thread s' # thread_ready_list s' = thread_ready_list s @ [?c]"
      "thread_all_list s' = thread_all_list s" "idle_thread s' = idle_thread s"
      "\<forall>t. t \<noteq> idle_thread s \<longrightarrow> blocked_status (status (tasks s' t)) = blocked_status (status (tasks ?s2 t))"
      using schedule_preempt [OF inv2] assms(2) r by auto
    have "same_tasks s s'"
      using schedule_same [OF s'(1)] same2 same_tasks_trans by blast
    then show ?thesis
      using s' True magic by (auto simp: intr_timer_handler_def Let_def)
  next
    case False
    then have "intr_timer_handler s = Ret () ?s3"
      using magic by (simp add: intr_timer_handler_def Let_def)
    with False show ?thesis
      using inv3 r same3 assms(2) by auto
  qed
qed

subsection \<open>Runs of the scheduler\<close>

text \<open>
  The moves of a running system, as seen by the scheduler: a timer interrupt while interrupts are
  on (the gate turns them off), the running thread blocking, yielding or waking a blocked thread,
  and a change of the interrupt flag (a thread that was switched in restores its own status).
\<close>

inductive sched_step :: "'a sched_scheme \<Rightarrow> 'a sched_scheme \<Rightarrow> bool" where
  tick: "iflag s \<Longrightarrow> intr_timer_handler (s\<lparr>iflag := False\<rparr>) = Ret () s' \<Longrightarrow> sched_step s s'"
| block: "blocked_status st \<Longrightarrow> (running_thread s = idle_thread s \<Longrightarrow> st = TASK_BLOCKED) \<Longrightarrow>
    thread_block st s = Ret old s' \<Longrightarrow> sched_step s s'"
| yield: "thread_yield s = Ret old s' \<Longrightarrow> sched_step s s'"
| unblock: "t \<in> set (thread_all_list s) \<Longrightarrow> blocked_status (status (tasks s t)) \<Longrightarrow>
    thread_unblock t s = Ret () s' \<Longrightarrow> sched_step s s'"
| flag: "sched_step s (s\<lparr>iflag := b\<rparr>)"

inductive_cases sched_stepE: "sched_step s s'"

definition stacks_marked :: "'a sched_scheme \<Rightarrow> bool" where
  "stacks_marked s \<longleftrightarrow> (\<forall>t \<in> set (thread_all_list s). stack_magic (tasks s t) = STACK_MAGIC)"

lemma same_tasks_marked:
  "same_tasks s s' \<Longrightarrow> thread_all_list s' = thread_all_list s \<Longrightarrow> stacks_marked s \<Longrightarrow> stacks_marked s'"
proof -
  assume *: "same_tasks s s'" "thread_all_list s' = thread_all_list s" "stacks_marked s"
  have "stack_magic b = stack_magic a" if "same_task a b" for a b
    by (subst that [unfolded same_task_def]) simp
  then have "stack_magic (tasks s' t) = stack_magic (tasks s t)" for t
    using *(1) by (simp add: same_tasks_def)
  with * show "stacks_marked s'"
    by (simp add: stacks_marked_def)
qed

lemma marked_flag [simp]: "stacks_marked (s\<lparr>iflag := b\<rparr>) = stacks_marked s"
  by (simp add: stacks_marked_def)

lemma timer_ok_off:
  assumes "sched_inv s" and "stacks_marked s"
  shows "\<exists>s'. intr_timer_handler (s\<lparr>iflag := False\<rparr>) = Ret () s' \<and> sched_inv s' \<and>
    same_tasks s s' \<and> thread_all_list s' = thread_all_list s \<and> idle_thread s' = idle_thread s \<and>
    (\<forall>t. t \<noteq> idle_thread s \<longrightarrow> blocked_status (status (tasks s' t)) = blocked_status (status (tasks s t)))"
proof -
  have "stack_magic (tasks s (running_thread s)) = STACK_MAGIC"
    using assms sched_invD(2) by (auto simp: stacks_marked_def)
  then show ?thesis
    using timer_ok [of "s\<lparr>iflag := False\<rparr>"] assms(1) by (auto simp: same_tasks_def)
qed

lemma unblock_inv:
  assumes "sched_inv s" and "t \<in> set (thread_all_list s)" and "blocked_status (status (tasks s t))"
  shows "\<exists>s'. thread_unblock t s = Ret () s' \<and> sched_inv s' \<and> thread_all_list s' = thread_all_list s"
proof -
  obtain s' where s': "thread_unblock t s = Ret () s'" "queues s'" "thread_all_list s' = thread_all_list s"
    "running_thread s' = running_thread s" "tasks s' = (tasks s)(t := (tasks s t)\<lparr>status := TASK_READY\<rparr>)"
    using thread_unblock_ok [OF sched_invD(1) [OF assms(1)] assms(2,3)] by blast
  moreover have "t \<noteq> running_thread s"
    using assms(3) sched_invD(3) [OF assms(1)] by (auto simp: blocked_status_def)
  ultimately show ?thesis
    using sched_invD(2,3) [OF assms(1)] by (simp add: sched_inv_def)
qed

lemma sched_step_inv:
  assumes "sched_step s s'" and "sched_inv s" and "stacks_marked s"
  shows "sched_inv s' \<and> stacks_marked s'"
  using assms(1)
proof cases
  case tick
  obtain s2 where "intr_timer_handler (s\<lparr>iflag := False\<rparr>) = Ret () s2" "sched_inv s2"
    "same_tasks s s2" "thread_all_list s2 = thread_all_list s"
    using timer_ok_off [OF assms(2,3)] by blast
  with tick(2) show ?thesis
    using same_tasks_marked [of s s2] assms(3) by simp
next
  case block
  then show ?thesis
    using thread_block_ok [OF assms(2) block(1,2)] same_tasks_marked [OF thread_block_same [OF block(3)]]
      assms(3) by auto
next
  case yield
  then show ?thesis
    using thread_yield_ok [OF assms(2)] same_tasks_marked [OF thread_yield_same [OF yield]] assms(3)
    by auto
next
  case unblock
  then show ?thesis
    using unblock_inv [OF assms(2) unblock(1,2)] same_tasks_marked [OF thread_unblock_same [OF unblock(3)]]
      assms(3) by auto
next
  case flag
  then show ?thesis using assms by simp
qed

lemma sched_reach_inv:
  "sched_step\<^sup>*\<^sup>* s s' \<Longrightarrow> sched_inv s \<Longrightarrow> stacks_marked s \<Longrightarrow> sched_inv s' \<and> stacks_marked s'"
  by (induction rule: rtranclp_induct) (auto dest: sched_step_inv)

text \<open>Repeating an operation.\<close>

fun repeatK :: "nat \<Rightarrow> ('s, unit) kop \<Rightarrow> ('s, unit) kop" where
  "repeatK 0 m = retK ()"
| "repeatK (Suc n) m = thenK m (repeatK n m)"

subsection \<open>Properties\<close>

text \<open>C15: No run of the scheduler panics. From every state reached from a state with the invariant (exactly
  the READY threads are queued, only the thread on the processor is RUNNING, saved stack pointers
  are in their own pages, the stack marks are intact), by any interleaving of timer interrupts,
  blocking, yielding and waking: the invariant holds, and each of these operations returns. In
  particular \<^verbatim>\<open>schedule\<close> always finds a thread (waking the idle thread is always legal), and no thread
  is ever queued twice.\<close>

theorem scheduler_is_safe:
  assumes "sched_inv s0" and "stacks_marked s0" and "sched_step\<^sup>*\<^sup>* s0 s"
  shows "sched_inv s \<and>
    (\<exists>s'. intr_timer_handler (s\<lparr>iflag := False\<rparr>) = Ret () s') \<and>
    (\<exists>old s'. thread_block TASK_BLOCKED s = Ret old s') \<and>
    (\<exists>old s'. thread_yield s = Ret old s') \<and>
    (\<forall>t \<in> set (thread_all_list s). blocked_status (status (tasks s t)) \<longrightarrow>
       (\<exists>s'. thread_unblock t s = Ret () s'))"
proof -
  have inv: "sched_inv s" "stacks_marked s"
    using sched_reach_inv [OF assms(3,1,2)] by auto
  have "blocked_status TASK_BLOCKED"
    by (simp add: blocked_status_def)
  then show ?thesis
    using inv timer_ok_off [OF inv] thread_block_ok [OF inv(1)] thread_yield_ok [OF inv(1)]
      unblock_inv [OF inv(1)] by blast
qed

text \<open>Two kernel threads: the main thread runs, the idle thread is ready.\<close>

definition demo_task :: "addr \<Rightarrow> task_status \<Rightarrow> task_struct" where
  "demo_task t st = \<lparr>self_kstack = t + 0xf00, pid = 1, status = st, task_name = [], priority = 31,
     task_ticks = 31, elapsed_ticks = 0, fd_table = [], pgdir = NULL,
     userprog_vaddr = \<lparr>vaddr_bitmap = \<lparr>btmp_bytes_len = 0, bits = []\<rparr>, vaddr_start = 0\<rparr>,
     u_block_desc = [], cwd_inode_nr = 0, parent_pid = -1, exit_status = 0,
     stack_magic = STACK_MAGIC\<rparr>"

definition demo_sched :: sched where
  "demo_sched = machine.extend (cpu.extend cpu_reset (machine.fields 0xc009ef00 0x100000 (\<lambda>_. 0)))
     (sched.fields
       (\<lambda>t. demo_task t (if t = 0xc009e000 then TASK_RUNNING else TASK_READY))
       [0xc0101000] [0xc009e000, 0xc0101000] 0xc009e000 0xc0101000 0)"

lemma demo_sched_simps [simp]:
  "tasks demo_sched t = demo_task t (if t = 0xc009e000 then TASK_RUNNING else TASK_READY)"
  "thread_ready_list demo_sched = [0xc0101000]"
  "thread_all_list demo_sched = [0xc009e000, 0xc0101000]"
  "idle_thread demo_sched = 0xc0101000" "running_thread demo_sched = 0xc009e000"
  "cr3 demo_sched = 0x100000" "iflag demo_sched = False"
  by (simp_all add: demo_sched_def machine.defs cpu.defs sched.defs cpu_reset_def running_thread_def)

lemma demo_sched_inv: "sched_inv demo_sched" "stacks_marked demo_sched"
proof -
  have "spaces root demo_sched" for root
    by (simp add: spaces_def roots_def demo_task_def)
  then show "sched_inv demo_sched"
    by (simp add: sched_inv_def queues_def demo_task_def)
  show "stacks_marked demo_sched"
    by (simp add: stacks_marked_def demo_task_def)
qed

theorem scheduler_is_safe_witness:
  "\<exists>old s'. thread_block TASK_BLOCKED demo_sched = Ret old s'"
  using scheduler_is_safe [OF demo_sched_inv, of demo_sched] by blast

text \<open>C17: Preemption is round robin: when the running thread loses the processor again and again by an
  expired time slice, the sequence formed by the running thread and the ready queue is rotated by
  one each time. After as many preemptions as there are runnable threads each of them has had the
  processor once, and the first one has it again.\<close>

theorem schedule_is_round_robin:
  assumes "sched_inv s" and "\<not> iflag s"
  shows "\<exists>s'. repeatK n schedule s = Ret () s' \<and> sched_inv s' \<and>
    running_thread s' # thread_ready_list s' = rotate n (running_thread s # thread_ready_list s)"
  using assms
proof (induction n arbitrary: s)
  case 0
  then show ?case by simp
next
  case (Suc n)
  obtain s1 where s1: "schedule s = Ret () s1" "sched_inv s1" "\<not> iflag s1"
    "running_thread s1 # thread_ready_list s1 = thread_ready_list s @ [running_thread s]"
    using schedule_preempt [OF Suc.prems] by blast
  obtain s' where s': "repeatK n schedule s1 = Ret () s'" "sched_inv s'"
    "running_thread s' # thread_ready_list s' = rotate n (running_thread s1 # thread_ready_list s1)"
    using Suc.IH [OF s1(2,3)] by blast
  have "rotate n (running_thread s1 # thread_ready_list s1) =
      rotate (Suc n) (running_thread s # thread_ready_list s)"
    using s1(4) by (simp add: rotate1_rotate_swap)
  with s1 s' show ?case
    by auto
qed

theorem schedule_is_round_robin_witness:
  "\<exists>s'. repeatK 1 schedule demo_sched = Ret () s' \<and> running_thread s' = 0xc0101000 \<and>
     thread_ready_list s' = [0xc009e000]"
  using schedule_is_round_robin [of demo_sched 1] demo_sched_inv by auto

text \<open>C18: A thread that blocks hands the processor to the first ready thread, and to the idle thread when
  none is ready; it is then in none of the queues the scheduler picks from, keeps its new state, and
  comes back to the front of the ready queue when it is woken.\<close>

theorem block_then_unblock:
  assumes "sched_inv s" and "blocked_status st" and "running_thread s \<noteq> idle_thread s"
    and "thread_ready_list s = n # rest"
  shows "\<exists>s1 s2. thread_block st s = Ret (intr_get_status s) s1 \<and> running_thread s1 = n \<and>
    status (tasks s1 (running_thread s)) = st \<and> running_thread s \<notin> set (thread_ready_list s1) \<and>
    thread_unblock (running_thread s) s1 = Ret () s2 \<and> sched_inv s2 \<and>
    thread_ready_list s2 = running_thread s # rest"
proof -
  let ?c = "running_thread s"
  let ?s0 = "set_task ?c (\<lambda>t. t\<lparr>status := st\<rparr>) (s\<lparr>iflag := False\<rparr>)"
  obtain s1 where s1: "thread_block st s = Ret (intr_get_status s) s1" "sched_inv s1"
    "running_thread s1 = n" "thread_ready_list s1 = rest" "thread_all_list s1 = thread_all_list s"
    using thread_block_ok [OF assms(1,2)] assms(3,4) by auto
  have r0: "running_thread ?s0 = ?c"
    by (rule running_thread_cong) simp
  have "schedule ?s0 = Ret () s1"
    using s1(1) assms(2) by (auto simp: thread_block_def Let_def intr_eqs kop_iffs)
  moreover have "?c \<noteq> n"
    using sched_invD(4) [OF assms(1)] assms(4) by auto
  moreover have "schedule ?s0 = take_next ?s0"
    using assms(2,4) r0 by (auto simp: schedule_def put_back_def thenK_def bindK_def Let_def
      blocked_status_def intr_get_status_def)
  ultimately have st: "status (tasks s1 ?c) = st"
    using assms(4) r0 by (auto simp: take_next_def kop_iffs Let_def switch_to_def
      dest!: process_activate_tasks)
  have c: "?c \<in> set (thread_all_list s1)" "blocked_status (status (tasks s1 ?c))"
    using sched_invD(2) [OF assms(1)] s1(5) st assms(2) by simp_all
  have "?c \<notin> set (thread_ready_list s1)"
    using queuesD(1) [OF sched_invD(1) [OF s1(2)] c(1)] c(2) by (auto simp: blocked_status_def)
  moreover obtain s2 where "thread_unblock ?c s1 = Ret () s2" "thread_ready_list s2 = ?c # rest"
    using thread_unblock_ok [OF sched_invD(1) [OF s1(2)] c] s1(4) by auto
  moreover have "sched_inv s2"
    using unblock_inv [OF s1(2) c] calculation(2) by auto
  ultimately show ?thesis
    using s1 st by blast
qed

theorem block_then_unblock_witness:
  "\<exists>s1 s2. thread_block TASK_WAITING demo_sched = Ret INTR_OFF s1 \<and> running_thread s1 = 0xc0101000 \<and>
     thread_unblock 0xc009e000 s1 = Ret () s2 \<and> thread_ready_list s2 = [0xc009e000]"
  using block_then_unblock [of demo_sched TASK_WAITING "0xc0101000" "[]"] demo_sched_inv
  by (auto simp: blocked_status_def intr_get_status_def)

end
