(* ===== verification/Switch.thy ===== *)
theory Switch
  imports Machine
begin

section \<open>The context switch (thread/switch.S, thread_create of thread/thread.c)\<close>

text \<open>
  The registers a C function has to preserve, the instruction pointer, and word memory. \<^verbatim>\<open>switch_to\<close>
  is modelled instruction by instruction from its entry, where the return address and the two
  arguments are on the stack of the current thread. The first word of a PCB is \<^verbatim>\<open>self_kstack\<close>.
\<close>

record regs =
  r_eip :: u32
  r_esp :: u32
  r_ebp :: u32
  r_ebx :: u32
  r_edi :: u32
  r_esi :: u32
  r_eax :: u32
  wmem :: "u32 \<Rightarrow> u32"

definition push :: "u32 \<Rightarrow> regs \<Rightarrow> regs" where
  "push v s = (let s = s\<lparr>r_esp := r_esp s - 4\<rparr> in s\<lparr>wmem := (wmem s)(r_esp s := v)\<rparr>)"

definition pop_word :: "regs \<Rightarrow> u32 \<times> regs" where
  "pop_word s = (wmem s (r_esp s), s\<lparr>r_esp := r_esp s + 4\<rparr>)"

definition switch_save :: "regs \<Rightarrow> regs" where
  "switch_save s =
     (let s = push (r_esi s) s;
          s = push (r_edi s) s;
          s = push (r_ebx s) s;
          s = push (r_ebp s) s;
          s = s\<lparr>r_eax := wmem s (r_esp s + 20)\<rparr>
      in s\<lparr>wmem := (wmem s)(r_eax s := r_esp s)\<rparr>)"

definition switch_restore :: "regs \<Rightarrow> regs" where
  "switch_restore s =
     (let s = s\<lparr>r_eax := wmem s (r_esp s + 24)\<rparr>;
          s = s\<lparr>r_esp := wmem s (r_eax s)\<rparr>;
          (v, s) = pop_word s; s = s\<lparr>r_ebp := v\<rparr>;
          (v, s) = pop_word s; s = s\<lparr>r_ebx := v\<rparr>;
          (v, s) = pop_word s; s = s\<lparr>r_edi := v\<rparr>;
          (v, s) = pop_word s; s = s\<lparr>r_esi := v\<rparr>;
          (v, s) = pop_word s
      in s\<lparr>r_eip := v\<rparr>)"

definition switch_to_asm :: "regs \<Rightarrow> regs" where
  "switch_to_asm s = switch_restore (switch_save s)"

text \<open>The call \<^verbatim>\<open>switch_to(cur, next)\<close>, with its return address.\<close>

definition call_switch :: "u32 \<Rightarrow> u32 \<Rightarrow> u32 \<Rightarrow> regs \<Rightarrow> regs" where
  "call_switch ret cur nextt s = switch_to_asm (push ret (push cur (push nextt s)))"

text \<open>
  \<^verbatim>\<open>thread_create\<close>. \<^verbatim>\<open>self_kstack\<close> is a \<^verbatim>\<open>uint32_t*\<close>, so subtracting \<^verbatim>\<open>sizeof(struct intr_stack)\<close> (76) and
  \<^verbatim>\<open>sizeof(struct thread_stack)\<close> (32) moves it by four times as many bytes. The members of the
  thread stack are at offsets 0 (ebp), 4 (ebx), 8 (edi), 12 (esi), 16 (eip), 20 (unused_retaddr),
  24 (function), 28 (func_arg).
\<close>

definition sizeof_intr_stack :: u32 where "sizeof_intr_stack = 19 * 4"
definition sizeof_thread_stack :: u32 where "sizeof_thread_stack = 8 * 4"

definition thread_create :: "u32 \<Rightarrow> u32 \<Rightarrow> u32 \<Rightarrow> u32 \<Rightarrow> (u32 \<Rightarrow> u32) \<Rightarrow> (u32 \<Rightarrow> u32)" where
  "thread_create kernel_thread pthread func func_arg m =
     (let m = m(pthread := m pthread - 4 * sizeof_intr_stack);
          m = m(pthread := m pthread - 4 * sizeof_thread_stack);
          k = m pthread;
          m = m(k + 16 := kernel_thread);
          m = m(k + 24 := func);
          m = m(k + 28 := func_arg);
          m = m(k + 8 := 0, k + 12 := 0, k + 4 := 0)
      in m(k := 0))"

subsection \<open>Saving and restoring\<close>

text \<open>
  PCBs start a page and the kernel stack of a thread grows down from the end of that page, so \<^verbatim>\<open>cur\<close>
  has room for the switch while the stack is above \<^verbatim>\<open>task_struct\<close> (280 bytes) and seven more words.
  A thread that is switched out has its frame inside its page; its context is that frame.
\<close>

definition stack_room :: "u32 \<Rightarrow> u32 \<Rightarrow> bool" where
  "stack_room t sp \<longleftrightarrow> frame t = t \<and> 280 + 28 \<le> sp - t \<and> sp - t \<le> 0x1000"

definition switched_out :: "(u32 \<Rightarrow> u32) \<Rightarrow> u32 \<Rightarrow> bool" where
  "switched_out m t \<longleftrightarrow> frame t = t \<and> 280 \<le> m t - t \<and> m t - t \<le> 0x1000 - 20"

definition saved_context :: "(u32 \<Rightarrow> u32) \<Rightarrow> u32 \<Rightarrow> u32 \<times> u32 \<times> u32 \<times> u32 \<times> u32 \<times> u32" where
  "saved_context m t = (let k = m t in (m k, m (k + 4), m (k + 8), m (k + 12), m (k + 16), k + 20))"

definition cpu_context :: "regs \<Rightarrow> u32 \<times> u32 \<times> u32 \<times> u32 \<times> u32 \<times> u32" where
  "cpu_context s = (r_ebp s, r_ebx s, r_edi s, r_esi s, r_eip s, r_esp s)"

text \<open>The words of a frame lie in the page, past the first word of the PCB.\<close>

lemma frame_word:
  assumes "frame t = t" "280 \<le> e" "unat e + unat i < 0x1000"
  shows "frame (t + e + i) = t" "t + e + i \<noteq> t"
proof -
  have u: "unat (e + i) = unat e + unat i"
    using assms(3) by (intro unat_add_lem [THEN iffD1]) simp
  then have "e + i < 0x1000" "e + i \<noteq> 0"
    using assms(2,3) by (auto simp: word_le_nat_alt word_less_nat_alt unat_eq_0 [symmetric])
  then show "frame (t + e + i) = t" "t + e + i \<noteq> t"
    using frame_add(1) [OF assms(1), of "e + i"] by (simp_all add: add.assoc)
qed

lemma stack_frame:
  assumes "stack_room t sp"
  obtains e where "sp = t + e + 28" "frame t = t" "280 \<le> e" "unat e + 28 \<le> 0x1000"
proof
  have r: "unat (sp - t - 28) = unat (sp - t) - 28"
    using assms by (subst unat_sub) (simp_all add: stack_room_def word_le_nat_alt)
  have b: "308 \<le> unat (sp - t)" "unat (sp - t) \<le> 0x1000"
    using assms by (simp_all add: stack_room_def word_le_nat_alt)
  show "sp = t + (sp - t - 28) + 28" "frame t = t"
    using assms by (simp_all add: stack_room_def)
  have "280 \<le> unat (sp - t - 28)" "unat (sp - t - 28) + 28 \<le> 0x1000"
    using r b by linarith+
  then show "280 \<le> sp - t - 28" "unat (sp - t - 28) + 28 \<le> 0x1000"
    by (simp_all add: word_le_nat_alt)
qed

lemma stack_words:
  assumes "frame t = t" "280 \<le> e" "unat e + 28 \<le> 0x1000"
  shows "t + e \<noteq> t" "t + e + 4 \<noteq> t" "t + e + 8 \<noteq> t" "t + e + 12 \<noteq> t" "t + e + 16 \<noteq> t" "t + e + 20 \<noteq> t" "t + e + 24 \<noteq> t"
    "frame (t + e) = t" "frame (t + e + 4) = t" "frame (t + e + 8) = t" "frame (t + e + 12) = t"
    "frame (t + e + 16) = t" "frame (t + e + 20) = t" "frame (t + e + 24) = t"
  using frame_word [OF assms(1,2), of 0] frame_word [OF assms(1,2), of 4] frame_word [OF assms(1,2), of 8]
    frame_word [OF assms(1,2), of 12] frame_word [OF assms(1,2), of 16] frame_word [OF assms(1,2), of 20]
    frame_word [OF assms(1,2), of 24] assms(3)
  by simp_all

lemma switch_restore_eq:
  "switch_restore s =
    (let t = wmem s (r_esp s + 24); (bp, bx, di, si, ip, sp) = saved_context (wmem s) t
     in s\<lparr>r_eip := ip, r_esp := sp, r_ebp := bp, r_ebx := bx, r_edi := di, r_esi := si, r_eax := t\<rparr>)"
  by (simp add: switch_restore_def pop_word_def saved_context_def Let_def add.assoc)

lemma switch_save_eq:
  assumes "r_esp s = k + 16" and d: "wmem s (k + 20) = cur"
  shows "switch_save s = s\<lparr>r_esp := k, r_eax := cur, wmem := (wmem s)(k + 12 := r_esi s,
     k + 8 := r_edi s, k + 4 := r_ebx s, k := r_ebp s, cur := k)\<rparr>"
proof -
  have a: "k + 16 - 4 = k + 12" "k + 12 - 4 = k + 8" "k + 8 - 4 = k + 4" "k + 4 - 4 = k"
    by simp_all
  show ?thesis
    using assms by (simp add: switch_save_def push_def a Let_def add.commute [of 20 k] add.commute [of 4 k])
qed

lemma call_switch_eq:
  assumes sp: "r_esp s = k + 28"
    and k: "k + 24 \<noteq> cur"
  shows "call_switch ret cur nextt s =
    (let m = (wmem s)(k + 24 := nextt, k + 20 := cur, k + 16 := ret, k + 12 := r_esi s,
               k + 8 := r_edi s, k + 4 := r_ebx s, k := r_ebp s, cur := k);
         (bp, bx, di, si, ip, sp') = saved_context m nextt
     in s\<lparr>r_eip := ip, r_esp := sp', r_ebp := bp, r_ebx := bx, r_edi := di, r_esi := si,
          r_eax := nextt, wmem := m\<rparr>)"
proof -
  have d: "k + 28 - 4 = k + 24" "k + 24 - 4 = k + 20" "k + 20 - 4 = k + 16"
    by simp_all
  have "push ret (push cur (push nextt s)) = s\<lparr>r_esp := k + 16,
      wmem := (wmem s)(k + 24 := nextt, k + 20 := cur, k + 16 := ret)\<rparr>" (is "_ = ?s")
    by (simp add: push_def sp d)
  moreover have "switch_save ?s = s\<lparr>r_esp := k, r_eax := cur, wmem := (wmem s)(k + 24 := nextt,
      k + 20 := cur, k + 16 := ret, k + 12 := r_esi s, k + 8 := r_edi s, k + 4 := r_ebx s,
      k := r_ebp s, cur := k)\<rparr>"
    by (subst switch_save_eq [of _ k cur]) simp_all
  ultimately show ?thesis
    using k by (simp add: call_switch_def switch_to_asm_def switch_restore_eq Let_def split: prod.split)
qed

lemma context_words:
  assumes "switched_out m t"
  shows "frame (m t) = t" "frame (m t + 4) = t" "frame (m t + 8) = t" "frame (m t + 12) = t"
    "frame (m t + 16) = t"
proof -
  have r: "frame t = t" "280 \<le> m t - t" "unat (m t - t) \<le> 0x1000 - 20"
    using assms by (simp_all add: switched_out_def word_le_nat_alt)
  show "frame (m t) = t" "frame (m t + 4) = t" "frame (m t + 8) = t" "frame (m t + 12) = t"
    "frame (m t + 16) = t"
    using frame_word(1) [OF r(1,2), of 0] frame_word(1) [OF r(1,2), of 4]
      frame_word(1) [OF r(1,2), of 8] frame_word(1) [OF r(1,2), of 12]
      frame_word(1) [OF r(1,2), of 16] r(3)
    by simp_all
qed

lemma same_page:
  assumes "switched_out m t" "\<And>x. frame x = t \<Longrightarrow> m' x = m x"
  shows "saved_context m' t = saved_context m t" "switched_out m' t"
proof -
  have "m' t = m t"
    using assms by (auto simp: switched_out_def)
  then show "saved_context m' t = saved_context m t" "switched_out m' t"
    using assms context_words [OF assms(1)] by (auto simp: saved_context_def switched_out_def)
qed

lemma switch_step:
  fixes ret cur nextt s
  defines "s' \<equiv> call_switch ret cur nextt s"
  assumes room: "stack_room cur (r_esp s)" and "cur \<noteq> nextt" and out: "switched_out (wmem s) nextt"
  shows "cpu_context s' = saved_context (wmem s) nextt"
    and "saved_context (wmem s') cur = (r_ebp s, r_ebx s, r_edi s, r_esi s, ret, r_esp s - 8)"
    and "switched_out (wmem s') cur"
    and "frame x \<noteq> cur \<Longrightarrow> wmem s' x = wmem s x"
    and "r_esp s - cur \<le> x - cur \<Longrightarrow> wmem s' x = wmem s x"
proof -
  obtain e where e: "r_esp s = cur + e + 28" "frame cur = cur" "280 \<le> e" "unat e + 28 \<le> 0x1000"
    using room by (rule stack_frame)
  note w = stack_words [OF e(2-4)]
  define m where "m = (wmem s)(cur + e + 24 := nextt, cur + e + 20 := cur, cur + e + 16 := ret,
      cur + e + 12 := r_esi s, cur + e + 8 := r_edi s, cur + e + 4 := r_ebx s, cur + e := r_ebp s,
      cur := cur + e)"
  have s': "wmem s' = m" "cpu_context s' = saved_context m nextt"
    unfolding s'_def call_switch_eq [OF e(1) w(7)] m_def [symmetric]
    by (simp_all add: cpu_context_def split: prod.split)
  show other: "frame x \<noteq> cur \<Longrightarrow> wmem s' x = wmem s x" for x
    unfolding s' m_def using w e(2) by auto
  show "cpu_context s' = saved_context (wmem s) nextt"
    unfolding s' using other [unfolded s'] \<open>cur \<noteq> nextt\<close>
    by (intro same_page(1) [OF out]) auto
  show "saved_context (wmem s') cur = (r_ebp s, r_ebx s, r_edi s, r_esi s, ret, r_esp s - 8)"
    unfolding s' m_def saved_context_def using w e(1) by simp
  show "switched_out (wmem s') cur"
    unfolding s' m_def switched_out_def using e by (simp add: word_le_nat_alt)
  show "wmem s' x = wmem s x" if x: "r_esp s - cur \<le> x - cur"
  proof -
    have u: "unat (e + i) = unat e + unat i" if "unat i \<le> 28" for i
      using e(4) that by (intro unat_add_lem [THEN iffD1]) simp
    have "unat e + 28 \<le> unat (x - cur)"
      using x u [of 28] by (simp add: e(1) word_le_nat_alt)
    then have "x \<noteq> cur + e + i" if "unat i < 28" for i
      using u [of i] that by (auto simp: add.assoc)
    from this [of 0] this [of 4] this [of 8] this [of 12] this [of 16] this [of 20] this [of 24]
    show ?thesis
      unfolding s' m_def using \<open>unat e + 28 \<le> unat (x - cur)\<close> by auto
  qed
qed

subsection \<open>Threads taking turns\<close>

text \<open>
  The threads of \<open>T\<close> share the processor. The running thread computes, changing its registers and
  any memory but the pages of the other threads, or calls \<^verbatim>\<open>switch_to\<close> with room on its stack.
\<close>

inductive thread_step :: "u32 set \<Rightarrow> u32 \<times> regs \<Rightarrow> u32 \<times> regs \<Rightarrow> bool" for T where
  compute: "(\<And>x. frame x \<in> T - {cur} \<Longrightarrow> wmem s' x = wmem s x) \<Longrightarrow> thread_step T (cur, s) (cur, s')"
| switch: "stack_room cur (r_esp s) \<Longrightarrow> nextt \<in> T \<Longrightarrow> nextt \<noteq> cur \<Longrightarrow>
    thread_step T (cur, s) (nextt, call_switch ret cur nextt s)"

definition taking_turns :: "u32 set \<Rightarrow> u32 \<times> regs \<Rightarrow> bool" where
  "taking_turns T c \<longleftrightarrow> fst c \<in> T \<and> (\<forall>t \<in> T - {fst c}. switched_out (wmem (snd c)) t)"

text \<open>A step that does not give the processor to thread \<open>a\<close>.\<close>

definition away :: "u32 set \<Rightarrow> u32 \<Rightarrow> u32 \<times> regs \<Rightarrow> u32 \<times> regs \<Rightarrow> bool" where
  "away T a c c' \<longleftrightarrow> thread_step T c c' \<and> fst c' \<noteq> a"

lemma turn_step:
  assumes st: "thread_step T c c'" and c: "taking_turns T c"
  shows "taking_turns T c' \<and> (\<forall>x. frame x \<in> T - {fst c} \<longrightarrow> wmem (snd c') x = wmem (snd c) x)"
  using st
proof cases
  case (compute cur s' s)
  have "switched_out (wmem s') t" if "t \<in> T - {cur}" for t
  proof (rule same_page(2))
    show "switched_out (wmem s) t"
      using c that unfolding taking_turns_def compute(1) by simp
    show "wmem s' x = wmem s x" if "frame x = t" for x
      using compute(3) \<open>t \<in> T - {cur}\<close> that by simp
  qed
  then show ?thesis
    using c compute(3) unfolding taking_turns_def compute(1,2) by simp
next
  case (switch cur s nextt ret)
  have out: "switched_out (wmem s) t" if "t \<in> T" "t \<noteq> cur" for t
    using c that unfolding taking_turns_def switch(1) by simp
  note sw = switch_step [OF switch(3) not_sym [OF switch(5)] out [OF switch(4,5)], where ret = ret]
  have "switched_out (wmem (call_switch ret cur nextt s)) t" if "t \<in> T" "t \<noteq> nextt" for t
  proof (cases "t = cur")
    case False
    show ?thesis
      by (rule same_page(2) [OF out [OF that(1) False]], rule sw(4)) (use False in simp)
  qed (use sw(3) in simp)
  then show ?thesis
    using switch(4) sw(4) unfolding taking_turns_def switch(1,2) by simp
qed

lemma turns_away:
  assumes "(away T a)\<^sup>*\<^sup>* c c'" "taking_turns T c" "a \<in> T" "fst c \<noteq> a"
  shows "taking_turns T c' \<and> fst c' \<noteq> a \<and> (\<forall>x. frame x = a \<longrightarrow> wmem (snd c') x = wmem (snd c) x)"
  using assms
proof (induction rule: rtranclp_induct)
  case (step y z)
  have y: "taking_turns T y" "fst y \<noteq> a" "\<forall>x. frame x = a \<longrightarrow> wmem (snd y) x = wmem (snd c) x"
    using step.IH [OF step.prems] by blast+
  have "thread_step T y z" "fst z \<noteq> a"
    using step(2) by (simp_all add: away_def)
  then show ?case
    using turn_step [of T y z] y \<open>a \<in> T\<close> by simp
qed simp

lemma thread_create_frame:
  fixes pthread m
  defines "k \<equiv> pthread + (0x1000 - 432)"
  assumes "frame pthread = pthread" "m pthread = pthread + 0x1000"
  shows "switched_out (thread_create kernel_thread pthread func func_arg m) pthread"
    "saved_context (thread_create kernel_thread pthread func func_arg m) pthread =
       (0, 0, 0, 0, kernel_thread, k + 20)"
    "thread_create kernel_thread pthread func func_arg m (k + 24) = func"
    "thread_create kernel_thread pthread func func_arg m (k + 28) = func_arg"
    "frame (k + 24) = pthread" "frame (k + 28) = pthread" "frame (k + 20) = pthread"
proof -
  note w = stack_words [OF assms(2), of "0x1000 - 432", folded k_def]
  have k28: "frame (k + 28) = pthread" "k + 28 \<noteq> pthread"
    using frame_word [OF assms(2), of "0x1000 - 432" 28] by (simp_all add: k_def)
  show "frame (k + 24) = pthread" "frame (k + 28) = pthread" "frame (k + 20) = pthread"
    using w k28 by simp_all
  have e: "thread_create kernel_thread pthread func func_arg m = m(pthread := k, k + 16 := kernel_thread,
      k + 24 := func, k + 28 := func_arg, k + 8 := 0, k + 12 := 0, k + 4 := 0, k := 0)"
    using assms(3) by (simp add: thread_create_def k_def sizeof_intr_stack_def sizeof_thread_stack_def Let_def
        add.commute [of _ pthread])
  show "thread_create kernel_thread pthread func func_arg m (k + 24) = func"
    "thread_create kernel_thread pthread func func_arg m (k + 28) = func_arg"
    unfolding e by simp_all
  have p: "thread_create kernel_thread pthread func func_arg m pthread = k"
    unfolding e using w k28 by simp
  show "switched_out (thread_create kernel_thread pthread func func_arg m) pthread"
    unfolding switched_out_def p using assms(2) by (simp add: k_def)
  show "saved_context (thread_create kernel_thread pthread func func_arg m) pthread =
       (0, 0, 0, 0, kernel_thread, k + 20)"
    unfolding saved_context_def Let_def p unfolding e by simp
qed

subsection \<open>Properties\<close>

text \<open>C16: A thread that calls \<^verbatim>\<open>switch_to\<close> is resumed, after any number of turns of the other threads, by
  the next switch to it: it returns from its own call with its callee-saved registers and its stack
  pointer as they were, and the words above its stack pointer are untouched. The others may compute
  and switch in any order as long as they do not write its page.\<close>

theorem switch_resumes:
  assumes "\<forall>t \<in> T - {a}. switched_out (wmem s) t" "a \<in> T" "b \<in> T" "a \<noteq> b"
    and "stack_room a (r_esp s)"
    and "(away T a)\<^sup>*\<^sup>* (b, call_switch ret a b s) (c, s2)"
    and "stack_room c (r_esp s2)"
  shows "cpu_context (call_switch ret' c a s2) = (r_ebp s, r_ebx s, r_edi s, r_esi s, ret, r_esp s - 8)
    \<and> (\<forall>x. frame x = a \<and> r_esp s - a \<le> x - a \<longrightarrow> wmem (call_switch ret' c a s2) x = wmem s x)"
proof -
  define s1 where "s1 = call_switch ret a b s"
  have b: "switched_out (wmem s) b"
    using assms(1,3,4) by simp
  note sw = switch_step [OF assms(5,4) b, where ret = ret, folded s1_def]
  have start: "taking_turns T (a, s)"
    using assms(1,2) by (simp add: taking_turns_def)
  have "thread_step T (a, s) (b, s1)"
    unfolding s1_def using assms(3,4,5) by (intro thread_step.switch) auto
  from turn_step [OF this start] have "taking_turns T (b, s1)"
    by simp
  from turns_away [OF assms(6) [folded s1_def] this assms(2)] \<open>a \<noteq> b\<close>
  have c: "c \<noteq> a" "\<And>x. frame x = a \<Longrightarrow> wmem s2 x = wmem s1 x"
    by simp_all
  have out: "saved_context (wmem s2) a = saved_context (wmem s1) a" "switched_out (wmem s2) a"
    using same_page [OF sw(3) c(2)] by simp_all
  note again = switch_step [OF assms(7) c(1) out(2), where ret = "ret'"]
  have "wmem (call_switch ret' c a s2) x = wmem s x" if "frame x = a" "r_esp s - a \<le> x - a" for x
    using again(4) [of x] c(2) [of x] sw(5) [of x] c(1) that by simp
  then show ?thesis
    using again(1) out(1) sw(2) by simp
qed

definition demo_regs :: regs where
  "demo_regs = \<lparr>r_eip = 0, r_esp = 0x2000, r_ebp = 1, r_ebx = 2, r_edi = 3, r_esi = 4, r_eax = 5,
     wmem = (\<lambda>_. 0)(0x2000 := 0x2800)\<rparr>"

lemma frame_demo: "frame 0x1000 = 0x1000" "frame 0x2000 = 0x2000"
  by (simp_all add: frame_def)

theorem switch_resumes_witness:
  "cpu_context (call_switch 0xc0 0x2000 0x1000 (call_switch 0xb0 0x1000 0x2000 demo_regs)) =
     (1, 2, 3, 4, 0xb0, 0x1ff8)"
proof -
  have "cpu_context (call_switch 0xb0 0x1000 0x2000 demo_regs) = saved_context (wmem demo_regs) 0x2000"
    by (rule switch_step(1)) (simp_all add: stack_room_def switched_out_def demo_regs_def frame_demo)
  then have "stack_room 0x2000 (r_esp (call_switch 0xb0 0x1000 0x2000 demo_regs))"
    by (simp add: cpu_context_def saved_context_def demo_regs_def stack_room_def frame_demo)
  moreover have "switched_out (wmem demo_regs) 0x2000" "stack_room 0x1000 (r_esp demo_regs)"
    by (simp_all add: stack_room_def switched_out_def demo_regs_def frame_demo)
  ultimately show ?thesis
    using switch_resumes [of "{0x1000, 0x2000}" "0x1000" demo_regs "0x2000" "0xb0" "0x2000"
        "call_switch 0xb0 0x1000 0x2000 demo_regs" "0xc0"]
    by (simp add: demo_regs_def)
qed

text \<open>C24: The first switch to a thread prepared by \<^verbatim>\<open>init_thread\<close> and \<^verbatim>\<open>thread_create\<close> enters \<^verbatim>\<open>kernel_thread\<close>
  on the page of the new thread, with the four saved registers zero and the function and its argument
  where a C callee finds its two parameters, above an unused return address.\<close>

theorem first_switch_enters_kernel_thread:
  assumes "frame new = new" "m new = new + 0x1000"
    and "wmem s = thread_create kernel_thread new func func_arg m"
    and "stack_room cur (r_esp s)" "cur \<noteq> new"
  shows "let s' = call_switch ret cur new s in
    r_eip s' = kernel_thread \<and> r_ebp s' = 0 \<and> r_ebx s' = 0 \<and> r_edi s' = 0 \<and> r_esi s' = 0 \<and>
    r_esp s' AND 0xfffff000 = new \<and> wmem s' (r_esp s' + 4) = func \<and> wmem s' (r_esp s' + 8) = func_arg"
proof -
  note t = thread_create_frame(1-4) [of new m, OF assms(1,2), of kernel_thread func func_arg, folded assms(3)]
    and f = thread_create_frame(5-7) [of new m, OF assms(1,2)]
  note sw = switch_step [OF assms(4,5) t(1), where ret = ret]
  define s' where "s' = call_switch ret cur new s"
  have c: "cpu_context s' = (0, 0, 0, 0, kernel_thread, new + (0x1000 - 432) + 20)"
    using sw(1) t(2) by (simp add: s'_def)
  have "wmem s' (new + (0x1000 - 432) + 24) = func" "wmem s' (new + (0x1000 - 432) + 28) = func_arg"
    using sw(4) [folded s'_def] t(3,4) f(1,2) assms(5) by simp_all
  then show ?thesis
    using c f(3) unfolding Let_def s'_def [symmetric] by (simp add: cpu_context_def frame_def add.assoc)
qed

theorem first_switch_enters_kernel_thread_witness:
  "r_eip (call_switch 0xb0 0x1000 0x3000
     (demo_regs\<lparr>wmem := thread_create 0xc0de 0x3000 7 8 ((\<lambda>_. 0)(0x3000 := 0x4000))\<rparr>)) = 0xc0de"
  using first_switch_enters_kernel_thread [of "0x3000" "(\<lambda>_. 0)(0x3000 := 0x4000)"
      "demo_regs\<lparr>wmem := thread_create 0xc0de 0x3000 7 8 ((\<lambda>_. 0)(0x3000 := 0x4000))\<rparr>" "0xc0de" 7 8 "0x1000" "0xb0"]
  by (simp add: Let_def stack_room_def demo_regs_def frame_demo frame_def)

end
