(* ===== verification/Sync.thy ===== *)
theory Sync
  imports Thread
begin

section \<open>Semaphores and locks (thread/sync.c)\<close>

text \<open>
  Semaphores are named by their address. A lock is a holder, a nesting count and a semaphore, which
  \<^verbatim>\<open>struct lock\<close> keeps at offset 4. The waiters of a semaphore link \<^verbatim>\<open>general_tag\<close>, like the ready queue,
  so a queue is again a list of PCB addresses.

  \<^verbatim>\<open>sema_down\<close> returns, or ends in \<open>Blk\<close> with the state in which another thread runs. The sleeping thread
  is inside the loop: when it has the processor again it leaves \<^verbatim>\<open>thread_block\<close> and evaluates the loop
  condition again (\<open>sema_resume\<close>).
\<close>

subsection \<open>Data (thread/sync.h)\<close>

record semaphore =
  sem_value :: u8
  waiters :: "addr list"

record lock =
  holder :: addr
  holder_repeat_nr :: u32

record sync = sched +
  semas :: "addr \<Rightarrow> semaphore"
  locks :: "addr \<Rightarrow> lock"

definition lock_semaphore :: "addr \<Rightarrow> addr" where
  "lock_semaphore plock = plock + 4"

definition set_sema :: "addr \<Rightarrow> (semaphore \<Rightarrow> semaphore) \<Rightarrow> 'a sync_scheme \<Rightarrow> 'a sync_scheme" where
  "set_sema p f s = s\<lparr>semas := (semas s)(p := f (semas s p))\<rparr>"

definition set_lock :: "addr \<Rightarrow> (lock \<Rightarrow> lock) \<Rightarrow> 'a sync_scheme \<Rightarrow> 'a sync_scheme" where
  "set_lock l f s = s\<lparr>locks := (locks s)(l := f (locks s l))\<rparr>"

subsection \<open>Operations\<close>

definition sema_init :: "addr \<Rightarrow> u8 \<Rightarrow> 'a sync_scheme \<Rightarrow> 'a sync_scheme" where
  "sema_init psema v s = set_sema psema (\<lambda>q. q\<lparr>sem_value := v, waiters := []\<rparr>) s"

definition lock_init :: "addr \<Rightarrow> 'a sync_scheme \<Rightarrow> 'a sync_scheme" where
  "lock_init plock s =
     (let s = set_lock plock (\<lambda>l. l\<lparr>holder := NULL, holder_repeat_nr := 0\<rparr>) s
      in sema_init (lock_semaphore plock) 1 s)"

text \<open>
  The loop of \<^verbatim>\<open>sema_down\<close> from one evaluation of its condition, with interrupts off, and the
  decrement after it.
\<close>

definition sema_try :: "addr \<Rightarrow> ('a sync_scheme, unit) kop" where
  "sema_try psema s =
     (if sem_value (semas s psema) = 0 then
        (if running_thread s \<in> set (waiters (semas s psema)) then Flt Panic
         else
           let s = set_sema psema (\<lambda>q. q\<lparr>waiters := waiters q @ [running_thread s]\<rparr>) s
           in case thread_block TASK_BLOCKED s of Ret old s \<Rightarrow> Blk s | Blk s \<Rightarrow> Blk s | Flt e \<Rightarrow> Flt e)
      else
        let s = set_sema psema (\<lambda>q. q\<lparr>sem_value := sem_value q - 1\<rparr>) s
        in if sem_value (semas s psema) = 0 then Ret () s else Flt Panic)"

definition sema_down :: "addr \<Rightarrow> ('a sync_scheme, unit) kop" where
  "sema_down psema s =
     (let (old_status, s) = intr_disable s
      in thenK (sema_try psema) (modK (\<lambda>s. snd (intr_set_status old_status s))) s)"

definition sema_resume :: "addr \<Rightarrow> intr_status \<Rightarrow> ('a sync_scheme, unit) kop" where
  "sema_resume psema old_status s =
     (let s = snd (intr_set_status INTR_OFF s)
      in thenK (sema_try psema) (modK (\<lambda>s. snd (intr_set_status old_status s))) s)"

definition sema_up :: "addr \<Rightarrow> ('a sync_scheme, unit) kop" where
  "sema_up psema s =
     (let (old_status, s) = intr_disable s in
      thenK (assertK (\<lambda>s. sem_value (semas s psema) = 0))
     (thenK (\<lambda>s. case waiters (semas s psema) of [] \<Rightarrow> Ret () s
               | t # ts \<Rightarrow> thread_unblock t (set_sema psema (\<lambda>q. q\<lparr>waiters := ts\<rparr>) s))
     (thenK (modK (set_sema psema (\<lambda>q. q\<lparr>sem_value := sem_value q + 1\<rparr>)))
     (thenK (assertK (\<lambda>s. sem_value (semas s psema) = 1))
            (modK (\<lambda>s. snd (intr_set_status old_status s)))))) s)"

text \<open>
  \<^verbatim>\<open>lock_acquire\<close> sets the holder after \<^verbatim>\<open>sema_down\<close> has given the interrupt flag back, and \<^verbatim>\<open>lock_release\<close>
  clears it before \<^verbatim>\<open>sema_up\<close>; these parts can be interrupted, so they have names.
\<close>

definition lock_own :: "addr \<Rightarrow> ('a sync_scheme, unit) kop" where
  "lock_own plock s =
     (let s = set_lock plock (\<lambda>l. l\<lparr>holder := running_thread s\<rparr>) s
      in if holder_repeat_nr (locks s plock) = 0
         then Ret () (set_lock plock (\<lambda>l. l\<lparr>holder_repeat_nr := 1\<rparr>) s)
         else Flt Panic)"

definition lock_acquire :: "addr \<Rightarrow> ('a sync_scheme, unit) kop" where
  "lock_acquire plock s =
     (if holder (locks s plock) \<noteq> running_thread s
      then thenK (sema_down (lock_semaphore plock)) (lock_own plock) s
      else Ret () (set_lock plock (\<lambda>l. l\<lparr>holder_repeat_nr := holder_repeat_nr l + 1\<rparr>) s))"

definition lock_clear :: "addr \<Rightarrow> 'a sync_scheme \<Rightarrow> 'a sync_scheme" where
  "lock_clear plock s = set_lock plock (\<lambda>l. l\<lparr>holder := NULL, holder_repeat_nr := 0\<rparr>) s"

definition lock_release :: "addr \<Rightarrow> ('a sync_scheme, unit) kop" where
  "lock_release plock s =
     (if holder (locks s plock) \<noteq> running_thread s then Flt Panic
      else if holder_repeat_nr (locks s plock) > 1
      then Ret () (set_lock plock (\<lambda>l. l\<lparr>holder_repeat_nr := holder_repeat_nr l - 1\<rparr>) s)
      else if holder_repeat_nr (locks s plock) \<noteq> 1 then Flt Panic
      else sema_up (lock_semaphore plock) (lock_clear plock s))"

text \<open>
  The same two routines as the pieces between which an interrupt can come: the test of \<^verbatim>\<open>lock_acquire\<close> or the first
  tests of \<^verbatim>\<open>lock_release\<close> decide which pieces are to follow. A thread that sleeps in \<^verbatim>\<open>sema_down\<close> goes on with
  \<open>Sema_Resume\<close>.
\<close>

datatype piece = Sema_Down | Sema_Resume intr_status | Lock_Own | Lock_Nest | Lock_Unnest | Lock_Check | Lock_Clear
  | Sema_Up | Not_Holder

definition exec_piece :: "addr \<Rightarrow> piece \<Rightarrow> ('a sync_scheme, unit) kop" where
  "exec_piece plock p =
     (case p of
        Sema_Down \<Rightarrow> sema_down (lock_semaphore plock)
      | Sema_Resume old_status \<Rightarrow> sema_resume (lock_semaphore plock) old_status
      | Lock_Own \<Rightarrow> lock_own plock
      | Lock_Nest \<Rightarrow> modK (set_lock plock (\<lambda>l. l\<lparr>holder_repeat_nr := holder_repeat_nr l + 1\<rparr>))
      | Lock_Unnest \<Rightarrow> modK (set_lock plock (\<lambda>l. l\<lparr>holder_repeat_nr := holder_repeat_nr l - 1\<rparr>))
      | Lock_Check \<Rightarrow> assertK (\<lambda>s. holder_repeat_nr (locks s plock) = 1)
      | Lock_Clear \<Rightarrow> modK (lock_clear plock)
      | Sema_Up \<Rightarrow> sema_up (lock_semaphore plock)
      | Not_Holder \<Rightarrow> fltK Panic)"

definition acquire_pieces :: "addr \<Rightarrow> 'a sync_scheme \<Rightarrow> piece list" where
  "acquire_pieces plock s =
     (if holder (locks s plock) \<noteq> running_thread s then [Sema_Down, Lock_Own] else [Lock_Nest])"

definition release_pieces :: "addr \<Rightarrow> 'a sync_scheme \<Rightarrow> piece list" where
  "release_pieces plock s =
     (if holder (locks s plock) \<noteq> running_thread s then [Not_Holder]
      else if holder_repeat_nr (locks s plock) > 1 then [Lock_Unnest]
      else [Lock_Check, Lock_Clear, Sema_Up])"

fun run_pieces :: "addr \<Rightarrow> piece list \<Rightarrow> ('a sync_scheme, unit) kop" where
  "run_pieces plock [] = retK ()"
| "run_pieces plock (p # ps) = thenK (exec_piece plock p) (run_pieces plock ps)"

subsection \<open>What each operation touches\<close>

lemma set_sync_simps [simp]:
  "semas (set_sema p f s) = (semas s)(p := f (semas s p))" "locks (set_sema p f s) = locks s"
  "locks (set_lock l g s) = (locks s)(l := g (locks s l))" "semas (set_lock l g s) = semas s"
  "tasks (set_sema p f s) = tasks s" "tasks (set_lock l g s) = tasks s"
  "thread_ready_list (set_sema p f s) = thread_ready_list s"
  "thread_ready_list (set_lock l g s) = thread_ready_list s"
  "thread_all_list (set_sema p f s) = thread_all_list s"
  "thread_all_list (set_lock l g s) = thread_all_list s"
  "idle_thread (set_sema p f s) = idle_thread s" "idle_thread (set_lock l g s) = idle_thread s"
  "iflag (set_sema p f s) = iflag s" "iflag (set_lock l g s) = iflag s"
  "esp (set_sema p f s) = esp s" "esp (set_lock l g s) = esp s"
  by (simp_all add: set_sema_def set_lock_def)

lemma sched_parts:
  assumes "tasks s' = tasks s" "thread_ready_list s' = thread_ready_list s"
    "thread_all_list s' = thread_all_list s" "idle_thread s' = idle_thread s"
    "esp s' = esp s" "pmem s' = pmem s" "cr3 s' = cr3 s"
  shows "running_thread s' = running_thread s" "queues s' = queues s" "sched_inv s' = sched_inv s"
    "stacks_marked s' = stacks_marked s"
proof -
  show r: "running_thread s' = running_thread s"
    using assms(5) by (rule running_thread_cong)
  have "spaces root s' = spaces root s" for root
    using assms v2p_cong [of "s'\<lparr>cr3 := c\<rparr>" "s\<lparr>cr3 := c\<rparr>" for c]
    by (simp add: spaces_def roots_def)
  then show "queues s' = queues s"
    unfolding queues_def r using assms by simp
  then show "sched_inv s' = sched_inv s"
    unfolding sched_inv_def r using assms by simp
  show "stacks_marked s' = stacks_marked s"
    using assms by (simp add: stacks_marked_def)
qed

lemma set_sync_inv [simp]:
  "running_thread (set_sema p f s) = running_thread s"
  "running_thread (set_lock l g s) = running_thread s"
  "sched_inv (set_sema p f s) = sched_inv s" "sched_inv (set_lock l g s) = sched_inv s"
  "stacks_marked (set_sema p f s) = stacks_marked s" "stacks_marked (set_lock l g s) = stacks_marked s"
  by (rule sched_parts; simp add: set_sema_def set_lock_def)+

lemma rest_sync:
  "same_rest s s' \<Longrightarrow> semas s' = semas s" "same_rest s s' \<Longrightarrow> locks s' = locks s"
  "same_rest s s' \<Longrightarrow> sync.more s' = sync.more s"
  by (cases s; cases s'; simp add: same_rest_def)+

text \<open>What an operation on semaphores keeps.\<close>

definition kept :: "'a sync_scheme \<Rightarrow> 'a sync_scheme \<Rightarrow> bool" where
  "kept s s' \<longleftrightarrow> sched_inv s' \<and> stacks_marked s' \<and> thread_all_list s' = thread_all_list s \<and>
     idle_thread s' = idle_thread s"

definition sleeping :: "'a sync_scheme \<Rightarrow> addr \<Rightarrow> bool" where
  "sleeping s t \<longleftrightarrow> blocked_status (status (tasks s t))"

lemma sleeping_running: "sched_inv s \<Longrightarrow> \<not> sleeping s (running_thread s)"
  by (simp add: sleeping_def sched_inv_def blocked_status_def)

lemma sleeping_simps [simp]:
  "sleeping (set_sema p f s) = sleeping s" "sleeping (set_lock l g s) = sleeping s"
  "sleeping (s\<lparr>iflag := b\<rparr>) = sleeping s"
  by (rule ext; simp add: sleeping_def)+

lemma sema_try_free:
  assumes "sem_value (semas s p) = 1"
  shows "sema_try p s = Ret () (set_sema p (\<lambda>q. q\<lparr>sem_value := 0\<rparr>) s)"
  using assms by (simp add: sema_try_def set_sema_def Let_def)

lemma sema_down_free:
  assumes "sem_value (semas s p) = 1"
  shows "sema_down p s = Ret () (set_sema p (\<lambda>q. q\<lparr>sem_value := 0\<rparr>) s)"
  using assms by (simp add: sema_down_def Let_def intr_eqs sema_try_free set_sema_def)

lemma sema_try_wait:
  assumes inv: "sched_inv s" "stacks_marked s" and v: "sem_value (semas s p) = 0"
    and c: "running_thread s \<notin> set (waiters (semas s p))" "running_thread s \<noteq> idle_thread s"
  shows "\<exists>s'. sema_try p s = Blk s' \<and> kept s s' \<and> locks s' = locks s \<and>
    semas s' = (semas s)(p := (semas s p)\<lparr>waiters := waiters (semas s p) @ [running_thread s]\<rparr>) \<and>
    (\<forall>t. t \<noteq> idle_thread s \<longrightarrow> sleeping s' t = (t = running_thread s \<or> sleeping s t)) \<and>
    running_thread s' # thread_ready_list s' =
      (if thread_ready_list s = [] then [idle_thread s] else thread_ready_list s)"
proof -
  let ?s1 = "set_sema p (\<lambda>q. q\<lparr>waiters := waiters q @ [running_thread s]\<rparr>) s"
  obtain s' where s': "thread_block TASK_BLOCKED ?s1 = Ret (intr_get_status ?s1) s'" "sched_inv s'"
    "thread_all_list s' = thread_all_list s" "idle_thread s' = idle_thread s"
    "\<forall>t. t \<noteq> idle_thread s \<longrightarrow> blocked_status (status (tasks s' t)) =
      (t = running_thread s \<or> blocked_status (status (tasks s t)))"
    "running_thread s' # thread_ready_list s' =
      (if thread_ready_list s = [] then [idle_thread s] else thread_ready_list s)"
    using thread_block_ok [of ?s1 TASK_BLOCKED] inv(1) by (auto simp: blocked_status_def)
  have "stacks_marked s'"
    using same_tasks_marked [OF thread_block_same [OF s'(1)]] s'(3) inv(2) by simp
  moreover have "semas s' = semas ?s1" "locks s' = locks ?s1"
    using rest_sync [OF thread_block_rest [OF s'(1)]] by simp_all
  ultimately show ?thesis
    using v c s'(1-5) s'(6) by (intro exI [of _ s']) (simp add: sema_try_def Let_def kept_def sleeping_def)
qed

lemma sema_down_wait:
  assumes "sched_inv s" "stacks_marked s" "sem_value (semas s p) = 0"
    and "running_thread s \<notin> set (waiters (semas s p))" "running_thread s \<noteq> idle_thread s"
    and "thread_ready_list s = n # rest"
  obtains s' where "sema_down p s = Blk s'" "kept s s'" "locks s' = locks s"
    "semas s' = (semas s)(p := (semas s p)\<lparr>waiters := waiters (semas s p) @ [running_thread s]\<rparr>)"
    "running_thread s' = n" "thread_ready_list s' = rest"
  using sema_try_wait [of "s\<lparr>iflag := False\<rparr>" p] assms
  by (auto simp: sema_down_def Let_def intr_eqs kept_def)

lemma sem_value_eta: "(q :: semaphore)\<lparr>sem_value := v\<rparr> = \<lparr>sem_value = v, waiters = waiters q\<rparr>"
  by (cases q) simp

lemma sema_up_ok:
  assumes inv: "sched_inv s" "stacks_marked s" and v: "sem_value (semas s p) = 0"
    and w: "\<And>t. t \<in> set (waiters (semas s p)) \<Longrightarrow> t \<in> set (thread_all_list s) \<and> sleeping s t"
  shows "\<exists>s'. sema_up p s = Ret () s' \<and> kept s s' \<and> locks s' = locks s \<and> running_thread s' = running_thread s \<and>
    semas s' = (semas s)(p := \<lparr>sem_value = 1, waiters = tl (waiters (semas s p))\<rparr>) \<and>
    (\<forall>t. sleeping s' t = (sleeping s t \<and> (waiters (semas s p) \<noteq> [] \<longrightarrow> t \<noteq> hd (waiters (semas s p)))))"
proof (cases "waiters (semas s p)")
  case Nil
  let ?s' = "set_sema p (\<lambda>q. q\<lparr>sem_value := 1\<rparr>) s"
  have "sema_up p s = Ret () ?s'"
    using v Nil by (simp add: sema_up_def Let_def intr_eqs thenK_def bindK_def set_sema_def)
  then show ?thesis
    using inv Nil v by (intro exI [of _ ?s']) (simp add: kept_def sem_value_eta)
next
  case (Cons t ts)
  let ?s1 = "set_sema p (\<lambda>q. q\<lparr>waiters := ts\<rparr>) (s\<lparr>iflag := False\<rparr>)"
  have t: "t \<in> set (thread_all_list s)" "sleeping s t"
    using w [of t] Cons by simp_all
  have q: "sched_inv ?s1"
    using inv(1) by simp
  obtain s2 where s2: "thread_unblock t ?s1 = Ret () s2" "thread_all_list s2 = thread_all_list s"
    "idle_thread s2 = idle_thread s" "running_thread s2 = running_thread s"
    "tasks s2 = (tasks s)(t := (tasks s t)\<lparr>status := TASK_READY\<rparr>)"
    using thread_unblock_ok [OF sched_invD(1) [OF q], of t] t by (auto simp: sleeping_def)
  have i2: "sched_inv s2"
    using unblock_inv [OF q, of t] t s2(1) by (auto simp: sleeping_def)
  have r: "semas s2 = semas ?s1" "locks s2 = locks ?s1"
    using rest_sync [OF thread_unblock_rest [OF s2(1)]] by simp_all
  have m2: "stacks_marked s2"
    using same_tasks_marked [OF thread_unblock_same [OF s2(1)]] s2(2) inv(2) by simp
  let ?s' = "(set_sema p (\<lambda>q. q\<lparr>sem_value := 1\<rparr>) s2)\<lparr>iflag := iflag s\<rparr>"
  have "sema_up p s = Ret () ?s'"
    using v Cons s2(1) r by (simp add: sema_up_def Let_def intr_eqs thenK_def bindK_def set_sema_def)
  moreover have "sleeping s2 u = (sleeping s u \<and> u \<noteq> t)" for u
    using s2(5) by (simp add: sleeping_def blocked_status_def)
  moreover have "running_thread ?s' = running_thread s"
    using s2(4) by simp
  ultimately show ?thesis
    using i2 m2 r s2(2,3) v Cons by (intro exI [of _ ?s']) (simp add: kept_def sem_value_eta)
qed

subsection \<open>Threads competing for a lock\<close>

text \<open>
  Where a thread is with respect to one lock: outside, in the loop of \<^verbatim>\<open>sema_down\<close> with the interrupt
  status to restore, past \<^verbatim>\<open>sema_down\<close> but not yet written down as holder, inside the critical section,
  or no longer holder but not yet past \<^verbatim>\<open>sema_up\<close>.
\<close>

datatype pc = Outside | Waiting intr_status | Owning | Inside | Leaving

definition critical :: "pc \<Rightarrow> bool" where
  "critical p \<longleftrightarrow> p = Owning \<or> p = Inside \<or> p = Leaving"

text \<open>
  A step is one uninterruptible piece of \<^verbatim>\<open>lock_acquire\<close> or \<^verbatim>\<open>lock_release\<close> of the running thread, a timer
  interrupt, or a change of the interrupt flag (a thread switched in restores its own). The idle
  thread takes no locks. The nesting count is not driven past its 32 bits.
\<close>

inductive lock_step :: "addr \<Rightarrow> (addr \<Rightarrow> pc) \<times> 'a sync_scheme \<Rightarrow> (addr \<Rightarrow> pc) \<times> 'a sync_scheme \<Rightarrow> bool"
  for l where
  enter: "running_thread s = t \<Longrightarrow> t \<noteq> idle_thread s \<Longrightarrow> pc t = Outside \<Longrightarrow>
    sema_down (lock_semaphore l) s = Ret () s' \<Longrightarrow> lock_step l (pc, s) (pc(t := Owning), s')"
| queue: "running_thread s = t \<Longrightarrow> t \<noteq> idle_thread s \<Longrightarrow> pc t = Outside \<Longrightarrow>
    sema_down (lock_semaphore l) s = Blk s' \<Longrightarrow>
    lock_step l (pc, s) (pc(t := Waiting (intr_get_status s)), s')"
| retry: "running_thread s = t \<Longrightarrow> pc t = Waiting old \<Longrightarrow>
    sema_resume (lock_semaphore l) old s = Ret () s' \<Longrightarrow> lock_step l (pc, s) (pc(t := Owning), s')"
| requeue: "running_thread s = t \<Longrightarrow> pc t = Waiting old \<Longrightarrow>
    sema_resume (lock_semaphore l) old s = Blk s' \<Longrightarrow> lock_step l (pc, s) (pc, s')"
| own: "running_thread s = t \<Longrightarrow> pc t = Owning \<Longrightarrow> lock_own l s = Ret () s' \<Longrightarrow>
    lock_step l (pc, s) (pc(t := Inside), s')"
| nest: "running_thread s = t \<Longrightarrow> pc t = Inside \<Longrightarrow> holder_repeat_nr (locks s l) + 1 \<noteq> 0 \<Longrightarrow>
    lock_acquire l s = Ret () s' \<Longrightarrow> lock_step l (pc, s) (pc, s')"
| unnest: "running_thread s = t \<Longrightarrow> pc t = Inside \<Longrightarrow> holder_repeat_nr (locks s l) > 1 \<Longrightarrow>
    lock_release l s = Ret () s' \<Longrightarrow> lock_step l (pc, s) (pc, s')"
| clear: "running_thread s = t \<Longrightarrow> pc t = Inside \<Longrightarrow> holder_repeat_nr (locks s l) = 1 \<Longrightarrow>
    lock_step l (pc, s) (pc(t := Leaving), lock_clear l s)"
| up: "running_thread s = t \<Longrightarrow> pc t = Leaving \<Longrightarrow> sema_up (lock_semaphore l) s = Ret () s' \<Longrightarrow>
    lock_step l (pc, s) (pc(t := Outside), s')"
| tick: "iflag s \<Longrightarrow> intr_timer_handler (s\<lparr>iflag := False\<rparr>) = Ret () s' \<Longrightarrow> lock_step l (pc, s) (pc, s')"
| flag: "lock_step l (pc, s) (pc, s\<lparr>iflag := b\<rparr>)"

text \<open>
  The invariant, over the value \<open>v\<close> and the waiters \<open>ws\<close> of the semaphore, the holder \<open>h\<close>, the nesting
  count \<open>r\<close> and the set \<open>slp\<close> of sleeping threads: the value counts the threads in the critical
  section, the holder is the thread inside, exactly the queued waiters sleep, and if the lock is free
  while threads are queued then some waiter is awake and will try again.
\<close>

definition lock_core :: "(addr \<Rightarrow> bool) \<Rightarrow> (addr \<Rightarrow> pc) \<Rightarrow> u8 \<Rightarrow> addr \<Rightarrow> u32 \<Rightarrow> addr list \<Rightarrow> bool" where
  "lock_core slp pc v h r ws \<longleftrightarrow>
     (v = 0 \<or> v = 1) \<and> ((\<exists>t. critical (pc t)) \<longleftrightarrow> v = 0) \<and>
     (\<forall>t u. critical (pc t) \<longrightarrow> critical (pc u) \<longrightarrow> t = u) \<and>
     (\<forall>t. pc t = Inside \<longrightarrow> h = t \<and> r \<noteq> 0) \<and>
     ((\<forall>t. pc t \<noteq> Inside) \<longrightarrow> h = NULL \<and> r = 0) \<and>
     distinct ws \<and>
     (\<forall>w \<in> set ws. (\<exists>old. pc w = Waiting old) \<and> slp w) \<and>
     (\<forall>t old. pc t = Waiting old \<longrightarrow> t \<notin> set ws \<longrightarrow> \<not> slp t) \<and>
     (v = 1 \<longrightarrow> ws \<noteq> [] \<longrightarrow> (\<exists>t old. pc t = Waiting old \<and> t \<notin> set ws))"

definition lock_inv :: "addr \<Rightarrow> (addr \<Rightarrow> pc) \<times> 'a sync_scheme \<Rightarrow> bool" where
  "lock_inv l c \<longleftrightarrow> (case c of (pc, s) \<Rightarrow> sched_inv s \<and> stacks_marked s \<and>
     (\<forall>t. pc t \<noteq> Outside \<longrightarrow> t \<in> set (thread_all_list s) \<and> t \<noteq> idle_thread s) \<and>
     lock_core (sleeping s) pc (sem_value (semas s (lock_semaphore l))) (holder (locks s l))
       (holder_repeat_nr (locks s l)) (waiters (semas s (lock_semaphore l))))"

lemma critical_simps [simp]: "critical Owning" "critical Inside" "critical Leaving"
  "\<not> critical Outside" "\<not> critical (Waiting old)"
  by (simp_all add: critical_def)

lemma coreD:
  assumes "lock_core slp pc v h r ws"
  shows "v = 0 \<or> v = 1" "(\<exists>t. critical (pc t)) \<longleftrightarrow> v = 0"
    "critical (pc t) \<Longrightarrow> critical (pc u) \<Longrightarrow> t = u"
    "pc t = Inside \<Longrightarrow> h = t \<and> r \<noteq> 0" "(\<And>t. pc t \<noteq> Inside) \<Longrightarrow> h = NULL \<and> r = 0"
    "distinct ws" "w \<in> set ws \<Longrightarrow> (\<exists>old. pc w = Waiting old) \<and> slp w"
    "pc t = Waiting old \<Longrightarrow> t \<notin> set ws \<Longrightarrow> \<not> slp t"
    "v = 1 \<Longrightarrow> ws \<noteq> [] \<Longrightarrow> \<exists>t old. pc t = Waiting old \<and> t \<notin> set ws"
  using assms unfolding lock_core_def by blast+

lemma coreI:
  assumes "v = 0 \<or> v = 1" "(\<exists>t. critical (pc t)) \<longleftrightarrow> v = 0"
    "\<And>t u. critical (pc t) \<Longrightarrow> critical (pc u) \<Longrightarrow> t = u"
    "\<And>t. pc t = Inside \<Longrightarrow> h = t \<and> r \<noteq> 0" "(\<And>t. pc t \<noteq> Inside) \<Longrightarrow> h = NULL \<and> r = 0"
    "distinct ws" "\<And>w. w \<in> set ws \<Longrightarrow> (\<exists>old. pc w = Waiting old) \<and> slp w"
    "\<And>t old. pc t = Waiting old \<Longrightarrow> t \<notin> set ws \<Longrightarrow> \<not> slp t"
    "v = 1 \<Longrightarrow> ws \<noteq> [] \<Longrightarrow> \<exists>t old. pc t = Waiting old \<and> t \<notin> set ws"
  shows "lock_core slp pc v h r ws"
  using assms unfolding lock_core_def by blast

text \<open>One change of one thread's position keeps the rest.\<close>

lemma core_take:
  assumes c: "lock_core slp pc 1 h r ws" and t: "t \<notin> set ws"
  shows "lock_core slp (pc(t := Owning)) 0 h r ws"
proof -
  have n: "\<not> critical (pc u)" for u
    using coreD(2) [OF c] by auto
  then have "pc u \<noteq> Inside" for u
    by (metis critical_simps(2))
  then have "h = NULL \<and> r = 0"
    by (rule coreD(5) [OF c])
  then show ?thesis
    using n t coreD(6,7,8) [OF c] \<open>\<And>u. pc u \<noteq> Inside\<close>
    by (intro coreI) (auto split: if_splits simp: fun_upd_def)
qed

lemma core_wait:
  assumes c: "lock_core slp pc 0 h r ws" and t: "t \<notin> set ws" "\<not> critical (pc t)"
    and slp: "\<And>u. (\<exists>old. pc u = Waiting old) \<or> u = t \<Longrightarrow> slp' u = (u = t \<or> slp u)"
  shows "lock_core slp' (pc(t := Waiting old)) 0 h r (ws @ [t])"
proof (rule coreI)
  have k: "critical ((pc(t := Waiting old)) u) = critical (pc u)" for u
    using t(2) by simp
  then show "(\<exists>u. critical ((pc(t := Waiting old)) u)) \<longleftrightarrow> (0 :: u8) = 0"
    using coreD(2) [OF c] by simp
  show "u = w" if "critical ((pc(t := Waiting old)) u)" "critical ((pc(t := Waiting old)) w)" for u w
    using that unfolding k by (rule coreD(3) [OF c])
  show "h = u \<and> r \<noteq> 0" if "(pc(t := Waiting old)) u = Inside" for u
    using that coreD(4) [OF c, of u] by (simp split: if_splits)
  show "h = NULL \<and> r = 0" if "\<And>u. (pc(t := Waiting old)) u \<noteq> Inside"
  proof (rule coreD(5) [OF c])
    show "pc u \<noteq> Inside" for u
      using that [of u] t(2) by (cases "u = t") auto
  qed
  show "(\<exists>o'. (pc(t := Waiting old)) w = Waiting o') \<and> slp' w" if "w \<in> set (ws @ [t])" for w
    using that coreD(7) [OF c, of w] slp [of w] by auto
  show "\<not> slp' u" if "(pc(t := Waiting old)) u = Waiting o'" "u \<notin> set (ws @ [t])" for u o'
    using that coreD(8) [OF c, of u o'] slp [of u] by auto
qed (use coreD(6) [OF c] t in auto)

lemma core_own:
  assumes c: "lock_core slp pc v h r ws" and t: "pc t = Owning"
  shows "lock_core slp (pc(t := Inside)) v t 1 ws" "r = 0"
proof -
  have ni: "pc u \<noteq> Inside" for u
    using coreD(3) [OF c, of t u] t by auto
  then show "r = 0"
    using coreD(5) [OF c] by blast
  have k: "critical ((pc(t := Inside)) u) = critical (pc u)" for u
    using t by simp
  show "lock_core slp (pc(t := Inside)) v t 1 ws"
  proof (rule coreI)
    show "(\<exists>u. critical ((pc(t := Inside)) u)) \<longleftrightarrow> v = 0"
      unfolding k by (rule coreD(2) [OF c])
    show "u = w" if "critical ((pc(t := Inside)) u)" "critical ((pc(t := Inside)) w)" for u w
      using that unfolding k by (rule coreD(3) [OF c])
    show "(\<exists>o'. (pc(t := Inside)) w = Waiting o') \<and> slp w" if "w \<in> set ws" for w
      using coreD(7) [OF c that] t by auto
    show "t = NULL \<and> (1 :: u32) = 0" if "\<And>u. (pc(t := Inside)) u \<noteq> Inside"
      using that [of t] by simp
    show "\<exists>u o'. (pc(t := Inside)) u = Waiting o' \<and> u \<notin> set ws" if "v = 1" "ws \<noteq> []"
      using coreD(2) [OF c] t that by (metis critical_simps(1) zero_neq_one)
  qed (use ni coreD(1,6,8) [OF c] in \<open>auto split: if_splits\<close>)
qed

lemma core_nest:
  assumes c: "lock_core slp pc v h r ws" and "pc t = Inside" "r' \<noteq> 0"
  shows "lock_core slp pc v h r' ws"
  using assms unfolding lock_core_def by blast

lemma core_clear:
  assumes c: "lock_core slp pc v h r ws" and t: "pc t = Inside"
  shows "lock_core slp (pc(t := Leaving)) v NULL 0 ws"
proof -
  have ni: "pc u \<noteq> Inside" if "u \<noteq> t" for u
    using coreD(3) [OF c, of t u] t that by auto
  have k: "critical ((pc(t := Leaving)) u) = critical (pc u)" for u
    using t by simp
  show ?thesis
  proof (rule coreI)
    show "(\<exists>u. critical ((pc(t := Leaving)) u)) \<longleftrightarrow> v = 0"
      unfolding k by (rule coreD(2) [OF c])
    show "u = w" if "critical ((pc(t := Leaving)) u)" "critical ((pc(t := Leaving)) w)" for u w
      using that unfolding k by (rule coreD(3) [OF c])
    show "(\<exists>o'. (pc(t := Leaving)) w = Waiting o') \<and> slp w" if "w \<in> set ws" for w
      using coreD(7) [OF c that] t by auto
    show "\<exists>u o'. (pc(t := Leaving)) u = Waiting o' \<and> u \<notin> set ws" if "v = 1" "ws \<noteq> []"
      using coreD(2) [OF c] t that by (metis critical_simps(2) zero_neq_one)
  qed (use ni coreD(1,6,8) [OF c] in \<open>auto split: if_splits\<close>)
qed

lemma core_up:
  assumes c: "lock_core slp pc v h r ws" and t: "pc t = Leaving"
    and slp: "\<And>u. slp' u = (slp u \<and> (ws \<noteq> [] \<longrightarrow> u \<noteq> hd ws))"
  shows "lock_core slp' (pc(t := Outside)) 1 h r (tl ws)" "v = 0"
proof -
  have nc: "\<not> critical ((pc(t := Outside)) u)" for u
    using coreD(3) [OF c, of t u] t by auto
  then have ni: "(pc(t := Outside)) u \<noteq> Inside" for u
    by (metis critical_simps(2))
  have "pc u \<noteq> Inside" for u
    using ni [of u] t by (cases "u = t") auto
  then have h: "h = NULL \<and> r = 0"
    by (rule coreD(5) [OF c])
  show "v = 0"
    using coreD(2) [OF c] t by (metis critical_simps(3))
  show "lock_core slp' (pc(t := Outside)) 1 h r (tl ws)"
  proof (rule coreI)
    show "(\<exists>o'. (pc(t := Outside)) w = Waiting o') \<and> slp' w" if "w \<in> set (tl ws)" for w
      using that coreD(6) [OF c] coreD(7) [OF c, of w] t slp [of w] by (cases ws) auto
    show "\<not> slp' u" if "(pc(t := Outside)) u = Waiting o'" "u \<notin> set (tl ws)" for u o'
      using that coreD(8) [OF c, of u o'] slp [of u] by (cases ws) (auto split: if_splits)
    show "\<exists>u o'. (pc(t := Outside)) u = Waiting o' \<and> u \<notin> set (tl ws)" if ne: "tl ws \<noteq> []"
    proof -
      obtain w ws' where ws: "ws = w # ws'"
        using ne by (cases ws) auto
      then obtain o' where "pc w = Waiting o'" "w \<notin> set ws'"
        using coreD(6) [OF c] coreD(7) [OF c, of w] by auto
      then show ?thesis
        using t ws by (intro exI [of _ w] exI [of _ o']) auto
    qed
  qed (use nc ni h coreD(6) [OF c] in \<open>auto simp: distinct_tl\<close>)
qed

lemma core_sleep:
  assumes c: "lock_core slp pc v h r ws" and slp: "\<And>t old. pc t = Waiting old \<Longrightarrow> slp' t = slp t"
  shows "lock_core slp' pc v h r ws"
proof (rule coreI)
  show "(\<exists>old. pc w = Waiting old) \<and> slp' w" if "w \<in> set ws" for w
    using coreD(7) [OF c that] slp by auto
  show "\<not> slp' t" if "pc t = Waiting old" "t \<notin> set ws" for t old
    using coreD(8) [OF c that] slp [OF that(1)] by simp
qed (fact coreD(1-6,9) [OF c])+

lemma lock_invD:
  assumes "lock_inv l (pc, s)"
  shows "sched_inv s" "stacks_marked s"
    "pc t \<noteq> Outside \<Longrightarrow> t \<in> set (thread_all_list s) \<and> t \<noteq> idle_thread s"
    "lock_core (sleeping s) pc (sem_value (semas s (lock_semaphore l))) (holder (locks s l))
       (holder_repeat_nr (locks s l)) (waiters (semas s (lock_semaphore l)))"
  using assms unfolding lock_inv_def by auto

lemma running_not_queued:
  assumes "lock_inv l (pc, s)"
  shows "running_thread s \<notin> set (waiters (semas s (lock_semaphore l)))"
  using coreD(7) [OF lock_invD(4) [OF assms], of "running_thread s"]
    sleeping_running [OF lock_invD(1) [OF assms]] by blast

text \<open>The loop of \<^verbatim>\<open>sema_down\<close>, run by a thread outside the critical section, takes the semaphore or queues.\<close>

lemma try_lock:
  fixes l s
  defines "p \<equiv> lock_semaphore l" and "t \<equiv> running_thread s"
  assumes inv: "lock_inv l (pc, s)" and t: "t \<noteq> idle_thread s" "\<not> critical (pc t)"
  shows "(\<exists>s'. sema_try p (s\<lparr>iflag := False\<rparr>) = Ret () s' \<and>
      (\<forall>b. lock_inv l (pc(t := Owning), s'\<lparr>iflag := b\<rparr>))) \<or>
    (\<exists>s'. sema_try p (s\<lparr>iflag := False\<rparr>) = Blk s' \<and> (\<forall>old. lock_inv l (pc(t := Waiting old), s')))"
proof (cases "sem_value (semas s p) = 0")
  case False
  note c = lock_invD(4) [OF inv, folded p_def]
  have v: "sem_value (semas s p) = 1"
    using coreD(1) [OF c] False by auto
  let ?s' = "set_sema p (\<lambda>q. q\<lparr>sem_value := 0\<rparr>) (s\<lparr>iflag := False\<rparr>)"
  have "sema_try p (s\<lparr>iflag := False\<rparr>) = Ret () ?s'"
    using v by (intro sema_try_free) simp
  moreover have "lock_inv l (pc(t := Owning), ?s'\<lparr>iflag := b\<rparr>)" for b
    using inv core_take [OF c [unfolded v] running_not_queued [OF inv, folded p_def]]
      sched_invD(2) [OF lock_invD(1) [OF inv]] t(1)
    by (simp add: lock_inv_def p_def t_def)
  ultimately show ?thesis
    by blast
next
  case True
  note c = lock_invD(4) [OF inv, folded p_def]
  let ?s0 = "s\<lparr>iflag := False\<rparr>"
  obtain s' where s': "sema_try p ?s0 = Blk s'" "kept ?s0 s'" "locks s' = locks s"
    "semas s' = (semas s)(p := (semas s p)\<lparr>waiters := waiters (semas s p) @ [t]\<rparr>)"
    "\<forall>u. u \<noteq> idle_thread s \<longrightarrow> sleeping s' u = (u = t \<or> sleeping s u)"
    using sema_try_wait [of ?s0 p] lock_invD(1,2) [OF inv] True t(1) running_not_queued [OF inv]
    unfolding p_def t_def by fastforce
  have "lock_inv l (pc(t := Waiting old), s')" for old
  proof -
    have "lock_core (sleeping s') (pc(t := Waiting old)) 0 (holder (locks s l))
        (holder_repeat_nr (locks s l)) (waiters (semas s p) @ [t])"
    proof (rule core_wait [OF c [unfolded True]])
      show "t \<notin> set (waiters (semas s p))"
        using running_not_queued [OF inv] by (simp add: p_def t_def)
      show "sleeping s' u = (u = t \<or> sleeping s u)" if "(\<exists>old. pc u = Waiting old) \<or> u = t" for u
        using s'(5) that t(1) lock_invD(3) [OF inv, of u] by auto
    qed (use t in simp)
    then show ?thesis
      using s'(2-4) True lock_invD(3) [OF inv] sched_invD(2) [OF lock_invD(1) [OF inv]] t(1)
      by (simp add: lock_inv_def kept_def p_def t_def)
  qed
  then show ?thesis
    using s'(1) by blast
qed

lemma down_lock:
  fixes l s
  defines "p \<equiv> lock_semaphore l" and "t \<equiv> running_thread s"
  assumes inv: "lock_inv l (pc, s)" and t: "t \<noteq> idle_thread s" "\<not> critical (pc t)"
  shows "(\<exists>s'. sema_down p s = Ret () s' \<and> lock_inv l (pc(t := Owning), s')) \<or>
    (\<exists>s'. sema_down p s = Blk s' \<and> (\<forall>old. lock_inv l (pc(t := Waiting old), s')))"
    "(\<exists>s'. sema_resume p st s = Ret () s' \<and> lock_inv l (pc(t := Owning), s')) \<or>
    (\<exists>s'. sema_resume p st s = Blk s' \<and> (\<forall>old. lock_inv l (pc(t := Waiting old), s')))"
  using try_lock [OF inv t [unfolded t_def]] unfolding p_def t_def
  by (auto simp: sema_down_def sema_resume_def Let_def intr_eqs)

lemma own_lock:
  assumes inv: "lock_inv l (pc, s)" and t: "pc (running_thread s) = Owning"
  shows "\<exists>s'. lock_own l s = Ret () s' \<and> lock_inv l (pc(running_thread s := Inside), s') \<and>
    semas s' = semas s \<and> running_thread s' = running_thread s \<and> holder_repeat_nr (locks s' l) = 1"
proof -
  note c = lock_invD(4) [OF inv]
  let ?s' = "set_lock l (\<lambda>k. k\<lparr>holder := running_thread s, holder_repeat_nr := 1\<rparr>) s"
  have "lock_own l s = Ret () ?s'"
    using core_own(2) [OF c t] by (simp add: lock_own_def Let_def set_lock_def)
  moreover have "lock_inv l (pc(running_thread s := Inside), ?s')"
    using inv core_own(1) [OF c t] t by (simp add: lock_inv_def)
  ultimately show ?thesis
    by (intro exI [of _ ?s']) simp
qed

lemma count_lock:
  assumes "lock_inv l (pc, s)" "pc (running_thread s) = Inside" "r \<noteq> 0"
  shows "lock_inv l (pc, set_lock l (\<lambda>k. k\<lparr>holder_repeat_nr := r\<rparr>) s)"
  using assms(1) core_nest [OF lock_invD(4) [OF assms(1)] assms(2,3)] by (simp add: lock_inv_def)

lemma nest_lock:
  assumes inv: "lock_inv l (pc, s)" and t: "pc (running_thread s) = Inside"
  shows "holder_repeat_nr (locks s l) + 1 \<noteq> 0 \<Longrightarrow> \<exists>s'. lock_acquire l s = Ret () s' \<and> lock_inv l (pc, s')"
    and "holder_repeat_nr (locks s l) > 1 \<Longrightarrow> \<exists>s'. lock_release l s = Ret () s' \<and> lock_inv l (pc, s')"
    and "lock_inv l (pc(running_thread s := Leaving), lock_clear l s)"
proof -
  note c = lock_invD(4) [OF inv]
  have h: "holder (locks s l) = running_thread s"
    using coreD(4) [OF c t] by simp
  note change = count_lock [OF inv t]
  show "\<exists>s'. lock_acquire l s = Ret () s' \<and> lock_inv l (pc, s')" if "holder_repeat_nr (locks s l) + 1 \<noteq> 0"
    using change [OF that] h by (simp add: lock_acquire_def set_lock_def)
  show "\<exists>s'. lock_release l s = Ret () s' \<and> lock_inv l (pc, s')" if "holder_repeat_nr (locks s l) > 1"
    using change [of "holder_repeat_nr (locks s l) - 1"] h that
    by (auto simp: lock_release_def set_lock_def)
  show "lock_inv l (pc(running_thread s := Leaving), lock_clear l s)"
    using inv core_clear [OF c t] t by (simp add: lock_inv_def lock_clear_def)
qed

lemma up_lock:
  assumes inv: "lock_inv l (pc, s)" and t: "pc (running_thread s) = Leaving"
  shows "\<exists>s'. sema_up (lock_semaphore l) s = Ret () s' \<and> lock_inv l (pc(running_thread s := Outside), s') \<and>
    waiters (semas s' (lock_semaphore l)) = tl (waiters (semas s (lock_semaphore l)))"
proof -
  let ?p = "lock_semaphore l"
  note c = lock_invD(4) [OF inv]
  have w: "u \<in> set (thread_all_list s) \<and> sleeping s u" if "u \<in> set (waiters (semas s ?p))" for u
    using coreD(7) [OF c that] lock_invD(3) [OF inv, of u] by auto
  obtain s' where s': "sema_up ?p s = Ret () s'" "kept s s'" "locks s' = locks s"
    "semas s' = (semas s)(?p := \<lparr>sem_value = 1, waiters = tl (waiters (semas s ?p))\<rparr>)"
    "\<forall>u. sleeping s' u = (sleeping s u \<and> (waiters (semas s ?p) \<noteq> [] \<longrightarrow> u \<noteq> hd (waiters (semas s ?p))))"
    using sema_up_ok [OF lock_invD(1,2) [OF inv], of ?p] core_up(2) [OF c t refl] w by blast
  have "lock_core (sleeping s') (pc(running_thread s := Outside)) 1 (holder (locks s l))
      (holder_repeat_nr (locks s l)) (tl (waiters (semas s ?p)))"
    using core_up(1) [OF c t] s'(5) by blast
  then have "lock_inv l (pc(running_thread s := Outside), s')"
    using s'(2-4) lock_invD(3) [OF inv] by (simp add: lock_inv_def kept_def)
  then show ?thesis
    using s'(1,4) by simp
qed

lemma lock_step_inv:
  assumes "lock_step l c c'" "lock_inv l c"
  shows "lock_inv l c'"
  using assms
proof cases
  case (enter s t pc s')
  then show ?thesis
    using down_lock(1) [of l pc s] assms(2) by auto
next
  case (queue s t pc s')
  then show ?thesis
    using down_lock(1) [of l pc s] assms(2) by auto
next
  case (retry s t pc old s')
  then show ?thesis
    using down_lock(2) [of l pc s old] lock_invD(3) [of l pc s t] assms(2) by auto
next
  case (requeue s t pc old s')
  then have "lock_inv l (pc(t := Waiting old), s')"
    using down_lock(2) [of l pc s old] lock_invD(3) [of l pc s t] assms(2) by auto
  then show ?thesis
    using requeue by (metis fun_upd_triv)
next
  case (own s t pc s')
  then show ?thesis
    using own_lock [of l pc s] assms(2) by auto
next
  case (nest s t pc s')
  then show ?thesis
    using nest_lock(1) [of l pc s] assms(2) by auto
next
  case (unnest s t pc s')
  then show ?thesis
    using nest_lock(2) [of l pc s] assms(2) by auto
next
  case (clear s t pc)
  then show ?thesis
    using nest_lock(3) [of l pc s] assms(2) by auto
next
  case (up s t pc s')
  then show ?thesis
    using up_lock [of l pc s] assms(2) by auto
next
  case (tick s s' pc)
  have inv: "lock_inv l (pc, s)"
    using tick assms(2) by simp
  obtain s2 where s2: "intr_timer_handler (s\<lparr>iflag := False\<rparr>) = Ret () s2" "sched_inv s2"
    "same_tasks s s2" "thread_all_list s2 = thread_all_list s" "idle_thread s2 = idle_thread s"
    "\<forall>t. t \<noteq> idle_thread s \<longrightarrow> blocked_status (status (tasks s2 t)) = blocked_status (status (tasks s t))"
    using timer_ok_off [OF lock_invD(1,2) [OF inv]] by blast
  have [simp]: "s' = s2"
    using tick s2(1) by simp
  have r: "semas s2 = semas s" "locks s2 = locks s"
    using rest_sync [OF timer_rest [OF s2(1)]] by simp_all
  have "lock_core (sleeping s2) pc (sem_value (semas s (lock_semaphore l))) (holder (locks s l))
       (holder_repeat_nr (locks s l)) (waiters (semas s (lock_semaphore l)))"
    using s2(6) lock_invD(3) [OF inv] by (intro core_sleep [OF lock_invD(4) [OF inv]]) (auto simp: sleeping_def)
  then have "lock_inv l (pc, s2)"
    using inv s2 r same_tasks_marked [OF s2(3,4)] by (simp add: lock_inv_def)
  then show ?thesis
    using tick by simp
next
  case (flag pc s b)
  then show ?thesis
    using assms(2) by (simp add: lock_inv_def)
qed

lemma lock_reach_inv: "(lock_step l)\<^sup>*\<^sup>* c c' \<Longrightarrow> lock_inv l c \<Longrightarrow> lock_inv l c'"
  by (induction rule: rtranclp_induct) (auto intro: lock_step_inv)

lemma lock_init_inv:
  assumes "sched_inv s" "stacks_marked s"
  shows "lock_inv l (\<lambda>_. Outside, lock_init l s)"
  using assms by (simp add: lock_inv_def lock_core_def lock_init_def sema_init_def Let_def)

subsection \<open>Threads inside the two routines\<close>

text \<open>
  Now the threads call \<^verbatim>\<open>lock_acquire\<close> and \<^verbatim>\<open>lock_release\<close>. A thread's position is what is left of the routine it is in
  and the number of acquisitions it will have when it is done; it releases only what it has acquired. A step is a
  call, one piece, a timer interrupt or a change of the interrupt flag.
\<close>

type_synonym position = "piece list \<times> nat"

fun resume_piece :: "intr_status \<Rightarrow> piece \<Rightarrow> piece" where
  "resume_piece old Sema_Down = Sema_Resume old"
| "resume_piece old p = p"

inductive call_step :: "addr \<Rightarrow> (addr \<Rightarrow> position) \<times> 'a sync_scheme \<Rightarrow> (addr \<Rightarrow> position) \<times> 'a sync_scheme \<Rightarrow> bool"
  for l where
  acquire: "running_thread s = t \<Longrightarrow> t \<noteq> idle_thread s \<Longrightarrow> pos t = ([], n) \<Longrightarrow> Suc n < 2 ^ 32 \<Longrightarrow>
    call_step l (pos, s) (pos(t := (acquire_pieces l s, Suc n)), s)"
| release: "running_thread s = t \<Longrightarrow> t \<noteq> idle_thread s \<Longrightarrow> pos t = ([], Suc n) \<Longrightarrow>
    call_step l (pos, s) (pos(t := (release_pieces l s, n)), s)"
| run: "running_thread s = t \<Longrightarrow> t \<noteq> idle_thread s \<Longrightarrow> pos t = (p # ps, n) \<Longrightarrow> exec_piece l p s = Ret () s' \<Longrightarrow>
    call_step l (pos, s) (pos(t := (ps, n)), s')"
| sleep: "running_thread s = t \<Longrightarrow> t \<noteq> idle_thread s \<Longrightarrow> pos t = (p # ps, n) \<Longrightarrow> exec_piece l p s = Blk s' \<Longrightarrow>
    call_step l (pos, s) (pos(t := (resume_piece (intr_get_status s) p # ps, n)), s')"
| tick: "iflag s \<Longrightarrow> intr_timer_handler (s\<lparr>iflag := False\<rparr>) = Ret () s' \<Longrightarrow> call_step l (pos, s) (pos, s')"
| flag: "call_step l (pos, s) (pos, s\<lparr>iflag := b\<rparr>)"

text \<open>The thread has returned from its first \<^verbatim>\<open>lock_acquire\<close> and not yet called its last \<^verbatim>\<open>lock_release\<close>.\<close>

definition in_section :: "position \<Rightarrow> bool" where
  "in_section p \<longleftrightarrow> 0 < snd p \<and> Lock_Own \<notin> set (fst p)"

text \<open>The place of a position among the five of the relation above, and the positions that occur with a count \<open>r\<close>.\<close>

definition place :: "position \<Rightarrow> pc" where
  "place p = (case fst p of
       [] \<Rightarrow> if snd p = 0 then Outside else Inside
     | Sema_Down # _ \<Rightarrow> Outside
     | Sema_Resume old # _ \<Rightarrow> Waiting old
     | Lock_Own # _ \<Rightarrow> Owning
     | Sema_Up # _ \<Rightarrow> Leaving
     | _ \<Rightarrow> Inside)"

definition fits :: "u32 \<Rightarrow> position \<Rightarrow> bool" where
  "fits r p \<longleftrightarrow> (case p of (ps, n) \<Rightarrow>
     ps = [] \<and> (n = 0 \<or> unat r = n) \<or>
     ps \<in> {[Sema_Down, Lock_Own], [Lock_Own]} \<and> n = 1 \<or>
     (\<exists>old. ps = [Sema_Resume old, Lock_Own]) \<and> n = 1 \<or>
     ps = [Lock_Nest] \<and> n = Suc (unat r) \<and> n < 2 ^ 32 \<or>
     ps = [Lock_Unnest] \<and> unat r = Suc n \<and> 0 < n \<or>
     ps \<in> {[Lock_Check, Lock_Clear, Sema_Up], [Lock_Clear, Sema_Up]} \<and> n = 0 \<and> r = 1 \<or>
     ps = [Sema_Up] \<and> n = 0)"

definition call_inv :: "addr \<Rightarrow> (addr \<Rightarrow> position) \<times> 'a sync_scheme \<Rightarrow> bool" where
  "call_inv l c \<longleftrightarrow> (case c of (pos, s) \<Rightarrow> lock_inv l (place \<circ> pos, s) \<and> (\<forall>t. fits (holder_repeat_nr (locks s l)) (pos t)))"

lemma place_simps [simp]:
  "place ([], 0) = Outside" "place ([], Suc n) = Inside" "place (Sema_Down # ps, n) = Outside"
  "place (Sema_Resume old # ps, n) = Waiting old" "place (Lock_Own # ps, n) = Owning" "place (Sema_Up # ps, n) = Leaving"
  "place (Lock_Nest # ps, n) = Inside" "place (Lock_Unnest # ps, n) = Inside" "place (Lock_Check # ps, n) = Inside"
  "place (Lock_Clear # ps, n) = Inside"
  by (simp_all add: place_def)

lemma fits_elsewhere: "place p \<noteq> Inside \<Longrightarrow> fits r p = fits r' p"
  by (cases p) (auto simp: fits_def place_def split: if_splits)

lemma section_place: "fits r p \<Longrightarrow> in_section p \<Longrightarrow> place p = Inside"
  by (cases p) (auto simp: fits_def in_section_def place_def)

lemma thread_block_no_Blk: "thread_block st s \<noteq> Blk s'"
proof -
  have "process_activate t r \<noteq> Blk r'" "thread_unblock t r \<noteq> Blk r'" "put_back r \<noteq> Blk r'" for t and r r' :: "'a sched_scheme"
    by (auto simp: process_activate_def page_dir_activate_def thread_unblock_def put_back_def Let_def thenK_def bindK_def split: if_splits outcome.splits sum.splits prod.splits)
  then have "take_next r \<noteq> Blk r'" "thread_unblock t r \<noteq> Blk r'" "put_back r \<noteq> Blk r'" for t and r r' :: "'a sched_scheme"
    by (auto simp: take_next_def Let_def thenK_def bindK_def split: list.splits outcome.splits)
  then have "schedule r \<noteq> Blk r'" for r r' :: "'a sched_scheme"
    by (auto simp: schedule_def thenK_def bindK_def split: if_splits outcome.splits)
  then show ?thesis
    by (auto simp: thread_block_def Let_def thenK_def bindK_def split: if_splits outcome.splits prod.splits)
qed

lemma locks_kept:
  fixes s s' :: "'a sync_scheme"
  shows "sema_down p s = Ret u s' \<Longrightarrow> locks s' = locks s" "sema_down p s = Blk s' \<Longrightarrow> locks s' = locks s"
  "sema_resume p old s = Ret u s' \<Longrightarrow> locks s' = locks s" "sema_resume p old s = Blk s' \<Longrightarrow> locks s' = locks s"
  "sema_up p s = Ret u s' \<Longrightarrow> locks s' = locks s"
proof -
  have t: "locks r' = locks r" if "sema_try p r = Ret u' r' \<or> sema_try p r = Blk r'" for r r' :: "'a sync_scheme" and u'
    using that by (auto simp: sema_try_def Let_def thread_block_no_Blk split: if_splits outcome.splits dest!: rest_sync(2) [OF thread_block_rest])
  show "sema_down p s = Ret u s' \<Longrightarrow> locks s' = locks s" "sema_down p s = Blk s' \<Longrightarrow> locks s' = locks s"
    "sema_resume p old s = Ret u s' \<Longrightarrow> locks s' = locks s" "sema_resume p old s = Blk s' \<Longrightarrow> locks s' = locks s"
    by (auto simp: sema_down_def sema_resume_def Let_def intr_eqs thenK_def bindK_def split: outcome.splits dest!: t [OF disjI1] t [OF disjI2])
  show "sema_up p s = Ret u s' \<Longrightarrow> locks s' = locks s"
    by (cases "waiters (semas s p)") (auto simp: sema_up_def Let_def intr_eqs thenK_def bindK_def
      split: if_splits outcome.splits dest!: rest_sync(2) [OF thread_unblock_rest])
qed

lemma call_invD:
  assumes "call_inv l (pos, s)"
  shows "lock_inv l (place \<circ> pos, s)" "fits (holder_repeat_nr (locks s l)) (pos t)"
  using assms by (simp_all add: call_inv_def)

lemma call_invI:
  assumes c: "call_inv l (pos, s)" and l: "lock_inv l ((place \<circ> pos)(t := place p), s')"
    and p: "fits (holder_repeat_nr (locks s' l)) p" and k: "locks s' = locks s \<or> place (pos t) = Inside \<or> place p = Inside"
  shows "call_inv l (pos(t := p), s')"
proof -
  have "fits (holder_repeat_nr (locks s' l)) (pos u)" if "u \<noteq> t" for u
  proof (cases "locks s' = locks s")
    case True
    then show ?thesis
      using call_invD(2) [OF c] by simp
  next
    case False
    have "place (pos u) \<noteq> Inside"
    proof
      assume u: "place (pos u) = Inside"
      have "u = t" if "place (pos t) = Inside"
        using coreD(3) [OF lock_invD(4) [OF call_invD(1) [OF c]], of u t] u that by simp
      moreover have "u = t" if "place p = Inside"
        using coreD(3) [OF lock_invD(4) [OF l], of u t] u that \<open>u \<noteq> t\<close> by simp
      ultimately show False
        using k False \<open>u \<noteq> t\<close> by blast
    qed
    then show ?thesis
      using fits_elsewhere call_invD(2) [OF c] by metis
  qed
  moreover have "place \<circ> pos(t := p) = (place \<circ> pos)(t := place p)"
    by auto
  ultimately show ?thesis
    using l p by (simp add: call_inv_def)
qed

lemma piece_ok:
  assumes inv: "call_inv l (pos, s)" and t: "running_thread s = t" "t \<noteq> idle_thread s" "pos t = (p # ps, n)"
  shows "(\<exists>s'. exec_piece l p s = Ret () s' \<and> call_inv l (pos(t := (ps, n)), s')) \<or>
    (\<exists>s'. exec_piece l p s = Blk s' \<and> call_inv l (pos(t := (resume_piece (intr_get_status s) p # ps, n)), s'))"
proof -
  note li = call_invD(1) [OF inv]
  let ?r = "holder_repeat_nr (locks s l)" and ?p = "lock_semaphore l"
  have f: "fits ?r (p # ps, n)"
    using call_invD(2) [OF inv, of t] t(3) by simp
  consider (down) "p = Sema_Down" "ps = [Lock_Own]" "n = 1" | (resume) old where "p = Sema_Resume old" "ps = [Lock_Own]" "n = 1"
    | (own) "p = Lock_Own" "ps = []" "n = 1" | (nest) "p = Lock_Nest" "ps = []" "n = Suc (unat ?r)" "n < 2 ^ 32"
    | (unnest) "p = Lock_Unnest" "ps = []" "unat ?r = Suc n" "0 < n"
    | (check) "p = Lock_Check" "ps = [Lock_Clear, Sema_Up]" "n = 0" "?r = 1"
    | (clear) "p = Lock_Clear" "ps = [Sema_Up]" "n = 0" "?r = 1" | (up) "p = Sema_Up" "ps = []" "n = 0"
    using f by (auto simp: fits_def)
  then show ?thesis
  proof cases
    case down
    then show ?thesis
      using down_lock(1) [OF li] t call_invI [OF inv, of t "([Lock_Own], 1)"]
        call_invI [OF inv, of t "([Sema_Resume (intr_get_status s), Lock_Own], 1)"]
      by (fastforce simp: exec_piece_def fits_def dest: locks_kept)
  next
    case (resume old)
    then show ?thesis
      using down_lock(2) [OF li, of old] t call_invI [OF inv, of t "([Lock_Own], 1)"]
        call_invI [OF inv, of t "([Sema_Resume old, Lock_Own], 1)"]
      by (fastforce simp: exec_piece_def fits_def dest: locks_kept)
  next
    case own
    then show ?thesis
      using own_lock [OF li] t call_invI [OF inv, of t "([], 1)"] by (fastforce simp: exec_piece_def fits_def)
  next
    case nest
    let ?s = "set_lock l (\<lambda>k. k\<lparr>holder_repeat_nr := ?r + 1\<rparr>) s"
    have i: "(place \<circ> pos) (running_thread s) = Inside"
      using t nest by simp
    have u: "unat (?r + 1) = n" "?r + 1 \<noteq> 0"
      using nest(3,4) by (simp_all add: unat_word_ariths unat_eq_0 [symmetric] del: unat_eq_0)
    have "lock_inv l ((place \<circ> pos)(t := place ([], n)), ?s)"
      using count_lock [OF li i u(2)] i t(1) nest(3) by (metis fun_upd_triv place_simps(2))
    then show ?thesis
      using call_invI [OF inv, of t "([], n)" ?s] u i t(1) nest by (simp add: exec_piece_def fits_def set_lock_def)
  next
    case unnest
    let ?s = "set_lock l (\<lambda>k. k\<lparr>holder_repeat_nr := ?r - 1\<rparr>) s"
    have i: "(place \<circ> pos) (running_thread s) = Inside"
      using t unnest by simp
    have u: "unat (?r - 1) = n"
      using unnest(3) by (metis diff_Suc_1 unat_minus_one unat_0 nat.simps(3))
    then have z: "?r - 1 \<noteq> 0"
      using unnest(4) by auto
    have "lock_inv l ((place \<circ> pos)(t := place ([], n)), ?s)"
      using count_lock [OF li i z] i t(1) unnest(4) by (metis fun_upd_triv gr0_conv_Suc place_simps(2))
    then show ?thesis
      using call_invI [OF inv, of t "([], n)" ?s] u i t(1) unnest by (simp add: exec_piece_def fits_def set_lock_def)
  next
    case check
    have "lock_inv l ((place \<circ> pos)(t := Inside), s)"
      using li t(3) check by (metis comp_apply fun_upd_triv place_simps(9))
    then show ?thesis
      using check call_invI [OF inv, of t "([Lock_Clear, Sema_Up], 0)" s] by (simp add: exec_piece_def fits_def)
  next
    case clear
    then show ?thesis
      using nest_lock(3) [OF li] t call_invI [OF inv, of t "([Sema_Up], 0)" "lock_clear l s"]
      by (simp add: exec_piece_def fits_def)
  next
    case up
    then show ?thesis
      using up_lock [OF li] t call_invI [OF inv, of t "([], 0)"] by (fastforce simp: exec_piece_def fits_def dest: locks_kept)
  qed
qed

lemma outside_not_holder:
  assumes "lock_inv l (pc, s)" "pc (running_thread s) = Outside"
  shows "holder (locks s l) \<noteq> running_thread s"
proof
  assume h: "holder (locks s l) = running_thread s"
  note c = lock_invD(4) [OF assms(1)]
  have "running_thread s \<noteq> NULL"
    using lock_invD(1) [OF assms(1)] by (auto simp: sched_inv_def queues_def)
  then obtain u where "pc u = Inside"
    using coreD(5) [OF c] h by metis
  then show False
    using coreD(4) [OF c] h assms(2) by force
qed

lemma call_step_inv:
  assumes "call_step l c c'" "call_inv l c"
  shows "call_inv l c'"
  using assms
proof cases
  case (acquire s t pos n)
  have inv: "call_inv l (pos, s)"
    using acquire assms(2) by simp
  note li = call_invD(1) [OF inv]
  have same: "lock_inv l ((place \<circ> pos)(t := place (pos t)), s)"
    using li by (metis comp_apply fun_upd_triv)
  show ?thesis
  proof (cases n)
    case 0
    then have "acquire_pieces l s = [Sema_Down, Lock_Own]"
      using outside_not_holder [OF li] acquire by (simp add: acquire_pieces_def)
    then show ?thesis
      using acquire 0 same call_invI [OF inv, of t "([Sema_Down, Lock_Own], 1)" s] by (simp add: fits_def)
  next
    case (Suc m)
    then have "acquire_pieces l s = [Lock_Nest]" "unat (holder_repeat_nr (locks s l)) = n"
      using coreD(4) [OF lock_invD(4) [OF li], of t] acquire call_invD(2) [OF inv, of t]
      by (simp_all add: acquire_pieces_def fits_def)
    then show ?thesis
      using acquire Suc same call_invI [OF inv, of t "([Lock_Nest], Suc n)" s] by (simp add: fits_def)
  qed
next
  case (release s t pos n)
  have inv: "call_inv l (pos, s)"
    using release assms(2) by simp
  note li = call_invD(1) [OF inv]
  let ?r = "holder_repeat_nr (locks s l)"
  have same: "lock_inv l ((place \<circ> pos)(t := Inside), s)"
    using li release by (metis comp_apply fun_upd_triv place_simps(2))
  have h: "holder (locks s l) = t" "unat ?r = Suc n"
    using coreD(4) [OF lock_invD(4) [OF li], of t] release call_invD(2) [OF inv, of t] by (simp_all add: fits_def)
  show ?thesis
  proof (cases "?r > 1")
    case True
    then have "0 < n"
      using h(2) by (simp add: word_less_nat_alt)
    then show ?thesis
      using release True same h call_invI [OF inv, of t "([Lock_Unnest], n)" s] by (simp add: fits_def release_pieces_def)
  next
    case False
    then have "n = 0"
      using h(2) by (simp add: word_less_nat_alt)
    then have "?r = 1"
      using h(2) by (simp add: word_unat_eq_iff)
    then show ?thesis
      using release same h \<open>n = 0\<close> call_invI [OF inv, of t "([Lock_Check, Lock_Clear, Sema_Up], 0)" s]
      by (simp add: fits_def release_pieces_def)
  qed
next
  case (run s t pos p ps n s')
  then show ?thesis
    using piece_ok [of l pos s t p ps n] assms(2) by auto
next
  case (sleep s t pos p ps n s')
  then show ?thesis
    using piece_ok [of l pos s t p ps n] assms(2) by auto
next
  case (tick s s' pos)
  have inv: "call_inv l (pos, s)"
    using tick assms(2) by simp
  have "lock_inv l (place \<circ> pos, s')"
    using lock_step_inv [OF lock_step.tick call_invD(1) [OF inv]] tick by blast
  moreover have "locks s' = locks s"
    using rest_sync(2) [OF timer_rest] tick by fastforce
  ultimately show ?thesis
    using inv tick by (simp add: call_inv_def)
next
  case (flag pos s b)
  then have "lock_inv l (place \<circ> pos, s\<lparr>iflag := b\<rparr>)"
    using lock_step_inv [OF lock_step.flag] call_invD(1) assms(2) by blast
  then show ?thesis
    using flag assms(2) by (simp add: call_inv_def)
qed

lemma call_reach_inv:
  assumes "(call_step l)\<^sup>*\<^sup>* (\<lambda>_. ([], 0), lock_init l s0) c" "sched_inv s0" "stacks_marked s0"
  shows "call_inv l c"
  using assms(1)
proof (induction rule: rtranclp_induct)
  case base
  have "place \<circ> (\<lambda>_ :: addr. ([], 0)) = (\<lambda>_. Outside)"
    by auto
  then show ?case
    using lock_init_inv [OF assms(2,3), of l] by (simp add: call_inv_def fits_def)
qed (rule call_step_inv)

lemma pieces_of_routines:
  "lock_acquire l s = run_pieces l (acquire_pieces l s) s" "lock_release l s = run_pieces l (release_pieces l s) s"
  by (auto simp: lock_acquire_def acquire_pieces_def lock_release_def release_pieces_def exec_piece_def thenK_def bindK_def
    split: outcome.splits)

subsection \<open>What a client of a free lock relies on\<close>

text \<open>
  A mutex seen by the code between \<^verbatim>\<open>lock_acquire\<close> and \<^verbatim>\<open>lock_release\<close>: taking a free mutex and giving it
  back return, and change nothing but the mutex. \<open>view\<close> forgets the state of the mutex.
\<close>

locale mutex =
  fixes acquire release :: "('s, unit) kop"
    and free held :: "'s \<Rightarrow> bool"
    and view :: "'s \<Rightarrow> 's"
  assumes acquire: "free s \<Longrightarrow> \<exists>s'. acquire s = Ret () s' \<and> held s' \<and> view s' = view s"
    and release: "held s \<Longrightarrow> release s = Ret () (view s)"
    and view_free: "free s \<Longrightarrow> view s = s"
    and view_held: "held s \<Longrightarrow> free (view s)"
begin

lemma bracket:
  assumes "free s"
    and body: "\<And>s1. held s1 \<Longrightarrow> view s1 = s \<Longrightarrow> \<exists>a s2. body s1 = Ret a s2 \<and> held s2 \<and> Q a (view s2)"
  shows "\<exists>a s'. thenK acquire (bindK body (\<lambda>a. thenK release (retK a))) s = Ret a s' \<and> free s' \<and> Q a s'"
proof -
  obtain s1 where s1: "acquire s = Ret () s1" "held s1" "view s1 = s"
    using acquire [OF assms(1)] view_free [OF assms(1)] by auto
  obtain a s2 where s2: "body s1 = Ret a s2" "held s2" "Q a (view s2)"
    using body [OF s1(2,3)] by blast
  show ?thesis
    using s1 s2 release [OF s2(2)] view_held [OF s2(2)] by (intro exI [of _ a] exI [of _ "view s2"]) simp
qed

end

definition lock_free :: "addr \<Rightarrow> 'a sync_scheme \<Rightarrow> bool" where
  "lock_free l s \<longleftrightarrow> locks s l = \<lparr>holder = NULL, holder_repeat_nr = 0\<rparr> \<and>
     semas s (lock_semaphore l) = \<lparr>sem_value = 1, waiters = []\<rparr> \<and> running_thread s \<noteq> NULL"

definition lock_held :: "addr \<Rightarrow> 'a sync_scheme \<Rightarrow> bool" where
  "lock_held l s \<longleftrightarrow> locks s l = \<lparr>holder = running_thread s, holder_repeat_nr = 1\<rparr> \<and>
     semas s (lock_semaphore l) = \<lparr>sem_value = 0, waiters = []\<rparr> \<and> running_thread s \<noteq> NULL"

definition without_lock :: "addr \<Rightarrow> 'a sync_scheme \<Rightarrow> 'a sync_scheme" where
  "without_lock l s = s\<lparr>semas := (semas s)(lock_semaphore l := \<lparr>sem_value = 1, waiters = []\<rparr>),
     locks := (locks s)(l := \<lparr>holder = NULL, holder_repeat_nr = 0\<rparr>)\<rparr>"

text \<open>The state in which the running thread has taken the free lock \<open>l\<close>.\<close>

definition with_lock :: "addr \<Rightarrow> 'a sync_scheme \<Rightarrow> 'a sync_scheme" where
  "with_lock l s = s\<lparr>semas := (semas s)(lock_semaphore l := \<lparr>sem_value = 0, waiters = []\<rparr>),
     locks := (locks s)(l := \<lparr>holder = running_thread s, holder_repeat_nr = 1\<rparr>)\<rparr>"

lemma running_lock [simp]:
  "running_thread (without_lock l s) = running_thread s" "running_thread (with_lock l s) = running_thread s"
  by (simp_all add: without_lock_def with_lock_def running_thread_def)

lemma lock_acquire_free: "lock_free l s \<Longrightarrow> lock_acquire l s = Ret () (with_lock l s)"
proof -
  assume "lock_free l s"
  then have f: "locks s l = \<lparr>holder = NULL, holder_repeat_nr = 0\<rparr>"
    "semas s (lock_semaphore l) = \<lparr>sem_value = 1, waiters = []\<rparr>" "running_thread s \<noteq> NULL"
    by (simp_all add: lock_free_def)
  have r: "running_thread (set_sema p g s) = running_thread s" for p g
    by simp
  have "sema_down (lock_semaphore l) s = Ret () (set_sema (lock_semaphore l) (\<lambda>q. q\<lparr>sem_value := 0\<rparr>) s)"
    using f(2) by (intro sema_down_free) simp
  then show ?thesis
    using f by (simp add: lock_acquire_def lock_own_def Let_def with_lock_def
        set_sema_def set_lock_def running_thread_def)
qed

lemma lock_release_held: "lock_held l s \<Longrightarrow> lock_release l s = Ret () (without_lock l s)"
  by (simp add: lock_held_def lock_release_def lock_clear_def sema_up_def Let_def intr_eqs thenK_def bindK_def
      without_lock_def set_sema_def set_lock_def)

lemma lock_free_triv:
  assumes "lock_free l s"
  shows "(semas s)(lock_semaphore l := \<lparr>sem_value = 1, waiters = []\<rparr>) = semas s"
    "(locks s)(l := \<lparr>holder = NULL, holder_repeat_nr = 0\<rparr>) = locks s"
  using assms by (auto simp: lock_free_def)

lemma without_with_lock: "lock_free l s \<Longrightarrow> without_lock l (with_lock l s) = s"
  by (simp add: without_lock_def with_lock_def lock_free_triv)

lemma without_lock_free: "lock_free l s \<Longrightarrow> without_lock l s = s"
  by (simp add: without_lock_def lock_free_triv)

lemma held_with_lock: "running_thread s \<noteq> NULL \<Longrightarrow> lock_held l (with_lock l s)"
proof -
  assume "running_thread s \<noteq> NULL"
  then show ?thesis
    unfolding lock_held_def running_lock by (simp add: with_lock_def)
qed

lemma free_without_lock: "lock_held l s \<Longrightarrow> lock_free l (without_lock l s)"
  unfolding lock_free_def lock_held_def running_lock by (simp add: without_lock_def)

interpretation kernel_lock: mutex "lock_acquire l" "lock_release l" "lock_free l" "lock_held l" "without_lock l"
  for l
proof
  show "\<exists>s'. lock_acquire l s = Ret () s' \<and> lock_held l s' \<and> without_lock l s' = without_lock l s"
    if "lock_free l s" for s
    using that lock_acquire_free [OF that] without_with_lock [OF that] without_lock_free [OF that]
      held_with_lock [of s l] by (auto simp: lock_free_def)
qed (fact lock_release_held without_lock_free free_without_lock)+

subsection \<open>Properties\<close>

text \<open>C1: Locks exclude. \<^verbatim>\<open>lock_acquire\<close> and \<^verbatim>\<open>lock_release\<close> are the sequences of their pieces. Let any number of threads call
  them, each releasing only what it has acquired, with the pieces of all threads and timer interrupts interleaved
  in any way, from an initialised lock on. Then at most one thread is between the return of its first \<^verbatim>\<open>lock_acquire\<close> and the call
  of its last \<^verbatim>\<open>lock_release\<close>; the fields of the lock name that thread and the number of its acquisitions; and no piece the running thread
  has to execute next fails an assertion, those of \<^verbatim>\<open>lock_release\<close> included.\<close>

theorem locks_exclude:
  assumes "sched_inv s0" "stacks_marked s0"
    and "(call_step l)\<^sup>*\<^sup>* (\<lambda>_. ([], 0), lock_init l s0) (pos, s)"
  shows "lock_acquire l s = run_pieces l (acquire_pieces l s) s \<and> lock_release l s = run_pieces l (release_pieces l s) s \<and>
    (\<forall>t u. in_section (pos t) \<and> in_section (pos u) \<longrightarrow> t = u) \<and>
    (\<forall>t n. pos t = ([], n) \<and> 0 < n \<longrightarrow> locks s l = \<lparr>holder = t, holder_repeat_nr = of_nat n\<rparr>) \<and>
    (\<forall>p ps n e. pos (running_thread s) = (p # ps, n) \<and> running_thread s \<noteq> idle_thread s \<longrightarrow> exec_piece l p s \<noteq> Flt e)"
proof (intro conjI allI impI)
  have inv: "call_inv l (pos, s)"
    by (rule call_reach_inv [OF assms(3,1,2)])
  note c = lock_invD(4) [OF call_invD(1) [OF inv]] and f = call_invD(2) [OF inv]
  show "lock_acquire l s = run_pieces l (acquire_pieces l s) s" "lock_release l s = run_pieces l (release_pieces l s) s"
    by (rule pieces_of_routines)+
  show "t = u" if "in_section (pos t) \<and> in_section (pos u)" for t u
    using that section_place [OF f] coreD(3) [OF c, of t u] by simp
  show "locks s l = \<lparr>holder = t, holder_repeat_nr = of_nat n\<rparr>" if "pos t = ([], n) \<and> 0 < n" for t n
  proof -
    have "unat (holder_repeat_nr (locks s l)) = n"
      using f [of t] that by (simp add: fits_def)
    then have "holder_repeat_nr (locks s l) = of_nat n"
      by auto
    moreover have "holder (locks s l) = t"
      using coreD(4) [OF c, of t] that by (simp add: place_def)
    ultimately show ?thesis
      by (cases "locks s l") simp
  qed
  show "exec_piece l p s \<noteq> Flt e" if "pos (running_thread s) = (p # ps, n) \<and> running_thread s \<noteq> idle_thread s" for p ps n e
    using piece_ok [OF inv refl, of p ps n] that by auto
qed

text \<open>Two threads and a lock: the main thread takes it.\<close>

definition demo_sync :: sync where
  "demo_sync = sched.extend demo_sched
     (sync.fields (\<lambda>_. \<lparr>sem_value = 0, waiters = []\<rparr>) (\<lambda>_. \<lparr>holder = 0, holder_repeat_nr = 0\<rparr>))"

lemma demo_sync_simps [simp]:
  "tasks demo_sync = tasks demo_sched" "thread_ready_list demo_sync = thread_ready_list demo_sched"
  "thread_all_list demo_sync = thread_all_list demo_sched" "idle_thread demo_sync = idle_thread demo_sched"
  "esp demo_sync = esp demo_sched" "cr3 demo_sync = cr3 demo_sched" "iflag demo_sync = iflag demo_sched"
  by (simp_all add: demo_sync_def sched.defs sync.defs)

lemma demo_sync_running [simp]: "running_thread demo_sync = 0xc009e000"
  using demo_sched_simps(5) by (simp only: running_thread_def demo_sync_simps)

lemma demo_sync_inv: "sched_inv demo_sync" "stacks_marked demo_sync"
proof -
  have "spaces root demo_sync" for root
    by (simp add: spaces_def roots_def demo_task_def)
  then show "sched_inv demo_sync"
    by (simp add: sched_inv_def queues_def demo_task_def)
  show "stacks_marked demo_sync"
    by (simp add: stacks_marked_def demo_task_def)
qed

lemma demo_lock_free: "lock_free l (lock_init l demo_sync)"
proof -
  have "running_thread (lock_init l demo_sync) = 0xc009e000"
    by (simp add: lock_init_def sema_init_def Let_def)
  then show ?thesis
    unfolding lock_free_def by (simp add: lock_init_def sema_init_def Let_def)
qed

theorem locks_exclude_witness:
  "\<exists>pos s. (call_step 0x5000)\<^sup>*\<^sup>* (\<lambda>_. ([], 0), lock_init 0x5000 demo_sync) (pos, s) \<and> pos 0xc009e000 = ([], 1) \<and>
     locks s 0x5000 = \<lparr>holder = 0xc009e000, holder_repeat_nr = 1\<rparr> \<and> (\<forall>t. in_section (pos t) \<longrightarrow> t = 0xc009e000)"
proof -
  let ?i = "lock_init 0x5000 demo_sync" and ?t = "0xc009e000 :: addr"
  let ?s1 = "set_sema (lock_semaphore 0x5000) (\<lambda>q. q\<lparr>sem_value := 0\<rparr>) ?i"
  let ?s2 = "set_lock 0x5000 (\<lambda>k. k\<lparr>holder := ?t, holder_repeat_nr := 1\<rparr>) ?s1"
  let ?pos = "\<lambda>p. (\<lambda>_. ([], 0))(?t := p)"
  have f: "lock_free 0x5000 ?i"
    by (rule demo_lock_free)
  have r: "running_thread ?i = ?t" "idle_thread ?i = 0xc0101000"
    by (simp_all add: lock_init_def sema_init_def Let_def)
  then have r1: "running_thread ?s1 = ?t" "idle_thread ?s1 = 0xc0101000"
    by simp_all
  have "acquire_pieces 0x5000 ?i = [Sema_Down, Lock_Own]"
    using f r by (simp add: acquire_pieces_def lock_free_def)
  then have "call_step 0x5000 (\<lambda>_. ([], 0), ?i) (?pos ([Sema_Down, Lock_Own], Suc 0), ?i)"
    using call_step.acquire [OF r(1), of "\<lambda>_. ([], 0)" 0 "0x5000"] r by simp
  moreover have "exec_piece 0x5000 Sema_Down ?i = Ret () ?s1"
    using f unfolding exec_piece_def by (auto intro!: sema_down_free simp: lock_free_def)
  then have "call_step 0x5000 (?pos ([Sema_Down, Lock_Own], Suc 0), ?i) (?pos ([Lock_Own], Suc 0), ?s1)"
    using call_step.run [OF r(1), of "?pos ([Sema_Down, Lock_Own], Suc 0)" Sema_Down "[Lock_Own]" "Suc 0" "0x5000" ?s1] r by simp
  moreover have "exec_piece 0x5000 Lock_Own ?s1 = Ret () ?s2"
    using f r1 by (simp add: exec_piece_def lock_own_def Let_def lock_free_def) (simp add: set_lock_def)
  then have "call_step 0x5000 (?pos ([Lock_Own], Suc 0), ?s1) (?pos ([], Suc 0), ?s2)"
    using call_step.run [OF r1(1), of "?pos ([Lock_Own], Suc 0)" Lock_Own "[]" "Suc 0" "0x5000" ?s2] r1 by simp
  ultimately have st: "(call_step 0x5000)\<^sup>*\<^sup>* (\<lambda>_. ([], 0), ?i) (?pos ([], Suc 0), ?s2)"
    by (rule converse_rtranclp_into_rtranclp [OF _ converse_rtranclp_into_rtranclp [OF _ r_into_rtranclp]])
  note e = locks_exclude [OF demo_sync_inv st, THEN conjunct2, THEN conjunct2]
  have "in_section (?pos ([], Suc 0) ?t)"
    by (simp add: in_section_def)
  then have u: "\<forall>t. in_section (?pos ([], Suc 0) t) \<longrightarrow> t = ?t"
    using e [THEN conjunct1, rule_format, OF conjI] by blast
  have h: "locks ?s2 0x5000 = \<lparr>holder = ?t, holder_repeat_nr = of_nat (Suc 0)\<rparr>"
    by (rule e [THEN conjunct2, THEN conjunct1, rule_format]) simp
  show ?thesis
    by (rule exI [of _ "?pos ([], Suc 0)"], rule exI [of _ ?s2], intro conjI) (rule st, simp, use h in simp, rule u)
qed

text \<open>C19: No wake-up is lost. In every reachable state of the same system in which threads are queued on
  the lock while no thread is in the critical section, some waiting thread is neither queued nor
  asleep: it has been woken and evaluates the loop condition when it next runs. Conversely the queued
  threads are all asleep, so none of them is queued twice or runs.\<close>

theorem no_lost_wakeup:
  assumes "sched_inv s0" "stacks_marked s0"
    and "(lock_step l)\<^sup>*\<^sup>* (\<lambda>_. Outside, lock_init l s0) (pc, s)"
    and "waiters (semas s (lock_semaphore l)) \<noteq> []" and "\<forall>t. \<not> critical (pc t)"
  shows "(\<exists>t old. pc t = Waiting old \<and> t \<notin> set (waiters (semas s (lock_semaphore l))) \<and> \<not> sleeping s t) \<and>
    (\<forall>w \<in> set (waiters (semas s (lock_semaphore l))). sleeping s w) \<and>
    distinct (waiters (semas s (lock_semaphore l)))"
proof -
  have inv: "lock_inv l (pc, s)"
    using lock_reach_inv [OF assms(3) lock_init_inv [OF assms(1,2)]] .
  note c = lock_invD(4) [OF inv]
  have "sem_value (semas s (lock_semaphore l)) = 1"
    using coreD(1,2) [OF c] assms(5) by auto
  then obtain t old where "pc t = Waiting old" "t \<notin> set (waiters (semas s (lock_semaphore l)))"
    using coreD(9) [OF c _ assms(4)] by blast
  then show ?thesis
    using coreD(6) [OF c] coreD(7) [OF c] coreD(8) [OF c] by blast
qed

text \<open>Three threads and the idle thread; every time slice is over at the next tick.\<close>

definition demo_three :: sync where
  "demo_three = demo_sync\<lparr>
     tasks := (\<lambda>t. (demo_task t (if t = 0xc009e000 then TASK_RUNNING
       else if t = 0xc0101000 then TASK_BLOCKED else TASK_READY))\<lparr>task_ticks := 0\<rparr>),
     thread_ready_list := [0xc0103000, 0xc0104000],
     thread_all_list := [0xc009e000, 0xc0101000, 0xc0103000, 0xc0104000]\<rparr>"

lemma demo_three_inv: "sched_inv demo_three" "stacks_marked demo_three"
  "running_thread demo_three = 0xc009e000" "idle_thread demo_three = 0xc0101000"
proof -
  show r: "running_thread demo_three = 0xc009e000" "idle_thread demo_three = 0xc0101000"
    using demo_sync_running by (simp_all add: demo_three_def running_thread_def)
  have "spaces root demo_three" for root
    by (simp add: spaces_def roots_def demo_task_def demo_three_def)
  then show "sched_inv demo_three"
    unfolding sched_inv_def queues_def r by (simp add: demo_three_def demo_task_def)
  show "stacks_marked demo_three"
    by (simp add: stacks_marked_def demo_task_def demo_three_def)
qed

theorem no_lost_wakeup_witness:
  "\<exists>pc s. (lock_step 0x5000)\<^sup>*\<^sup>* (\<lambda>_. Outside, lock_init 0x5000 demo_three) (pc, s) \<and>
     waiters (semas s (lock_semaphore 0x5000)) = [0xc0104000] \<and>
     (\<exists>t old. pc t = Waiting old \<and> t \<noteq> 0xc0104000 \<and> \<not> sleeping s t)"
proof -
  let ?a = "0xc009e000 :: addr" and ?b = "0xc0103000 :: addr" and ?c = "0xc0104000 :: addr"
  let ?p = "lock_semaphore 0x5000"
  let ?i = "lock_init 0x5000 demo_three"
  let ?s1 = "(set_sema ?p (\<lambda>q. q\<lparr>sem_value := 0\<rparr>) ?i)\<lparr>iflag := True\<rparr>"
  let ?step = "lock_step 0x5000"
  let ?o = "(\<lambda>_. Outside) :: addr \<Rightarrow> pc"
  have i: "running_thread ?i = ?a" "idle_thread ?i = 0xc0101000"
    "semas ?i ?p = \<lparr>sem_value = 1, waiters = []\<rparr>" "thread_ready_list ?i = [?b, ?c]"
    "task_ticks (tasks ?i ?a) = 0"
    using demo_three_inv(3,4) by (simp_all add: lock_init_def sema_init_def Let_def demo_three_def)
  have d1: "sema_down ?p ?i = Ret () (set_sema ?p (\<lambda>q. q\<lparr>sem_value := 0\<rparr>) ?i)"
    using i(3) by (intro sema_down_free) simp
  have "?step (?o, ?i) (?o(?a := Owning), set_sema ?p (\<lambda>q. q\<lparr>sem_value := 0\<rparr>) ?i)"
    by (rule lock_step.enter [OF i(1) _ _ d1]) (simp_all add: i(2))
  then have "?step\<^sup>*\<^sup>* (?o, ?i) (?o(?a := Owning), set_sema ?p (\<lambda>q. q\<lparr>sem_value := 0\<rparr>) ?i)"
    by (rule r_into_rtranclp)
  then have st1: "?step\<^sup>*\<^sup>* (?o, ?i) (?o(?a := Owning), ?s1)"
    by (rule rtranclp.rtrancl_into_rtrancl) (rule lock_step.flag)
  note inv = lock_reach_inv [OF _ lock_init_inv [OF demo_three_inv(1,2)]]
  note i1 = lock_invD(1,2) [OF inv [OF st1]]
  have f1: "running_thread ?s1 = ?a" "thread_ready_list ?s1 = [?b, ?c]" "task_ticks (tasks ?s1 ?a) = 0"
    using i by simp_all
  have "stack_magic (tasks ?s1 ?a) = STACK_MAGIC"
    using i1 sched_invD(2) [OF i1(1)] f1(1) by (simp add: stacks_marked_def)
  then obtain s2 where s2: "intr_timer_handler (?s1\<lparr>iflag := False\<rparr>) = Ret () s2"
    "running_thread s2 # thread_ready_list s2 = [?b, ?c, ?a]" "idle_thread s2 = 0xc0101000"
    using timer_ok [of "?s1\<lparr>iflag := False\<rparr>"] i1(1) f1 i(2) by auto
  have "?step (?o(?a := Owning), ?s1) (?o(?a := Owning), s2)"
    by (rule lock_step.tick [OF _ s2(1)]) simp
  with st1 have st2: "?step\<^sup>*\<^sup>* (?o, ?i) (?o(?a := Owning), s2)"
    by (rule rtranclp.rtrancl_into_rtrancl)
  have m2: "semas s2 ?p = \<lparr>sem_value = 0, waiters = []\<rparr>"
    using rest_sync(1) [OF timer_rest [OF s2(1)]] i(3) by simp
  have r2: "running_thread s2 = ?b" "thread_ready_list s2 = [?c, ?a]"
    using s2(2) by simp_all
  obtain s3 where s3: "sema_down ?p s2 = Blk s3" "kept s2 s3" "running_thread s3 = ?c"
    "thread_ready_list s3 = [?a]" "semas s3 ?p = \<lparr>sem_value = 0, waiters = [?b]\<rparr>"
    by (rule sema_down_wait [OF lock_invD(1,2) [OF inv [OF st2]], of ?p]) (simp_all add: m2 r2 s2(3))
  let ?pc3 = "?o(?a := Owning, ?b := Waiting (intr_get_status s2))"
  have "?step (?o(?a := Owning), s2) (?pc3, s3)"
    by (rule lock_step.queue [OF _ _ _ s3(1)]) (use s2(2,3) in simp_all)
  with st2 have st3: "?step\<^sup>*\<^sup>* (?o, ?i) (?pc3, s3)"
    by (rule rtranclp.rtrancl_into_rtrancl)
  have id3: "idle_thread s3 = 0xc0101000"
    using s3(2) s2(3) by (simp add: kept_def)
  obtain s4 where s4: "sema_down ?p s3 = Blk s4" "kept s3 s4" "running_thread s4 = ?a"
    "semas s4 ?p = \<lparr>sem_value = 0, waiters = [?b, ?c]\<rparr>"
    by (rule sema_down_wait [OF lock_invD(1,2) [OF inv [OF st3]], of ?p]) (simp_all add: s3(3-5) id3)
  let ?pc4 = "?pc3(?c := Waiting (intr_get_status s3))"
  have "?step (?pc3, s3) (?pc4, s4)"
    by (rule lock_step.queue [OF _ _ _ s4(1)]) (use s3(3) id3 in simp_all)
  with st3 have st4: "?step\<^sup>*\<^sup>* (?o, ?i) (?pc4, s4)"
    by (rule rtranclp.rtrancl_into_rtrancl)
  obtain s5 where s5: "lock_own 0x5000 s4 = Ret () s5" "semas s5 = semas s4" "running_thread s5 = ?a"
    "holder_repeat_nr (locks s5 0x5000) = 1"
    using own_lock [OF inv [OF st4]] s4(3) by auto
  have "?step (?pc4, s4) (?pc4(?a := Inside), s5)"
    by (rule lock_step.own [OF s4(3) _ s5(1)]) simp
  with st4 have st5: "?step\<^sup>*\<^sup>* (?o, ?i) (?pc4(?a := Inside), s5)"
    by (rule rtranclp.rtrancl_into_rtrancl)
  have "?step (?pc4(?a := Inside), s5) (?pc4(?a := Inside, ?a := Leaving), lock_clear 0x5000 s5)"
    by (rule lock_step.clear [OF s5(3)]) (use s5(4) in simp_all)
  with st5 have st6: "?step\<^sup>*\<^sup>* (?o, ?i) (?pc4(?a := Inside, ?a := Leaving), lock_clear 0x5000 s5)"
    by (rule rtranclp.rtrancl_into_rtrancl)
  have r6: "running_thread (lock_clear 0x5000 s5) = ?a" "semas (lock_clear 0x5000 s5) = semas s4"
    using s5(2,3) by (simp_all add: lock_clear_def)
  obtain s7 where s7: "sema_up ?p (lock_clear 0x5000 s5) = Ret () s7" "waiters (semas s7 ?p) = [?c]"
    using up_lock [OF inv [OF st6]] r6 s4(4) by auto
  let ?pc7 = "?pc4(?a := Inside, ?a := Leaving, ?a := Outside)"
  have "?step (?pc4(?a := Inside, ?a := Leaving), lock_clear 0x5000 s5) (?pc7, s7)"
    by (rule lock_step.up [OF r6(1) _ s7(1)]) simp
  with st6 have st7: "?step\<^sup>*\<^sup>* (?o, ?i) (?pc7, s7)"
    by (rule rtranclp.rtrancl_into_rtrancl)
  have "\<exists>t old. ?pc7 t = Waiting old \<and> t \<notin> set (waiters (semas s7 ?p)) \<and> \<not> sleeping s7 t"
    using no_lost_wakeup [OF demo_three_inv(1,2) st7] s7(2) by simp
  then show ?thesis
    using st7 s7(2) by (intro exI [of _ ?pc7] exI [of _ s7]) (simp only: s7(2), simp)
qed

lemma acquire_more:
  "holder (locks s l) = running_thread s \<Longrightarrow>
   repeatK n (lock_acquire l) s =
     Ret () (set_lock l (\<lambda>k. k\<lparr>holder_repeat_nr := holder_repeat_nr k + of_nat n\<rparr>) s)"
proof (induction n arbitrary: s)
  case 0
  then show ?case by (simp add: set_lock_def)
next
  case (Suc n)
  let ?s = "set_lock l (\<lambda>k. k\<lparr>holder_repeat_nr := holder_repeat_nr k + 1\<rparr>) s"
  have "repeatK n (lock_acquire l) ?s =
      Ret () (set_lock l (\<lambda>k. k\<lparr>holder_repeat_nr := holder_repeat_nr k + of_nat n\<rparr>) ?s)"
    using Suc.prems by (intro Suc.IH) simp
  moreover have "lock_acquire l s = Ret () ?s"
    using Suc.prems by (simp add: lock_acquire_def)
  ultimately show ?case
    by (simp add: set_lock_def add.assoc)
qed

lemma release_more:
  "holder (locks s l) = running_thread s \<Longrightarrow> n < unat (holder_repeat_nr (locks s l)) \<Longrightarrow>
   repeatK n (lock_release l) s =
     Ret () (set_lock l (\<lambda>k. k\<lparr>holder_repeat_nr := holder_repeat_nr k - of_nat n\<rparr>) s)"
proof (induction n arbitrary: s)
  case 0
  then show ?case by (simp add: set_lock_def)
next
  case (Suc n)
  let ?r = "holder_repeat_nr (locks s l)"
  let ?s = "set_lock l (\<lambda>k. k\<lparr>holder_repeat_nr := holder_repeat_nr k - 1\<rparr>) s"
  have "?r \<noteq> 0"
    using Suc.prems(2) by auto
  then have r: "unat (?r - 1) = unat ?r - 1" "?r > 1"
    using Suc.prems(2) by (simp_all add: unat_minus_one word_less_nat_alt)
  have "repeatK n (lock_release l) ?s =
      Ret () (set_lock l (\<lambda>k. k\<lparr>holder_repeat_nr := holder_repeat_nr k - of_nat n\<rparr>) ?s)"
    using Suc.prems r by (intro Suc.IH) simp_all
  moreover have "lock_release l s = Ret () ?s"
    using Suc.prems(1) r(2) by (simp add: lock_release_def)
  ultimately show ?case
    by (simp add: set_lock_def algebra_simps)
qed

text \<open>C22: A thread that finds a lock free holds it when \<^verbatim>\<open>lock_acquire\<close> returns, may take it again, and
  as many \<^verbatim>\<open>lock_release\<close> calls put everything back as it was: the lock is recursive.\<close>

theorem lock_is_recursive:
  assumes "lock_free l s" "n < 2 ^ 32 - 1"
  shows "\<exists>s'. repeatK (Suc n) (lock_acquire l) s = Ret () s' \<and> holder (locks s' l) = running_thread s \<and>
    unat (holder_repeat_nr (locks s' l)) = Suc n \<and>
    thenK (repeatK n (lock_release l)) (lock_release l) s' = Ret () s"
proof -
  let ?s1 = "with_lock l s"
  let ?s' = "set_lock l (\<lambda>k. k\<lparr>holder_repeat_nr := holder_repeat_nr k + of_nat n\<rparr>) ?s1"
  have run: "running_thread ?s1 = running_thread s" "running_thread ?s' = running_thread s"
    by simp_all
  have l1: "locks ?s1 l = \<lparr>holder = running_thread s, holder_repeat_nr = 1\<rparr>"
    by (simp add: with_lock_def)
  have acq: "repeatK (Suc n) (lock_acquire l) s = Ret () ?s'"
    using lock_acquire_free [OF assms(1)] acquire_more [of ?s1 l n] l1 by simp
  have u: "unat (1 + of_nat n :: u32) = Suc n"
  proof -
    have "unat (of_nat (Suc n) :: u32) = Suc n"
      using assms(2) by (simp only: unat_of_nat) simp
    then show ?thesis by simp
  qed
  have "repeatK n (lock_release l) ?s' =
      Ret () (set_lock l (\<lambda>k. k\<lparr>holder_repeat_nr := holder_repeat_nr k - of_nat n\<rparr>) ?s')"
    using l1 u by (intro release_more) simp_all
  also have "set_lock l (\<lambda>k. k\<lparr>holder_repeat_nr := holder_repeat_nr k - of_nat n\<rparr>) ?s' = ?s1"
    by (simp add: set_lock_def with_lock_def)
  finally have rel: "repeatK n (lock_release l) ?s' = Ret () ?s1" .
  have "lock_release l ?s1 = Ret () s"
    using lock_release_held [OF held_with_lock, of s l] without_with_lock [OF assms(1)] assms(1)
    by (simp add: lock_free_def)
  then show ?thesis
    using acq rel l1 u by (intro exI [of _ ?s']) simp
qed

theorem lock_is_recursive_witness:
  "\<exists>s'. repeatK 3 (lock_acquire 0x5000) (lock_init 0x5000 demo_sync) = Ret () s' \<and>
     unat (holder_repeat_nr (locks s' 0x5000)) = 3"
  using lock_is_recursive [OF demo_lock_free, of 2 "0x5000"] by (simp add: numeral_3_eq_3) blast

end
