(* ===== verification/Memory.thy ===== *)
theory Memory
  imports Sync
begin

section \<open>Page allocation (kernel/memory.c)\<close>

text \<open>
  The two physical pools, the virtual address maps, and the routines that combine a virtual page, a
  physical page and a page-table entry. \<open>pool_lock\<close> is the address of the lock inside a pool. The page
  tables are words of physical memory reached through the window of theory \<^verbatim>\<open>Machine\<close>; the maps are
  bitmaps of theory \<^verbatim>\<open>Bitmap\<close>.
\<close>

subsection \<open>Data\<close>

datatype pool_flags = PF_KERNEL | PF_USER

record pool =
  pool_bitmap :: bitmap
  phy_addr_start :: u32
  pool_size :: u32
  pool_lock :: addr

text \<open>
  The header of a heap arena (used by theory \<^verbatim>\<open>Heap\<close>). The descriptor is named by the table it is
  in (\<^verbatim>\<open>NULL\<close> for \<^verbatim>\<open>k_block_descs\<close>, else the PCB whose \<^verbatim>\<open>u_block_desc\<close> it is) and its index.
\<close>

record arena =
  arena_desc :: "(addr \<times> nat) option"
  arena_cnt :: u32
  arena_large :: bool

record memory = sync +
  kernel_pool :: pool
  user_pool :: pool
  kernel_vaddr :: virtual_addr
  k_block_descs :: "mem_block_desc list"
  arenas :: "addr \<Rightarrow> arena"

definition MEM_BITMAP_BASE :: addr where "MEM_BITMAP_BASE = 0xc009a000"
definition K_HEAP_START :: addr where "K_HEAP_START = 0xc0100000"
definition DESC_CNT :: nat where "DESC_CNT = 7"
definition sizeof_arena :: nat where "sizeof_arena = 12"

fun get_pool :: "pool_flags \<Rightarrow> 'a memory_scheme \<Rightarrow> pool" where
  "get_pool PF_KERNEL s = kernel_pool s"
| "get_pool PF_USER s = user_pool s"

fun set_pool :: "pool_flags \<Rightarrow> (pool \<Rightarrow> pool) \<Rightarrow> 'a memory_scheme \<Rightarrow> 'a memory_scheme" where
  "set_pool PF_KERNEL f s = s\<lparr>kernel_pool := f (kernel_pool s)\<rparr>"
| "set_pool PF_USER f s = s\<lparr>user_pool := f (user_pool s)\<rparr>"

text \<open>The virtual address map a request is served from: the kernel's or the running process's.\<close>

fun get_vaddr :: "pool_flags \<Rightarrow> 'a memory_scheme \<Rightarrow> virtual_addr" where
  "get_vaddr PF_KERNEL s = kernel_vaddr s"
| "get_vaddr PF_USER s = userprog_vaddr (tasks s (running_thread s))"

fun set_vaddr :: "pool_flags \<Rightarrow> bitmap \<Rightarrow> 'a memory_scheme \<Rightarrow> 'a memory_scheme" where
  "set_vaddr PF_KERNEL b s = s\<lparr>kernel_vaddr := (kernel_vaddr s)\<lparr>vaddr_bitmap := b\<rparr>\<rparr>"
| "set_vaddr PF_USER b s = set_task (running_thread s)
     (\<lambda>t. t\<lparr>userprog_vaddr := (userprog_vaddr t)\<lparr>vaddr_bitmap := b\<rparr>\<rparr>) s"

subsection \<open>Virtual pages\<close>

text \<open>The loops that set or clear \<open>n\<close> bits from \<open>i\<close> on.\<close>

fun set_bits :: "bitmap \<Rightarrow> nat \<Rightarrow> nat \<Rightarrow> int \<Rightarrow> bitmap res" where
  "set_bits b i 0 v = Inr b"
| "set_bits b i (Suc n) v = bindR (bitmap_set b i v) (\<lambda>b. set_bits b (i + 1) n v)"

definition vaddr_get :: "pool_flags \<Rightarrow> nat \<Rightarrow> ('a memory_scheme, addr) kop" where
  "vaddr_get pf pg_cnt s =
     (let va = get_vaddr pf s in
      bindK (liftR (bitmap_scan (vaddr_bitmap va) pg_cnt)) (\<lambda>bit_idx_start.
      if bit_idx_start = -1 then retK NULL
      else bindK (liftR (set_bits (vaddr_bitmap va) (nat bit_idx_start) pg_cnt 1)) (\<lambda>b.
        let start = vaddr_start va + of_int bit_idx_start * of_nat PG_SIZE in
        thenK (modK (set_vaddr pf b))
       (thenK (assertK (\<lambda>_. pf = PF_KERNEL \<or> start < 0xc0000000 - of_nat PG_SIZE))
              (retK start)))) s)"

definition vaddr_remove :: "pool_flags \<Rightarrow> addr \<Rightarrow> nat \<Rightarrow> ('a memory_scheme, unit) kop" where
  "vaddr_remove pf vaddr pg_cnt s =
     (let va = get_vaddr pf s;
          bit_idx_start = (vaddr - vaddr_start va) div of_nat PG_SIZE
      in bindK (liftR (set_bits (vaddr_bitmap va) (unat bit_idx_start) pg_cnt 0)) (\<lambda>b.
         modK (set_vaddr pf b)) s)"

subsection \<open>Physical pages\<close>

definition palloc :: "pool_flags \<Rightarrow> ('a memory_scheme, addr) kop" where
  "palloc m_pool s =
     (let p = get_pool m_pool s in
      bindK (liftR (bitmap_scan (pool_bitmap p) 1)) (\<lambda>bit_idx.
      if bit_idx = -1 then retK NULL
      else bindK (liftR (bitmap_set (pool_bitmap p) (nat bit_idx) 1)) (\<lambda>b.
        thenK (modK (set_pool m_pool (\<lambda>p. p\<lparr>pool_bitmap := b\<rparr>)))
              (retK (of_int bit_idx * of_nat PG_SIZE + phy_addr_start p)))) s)"

definition pfree :: "u32 \<Rightarrow> ('a memory_scheme, unit) kop" where
  "pfree pg_phy_addr s =
     (let mem_pool = (if pg_phy_addr \<ge> phy_addr_start (user_pool s) then PF_USER else PF_KERNEL);
          p = get_pool mem_pool s;
          bit_idx = (pg_phy_addr - phy_addr_start p) div of_nat PG_SIZE
      in bindK (liftR (bitmap_set (pool_bitmap p) (unat bit_idx) 0)) (\<lambda>b.
         modK (set_pool mem_pool (\<lambda>p. p\<lparr>pool_bitmap := b\<rparr>))) s)"

definition free_a_phy_page :: "u32 \<Rightarrow> ('a memory_scheme, unit) kop" where
  "free_a_phy_page pg_phy_addr s =
     (let mem_pool = (if pg_phy_addr \<ge> phy_addr_start (user_pool s) then PF_USER else PF_KERNEL);
          p = get_pool mem_pool s;
          bit_idx = (pg_phy_addr - phy_addr_start p) div of_nat PG_SIZE
      in bindK (liftR (bitmap_set (pool_bitmap p) (unat bit_idx) 0)) (\<lambda>b.
         modK (set_pool mem_pool (\<lambda>p. p\<lparr>pool_bitmap := b\<rparr>))) s)"

subsection \<open>Mapping\<close>

definition present :: "u32 \<Rightarrow> bool" where
  "present e \<longleftrightarrow> e AND 0x00000001 \<noteq> 0"

definition page_entry :: "addr \<Rightarrow> u32" where
  "page_entry a = a OR PG_US_U OR PG_RW_W OR PG_P_1"

definition page_table_add :: "addr \<Rightarrow> addr \<Rightarrow> ('a memory_scheme, unit) kop" where
  "page_table_add vaddr page_phyaddr s =
     (let pde = pde_ptr vaddr;
          pte = pte_ptr vaddr
      in bindK (\<lambda>s. liftR (vread s pde) s) (\<lambda>d.
         if present d then
           bindK (\<lambda>s. liftR (vread s pte) s) (\<lambda>e.
           thenK (assertK (\<lambda>_. \<not> present e))
                 (updR (vwrite pte (page_entry page_phyaddr))))
         else
           bindK (palloc PF_KERNEL) (\<lambda>pde_phyaddr.
           thenK (updR (vwrite pde (page_entry pde_phyaddr)))
          (thenK (updR (vzero (pte AND 0xfffff000) (PG_SIZE div 4)))
          (bindK (\<lambda>s. liftR (vread s pte) s) (\<lambda>e.
           thenK (assertK (\<lambda>_. \<not> present e))
                 (updR (vwrite pte (page_entry page_phyaddr)))))))) s)"

text \<open>The loop of \<^verbatim>\<open>malloc_page\<close>: false when the pool had no page left.\<close>

fun map_pages :: "pool_flags \<Rightarrow> addr \<Rightarrow> nat \<Rightarrow> ('a memory_scheme, bool) kop" where
  "map_pages pf vaddr 0 = retK True"
| "map_pages pf vaddr (Suc cnt) =
     bindK (palloc pf) (\<lambda>page_phyaddr.
     if page_phyaddr = NULL then retK False
     else thenK (page_table_add vaddr page_phyaddr) (map_pages pf (vaddr + of_nat PG_SIZE) cnt))"

definition malloc_page :: "pool_flags \<Rightarrow> nat \<Rightarrow> ('a memory_scheme, addr) kop" where
  "malloc_page pf pg_cnt =
     thenK (assertK (\<lambda>_. pg_cnt > 0 \<and> pg_cnt < 3840))
    (bindK (vaddr_get pf pg_cnt) (\<lambda>vaddr_start.
     if vaddr_start = NULL then retK NULL
     else bindK (map_pages pf vaddr_start pg_cnt) (\<lambda>ok. retK (if ok then vaddr_start else NULL))))"

text \<open>\<^verbatim>\<open>get_kernel_pages\<close> and \<^verbatim>\<open>get_user_pages\<close> have the same body for the two pools.\<close>

definition get_pages :: "pool_flags \<Rightarrow> nat \<Rightarrow> ('a memory_scheme, addr) kop" where
  "get_pages pf pg_cnt s =
     (let l = pool_lock (get_pool pf s) in
      thenK (lock_acquire l)
     (bindK (bindK (malloc_page pf pg_cnt) (\<lambda>vaddr.
        thenK (whenK (vaddr \<noteq> NULL) (updR (vzero vaddr (pg_cnt * (PG_SIZE div 4))))) (retK vaddr))) (\<lambda>vaddr.
      thenK (lock_release l) (retK vaddr))) s)"

definition get_kernel_pages :: "nat \<Rightarrow> ('a memory_scheme, addr) kop" where
  "get_kernel_pages = get_pages PF_KERNEL"

definition get_user_pages :: "nat \<Rightarrow> ('a memory_scheme, addr) kop" where
  "get_user_pages = get_pages PF_USER"

text \<open>The part of \<^verbatim>\<open>get_a_page\<close> that marks the requested virtual page.\<close>

definition take_vaddr :: "pool_flags \<Rightarrow> addr \<Rightarrow> ('a memory_scheme, unit) kop" where
  "take_vaddr pf vaddr s =
     (let d = pgdir (tasks s (running_thread s));
          va = get_vaddr pf s;
          bit_idx = sint ((vaddr - vaddr_start va) div of_nat PG_SIZE)
      in if d \<noteq> NULL \<and> pf = PF_USER then
           thenK (assertK (\<lambda>_. bit_idx \<ge> 0))
          (bindK (liftR (bitmap_set (vaddr_bitmap va) (nat bit_idx) 1)) (\<lambda>b. modK (set_vaddr pf b))) s
         else if d = NULL \<and> pf = PF_KERNEL then
           thenK (assertK (\<lambda>_. bit_idx > 0))
          (bindK (liftR (bitmap_set (vaddr_bitmap va) (nat bit_idx) 1)) (\<lambda>b. modK (set_vaddr pf b))) s
         else Flt Panic)"

definition get_a_page :: "pool_flags \<Rightarrow> addr \<Rightarrow> ('a memory_scheme, addr) kop" where
  "get_a_page pf vaddr s =
     (let l = pool_lock (get_pool pf s) in
      thenK (lock_acquire l)
     (thenK (take_vaddr pf vaddr)
     (bindK (palloc pf) (\<lambda>page_phyaddr.
      if page_phyaddr = NULL then thenK (lock_release l) (retK NULL)
      else thenK (page_table_add vaddr page_phyaddr) (thenK (lock_release l) (retK vaddr))))) s)"

definition get_a_page_without_opvaddrbitmap :: "pool_flags \<Rightarrow> addr \<Rightarrow> ('a memory_scheme, addr) kop" where
  "get_a_page_without_opvaddrbitmap pf vaddr s =
     (let l = pool_lock (get_pool pf s) in
      thenK (lock_acquire l)
     (bindK (palloc pf) (\<lambda>page_phyaddr.
      if page_phyaddr = NULL then thenK (lock_release l) (retK NULL)
      else thenK (page_table_add vaddr page_phyaddr) (thenK (lock_release l) (retK vaddr)))) s)"

subsection \<open>Unmapping\<close>

text \<open>The two loops of \<^verbatim>\<open>mfree_page\<close>; \<open>ok\<close> is the condition on the physical address asserted in each.\<close>

fun unmap_pages :: "(u32 \<Rightarrow> bool) \<Rightarrow> addr \<Rightarrow> nat \<Rightarrow> ('a memory_scheme, unit) kop" where
  "unmap_pages ok vaddr 0 = retK ()"
| "unmap_pages ok vaddr (Suc cnt) =
     bindK (\<lambda>s. liftR (addr_v2p s vaddr) s) (\<lambda>pg_phy_addr.
     thenK (assertK (\<lambda>_. pg_phy_addr mod of_nat PG_SIZE = 0 \<and> ok pg_phy_addr))
    (thenK (pfree pg_phy_addr)
    (thenK (updR (page_table_pte_remove vaddr))
           (unmap_pages ok (vaddr + of_nat PG_SIZE) cnt))))"

definition mfree_page :: "pool_flags \<Rightarrow> addr \<Rightarrow> nat \<Rightarrow> ('a memory_scheme, unit) kop" where
  "mfree_page pf vaddr pg_cnt =
     thenK (assertK (\<lambda>_. pg_cnt \<ge> 1 \<and> vaddr mod of_nat PG_SIZE = 0))
    (bindK (\<lambda>s. liftR (addr_v2p s vaddr) s) (\<lambda>pg_phy_addr.
     thenK (assertK (\<lambda>_. pg_phy_addr mod of_nat PG_SIZE = 0 \<and> pg_phy_addr \<ge> 0x102000))
    (bindK (getK (\<lambda>s. (phy_addr_start (kernel_pool s), phy_addr_start (user_pool s)))) (\<lambda>(kp, up).
     thenK (if pg_phy_addr \<ge> up then unmap_pages (\<lambda>a. a \<ge> up) vaddr pg_cnt
            else unmap_pages (\<lambda>a. a \<ge> kp \<and> a < up) vaddr pg_cnt)
           (vaddr_remove pf vaddr pg_cnt)))))"

subsection \<open>Initialisation\<close>

text \<open>
  \<open>raw\<close> are the bytes from \<^verbatim>\<open>MEM_BITMAP_BASE\<close> on; the three bitmaps lie there one after the other. The
  page counts are 16-bit. What lies behind a bitmap is read (not written) by a scan only.
\<close>

definition mem_pool_init :: "u32 \<Rightarrow> u8 list \<Rightarrow> ('a memory_scheme, unit) kop" where
  "mem_pool_init all_mem raw =
     (let page_table_size = of_nat PG_SIZE * 256;
          used_mem = page_table_size + 0x100000;
          free_mem = all_mem - used_mem;
          all_free_pages = (ucast (free_mem div of_nat PG_SIZE) :: u16);
          kernel_free_pages = all_free_pages div 2;
          user_free_pages = all_free_pages - kernel_free_pages;
          kbm_length = unat (kernel_free_pages div 8);
          ubm_length = unat (user_free_pages div 8);
          kp_start = used_mem;
          up_start = kp_start + ucast kernel_free_pages * of_nat PG_SIZE
      in
      bindK (liftR (bitmap_init \<lparr>btmp_bytes_len = kbm_length, bits = raw\<rparr>)) (\<lambda>kb.
      bindK (liftR (bitmap_init \<lparr>btmp_bytes_len = ubm_length, bits = drop kbm_length raw\<rparr>)) (\<lambda>ub.
      bindK (liftR (bitmap_init \<lparr>btmp_bytes_len = kbm_length, bits = drop (kbm_length + ubm_length) raw\<rparr>)) (\<lambda>vb.
      thenK (modK (set_pool PF_KERNEL (\<lambda>p. p\<lparr>pool_bitmap := kb, phy_addr_start := kp_start,
               pool_size := ucast kernel_free_pages * of_nat PG_SIZE\<rparr>)))
     (thenK (modK (set_pool PF_USER (\<lambda>p. p\<lparr>pool_bitmap := ub, phy_addr_start := up_start,
               pool_size := ucast user_free_pages * of_nat PG_SIZE\<rparr>)))
     (thenK (modK (\<lambda>s. lock_init (pool_lock (user_pool s)) (lock_init (pool_lock (kernel_pool s)) s)))
            (modK (\<lambda>s. s\<lparr>kernel_vaddr := \<lparr>vaddr_bitmap = vb, vaddr_start = K_HEAP_START\<rparr>\<rparr>))))))))"

text \<open>\<^verbatim>\<open>block_desc_init\<close>: \<open>n\<close> descriptors from block size \<open>b\<close> on (a 16-bit variable).\<close>

fun block_descs :: "nat \<Rightarrow> u16 \<Rightarrow> mem_block_desc list" where
  "block_descs 0 b = []"
| "block_descs (Suc n) b =
     \<lparr>block_size = unat b, blocks_per_arena = (PG_SIZE - sizeof_arena) div unat b, free_list = []\<rparr>
     # block_descs n (b * 2)"

definition block_desc_init :: "mem_block_desc list" where
  "block_desc_init = block_descs DESC_CNT 16"

definition mem_init :: "u8 list \<Rightarrow> ('a memory_scheme, unit) kop" where
  "mem_init raw =
     bindK (\<lambda>s. liftR (vread s 0xb00) s) (\<lambda>mem_bytes_total.
     thenK (mem_pool_init mem_bytes_total raw)
           (modK (\<lambda>s. s\<lparr>k_block_descs := block_desc_init\<rparr>)))"

subsection \<open>Slots of the page tables\<close>

lemma frame_frame [simp]: "frame (frame x) = frame x"
  by (simp add: frame_def and.assoc)

lemma unat_of_bits:
  assumes "\<And>n. bit x n \<Longrightarrow> n < k"
  shows "unat (x :: u32) < 2 ^ k"
proof -
  have "take_bit k x = x"
    using assms by (intro bit_word_eqI) (auto simp: bit_take_bit_iff)
  then have "unat x = take_bit k (unat x)"
    by (metis unsigned_take_bit_eq)
  then show ?thesis
    using take_bit_nat_less_exp [of k "unat x"] by simp
qed

lemma idx_less: "unat (PDE_IDX a) < 1024" "unat (PTE_IDX a) < 1024"
  using unat_of_bits [of "PDE_IDX a" 10] unat_of_bits [of "PTE_IDX a" 10] by (simp_all add: idx_bits)

lemma idx_times_4: "PDE_IDX a * 4 < 0x1000" "PTE_IDX a * 4 < 0x1000"
proof -
  have "unat (PDE_IDX a * 4) < 2 ^ 12" "unat (PTE_IDX a * 4) < 2 ^ 12"
    by (rule unat_of_bits; auto simp: bit_mul4 idx_bits)+
  then show "PDE_IDX a * 4 < 0x1000" "PTE_IDX a * 4 < 0x1000"
    by (simp_all add: word_less_nat_alt)
qed

lemma times_4_inj: "PDE_IDX a * 4 = PDE_IDX b * 4 \<longleftrightarrow> PDE_IDX a = PDE_IDX b"
  "PTE_IDX a * 4 = PTE_IDX b * 4 \<longleftrightarrow> PTE_IDX a = PTE_IDX b"
proof -
  have *: "x = y" if "x * 4 = y * 4" "\<And>n. bit x n \<Longrightarrow> n < 10" "\<And>n. bit y n \<Longrightarrow> n < 10" for x y :: u32
  proof (rule idx_ext)
    fix n :: nat assume "n < 32"
    have "bit (x * 4) (n + 2) = bit (y * 4) (n + 2)"
      using that(1) by simp
    then show "bit x n = bit y n"
      using that(2) [of n] that(3) [of n] by (auto simp: bit_mul4)
  qed
  show "PDE_IDX a * 4 = PDE_IDX b * 4 \<longleftrightarrow> PDE_IDX a = PDE_IDX b"
    by (rule iffI, rule *) (simp_all add: idx_bits)
  show "PTE_IDX a * 4 = PTE_IDX b * 4 \<longleftrightarrow> PTE_IDX a = PTE_IDX b"
    by (rule iffI, rule *) (simp_all add: idx_bits)
qed

lemma slot_frame:
  "frame f = f \<Longrightarrow> frame (f + PDE_IDX a * 4) = f" "frame f = f \<Longrightarrow> frame (f + PTE_IDX a * 4) = f"
  using frame_add(1) idx_times_4 by blast+

lemma pte_slot_eq:
  "frame f = f \<Longrightarrow> frame g = g \<Longrightarrow>
   f + PTE_IDX a * 4 = g + PTE_IDX b * 4 \<longleftrightarrow> f = g \<and> PTE_IDX a = PTE_IDX b"
  using slot_frame(2) [of f a] slot_frame(2) [of g b] times_4_inj(2) [of a b] by auto

lemma pde_slot_eq:
  "frame f = f \<Longrightarrow> f + PDE_IDX a * 4 = f + PDE_IDX b * 4 \<longleftrightarrow> PDE_IDX a = PDE_IDX b"
  using times_4_inj(1) [of a b] by auto

text \<open>Entries: the flags do not disturb the frame.\<close>

lemma present_PG_P_1: "present e \<longleftrightarrow> e AND PG_P_1 \<noteq> 0"
  by (simp add: present_def PG_P_1_def)

lemma entry_parts:
  assumes "frame a = a"
  shows "frame (page_entry a) = a" "present (page_entry a)"
proof -
  define c :: u32 where "c = PG_US_U OR PG_RW_W OR PG_P_1"
  have c: "bit c n \<longleftrightarrow> n < 3" for n
  proof -
    have "c = mask 3"
      by (simp add: c_def PG_US_U_def PG_RW_W_def PG_P_1_def mask_eq_exp_minus_1)
    then show ?thesis
      by (auto simp: bit_mask_iff)
  qed
  have a: "bit a n \<Longrightarrow> 12 \<le> n" for n
    using assms idx_bits(3) by metis
  have o: "page_entry a = a OR c"
    by (simp add: page_entry_def or.assoc c_def)
  have "bit (frame (a OR c)) n = bit a n" for n
    using a [of n] unfolding idx_bits bit_or_iff c by auto
  then show "frame (page_entry a) = a"
    unfolding o by (intro idx_ext) blast
  have "odd (a OR c)"
    using c [of 0] by (simp add: even_or_iff bit_0)
  then show "present (page_entry a)"
    unfolding o present_def by (simp add: and_one_eq odd_iff_mod_2_eq_one)
qed

subsection \<open>Memory that is not part of the tables\<close>

text \<open>A frame the active tables do not use as directory or table.\<close>

definition no_table :: "addr \<Rightarrow> 'a machine_scheme \<Rightarrow> bool" where
  "no_table f s \<longleftrightarrow> f \<noteq> frame (cr3 s) \<and> (\<forall>va. present (pde_of s va) \<longrightarrow> frame (pde_of s va) \<noteq> f)"

lemma tables_cong:
  assumes "cr3 s' = cr3 s" and eq: "\<And>x. \<not> no_table (frame x) s \<Longrightarrow> pmem s' x = pmem s x"
  shows "pde_of s' va = pde_of s va" "present (pde_of s va) \<Longrightarrow> pte_of s' va = pte_of s va"
    "translate s' va = translate s va" "selfmap s' = selfmap s" "no_table f s' = no_table f s"
proof -
  have "frame (frame (cr3 s) + PDE_IDX v * 4) = frame (cr3 s)" for v
    by (rule slot_frame) simp
  then have pde: "pde_of s' v = pde_of s v" for v
    using assms(1) by (auto simp: pde_of_def no_table_def intro!: eq)
  then show "pde_of s' va = pde_of s va" .
  have pte: "pte_of s' v = pte_of s v" if "present (pde_of s v)" for v
  proof -
    have "frame (frame (pde_of s v) + PTE_IDX v * 4) = frame (pde_of s v)"
      by (rule slot_frame) simp
    then show ?thesis
      using that pde by (auto simp: pte_of_def no_table_def intro!: eq)
  qed
  then show "present (pde_of s va) \<Longrightarrow> pte_of s' va = pte_of s va" .
  show "translate s' va = translate s va"
    using pde [of va] pte [of va] by (auto simp: translate_def present_PG_P_1)
  have "pmem s' (frame (cr3 s) + 0x3ff * 4) = pmem s (frame (cr3 s) + 0x3ff * 4)"
    by (rule eq) (simp add: no_table_def frame_add(1))
  then show "selfmap s' = selfmap s"
    using assms(1) by (simp add: selfmap_def)
  show "no_table f s' = no_table f s"
    using assms(1) pde by (simp add: no_table_def)
qed

text \<open>\<^verbatim>\<open>memset\<close> of words whose translation does not depend on the words cleared.\<close>

lemma vzero_run:
  assumes "\<And>m k. k < n \<Longrightarrow> (\<And>x. (\<forall>j<n. x \<noteq> pa j) \<Longrightarrow> m x = pmem s x) \<Longrightarrow>
    translate (s\<lparr>pmem := m\<rparr>) (va + of_nat (4 * k)) = Some (pa k)"
  shows "vzero va n s = Inr (s\<lparr>pmem := (\<lambda>x. if \<exists>k<n. x = pa k then 0 else pmem s x)\<rparr>)"
  using assms
proof (induction n arbitrary: va s pa)
  case 0
  then show ?case by simp
next
  case (Suc n)
  define s1 where "s1 = s\<lparr>pmem := (pmem s)(pa 0 := 0)\<rparr>"
  have "translate (s\<lparr>pmem := pmem s\<rparr>) (va + of_nat (4 * 0)) = Some (pa 0)"
    by (rule Suc.prems) auto
  then have w: "vwrite va 0 s = Inr s1"
    by (simp add: vwrite_def s1_def)
  have "vzero (va + 4) n s1 = Inr (s1\<lparr>pmem := (\<lambda>x. if \<exists>k<n. x = pa (Suc k) then 0 else pmem s1 x)\<rparr>)"
  proof (rule Suc.IH)
    fix m k assume k: "k < n" and m: "\<And>x. \<forall>j<n. x \<noteq> pa (Suc j) \<Longrightarrow> m x = pmem s1 x"
    have "translate (s\<lparr>pmem := m\<rparr>) (va + of_nat (4 * Suc k)) = Some (pa (Suc k))"
      using k m by (intro Suc.prems) (auto simp: s1_def)
    then show "translate (s1\<lparr>pmem := m\<rparr>) (va + 4 + of_nat (4 * k)) = Some (pa (Suc k))"
      by (simp add: s1_def add.assoc)
  qed
  moreover have "(\<lambda>x. if \<exists>k<n. x = pa (Suc k) then 0 else pmem s1 x) =
      (\<lambda>x. if \<exists>k<Suc n. x = pa k then 0 else pmem s x)"
    by (rule ext) (auto simp: s1_def Ex_less_Suc2)
  ultimately show ?case
    using w by (simp add: s1_def)
qed

subsection \<open>Pools\<close>

text \<open>The \<open>i\<close>-th page of a pool, and a pool whose pages have 32-bit addresses.\<close>

definition pool_page :: "pool \<Rightarrow> nat \<Rightarrow> addr" where
  "pool_page p i = phy_addr_start p + of_nat (i * PG_SIZE)"

definition pool_pages :: "pool \<Rightarrow> nat" where
  "pool_pages p = 8 * btmp_bytes_len (pool_bitmap p)"

definition pool_ok :: "pool \<Rightarrow> bool" where
  "pool_ok p \<longleftrightarrow> wf_bitmap (pool_bitmap p) \<and> frame (phy_addr_start p) = phy_addr_start p \<and>
     phy_addr_start p \<noteq> 0 \<and> unat (phy_addr_start p) + pool_pages p * PG_SIZE \<le> 2 ^ 32"

definition pool_free :: "pool \<Rightarrow> nat set" where
  "pool_free p = {i. i < pool_pages p \<and> \<not> bitmap_bit (pool_bitmap p) i}"

lemma unat_pool_page:
  assumes "pool_ok p" "i < pool_pages p"
  shows "unat (pool_page p i) = unat (phy_addr_start p) + i * PG_SIZE"
proof -
  have lt: "unat (phy_addr_start p) + i * PG_SIZE < 2 ^ 32"
    using assms mult_le_mono1 [of "Suc i" "pool_pages p" PG_SIZE] by (simp add: pool_ok_def PG_SIZE_def)
  then have "unat (of_nat (i * PG_SIZE) :: u32) = i * PG_SIZE"
    by (simp only: unat_of_nat) simp
  then show ?thesis
    unfolding pool_page_def using lt by (subst unat_add_lem [THEN iffD1]) simp_all
qed

lemma pool_page_inj:
  "pool_ok p \<Longrightarrow> i < pool_pages p \<Longrightarrow> j < pool_pages p \<Longrightarrow> pool_page p i = pool_page p j \<longleftrightarrow> i = j"
proof
  assume *: "pool_ok p" "i < pool_pages p" "j < pool_pages p" and "pool_page p i = pool_page p j"
  then have "i * PG_SIZE = j * PG_SIZE"
    using unat_pool_page [OF *(1,2)] unat_pool_page [OF *(1,3)] by (metis add_left_cancel)
  then show "i = j"
    by (simp add: PG_SIZE_def)
qed simp

lemma pool_page_nonzero: "pool_ok p \<Longrightarrow> i < pool_pages p \<Longrightarrow> pool_page p i \<noteq> 0"
proof
  assume *: "pool_ok p" "i < pool_pages p" "pool_page p i = 0"
  have "unat (phy_addr_start p) \<noteq> 0"
    using *(1) by (simp add: pool_ok_def unat_eq_0)
  then show False
    using unat_pool_page [OF *(1,2)] unfolding *(3) by simp
qed

lemma frame_unat: "frame x = x \<longleftrightarrow> unat x mod 4096 = 0"
proof -
  have "frame x = x \<longleftrightarrow> (\<forall>n. \<not> bit (take_bit 12 x) n)"
  proof
    assume "frame x = x"
    then have "bit x n \<Longrightarrow> 12 \<le> n" for n
      using idx_bits(3) by metis
    then show "\<forall>n. \<not> bit (take_bit 12 x) n"
      using not_le by (auto simp: bit_take_bit_iff)
  next
    assume *: "\<forall>n. \<not> bit (take_bit 12 x) n"
    have "bit (frame x) n = bit x n" for n
      using * [rule_format, of n] by (auto simp: idx_bits bit_take_bit_iff)
    then show "frame x = x"
      by (intro idx_ext) blast
  qed
  also have "\<dots> \<longleftrightarrow> take_bit 12 x = 0"
    using bit_eq_iff [of "take_bit 12 x" 0] bit_imp_le_length [of "take_bit 12 x"] by auto
  also have "\<dots> \<longleftrightarrow> unat (take_bit 12 x) = 0"
    by (simp only: unat_eq_0)
  also have "unat (take_bit 12 x) = unat x mod 4096"
    unfolding unsigned_take_bit_eq by (simp add: take_bit_eq_mod)
  finally show ?thesis .
qed

lemma frame_pool_page: "pool_ok p \<Longrightarrow> i < pool_pages p \<Longrightarrow> frame (pool_page p i) = pool_page p i"
  unfolding frame_unat by (simp add: unat_pool_page pool_ok_def frame_unat PG_SIZE_def mod_add_eq [symmetric])

text \<open>\<^verbatim>\<open>palloc\<close> takes the first free page of the pool and nothing else changes.\<close>

lemma palloc_ok:
  assumes ok: "pool_ok (get_pool pf s)" and free: "pool_free (get_pool pf s) \<noteq> {}"
  obtains i b where "palloc pf s = Ret (pool_page (get_pool pf s) i) (set_pool pf (\<lambda>p. p\<lparr>pool_bitmap := b\<rparr>) s)"
    "i \<in> pool_free (get_pool pf s)" "btmp_bytes_len b = btmp_bytes_len (pool_bitmap (get_pool pf s))"
    "length (bits b) = length (bits (pool_bitmap (get_pool pf s)))"
    "\<And>j. bitmap_bit b j = (j = i \<or> bitmap_bit (pool_bitmap (get_pool pf s)) j)"
proof -
  let ?p = "get_pool pf s"
  obtain j where j: "j < pool_pages ?p" "\<not> bitmap_bit (pool_bitmap ?p) j"
    using free by (auto simp: pool_free_def)
  obtain i b where i: "bitmap_scan (pool_bitmap ?p) 1 = Inr (int i)" "i \<le> j" "\<not> bitmap_bit (pool_bitmap ?p) i"
    "bitmap_set (pool_bitmap ?p) i 1 = Inr b" "btmp_bytes_len b = btmp_bytes_len (pool_bitmap ?p)"
    "length (bits b) = length (bits (pool_bitmap ?p))"
    "\<And>k. bitmap_bit b k = (k = i \<or> bitmap_bit (pool_bitmap ?p) k)"
    by (rule scan_one [of "pool_bitmap ?p" j]) (use ok j in \<open>simp_all add: pool_ok_def pool_pages_def\<close>)
  have "palloc pf s = Ret (pool_page ?p i) (set_pool pf (\<lambda>p. p\<lparr>pool_bitmap := b\<rparr>) s)"
    using i(1,4) by (simp add: palloc_def Let_def thenK_def bindK_def pool_page_def add.commute)
  then show ?thesis
    using i j(1) by (intro that [of i b]) (auto simp: pool_free_def)
qed

subsection \<open>Adding an entry\<close>

text \<open>The entries of two addresses share a slot when their tables are the same frame and their table
  indices agree (the kernel's tables 0 and 768 are one frame).\<close>

definition same_slot :: "'a machine_scheme \<Rightarrow> addr \<Rightarrow> addr \<Rightarrow> bool" where
  "same_slot s v va \<longleftrightarrow> present (pde_of s v) \<and> frame (pde_of s v) = frame (pde_of s va) \<and> PTE_IDX v = PTE_IDX va"

lemma write_pte:
  fixes s :: "'a machine_scheme" and va e
  defines "s' \<equiv> s\<lparr>pmem := (pmem s)(frame (pde_of s va) + PTE_IDX va * 4 := e)\<rparr>"
  assumes self: "selfmap s" and p: "present (pde_of s va)" and nd: "frame (pde_of s va) \<noteq> frame (cr3 s)"
  shows "pde_of s' v = pde_of s v" "selfmap s'" "no_table f s' = no_table f s"
    "present (pde_of s v) \<Longrightarrow> pte_of s' v = (if same_slot s v va then e else pte_of s v)"
    "translate s' v = (if same_slot s v va then (if present e then Some (frame e + page_offset v) else None)
       else translate s v)"
proof -
  have slot: "frame (frame (pde_of s va) + PTE_IDX va * 4) = frame (pde_of s va)"
    by (rule slot_frame) simp
  have d: "frame (frame (cr3 s) + PDE_IDX v * 4) = frame (cr3 s)" for v
    by (rule slot_frame) simp
  have pde: "pde_of s' v = pde_of s v" for v
    using slot d [of v] nd by (auto simp: pde_of_def s'_def)
  then show "pde_of s' v = pde_of s v" "no_table f s' = no_table f s"
    by (simp_all add: no_table_def) (simp add: s'_def)
  have "frame (frame (cr3 s) + 0x3ff * 4) = frame (cr3 s)"
    by (rule frame_add(1)) simp_all
  then have "frame (cr3 s) + 0x3ff * 4 \<noteq> frame (pde_of s va) + PTE_IDX va * 4"
    using slot nd by metis
  then show "selfmap s'"
    using self by (simp add: selfmap_def s'_def)
  have pte: "pte_of s' w = (if same_slot s w va then e else pte_of s w)" if "present (pde_of s w)" for w
    using that pte_slot_eq [of "frame (pde_of s w)" "frame (pde_of s va)" w va] pde [of w]
    by (auto simp: pte_of_def s'_def same_slot_def)
  then show "present (pde_of s v) \<Longrightarrow> pte_of s' v = (if same_slot s v va then e else pte_of s v)" .
  show "translate s' v = (if same_slot s v va then (if present e then Some (frame e + page_offset v) else None)
       else translate s v)"
    using pte [of v] pde [of v] by (auto simp: translate_def present_PG_P_1 same_slot_def)
qed

lemma page_table_add_present:
  assumes "selfmap s" "present (pde_of s va)" "\<not> present (pte_of s va)"
  shows "page_table_add va pa s =
    Ret () (s\<lparr>pmem := (pmem s)(frame (pde_of s va) + PTE_IDX va * 4 := page_entry pa)\<rparr>)"
  using assms by (simp add: page_table_add_def Let_def bindK_def thenK_def vread_pde vread_pte vwrite_pte
      present_PG_P_1 updR_def)

lemma idx_of_frame: "frame a = frame b \<Longrightarrow> PDE_IDX a = PDE_IDX b" "frame a = frame b \<Longrightarrow> PTE_IDX a = PTE_IDX b"
proof -
  assume "frame a = frame b"
  then have "12 \<le> n \<Longrightarrow> bit a n = bit b n" for n
    using idx_bits(3) [of a n] idx_bits(3) [of b n] by auto
  then show "PDE_IDX a = PDE_IDX b" "PTE_IDX a = PTE_IDX b"
    by (auto intro!: idx_ext simp: idx_bits)
qed

text \<open>The page of the window that shows the table of \<open>va\<close>.\<close>

lemma window_page:
  assumes "k < 1024"
  shows "PDE_IDX (frame (pte_ptr va) + of_nat (4 * k)) = 0x3ff"
    "PTE_IDX (frame (pte_ptr va) + of_nat (4 * k)) = PDE_IDX va"
    "page_offset (frame (pte_ptr va) + of_nat (4 * k)) = of_nat (4 * k)"
proof -
  have "unat (of_nat (4 * k) :: u32) = 4 * k"
    using assms by (simp only: unat_of_nat) simp
  then have k: "(of_nat (4 * k) :: u32) < 0x1000"
    using assms by (simp add: word_less_nat_alt)
  note f = frame_add [of "frame (pte_ptr va)", OF _ k]
  show "page_offset (frame (pte_ptr va) + of_nat (4 * k)) = of_nat (4 * k)"
    using f(2) by simp
  have "frame (frame (pte_ptr va) + of_nat (4 * k)) = frame (pte_ptr va)"
    using f(1) by simp
  from idx_of_frame [OF this]
  show "PDE_IDX (frame (pte_ptr va) + of_nat (4 * k)) = 0x3ff"
    "PTE_IDX (frame (pte_ptr va) + of_nat (4 * k)) = PDE_IDX va"
    by simp_all
qed

text \<open>A new table: the directory entry is set, the table is cleared through the window, then the
  entry of \<open>va\<close> is set.\<close>

lemma page_table_add_absent:
  fixes s s1 :: "'a memory_scheme"
  defines "D \<equiv> frame (cr3 s)"
  assumes self: "selfmap s" and np: "\<not> present (pde_of s va)" and va: "PDE_IDX va \<noteq> 0x3ff"
    and pal: "palloc PF_KERNEL s = Ret t s1" "pmem s1 = pmem s" "cr3 s1 = cr3 s"
    and t: "frame t = t" "t \<noteq> D"
  shows "\<exists>s'. page_table_add va pa s = Ret () s' \<and> s' = s1\<lparr>pmem := pmem s'\<rparr> \<and>
    pmem s' = ((\<lambda>x. if \<exists>k<1024. x = t + of_nat (4 * k) then 0
                   else ((pmem s)(D + PDE_IDX va * 4 := page_entry t)) x)
               (t + PTE_IDX va * 4 := page_entry pa))"
proof -
  define s2 where "s2 = s1\<lparr>pmem := (pmem s)(D + PDE_IDX va * 4 := page_entry t)\<rparr>"
  define s3 where "s3 = s2\<lparr>pmem := (\<lambda>x. if \<exists>k<1024. x = t + of_nat (4 * k) then 0 else pmem s2 x)\<rparr>"
  have D: "frame D = D"
    by (simp add: D_def)
  have last: "D + PDE_IDX (pde_ptr va) * 4 = D + 0x3ff * 4"
    by simp
  have off: "frame (t + of_nat (4 * k)) = t" if "k < 1024" for k
  proof -
    have "unat (of_nat (4 * k) :: u32) = 4 * k"
      using that by (simp only: unat_of_nat) simp
    then show ?thesis
      using that by (intro frame_add(1) t(1)) (simp add: word_less_nat_alt)
  qed
  have dir: "m (D + PDE_IDX v * 4) = pmem s2 (D + PDE_IDX v * 4)"
    if "\<And>x. \<forall>j<1024. x \<noteq> t + of_nat (4 * j) \<Longrightarrow> m x = pmem s2 x" for m v
    using that off slot_frame(1) [OF D, of v] t(2) by metis
  have self': "pmem s2 (D + 0x3ff * 4) = pmem s (D + 0x3ff * 4)"
    using pde_slot_eq [OF D, of "pde_ptr va" va] va by (simp add: s2_def)
  have win: "translate (s2\<lparr>pmem := m\<rparr>) (frame (pte_ptr va) + of_nat (4 * k)) = Some (t + of_nat (4 * k))"
    if m: "\<And>x. \<forall>j<1024. x \<noteq> t + of_nat (4 * j) \<Longrightarrow> m x = pmem s2 x" and k: "k < 1024" for m k
  proof -
    have c: "frame (cr3 (s2\<lparr>pmem := m\<rparr>)) = D"
      using pal(3) by (simp add: s2_def D_def)
    have "m (D + 0x3ff * 4) = pmem s (D + 0x3ff * 4)" "m (D + PDE_IDX va * 4) = page_entry t"
      using dir [OF m, of "pde_ptr va"] dir [OF m, of va] self' by (simp_all add: s2_def)
    then show ?thesis
      using self entry_parts [OF t(1)] window_page [OF k, of va] c
      by (simp add: translate_def pde_of_def pte_of_def selfmap_def D_def present_PG_P_1)
  qed
  have zero: "vzero (frame (pte_ptr va)) 1024 s2 = Inr s3"
    unfolding s3_def by (rule vzero_run) (rule win)
  have self3: "selfmap s3" "pde_of s3 va = page_entry t" "pte_of s3 va = 0"
  proof -
    have c: "cr3 s3 = cr3 s"
      using pal(3) by (simp add: s3_def s2_def)
    have "pmem s3 (D + PDE_IDX v * 4) = pmem s2 (D + PDE_IDX v * 4)" for v
      by (rule dir) (auto simp: s3_def)
    from this [of "pde_ptr va"] this [of va]
    have "pmem s3 (D + 0x3ff * 4) = pmem s (D + 0x3ff * 4)" "pmem s3 (D + PDE_IDX va * 4) = page_entry t"
      using self' by (simp_all add: s2_def)
    then show "selfmap s3" "pde_of s3 va = page_entry t"
      using self c by (simp_all add: selfmap_def pde_of_def D_def)
    moreover have "\<exists>k<1024. t + PTE_IDX va * 4 = t + of_nat (4 * k)"
      using idx_less(2) [of va] by (intro exI [of _ "unat (PTE_IDX va)"]) (simp add: mult.commute)
    ultimately show "pte_of s3 va = 0"
      using entry_parts(1) [OF t(1)] by (simp add: pte_of_def s3_def)
  qed
  have w1: "vwrite (pde_ptr va) (page_entry t) s1 = Inr s2"
    using self pal(2,3) vwrite_pde [of s1 va] by (simp add: s2_def D_def selfmap_def)
  let ?s' = "s3\<lparr>pmem := (pmem s3)(t + PTE_IDX va * 4 := page_entry pa)\<rparr>"
  have w2: "vwrite (pte_ptr va) (page_entry pa) s3 = Inr ?s'"
    using vwrite_pte [OF self3(1), of va] self3(2) entry_parts [OF t(1)] by (simp add: present_PG_P_1)
  have r3: "vread s3 (pte_ptr va) = Inr 0"
    using vread_pte [OF self3(1), of va] self3(2,3) entry_parts [OF t(1)] by (simp add: present_PG_P_1)
  have "page_table_add va pa s = Ret () ?s'"
    using np pal(1) w1 zero w2 r3 vread_pde [OF self, of va]
    by (simp add: page_table_add_def Let_def bindK_def thenK_def updR_def PG_SIZE_def frame_def present_def)
  moreover have p2: "pmem s2 = (pmem s)(D + PDE_IDX va * 4 := page_entry t)"
    by (simp add: s2_def)
  ultimately show ?thesis
    by (intro exI [of _ ?s']) (simp add: s3_def p2 cong: if_cong, simp add: s2_def)
qed

text \<open>The free pages of the pool hold no table of the active address space.\<close>

definition free_no_table :: "pool_flags \<Rightarrow> 'a memory_scheme \<Rightarrow> bool" where
  "free_no_table pf s \<longleftrightarrow> (\<forall>i \<in> pool_free (get_pool pf s). no_table (pool_page (get_pool pf s) i) s)"

lemma set_pool_simps [simp]:
  "get_pool pf (set_pool pf f s) = f (get_pool pf s)"
  "pf \<noteq> pf' \<Longrightarrow> get_pool pf' (set_pool pf f s) = get_pool pf' s"
  "pmem (set_pool pf f s) = pmem s" "cr3 (set_pool pf f s) = cr3 s" "esp (set_pool pf f s) = esp s"
  "tasks (set_pool pf f s) = tasks s" "kernel_vaddr (set_pool pf f s) = kernel_vaddr s"
  "semas (set_pool pf f s) = semas s" "locks (set_pool pf f s) = locks s"
  by (cases pf; cases pf'; simp)+

lemma page_table_add_new:
  assumes self: "selfmap s" and va: "PDE_IDX va \<noteq> 0x3ff" and pa: "frame pa = pa"
    and np: "\<not> present (pde_of s va)"
    and pool: "pool_ok (kernel_pool s)" "pool_free (kernel_pool s) \<noteq> {}" "free_no_table PF_KERNEL s"
  shows "\<exists>s'. page_table_add va pa s = Ret () s' \<and> selfmap s' \<and> present (pde_of s' va) \<and>
    (\<forall>v. frame (pde_of s v) \<noteq> frame (cr3 s) \<longrightarrow>
      translate s' v = (if same_slot s' v va then Some (pa + page_offset v) else translate s v))"
proof -
  let ?D = "frame (cr3 s)"
  obtain i b where i: "palloc PF_KERNEL s =
      Ret (pool_page (kernel_pool s) i) (set_pool PF_KERNEL (\<lambda>p. p\<lparr>pool_bitmap := b\<rparr>) s)"
    "i \<in> pool_free (kernel_pool s)"
    by (rule palloc_ok [of PF_KERNEL s]) (use pool in simp_all)
  let ?t = "pool_page (kernel_pool s) i"
  have t: "frame ?t = ?t" "no_table ?t s"
    using i(2) pool frame_pool_page by (auto simp: free_no_table_def pool_free_def)
  have tD: "?t \<noteq> ?D"
    using t(2) by (simp add: no_table_def)
  obtain s' where s': "page_table_add va pa s = Ret () s'"
    "s' = set_pool PF_KERNEL (\<lambda>p. p\<lparr>pool_bitmap := b\<rparr>) s\<lparr>pmem := pmem s'\<rparr>"
    "pmem s' = ((\<lambda>x. if \<exists>k<1024. x = ?t + of_nat (4 * k) then 0
         else ((pmem s)(?D + PDE_IDX va * 4 := page_entry ?t)) x) (?t + PTE_IDX va * 4 := page_entry pa))"
    using page_table_add_absent [OF self np va i(1) _ _ t(1) tD, of pa] by auto
  have c: "cr3 s' = cr3 s"
    by (subst s'(2)) simp
  have tk: "frame (?t + of_nat (4 * k)) = ?t" if "k < 1024" for k
  proof -
    have "unat (of_nat (4 * k) :: u32) = 4 * k"
      using that by (simp only: unat_of_nat) simp
    then show ?thesis
      using that by (intro frame_add(1) t(1)) (simp add: word_less_nat_alt)
  qed
  have out: "pmem s' x = ((pmem s)(?D + PDE_IDX va * 4 := page_entry ?t)) x" if "frame x \<noteq> ?t" for x
    using that tk slot_frame(2) [OF t(1), of va] unfolding s'(3) by auto
  have pde: "pde_of s' v = (if PDE_IDX v = PDE_IDX va then page_entry ?t else pde_of s v)" for v
    using slot_frame(1) [of ?D v] tD pde_slot_eq [of ?D v va] c by (simp add: pde_of_def out)
  have pte_in: "pte_of s' v = (if PTE_IDX v = PTE_IDX va then page_entry pa else 0)"
    if "PDE_IDX v = PDE_IDX va" for v
  proof -
    have "\<exists>k<1024. ?t + PTE_IDX v * 4 = ?t + of_nat (4 * k)"
      using idx_less(2) [of v] by (intro exI [of _ "unat (PTE_IDX v)"]) (simp add: mult.commute)
    then show ?thesis
      using that entry_parts(1) [OF t(1)] pte_slot_eq [OF t(1) t(1), of v va]
      by (simp add: pte_of_def pde s'(3))
  qed
  have pte_out: "pte_of s' v = pte_of s v"
    if "PDE_IDX v \<noteq> PDE_IDX va" "present (pde_of s v)" "frame (pde_of s v) \<noteq> ?D" for v
  proof -
    have f: "frame (frame (pde_of s v) + PTE_IDX v * 4) = frame (pde_of s v)"
      by (rule slot_frame) simp
    moreover have "frame (pde_of s v) \<noteq> ?t"
      using t(2) that(2) by (simp add: no_table_def)
    moreover have "frame (pde_of s v) + PTE_IDX v * 4 \<noteq> ?D + PDE_IDX va * 4"
      using f slot_frame(1) [of ?D va] that(3) by auto
    ultimately show ?thesis
      using that(1) by (simp add: pte_of_def pde out)
  qed
  have self': "selfmap s'"
  proof -
    have "pmem s' (?D + 0x3ff * 4) = pmem s (?D + 0x3ff * 4)"
      using slot_frame(1) [of ?D "pde_ptr va"] tD pde_slot_eq [of ?D "pde_ptr va" va] va by (simp add: out)
    then show ?thesis
      using self c by (simp add: selfmap_def)
  qed
  have "translate s' v = (if same_slot s' v va then Some (pa + page_offset v) else translate s v)"
    if v: "frame (pde_of s v) \<noteq> ?D" for v
  proof (cases "PDE_IDX v = PDE_IDX va")
    case True
    then have "pde_of s v = pde_of s va"
      by (simp add: pde_of_def)
    then have "translate s v = None"
      using np by (simp add: translate_def present_PG_P_1)
    then show ?thesis
      using True entry_parts [OF t(1)] entry_parts [OF pa] pte_in [OF True]
      by (simp add: translate_def same_slot_def pde present_PG_P_1)
  next
    case False
    have "\<not> same_slot s' v va"
      using False t(2) entry_parts [OF t(1)] by (auto simp: same_slot_def pde no_table_def)
    then show ?thesis
      using False pte_out [OF False _ v] by (auto simp: translate_def pde present_PG_P_1)
  qed
  then show ?thesis
    using s'(1) self' entry_parts [OF t(1)] by (intro exI [of _ s']) (simp add: pde)
qed

subsection \<open>The kernel heap\<close>

text \<open>
  Page \<open>i\<close> of the kernel heap, the number of pages the kernel's virtual map covers, and the frame a
  heap page is mapped to.
\<close>

definition kva :: "'a memory_scheme \<Rightarrow> nat \<Rightarrow> addr" where
  "kva s i = vaddr_start (kernel_vaddr s) + of_nat (i * PG_SIZE)"

definition heap_size :: "'a memory_scheme \<Rightarrow> nat" where
  "heap_size s = 8 * btmp_bytes_len (vaddr_bitmap (kernel_vaddr s))"

definition heap_frame :: "'a memory_scheme \<Rightarrow> nat \<Rightarrow> addr option" where
  "heap_frame s i = (if present (pte_of s (kva s i)) then Some (frame (pte_of s (kva s i))) else None)"

text \<open>The tables of the heap: present (the loader made them), apart from the directory, one slot per
  heap page.\<close>

definition heap_tables :: "'a memory_scheme \<Rightarrow> bool" where
  "heap_tables s \<longleftrightarrow> selfmap s \<and>
     (\<forall>i < heap_size s. present (pde_of s (kva s i)) \<and> frame (pde_of s (kva s i)) \<noteq> frame (cr3 s)) \<and>
     (\<forall>i < heap_size s. \<forall>j < heap_size s. same_slot s (kva s i) (kva s j) \<longrightarrow> i = j)"

text \<open>
  The memory invariant: the maps are readable, the kernel pool lies between the low memory and the
  user pool, no free page of the pool is a page table, only virtual pages marked as taken are mapped,
  every mapped frame is a taken page of the kernel pool and no page table, and no frame is mapped twice.
\<close>

definition mem_layout :: "'a memory_scheme \<Rightarrow> bool" where
  "mem_layout s \<longleftrightarrow> pool_ok (kernel_pool s) \<and> 0x102000 \<le> phy_addr_start (kernel_pool s) \<and>
     unat (phy_addr_start (kernel_pool s)) + pool_pages (kernel_pool s) * PG_SIZE
       \<le> unat (phy_addr_start (user_pool s)) \<and>
     wf_bitmap (vaddr_bitmap (kernel_vaddr s)) \<and>
     frame (vaddr_start (kernel_vaddr s)) = vaddr_start (kernel_vaddr s) \<and>
     vaddr_start (kernel_vaddr s) \<noteq> 0 \<and>
     unat (vaddr_start (kernel_vaddr s)) + heap_size s * PG_SIZE \<le> 0xffc00000"

definition mem_inv :: "'a memory_scheme \<Rightarrow> bool" where
  "mem_inv s \<longleftrightarrow> mem_layout s \<and> heap_tables s \<and> free_no_table PF_KERNEL s \<and>
     (\<forall>i < heap_size s. \<not> bitmap_bit (vaddr_bitmap (kernel_vaddr s)) i \<longrightarrow> heap_frame s i = None) \<and>
     (\<forall>i < heap_size s. \<forall>f. heap_frame s i = Some f \<longrightarrow> no_table f s \<and>
        (\<exists>k < pool_pages (kernel_pool s). f = pool_page (kernel_pool s) k \<and>
           bitmap_bit (pool_bitmap (kernel_pool s)) k)) \<and>
     (\<forall>i < heap_size s. \<forall>j < heap_size s. heap_frame s i = heap_frame s j \<longrightarrow> heap_frame s i \<noteq> None \<longrightarrow> i = j)"

lemma mem_invD:
  assumes "mem_inv s"
  shows "pool_ok (kernel_pool s)" "0x102000 \<le> phy_addr_start (kernel_pool s)"
    "unat (phy_addr_start (kernel_pool s)) + pool_pages (kernel_pool s) * PG_SIZE
       \<le> unat (phy_addr_start (user_pool s))"
    "wf_bitmap (vaddr_bitmap (kernel_vaddr s))"
    "frame (vaddr_start (kernel_vaddr s)) = vaddr_start (kernel_vaddr s)"
    "vaddr_start (kernel_vaddr s) \<noteq> 0"
    "unat (vaddr_start (kernel_vaddr s)) + heap_size s * PG_SIZE \<le> 0xffc00000"
    "selfmap s" "free_no_table PF_KERNEL s"
    "i < heap_size s \<Longrightarrow> present (pde_of s (kva s i))"
    "i < heap_size s \<Longrightarrow> frame (pde_of s (kva s i)) \<noteq> frame (cr3 s)"
    "i < heap_size s \<Longrightarrow> j < heap_size s \<Longrightarrow> same_slot s (kva s i) (kva s j) \<Longrightarrow> i = j"
    "i < heap_size s \<Longrightarrow> \<not> bitmap_bit (vaddr_bitmap (kernel_vaddr s)) i \<Longrightarrow> heap_frame s i = None"
    "i < heap_size s \<Longrightarrow> heap_frame s i = Some f \<Longrightarrow> no_table f s \<and>
        (\<exists>k < pool_pages (kernel_pool s). f = pool_page (kernel_pool s) k \<and>
           bitmap_bit (pool_bitmap (kernel_pool s)) k)"
    "i < heap_size s \<Longrightarrow> j < heap_size s \<Longrightarrow> heap_frame s i = heap_frame s j \<Longrightarrow> heap_frame s i \<noteq> None \<Longrightarrow> i = j"
  using assms unfolding mem_inv_def mem_layout_def heap_tables_def by blast+

lemma mem_invI:
  assumes "mem_layout s" "heap_tables s" "free_no_table PF_KERNEL s"
    and "\<And>i. i < heap_size s \<Longrightarrow> \<not> bitmap_bit (vaddr_bitmap (kernel_vaddr s)) i \<Longrightarrow> heap_frame s i = None"
    and "\<And>i f. i < heap_size s \<Longrightarrow> heap_frame s i = Some f \<Longrightarrow> no_table f s \<and>
        (\<exists>k < pool_pages (kernel_pool s). f = pool_page (kernel_pool s) k \<and>
           bitmap_bit (pool_bitmap (kernel_pool s)) k)"
    and "\<And>i j f. i < heap_size s \<Longrightarrow> j < heap_size s \<Longrightarrow> heap_frame s i = Some f \<Longrightarrow> heap_frame s j = Some f \<Longrightarrow> i = j"
  shows "mem_inv s"
  unfolding mem_inv_def using assms by (metis option.exhaust)

lemma mem_inv_cong:
  assumes "pmem s' = pmem s" "cr3 s' = cr3 s" "kernel_vaddr s' = kernel_vaddr s" "kernel_pool s' = kernel_pool s"
    "user_pool s' = user_pool s"
  shows "mem_inv s' = mem_inv s" "heap_frame s' = heap_frame s" "kva s' = kva s" "heap_size s' = heap_size s"
    "translate s' = translate s" "selfmap s' = selfmap s"
proof -
  have p: "pde_of s' = pde_of s" "pte_of s' = pte_of s"
    using assms by (auto simp: pde_of_def pte_of_def fun_eq_iff)
  show k: "kva s' = kva s" "heap_size s' = heap_size s"
    using assms by (auto simp: kva_def heap_size_def fun_eq_iff)
  show h: "heap_frame s' = heap_frame s"
    by (rule ext) (simp add: heap_frame_def p k)
  show t: "translate s' = translate s" and m: "selfmap s' = selfmap s"
    using assms p by (auto simp: translate_def selfmap_def fun_eq_iff)
  have n: "no_table f s' = no_table f s" for f
    using assms p by (simp add: no_table_def)
  show "mem_inv s' = mem_inv s"
    unfolding mem_inv_def mem_layout_def heap_tables_def free_no_table_def same_slot_def
    using assms p k h m n by simp
qed

text \<open>The page tables are the same frames, no word outside them has changed, and of the kernel pool
  only the bitmap.\<close>

definition pool_area :: "pool \<Rightarrow> u32 \<times> u32 \<times> addr" where
  "pool_area p = (phy_addr_start p, pool_size p, pool_lock p)"

definition data_kept :: "'a memory_scheme \<Rightarrow> 'a memory_scheme \<Rightarrow> bool" where
  "data_kept s s' \<longleftrightarrow> (\<forall>g. no_table g s' = no_table g s) \<and> (\<forall>x. no_table (frame x) s \<longrightarrow> pmem s' x = pmem s x) \<and>
     pool_area (kernel_pool s') = pool_area (kernel_pool s)"

lemma data_kept_refl: "pmem s' = pmem s \<Longrightarrow> cr3 s' = cr3 s \<Longrightarrow> kernel_pool s' = kernel_pool s \<Longrightarrow> data_kept s s'"
  by (simp add: data_kept_def no_table_def pde_of_def)

lemma data_kept_trans: "data_kept s s1 \<Longrightarrow> data_kept s1 s2 \<Longrightarrow> data_kept s s2"
  by (simp add: data_kept_def)

lemma data_kept_cong:
  "pmem s1 = pmem s2 \<Longrightarrow> cr3 s1 = cr3 s2 \<Longrightarrow> kernel_pool s1 = kernel_pool s2 \<Longrightarrow> data_kept s1 s' = data_kept s2 s'"
  by (simp add: data_kept_def no_table_def pde_of_def)

lemma data_kept_pte:
  assumes "present (pde_of s va)" "\<And>g. no_table g s' = no_table g s"
    "pmem s' = (pmem s)(frame (pde_of s va) + PTE_IDX va * 4 := e)"
    "kernel_pool s' = (kernel_pool s)\<lparr>pool_bitmap := b\<rparr>"
  shows "data_kept s s'"
proof -
  have "frame (frame (pde_of s va) + PTE_IDX va * 4) = frame (pde_of s va)"
    by (rule slot_frame) simp
  then show ?thesis
    using assms by (auto simp: data_kept_def no_table_def pool_area_def)
qed

text \<open>Writing the table entry of heap page \<open>i\<close>.\<close>

lemma heap_write:
  fixes s :: "'a memory_scheme" and i e
  defines "s' \<equiv> s\<lparr>pmem := (pmem s)(frame (pde_of s (kva s i)) + PTE_IDX (kva s i) * 4 := e)\<rparr>"
  assumes tab: "heap_tables s" and i: "i < heap_size s"
  shows "heap_tables s'" "no_table f s' = no_table f s"
    "j < heap_size s \<Longrightarrow> heap_frame s' j =
       (if j = i then if present e then Some (frame e) else None else heap_frame s j)"
    "kva s' = kva s" "heap_size s' = heap_size s"
proof -
  have self: "selfmap s" and pi: "present (pde_of s (kva s i))" and ni: "frame (pde_of s (kva s i)) \<noteq> frame (cr3 s)"
    using tab i by (auto simp: heap_tables_def)
  note w = write_pte [OF self pi ni, where e = e, folded s'_def]
  show k: "kva s' = kva s" "heap_size s' = heap_size s"
    by (auto simp: s'_def kva_def heap_size_def fun_eq_iff)
  have c: "cr3 s' = cr3 s"
    by (simp add: s'_def)
  show "heap_tables s'"
    using tab w(2) unfolding heap_tables_def same_slot_def k w(1) c by simp
  show "no_table f s' = no_table f s"
    by (rule w(3))
  show "heap_frame s' j = (if j = i then if present e then Some (frame e) else None else heap_frame s j)"
    if j: "j < heap_size s"
  proof -
    have pj: "present (pde_of s (kva s j))"
      using tab j by (auto simp: heap_tables_def)
    have "same_slot s (kva s j) (kva s i) \<longleftrightarrow> j = i"
      using tab i j pi by (auto simp: heap_tables_def) (simp add: same_slot_def)
    then show ?thesis
      using w(4) [OF pj] by (auto simp: heap_frame_def k)
  qed
qed

lemma kva_page:
  assumes "mem_inv s" "i < heap_size s"
  shows "unat (kva s i) = unat (vaddr_start (kernel_vaddr s)) + i * PG_SIZE" "frame (kva s i) = kva s i"
    "kva s i + of_nat PG_SIZE = kva s (i + 1)"
proof -
  have lt: "unat (vaddr_start (kernel_vaddr s)) + i * PG_SIZE < 2 ^ 32"
    using mem_invD(7) [OF assms(1)] mult_le_mono1 [of "Suc i" "heap_size s" PG_SIZE] assms(2)
    by (simp add: PG_SIZE_def)
  then have "unat (of_nat (i * PG_SIZE) :: u32) = i * PG_SIZE"
    by (simp only: unat_of_nat) simp
  then show u: "unat (kva s i) = unat (vaddr_start (kernel_vaddr s)) + i * PG_SIZE"
    unfolding kva_def using lt by (subst unat_add_lem [THEN iffD1]) simp_all
  show "frame (kva s i) = kva s i"
    using mem_invD(5) [OF assms(1)] unfolding frame_unat u by (simp add: PG_SIZE_def mod_add_eq [symmetric])
  show "kva s i + of_nat PG_SIZE = kva s (i + 1)"
    by (simp add: kva_def algebra_simps)
qed

text \<open>One round of \<^verbatim>\<open>malloc_page\<close>: a free page of the pool is mapped at heap page \<open>i\<close>.\<close>

lemma map_one:
  assumes inv: "mem_inv s" and i: "i < heap_size s" "heap_frame s i = None"
    and taken: "bitmap_bit (vaddr_bitmap (kernel_vaddr s)) i"
    and free: "pool_free (kernel_pool s) \<noteq> {}"
  shows "\<exists>k s1 s2. palloc PF_KERNEL s = Ret (pool_page (kernel_pool s) k) s1 \<and>
    page_table_add (kva s i) (pool_page (kernel_pool s) k) s1 = Ret () s2 \<and>
    pool_page (kernel_pool s) k \<noteq> NULL \<and> k \<in> pool_free (kernel_pool s) \<and> mem_inv s2 \<and>
    (\<forall>j < heap_size s. heap_frame s2 j = (if j = i then Some (pool_page (kernel_pool s) k) else heap_frame s j)) \<and>
    pool_free (kernel_pool s2) = pool_free (kernel_pool s) - {k} \<and>
    pool_page (kernel_pool s2) = pool_page (kernel_pool s) \<and>
    pool_pages (kernel_pool s2) = pool_pages (kernel_pool s) \<and>
    data_kept s s2 \<and>
    s2 = s\<lparr>pmem := pmem s2, kernel_pool := kernel_pool s2\<rparr>"
proof -
  let ?p = "kernel_pool s"
  note pok = mem_invD(1) [OF inv]
  obtain k b where k: "palloc PF_KERNEL s = Ret (pool_page ?p k) (s\<lparr>kernel_pool := ?p\<lparr>pool_bitmap := b\<rparr>\<rparr>)"
    "k \<in> pool_free ?p" "btmp_bytes_len b = btmp_bytes_len (pool_bitmap ?p)"
    "length (bits b) = length (bits (pool_bitmap ?p))"
    "\<And>j. bitmap_bit b j = (j = k \<or> bitmap_bit (pool_bitmap ?p) j)"
    by (rule palloc_ok [of PF_KERNEL s]) (use pok free in simp_all)
  let ?f = "pool_page ?p k"
  let ?s1 = "s\<lparr>kernel_pool := ?p\<lparr>pool_bitmap := b\<rparr>\<rparr>"
  have kp: "k < pool_pages ?p" "\<not> bitmap_bit (pool_bitmap ?p) k"
    using k(2) by (auto simp: pool_free_def)
  have f: "frame ?f = ?f" "?f \<noteq> NULL" "no_table ?f s"
    using frame_pool_page [OF pok kp(1)] pool_page_nonzero [OF pok kp(1)] mem_invD(9) [OF inv] k(2)
    by (auto simp: free_no_table_def)
  have e1: "pde_of ?s1 = pde_of s" "pte_of ?s1 = pte_of s" "kva ?s1 = kva s" "heap_size ?s1 = heap_size s"
    by (auto simp: pde_of_def pte_of_def kva_def heap_size_def fun_eq_iff)
  have h1: "heap_frame ?s1 = heap_frame s" "no_table g ?s1 = no_table g s" for g
    by (auto simp: heap_frame_def e1 fun_eq_iff no_table_def)
  have t1: "heap_tables ?s1"
    using inv unfolding mem_inv_def heap_tables_def same_slot_def e1 by (simp add: selfmap_def)
  define s2 where "s2 = ?s1\<lparr>pmem := (pmem s)(frame (pde_of s (kva s i)) + PTE_IDX (kva s i) * 4 := page_entry ?f)\<rparr>"
  note w = heap_write [OF t1, where i = i and e = "page_entry ?f", unfolded e1 h1]
  have add: "page_table_add (kva s i) ?f ?s1 = Ret () s2"
    using page_table_add_present [of ?s1 "kva s i" ?f] t1 mem_invD(10) [OF inv i(1)] i(2)
    by (simp add: heap_tables_def e1 s2_def heap_frame_def split: if_splits)
  have s2: "heap_tables s2" "no_table g s2 = no_table g s" "kva s2 = kva s" "heap_size s2 = heap_size s"
    "j < heap_size s \<Longrightarrow> heap_frame s2 j = (if j = i then Some ?f else heap_frame s j)" for g j
    using w(1-3) [OF i(1)] entry_parts [OF f(1)] by (auto simp: s2_def kva_def heap_size_def fun_eq_iff)
  have p2: "kernel_pool s2 = ?p\<lparr>pool_bitmap := b\<rparr>" "pool_pages (kernel_pool s2) = pool_pages ?p"
    "pool_page (kernel_pool s2) = pool_page ?p" "pool_free (kernel_pool s2) = pool_free ?p - {k}"
    "user_pool s2 = user_pool s" "kernel_vaddr s2 = kernel_vaddr s" "cr3 s2 = cr3 s"
    using k(3,5) by (auto simp: s2_def pool_pages_def pool_free_def pool_page_def fun_eq_iff)
  have old: "no_table g s \<and> (\<exists>m < pool_pages ?p. g = pool_page ?p m \<and> bitmap_bit (pool_bitmap ?p) m) \<and> g \<noteq> ?f"
    if jg: "j < heap_size s" "heap_frame s j = Some g" for j g
  proof -
    obtain m where "m < pool_pages ?p" "g = pool_page ?p m" "bitmap_bit (pool_bitmap ?p) m" "no_table g s"
      using mem_invD(14) [OF inv jg] by blast
    then show ?thesis
      using pool_page_inj [OF pok _ kp(1), of m] kp(2) by auto
  qed
  have "mem_inv s2"
  proof (rule mem_invI)
    show "mem_layout s2"
      using inv k(3,4) p2 s2(4) by (simp add: mem_inv_def mem_layout_def pool_ok_def wf_bitmap_def pool_pages_def)
    show "heap_tables s2" "free_no_table PF_KERNEL s2"
      using s2(1) mem_invD(9) [OF inv] p2 s2(2) by (simp_all add: free_no_table_def)
    show "heap_frame s2 j = None" if "j < heap_size s2" "\<not> bitmap_bit (vaddr_bitmap (kernel_vaddr s2)) j" for j
      using that taken s2(5) [of j] mem_invD(13) [OF inv, of j] unfolding s2(4) p2(6) by (cases "j = i") auto
    show "no_table g s2 \<and> (\<exists>m < pool_pages (kernel_pool s2). g = pool_page (kernel_pool s2) m \<and>
        bitmap_bit (pool_bitmap (kernel_pool s2)) m)" if jg: "j < heap_size s2" "heap_frame s2 j = Some g" for j g
    proof (cases "j = i")
      case True
      then have "g = ?f"
        using jg s2(5) [of j] unfolding s2(4) by simp
      then show ?thesis
        using f(3) kp(1) k(5) [of k] unfolding s2(2) p2(2,3) by (auto simp: p2(1))
    next
      case False
      then have "heap_frame s j = Some g" "j < heap_size s"
        using jg s2(5) [of j] unfolding s2(4) by simp_all
      then obtain m where "m < pool_pages ?p" "g = pool_page ?p m" "bitmap_bit (pool_bitmap ?p) m" "no_table g s"
        using old by blast
      then show ?thesis
        using k(5) [of m] unfolding s2(2) p2(2,3) by (auto simp: p2(1))
    qed
    show "j = l" if jl: "j < heap_size s2" "l < heap_size s2" "heap_frame s2 j = Some g" "heap_frame s2 l = Some g" for j l g
    proof -
      have jl': "j < heap_size s" "l < heap_size s"
        using jl unfolding s2(4) by simp_all
      show ?thesis
      proof (cases "j = i \<or> l = i")
        case True
        then have "g = ?f"
          using jl(3,4) s2(5) [OF jl'(1)] s2(5) [OF jl'(2)] by auto
        then show ?thesis
          using jl(3,4) s2(5) [OF jl'(1)] s2(5) [OF jl'(2)] old [OF jl'(1), of g] old [OF jl'(2), of g]
          by (cases "j = i"; cases "l = i") simp_all
      next
        case False
        then show ?thesis
          using jl(3,4) s2(5) [OF jl'(1)] s2(5) [OF jl'(2)] mem_invD(15) [OF inv jl'] by simp
      qed
    qed
  qed
  moreover have "s2 = s\<lparr>pmem := pmem s2, kernel_pool := kernel_pool s2\<rparr>"
    by (simp add: s2_def)
  moreover have "\<forall>j < heap_size s. heap_frame s2 j = (if j = i then Some ?f else heap_frame s j)"
    using s2(5) by blast
  moreover have "data_kept s s2"
    by (rule data_kept_pte [OF mem_invD(10) [OF inv i(1)]]) (use s2(2) in \<open>simp_all add: s2_def\<close>)
  ultimately show ?thesis
    using k(1,2) add f(2) p2(2-4) by blast
qed

lemma finite_pool_free [simp]: "finite (pool_free p)"
  by (simp add: pool_free_def)

lemma map_pages_ok:
  assumes "mem_inv s" "i + n \<le> heap_size s" "n \<le> card (pool_free (kernel_pool s))"
    and "\<And>j. i \<le> j \<Longrightarrow> j < i + n \<Longrightarrow> heap_frame s j = None \<and> bitmap_bit (vaddr_bitmap (kernel_vaddr s)) j"
  shows "\<exists>s' fs. map_pages PF_KERNEL (kva s i) n s = Ret True s' \<and> mem_inv s' \<and> length fs = n \<and> distinct fs \<and>
    set fs \<subseteq> pool_free (kernel_pool s) \<and>
    (\<forall>j < n. heap_frame s' (i + j) = Some (pool_page (kernel_pool s) (fs ! j))) \<and>
    (\<forall>j < heap_size s. j < i \<or> i + n \<le> j \<longrightarrow> heap_frame s' j = heap_frame s j) \<and>
    pool_free (kernel_pool s') = pool_free (kernel_pool s) - set fs \<and>
    pool_page (kernel_pool s') = pool_page (kernel_pool s) \<and>
    pool_pages (kernel_pool s') = pool_pages (kernel_pool s) \<and>
    data_kept s s' \<and>
    s' = s\<lparr>pmem := pmem s', kernel_pool := kernel_pool s'\<rparr>"
  using assms
proof (induction n arbitrary: i s)
  case 0
  then show ?case by (simp add: data_kept_refl)
next
  case (Suc n)
  have i: "i < heap_size s" "heap_frame s i = None" "bitmap_bit (vaddr_bitmap (kernel_vaddr s)) i"
    using Suc.prems(2) Suc.prems(4) [of i] by simp_all
  have "pool_free (kernel_pool s) \<noteq> {}"
    using Suc.prems(3) by auto
  then obtain k s1 s2 where k: "palloc PF_KERNEL s = Ret (pool_page (kernel_pool s) k) s1"
    "page_table_add (kva s i) (pool_page (kernel_pool s) k) s1 = Ret () s2"
    "pool_page (kernel_pool s) k \<noteq> NULL" "k \<in> pool_free (kernel_pool s)" "mem_inv s2"
    "\<And>j. j < heap_size s \<Longrightarrow> heap_frame s2 j = (if j = i then Some (pool_page (kernel_pool s) k) else heap_frame s j)"
    "pool_free (kernel_pool s2) = pool_free (kernel_pool s) - {k}"
    "pool_page (kernel_pool s2) = pool_page (kernel_pool s)"
    "s2 = s\<lparr>pmem := pmem s2, kernel_pool := kernel_pool s2\<rparr>"
    "pool_pages (kernel_pool s2) = pool_pages (kernel_pool s)" "data_kept s s2"
    using map_one [OF Suc.prems(1) i] by blast
  have v: "kernel_vaddr s2 = kernel_vaddr s"
    by (subst k(9)) simp
  then have s2: "heap_size s2 = heap_size s" "kva s2 = kva s"
    by (auto simp: heap_size_def kva_def fun_eq_iff)
  have "\<exists>s' fs. map_pages PF_KERNEL (kva s2 (i + 1)) n s2 = Ret True s' \<and> mem_inv s' \<and> length fs = n \<and> distinct fs \<and>
    set fs \<subseteq> pool_free (kernel_pool s2) \<and>
    (\<forall>j < n. heap_frame s' (i + 1 + j) = Some (pool_page (kernel_pool s2) (fs ! j))) \<and>
    (\<forall>j < heap_size s2. j < i + 1 \<or> i + 1 + n \<le> j \<longrightarrow> heap_frame s' j = heap_frame s2 j) \<and>
    pool_free (kernel_pool s') = pool_free (kernel_pool s2) - set fs \<and>
    pool_page (kernel_pool s') = pool_page (kernel_pool s2) \<and>
    pool_pages (kernel_pool s') = pool_pages (kernel_pool s2) \<and>
    data_kept s2 s' \<and>
    s' = s2\<lparr>pmem := pmem s', kernel_pool := kernel_pool s'\<rparr>"
  proof (rule Suc.IH)
    show "mem_inv s2" by (rule k(5))
    show "i + 1 + n \<le> heap_size s2"
      using Suc.prems(2) s2 by simp
    show "n \<le> card (pool_free (kernel_pool s2))"
      using Suc.prems(3) k(4,7) by simp
    show "heap_frame s2 j = None \<and> bitmap_bit (vaddr_bitmap (kernel_vaddr s2)) j"
      if "i + 1 \<le> j" "j < i + 1 + n" for j
      using that Suc.prems(2) Suc.prems(4) [of j] k(6) [of j] v by simp
  qed
  then obtain s' fs where s': "map_pages PF_KERNEL (kva s (i + 1)) n s2 = Ret True s'" "mem_inv s'" "length fs = n"
    "distinct fs" "set fs \<subseteq> pool_free (kernel_pool s) - {k}"
    "\<And>j. j < n \<Longrightarrow> heap_frame s' (i + 1 + j) = Some (pool_page (kernel_pool s) (fs ! j))"
    "\<And>j. j < heap_size s \<Longrightarrow> j < i + 1 \<or> i + 1 + n \<le> j \<Longrightarrow> heap_frame s' j = heap_frame s2 j"
    "pool_free (kernel_pool s') = pool_free (kernel_pool s) - {k} - set fs"
    "pool_page (kernel_pool s') = pool_page (kernel_pool s)"
    "s' = s2\<lparr>pmem := pmem s', kernel_pool := kernel_pool s'\<rparr>"
    "pool_pages (kernel_pool s') = pool_pages (kernel_pool s)" "data_kept s2 s'"
    unfolding s2 k(7,8,10) by blast
  have "map_pages PF_KERNEL (kva s i) (Suc n) s = Ret True s'"
    using k(1-3) s'(1) kva_page(3) [OF Suc.prems(1) i(1)] by simp
  moreover have "heap_frame s' (i + j) = Some (pool_page (kernel_pool s) ((k # fs) ! j))" if "j < Suc n" for j
    using that s'(6) [of "j - 1"] s'(7) [of i] k(6) [of i] i(1) by (cases j) auto
  moreover have "heap_frame s' j = heap_frame s j" if "j < heap_size s" "j < i \<or> i + Suc n \<le> j" for j
    using that s'(7) [of j] k(6) [of j] by auto
  moreover have "s' = s\<lparr>pmem := pmem s', kernel_pool := kernel_pool s'\<rparr>"
  proof -
    have "s2\<lparr>pmem := a, kernel_pool := b\<rparr> = s\<lparr>pmem := a, kernel_pool := b\<rparr>" for a b
      by (subst k(9)) simp
    then show ?thesis
      using s'(10) by simp
  qed
  moreover have "data_kept s s'"
    by (rule data_kept_trans [OF k(11) s'(12)])
  ultimately show ?case
    using s' k(4) by (intro exI [of _ s'] exI [of _ "k # fs"] conjI) auto
qed

lemma set_bits_ok:
  assumes "\<And>j. i \<le> j \<Longrightarrow> j < i + n \<Longrightarrow> j div 8 < length (bits b)" "v = 0 \<or> v = 1"
  shows "\<exists>b'. set_bits b i n v = Inr b' \<and> btmp_bytes_len b' = btmp_bytes_len b \<and>
    length (bits b') = length (bits b) \<and>
    (\<forall>j. bitmap_bit b' j = (if i \<le> j \<and> j < i + n then v = 1 else bitmap_bit b j))"
  using assms
proof (induction n arbitrary: i b)
  case 0
  then show ?case by auto
next
  case (Suc n)
  obtain b1 where b1: "bitmap_set b i v = Inr b1" "btmp_bytes_len b1 = btmp_bytes_len b"
    "length (bits b1) = length (bits b)" "\<And>j. bitmap_bit b1 j = (if j = i then v = 1 else bitmap_bit b j)"
    using bitmap_set_Inr [of i b v] Suc.prems by auto
  obtain b' where b': "set_bits b1 (i + 1) n v = Inr b'" "btmp_bytes_len b' = btmp_bytes_len b1"
    "length (bits b') = length (bits b1)"
    "\<And>j. bitmap_bit b' j = (if i + 1 \<le> j \<and> j < i + 1 + n then v = 1 else bitmap_bit b1 j)"
    using Suc.IH [of "i + 1" b1] Suc.prems b1(3) by auto
  have "bitmap_bit b' j = (if i \<le> j \<and> j < i + Suc n then v = 1 else bitmap_bit b j)" for j
    using b'(4) [of j] b1(4) [of j] by auto
  then show ?case
    using b1 b' by (intro exI [of _ b']) simp
qed

text \<open>Marking or unmarking virtual pages that are not mapped keeps the invariant.\<close>

lemma mark_pages:
  fixes s :: "'a memory_scheme" and b
  defines "s' \<equiv> set_vaddr PF_KERNEL b s"
  assumes inv: "mem_inv s" and b: "btmp_bytes_len b = btmp_bytes_len (vaddr_bitmap (kernel_vaddr s))"
    "length (bits b) = length (bits (vaddr_bitmap (kernel_vaddr s)))"
    and keep: "\<And>i. i < heap_size s \<Longrightarrow> \<not> bitmap_bit b i \<Longrightarrow> heap_frame s i = None"
  shows "mem_inv s'" "heap_frame s' = heap_frame s" "kva s' = kva s" "heap_size s' = heap_size s"
proof -
  have p: "pde_of s' = pde_of s" "pte_of s' = pte_of s"
    by (auto simp: pde_of_def pte_of_def fun_eq_iff s'_def)
  show k: "kva s' = kva s" "heap_size s' = heap_size s"
    using b by (auto simp: kva_def heap_size_def fun_eq_iff s'_def)
  show h: "heap_frame s' = heap_frame s"
    by (rule ext) (simp add: heap_frame_def p k)
  have f: "kernel_pool s' = kernel_pool s" "user_pool s' = user_pool s" "cr3 s' = cr3 s" "pmem s' = pmem s"
    "vaddr_start (kernel_vaddr s') = vaddr_start (kernel_vaddr s)" "vaddr_bitmap (kernel_vaddr s') = b"
    by (simp_all add: s'_def)
  have n: "no_table g s' = no_table g s" for g
    by (simp add: no_table_def p f)
  show "mem_inv s'"
  proof (rule mem_invI)
    show "mem_layout s'"
      using inv b unfolding mem_inv_def mem_layout_def k f by (simp add: wf_bitmap_def)
    show "heap_tables s'"
      using inv unfolding mem_inv_def heap_tables_def same_slot_def p k f by (simp add: selfmap_def f)
    show "free_no_table PF_KERNEL s'"
      using mem_invD(9) [OF inv] by (simp add: free_no_table_def f n)
    show "heap_frame s' i = None" if "i < heap_size s'" "\<not> bitmap_bit (vaddr_bitmap (kernel_vaddr s')) i" for i
      using that keep unfolding h k f by simp
    show "no_table g s' \<and> (\<exists>k < pool_pages (kernel_pool s'). g = pool_page (kernel_pool s') k \<and>
        bitmap_bit (pool_bitmap (kernel_pool s')) k)" if "i < heap_size s'" "heap_frame s' i = Some g" for i g
      using that mem_invD(14) [OF inv, of i g] unfolding h k f n by simp
    show "i = j" if "i < heap_size s'" "j < heap_size s'" "heap_frame s' i = Some g" "heap_frame s' j = Some g" for i j g
      using that mem_invD(15) [OF inv, of i j] unfolding h k by simp
  qed
qed

text \<open>A run of \<open>n\<close> free virtual pages at \<open>j\<close>, the first such run.\<close>

definition first_run :: "bitmap \<Rightarrow> nat \<Rightarrow> nat \<Rightarrow> bool" where
  "first_run b j n \<longleftrightarrow> free_run b j n \<and> j + n \<le> 8 * btmp_bytes_len b \<and> (\<forall>j' < j. \<not> free_run b j' n)"

lemma vaddr_get_kernel:
  assumes inv: "mem_inv s" and n: "0 < n" and run: "first_run (vaddr_bitmap (kernel_vaddr s)) j n"
  shows "\<exists>b. vaddr_get PF_KERNEL n s = Ret (kva s j) (set_vaddr PF_KERNEL b s) \<and>
    btmp_bytes_len b = btmp_bytes_len (vaddr_bitmap (kernel_vaddr s)) \<and>
    length (bits b) = length (bits (vaddr_bitmap (kernel_vaddr s))) \<and>
    (\<forall>i. bitmap_bit b i = (j \<le> i \<and> i < j + n \<or> bitmap_bit (vaddr_bitmap (kernel_vaddr s)) i))"
proof -
  let ?b = "vaddr_bitmap (kernel_vaddr s)"
  have scan: "bitmap_scan ?b n = Inr (int j)"
    using run n mem_invD(4) [OF inv] by (intro scan_first_fit) (auto simp: first_run_def)
  obtain b where b: "set_bits ?b j n 1 = Inr b" "btmp_bytes_len b = btmp_bytes_len ?b"
    "length (bits b) = length (bits ?b)"
    "\<forall>i. bitmap_bit b i = (if j \<le> i \<and> i < j + n then (1::int) = 1 else bitmap_bit ?b i)"
    using set_bits_ok [of j n ?b 1] wf_readable [OF mem_invD(4) [OF inv]] run by (auto simp: first_run_def)
  have "vaddr_get PF_KERNEL n s = Ret (kva s j) (set_vaddr PF_KERNEL b s)"
    using scan b(1) by (simp add: vaddr_get_def Let_def bindK_def thenK_def kva_def)
  then show ?thesis
    using b by (intro exI [of _ b]) auto
qed

lemma kva_nonzero: "mem_inv s \<Longrightarrow> i < heap_size s \<Longrightarrow> kva s i \<noteq> NULL"
proof
  assume *: "mem_inv s" "i < heap_size s" "kva s i = NULL"
  have "unat (vaddr_start (kernel_vaddr s)) \<noteq> 0"
    using mem_invD(6) [OF *(1)] by (simp add: unat_eq_0)
  then show False
    using kva_page(1) [OF *(1,2)] unfolding *(3) by simp
qed

text \<open>\<^verbatim>\<open>malloc_page\<close> for the kernel pool: \<open>n\<close> consecutive virtual pages, each with its own fresh frame.\<close>

lemma malloc_kernel:
  assumes inv: "mem_inv s" and n: "0 < n" "n < 3840"
    and run: "first_run (vaddr_bitmap (kernel_vaddr s)) j n" and free: "n \<le> card (pool_free (kernel_pool s))"
  shows "\<exists>s' fs. malloc_page PF_KERNEL n s = Ret (kva s j) s' \<and> mem_inv s' \<and> length fs = n \<and> distinct fs \<and>
    set fs \<subseteq> pool_free (kernel_pool s) \<and>
    (\<forall>i < n. heap_frame s' (j + i) = Some (pool_page (kernel_pool s) (fs ! i))) \<and>
    (\<forall>i < heap_size s. i < j \<or> j + n \<le> i \<longrightarrow> heap_frame s' i = heap_frame s i) \<and>
    pool_free (kernel_pool s') = pool_free (kernel_pool s) - set fs \<and>
    pool_page (kernel_pool s') = pool_page (kernel_pool s) \<and>
    pool_pages (kernel_pool s') = pool_pages (kernel_pool s) \<and>
    data_kept s s' \<and>
    (\<forall>i. bitmap_bit (vaddr_bitmap (kernel_vaddr s')) i =
       (j \<le> i \<and> i < j + n \<or> bitmap_bit (vaddr_bitmap (kernel_vaddr s)) i)) \<and>
    kva s' = kva s \<and> heap_size s' = heap_size s \<and>
    s' = s\<lparr>pmem := pmem s', kernel_pool := kernel_pool s', kernel_vaddr := kernel_vaddr s'\<rparr>"
proof -
  let ?vb = "vaddr_bitmap (kernel_vaddr s)"
  obtain b where b: "vaddr_get PF_KERNEL n s = Ret (kva s j) (set_vaddr PF_KERNEL b s)"
    "btmp_bytes_len b = btmp_bytes_len ?vb" "length (bits b) = length (bits ?vb)"
    "\<And>i. bitmap_bit b i = (j \<le> i \<and> i < j + n \<or> bitmap_bit ?vb i)"
    using vaddr_get_kernel [OF inv n(1) run] by blast
  let ?s1 = "set_vaddr PF_KERNEL b s"
  have jn: "j + n \<le> heap_size s" "\<And>i. j \<le> i \<Longrightarrow> i < j + n \<Longrightarrow> \<not> bitmap_bit ?vb i"
    using run by (auto simp: first_run_def heap_size_def free_run_def)
  have m: "mem_inv ?s1" "heap_frame ?s1 = heap_frame s" "kva ?s1 = kva s" "heap_size ?s1 = heap_size s"
    by (rule mark_pages [OF inv b(2,3)]; use b(4) mem_invD(13) [OF inv] in blast)+
  have v: "kernel_pool ?s1 = kernel_pool s" "vaddr_bitmap (kernel_vaddr ?s1) = b"
    by simp_all
  have un: "heap_frame ?s1 i = None \<and> bitmap_bit (vaddr_bitmap (kernel_vaddr ?s1)) i" if "j \<le> i" "i < j + n" for i
    using that jn b(4) [of i] mem_invD(13) [OF inv, of i] unfolding m v by simp
  have "j + n \<le> heap_size ?s1" "n \<le> card (pool_free (kernel_pool ?s1))"
    using jn(1) free unfolding m v by simp_all
  note map_pages_ok [OF m(1) this un]
  then obtain s' fs where s': "map_pages PF_KERNEL (kva s j) n ?s1 = Ret True s'" "mem_inv s'" "length fs = n" "distinct fs"
    "set fs \<subseteq> pool_free (kernel_pool s)"
    "\<forall>i < n. heap_frame s' (j + i) = Some (pool_page (kernel_pool s) (fs ! i))"
    "\<forall>i < heap_size s. i < j \<or> j + n \<le> i \<longrightarrow> heap_frame s' i = heap_frame s i"
    "pool_free (kernel_pool s') = pool_free (kernel_pool s) - set fs"
    "pool_page (kernel_pool s') = pool_page (kernel_pool s)"
    "s' = ?s1\<lparr>pmem := pmem s', kernel_pool := kernel_pool s'\<rparr>"
    "pool_pages (kernel_pool s') = pool_pages (kernel_pool s)" "data_kept ?s1 s'"
    unfolding m v by blast
  have vs: "kernel_vaddr s' = kernel_vaddr ?s1"
    by (subst s'(10)) simp
  have "malloc_page PF_KERNEL n s = Ret (kva s j) s'"
    using n b(1) s'(1) kva_nonzero [OF inv, of j] jn(1) by (simp add: malloc_page_def bindK_def thenK_def)
  moreover have "s' = s\<lparr>pmem := pmem s', kernel_pool := kernel_pool s', kernel_vaddr := kernel_vaddr s'\<rparr>"
  proof -
    have "?s1\<lparr>pmem := x, kernel_pool := y\<rparr> =
        s\<lparr>pmem := x, kernel_pool := y, kernel_vaddr := kernel_vaddr ?s1\<rparr>" for x y
      by simp
    then show ?thesis
      using s'(10) vs by metis
  qed
  moreover have "kva s' = kva s" "heap_size s' = heap_size s"
    using vs b(2) by (auto simp: kva_def heap_size_def fun_eq_iff)
  moreover have "\<forall>i. bitmap_bit (vaddr_bitmap (kernel_vaddr s')) i = (j \<le> i \<and> i < j + n \<or> bitmap_bit ?vb i)"
    using vs b(4) by simp
  moreover have "data_kept s s'"
    using s'(12) data_kept_cong [of ?s1 s s'] by simp
  ultimately show ?thesis
    using s'(2-9,11) by blast
qed

subsection \<open>Reading and clearing heap pages\<close>

lemma heap_translate:
  assumes inv: "mem_inv s" and i: "i < heap_size s" "heap_frame s i = Some f" and e: "e < 0x1000"
  shows "translate s (kva s i + e) = Some (f + e)" "frame f = f"
proof -
  note k = kva_page(2) [OF inv i(1)]
  have "frame (kva s i + e) = frame (kva s i)"
    using frame_add(1) [OF k e] k by simp
  from idx_of_frame [OF this]
  have "pde_of s (kva s i + e) = pde_of s (kva s i)" "pte_of s (kva s i + e) = pte_of s (kva s i)"
    by (simp_all add: pde_of_def pte_of_def)
  moreover have "present (pte_of s (kva s i))" "f = frame (pte_of s (kva s i))"
    using i(2) by (auto simp: heap_frame_def split: if_splits)
  ultimately show "translate s (kva s i + e) = Some (f + e)" "frame f = f"
    using frame_add(2) [OF k e] mem_invD(10) [OF inv i(1)] by (simp_all add: translate_def present_PG_P_1)
qed

text \<open>Writing outside the tables keeps the invariant.\<close>

lemma mem_inv_data:
  fixes s :: "'a memory_scheme" and m
  defines "s' \<equiv> s\<lparr>pmem := m\<rparr>"
  assumes inv: "mem_inv s" and m: "\<And>x. \<not> no_table (frame x) s \<Longrightarrow> m x = pmem s x"
  shows "mem_inv s'" "heap_frame s' j = (if j < heap_size s then heap_frame s j else heap_frame s' j)"
    "translate s' v = translate s v" "kva s' = kva s" "heap_size s' = heap_size s"
proof -
  have c: "cr3 s' = cr3 s" "\<And>x. \<not> no_table (frame x) s \<Longrightarrow> pmem s' x = pmem s x"
    using m by (simp_all add: s'_def)
  have t: "pde_of s' w = pde_of s w" "present (pde_of s w) \<Longrightarrow> pte_of s' w = pte_of s w"
    "translate s' w = translate s w" "selfmap s' = selfmap s" "no_table g s' = no_table g s" for w g
    by (rule tables_cong; use c in simp)+
  show k: "kva s' = kva s" "heap_size s' = heap_size s"
    by (auto simp: kva_def heap_size_def fun_eq_iff s'_def)
  show "translate s' v = translate s v"
    by (rule t(3))
  have h: "heap_frame s' j = heap_frame s j" if "j < heap_size s" for j
    using t(2) [OF mem_invD(10) [OF inv that]] by (simp add: heap_frame_def k)
  then show "heap_frame s' j = (if j < heap_size s then heap_frame s j else heap_frame s' j)"
    by simp
  have f: "kernel_pool s' = kernel_pool s" "user_pool s' = user_pool s" "kernel_vaddr s' = kernel_vaddr s"
    by (simp_all add: s'_def)
  show "mem_inv s'"
  proof (rule mem_invI)
    show "mem_layout s'"
      using inv unfolding mem_inv_def mem_layout_def k f by simp
    show "heap_tables s'"
      using inv unfolding mem_inv_def heap_tables_def same_slot_def k c(1) t(1,4) by simp
    show "free_no_table PF_KERNEL s'"
      using mem_invD(9) [OF inv] by (simp add: free_no_table_def f t(5))
    show "heap_frame s' i = None" if "i < heap_size s'" "\<not> bitmap_bit (vaddr_bitmap (kernel_vaddr s')) i" for i
      using that h [of i] mem_invD(13) [OF inv, of i] unfolding k f by simp
    show "no_table g s' \<and> (\<exists>k < pool_pages (kernel_pool s'). g = pool_page (kernel_pool s') k \<and>
        bitmap_bit (pool_bitmap (kernel_pool s')) k)" if "i < heap_size s'" "heap_frame s' i = Some g" for i g
      using that h [of i] mem_invD(14) [OF inv, of i g] unfolding k f t(5) by simp
    show "i = j" if "i < heap_size s'" "j < heap_size s'" "heap_frame s' i = Some g" "heap_frame s' j = Some g" for i j g
      using that h [of i] h [of j] mem_invD(15) [OF inv, of i j] unfolding k by simp
  qed
qed

text \<open>The word \<open>m\<close> of a run of heap pages.\<close>

lemma heap_word:
  assumes inv: "mem_inv s" and m: "m < n * 1024" and jn: "j + n \<le> heap_size s"
    and f: "heap_frame s (j + m div 1024) = Some f"
  shows "translate s (kva s j + of_nat (4 * m)) = Some (f + of_nat (4 * (m mod 1024)))"
    "frame (f + of_nat (4 * (m mod 1024))) = f"
proof -
  let ?e = "of_nat (4 * (m mod 1024)) :: u32"
  have "unat ?e = 4 * (m mod 1024)"
    by (simp only: unat_of_nat) simp
  then have e: "?e < 0x1000"
    by (simp add: word_less_nat_alt)
  have i: "j + m div 1024 < heap_size s"
    using m jn less_mult_imp_div_less [of m n 1024] by simp
  have "of_nat (j * PG_SIZE) + of_nat (4 * m) = (of_nat ((j + m div 1024) * PG_SIZE) + ?e :: u32)"
  proof -
    have "4 * m = m div 1024 * PG_SIZE + 4 * (m mod 1024)"
      using div_mult_mod_eq [of m 1024] unfolding PG_SIZE_def by linarith
    then have "j * PG_SIZE + 4 * m = (j + m div 1024) * PG_SIZE + 4 * (m mod 1024)"
      by (simp only: add_mult_distrib add.assoc)
    then show ?thesis
      by (simp only: of_nat_add [symmetric])
  qed
  then have eq: "kva s j + of_nat (4 * m) = kva s (j + m div 1024) + ?e"
    by (simp only: kva_def add.assoc)
  show "translate s (kva s j + of_nat (4 * m)) = Some (f + ?e)"
    unfolding eq by (rule heap_translate(1) [OF inv i f e])
  show "frame (f + ?e) = f"
    by (rule frame_add(1) [OF heap_translate(2) [OF inv i f e] e])
qed

lemma zero_heap:
  assumes inv: "mem_inv s" and jn: "j + n \<le> heap_size s"
    and f: "\<And>i. i < n \<Longrightarrow> heap_frame s (j + i) = Some (f i)"
  shows "\<exists>m. vzero (kva s j) (n * 1024) s = Inr (s\<lparr>pmem := m\<rparr>) \<and>
    (\<forall>x. \<not> no_table (frame x) s \<longrightarrow> m x = pmem s x) \<and>
    (\<forall>k < n * 1024. vread (s\<lparr>pmem := m\<rparr>) (kva s j + of_nat (4 * k)) = Inr 0) \<and>
    (\<forall>x. frame x \<notin> f ` {..<n} \<longrightarrow> m x = pmem s x)"
proof -
  let ?pa = "\<lambda>k. f (k div 1024) + of_nat (4 * (k mod 1024))"
  have w: "translate s (kva s j + of_nat (4 * k)) = Some (?pa k)" "frame (?pa k) = f (k div 1024)"
    if "k < n * 1024" for k
    using heap_word [OF inv that jn f] less_mult_imp_div_less [OF that] by simp_all
  have nt: "no_table (frame (?pa k)) s" if "k < n * 1024" for k
  proof -
    have q: "k div 1024 < n"
      by (rule less_mult_imp_div_less [OF that])
    then have "j + k div 1024 < heap_size s"
      using jn by simp
    then show ?thesis
      using mem_invD(14) [OF inv _ f [OF q]] unfolding w(2) [OF that] by blast
  qed
  define m where "m = (\<lambda>x. if \<exists>k < n * 1024. x = ?pa k then 0 else pmem s x)"
  have z: "vzero (kva s j) (n * 1024) s = Inr (s\<lparr>pmem := m\<rparr>)"
    unfolding m_def
  proof (rule vzero_run)
    fix m' k assume k: "k < n * 1024" and m': "\<And>x. \<forall>i < n * 1024. x \<noteq> ?pa i \<Longrightarrow> m' x = pmem s x"
    have "translate (s\<lparr>pmem := m'\<rparr>) v = translate s v" for v
    proof (rule mem_inv_data(3) [OF inv])
      show "m' x = pmem s x" if "\<not> no_table (frame x) s" for x
        by (rule m') (use nt that in metis)
    qed
    then show "translate (s\<lparr>pmem := m'\<rparr>) (kva s j + of_nat (4 * k)) = Some (?pa k)"
      using w(1) [OF k] by simp
  qed
  have o: "m x = pmem s x" if "\<not> no_table (frame x) s" for x
    using that nt by (auto simp: m_def)
  have "vread (s\<lparr>pmem := m\<rparr>) (kva s j + of_nat (4 * k)) = Inr 0" if "k < n * 1024" for k
    using mem_inv_data(3) [OF inv o, of "kva s j + of_nat (4 * k)"] w(1) [OF that] that
    by (auto simp: vread_def m_def)
  moreover have "m x = pmem s x" if x: "frame x \<notin> f ` {..<n}" for x
  proof -
    have "x \<noteq> ?pa k" if "k < n * 1024" for k
      using w(2) [OF that] x less_mult_imp_div_less [OF that] by auto
    then show ?thesis
      by (auto simp: m_def)
  qed
  ultimately show ?thesis
    using z o by blast
qed

subsection \<open>Giving pages back\<close>

lemma unat_div_page: "unat (of_nat (k * PG_SIZE) :: u32) = k * PG_SIZE \<Longrightarrow> unat ((of_nat (k * PG_SIZE) :: u32) div of_nat PG_SIZE) = k"
  unfolding unat_div by (simp add: PG_SIZE_def)

lemma pfree_kernel:
  assumes inv: "mem_inv s" and k: "k < pool_pages (kernel_pool s)"
  shows "\<exists>b. pfree (pool_page (kernel_pool s) k) s = Ret () (s\<lparr>kernel_pool := (kernel_pool s)\<lparr>pool_bitmap := b\<rparr>\<rparr>) \<and>
    btmp_bytes_len b = btmp_bytes_len (pool_bitmap (kernel_pool s)) \<and>
    length (bits b) = length (bits (pool_bitmap (kernel_pool s))) \<and>
    (\<forall>j. bitmap_bit b j = (j \<noteq> k \<and> bitmap_bit (pool_bitmap (kernel_pool s)) j))"
proof -
  let ?p = "kernel_pool s"
  note pok = mem_invD(1) [OF inv]
  have u: "unat (pool_page ?p k) = unat (phy_addr_start ?p) + k * PG_SIZE"
    by (rule unat_pool_page [OF pok k])
  have "k * PG_SIZE < pool_pages ?p * PG_SIZE"
    using k by (simp add: PG_SIZE_def)
  then have lt: "\<not> phy_addr_start (user_pool s) \<le> pool_page ?p k"
    using mem_invD(3) [OF inv] u unfolding word_le_nat_alt by linarith
  have "k * PG_SIZE < 2 ^ 32"
    using u unsigned_less [of "pool_page ?p k", where ?'a = nat] by simp
  then have "unat (of_nat (k * PG_SIZE) :: u32) = k * PG_SIZE"
    by (simp only: unat_of_nat) simp
  from unat_div_page [OF this]
  have idx: "unat ((pool_page ?p k - phy_addr_start ?p) div of_nat PG_SIZE) = k"
    by (simp add: pool_page_def)
  obtain b where b: "bitmap_set (pool_bitmap ?p) k 0 = Inr b" "btmp_bytes_len b = btmp_bytes_len (pool_bitmap ?p)"
    "length (bits b) = length (bits (pool_bitmap ?p))"
    "\<And>j. bitmap_bit b j = (if j = k then (0::int) = 1 else bitmap_bit (pool_bitmap ?p) j)"
    using bitmap_set_Inr [of k "pool_bitmap ?p" 0] wf_readable [of "pool_bitmap ?p" k] pok k
    by (auto simp: pool_ok_def pool_pages_def)
  have "pfree (pool_page ?p k) s = Ret () (s\<lparr>kernel_pool := ?p\<lparr>pool_bitmap := b\<rparr>\<rparr>)"
    using lt idx b(1) by (simp add: pfree_def Let_def bindK_def)
  then show ?thesis
    using b by (intro exI [of _ b]) auto
qed

lemma not_present_cleared: "\<not> present (e AND NOT PG_P_1)"
  by (simp add: present_def PG_P_1_def and.assoc)

lemma unmap_one:
  assumes inv: "mem_inv s" and i: "i < heap_size s" "heap_frame s i = Some f"
  shows "\<exists>k s1 s2. f = pool_page (kernel_pool s) k \<and> k < pool_pages (kernel_pool s) \<and>
    bitmap_bit (pool_bitmap (kernel_pool s)) k \<and> addr_v2p s (kva s i) = Inr f \<and>
    pfree f s = Ret () s1 \<and> page_table_pte_remove (kva s i) s1 = Inr s2 \<and> mem_inv s2 \<and>
    (\<forall>j < heap_size s. heap_frame s2 j = (if j = i then None else heap_frame s j)) \<and>
    pool_free (kernel_pool s2) = insert k (pool_free (kernel_pool s)) \<and>
    pool_page (kernel_pool s2) = pool_page (kernel_pool s) \<and>
    data_kept s s2 \<and>
    s2 = s\<lparr>pmem := pmem s2, kernel_pool := kernel_pool s2\<rparr>"
proof -
  let ?p = "kernel_pool s"
  obtain k where k: "k < pool_pages ?p" "f = pool_page ?p k" "bitmap_bit (pool_bitmap ?p) k" "no_table f s"
    using mem_invD(14) [OF inv i] by blast
  obtain b where b: "pfree f s = Ret () (s\<lparr>kernel_pool := ?p\<lparr>pool_bitmap := b\<rparr>\<rparr>)"
    "btmp_bytes_len b = btmp_bytes_len (pool_bitmap ?p)" "length (bits b) = length (bits (pool_bitmap ?p))"
    "\<And>j. bitmap_bit b j = (j \<noteq> k \<and> bitmap_bit (pool_bitmap ?p) j)"
    using pfree_kernel [OF inv k(1)] k(2) by blast
  let ?s1 = "s\<lparr>kernel_pool := ?p\<lparr>pool_bitmap := b\<rparr>\<rparr>"
  have e1: "pde_of ?s1 = pde_of s" "pte_of ?s1 = pte_of s" "kva ?s1 = kva s" "heap_size ?s1 = heap_size s"
    by (auto simp: pde_of_def pte_of_def kva_def heap_size_def fun_eq_iff)
  have h1: "heap_frame ?s1 = heap_frame s" "no_table g ?s1 = no_table g s" for g
    by (auto simp: heap_frame_def e1 fun_eq_iff no_table_def)
  have t1: "heap_tables ?s1"
    using inv unfolding mem_inv_def heap_tables_def same_slot_def e1 by (simp add: selfmap_def)
  let ?e = "pte_of s (kva s i) AND NOT PG_P_1"
  define s2 where "s2 = ?s1\<lparr>pmem := (pmem s)(frame (pde_of s (kva s i)) + PTE_IDX (kva s i) * 4 := ?e)\<rparr>"
  note w = heap_write [OF t1, where i = i and e = ?e, unfolded e1 h1]
  have rem: "page_table_pte_remove (kva s i) ?s1 = Inr s2"
    using vread_pte [of ?s1 "kva s i"] vwrite_pte [of ?s1 "kva s i" ?e] t1 mem_invD(10) [OF inv i(1)]
    by (simp add: page_table_pte_remove_def heap_tables_def e1 s2_def present_PG_P_1)
  have s2: "heap_tables s2" "no_table g s2 = no_table g s" "kva s2 = kva s" "heap_size s2 = heap_size s"
    "j < heap_size s \<Longrightarrow> heap_frame s2 j = (if j = i then None else heap_frame s j)" for g j
    using w(1-3) [OF i(1)] not_present_cleared by (auto simp: s2_def kva_def heap_size_def fun_eq_iff)
  have p2: "kernel_pool s2 = ?p\<lparr>pool_bitmap := b\<rparr>" "pool_pages (kernel_pool s2) = pool_pages ?p"
    "pool_page (kernel_pool s2) = pool_page ?p" "pool_free (kernel_pool s2) = insert k (pool_free ?p)"
    "user_pool s2 = user_pool s" "kernel_vaddr s2 = kernel_vaddr s" "cr3 s2 = cr3 s"
    using b(2,4) k(1) by (auto simp: s2_def pool_pages_def pool_free_def pool_page_def fun_eq_iff)
  have "mem_inv s2"
  proof (rule mem_invI)
    show "mem_layout s2"
      using inv b(2,3) p2 s2(4) by (simp add: mem_inv_def mem_layout_def pool_ok_def wf_bitmap_def pool_pages_def)
    show "heap_tables s2" "free_no_table PF_KERNEL s2"
      using s2(1) mem_invD(9) [OF inv] p2 s2(2) k(2,4) by (simp_all add: free_no_table_def)
    show "heap_frame s2 j = None" if "j < heap_size s2" "\<not> bitmap_bit (vaddr_bitmap (kernel_vaddr s2)) j" for j
      using that s2(5) [of j] mem_invD(13) [OF inv, of j] unfolding s2(4) p2(6) by (cases "j = i") auto
    show "no_table g s2 \<and> (\<exists>m < pool_pages (kernel_pool s2). g = pool_page (kernel_pool s2) m \<and>
        bitmap_bit (pool_bitmap (kernel_pool s2)) m)" if jg: "j < heap_size s2" "heap_frame s2 j = Some g" for j g
    proof -
      have j: "j < heap_size s" "j \<noteq> i" "heap_frame s j = Some g"
        using jg s2(5) [of j] unfolding s2(4) by (auto split: if_splits)
      then obtain m where m: "m < pool_pages ?p" "g = pool_page ?p m" "bitmap_bit (pool_bitmap ?p) m" "no_table g s"
        using mem_invD(14) [OF inv j(1,3)] by blast
      have "g \<noteq> f"
        using mem_invD(15) [OF inv j(1) i(1)] j(2,3) i(2) by auto
      then have "m \<noteq> k"
        using m(2) k(2) by auto
      then show ?thesis
        using m b(4) [of m] unfolding s2(2) p2(2,3) by (auto simp: p2(1))
    qed
    show "j = l" if jl: "j < heap_size s2" "l < heap_size s2" "heap_frame s2 j = Some g" "heap_frame s2 l = Some g" for j l g
      using jl s2(5) [of j] s2(5) [of l] mem_invD(15) [OF inv, of j l] unfolding s2(4) by (simp split: if_splits)
  qed
  moreover have "addr_v2p s (kva s i) = Inr f"
    using addr_v2p_translate [OF mem_invD(8) [OF inv]] heap_translate(1) [OF inv i, of 0] by simp
  moreover have "s2 = s\<lparr>pmem := pmem s2, kernel_pool := kernel_pool s2\<rparr>"
    by (simp add: s2_def)
  moreover have "\<forall>j < heap_size s. heap_frame s2 j = (if j = i then None else heap_frame s j)"
    using s2(5) by blast
  moreover have "data_kept s s2"
    by (rule data_kept_pte [OF mem_invD(10) [OF inv i(1)]]) (use s2(2) in \<open>simp_all add: s2_def\<close>)
  ultimately show ?thesis
    using k b(1) rem p2(3,4) by blast
qed

lemma kernel_page_range:
  assumes inv: "mem_inv s" and k: "k < pool_pages (kernel_pool s)"
  shows "pool_page (kernel_pool s) k mod of_nat PG_SIZE = 0" "phy_addr_start (kernel_pool s) \<le> pool_page (kernel_pool s) k"
    "pool_page (kernel_pool s) k < phy_addr_start (user_pool s)" "0x102000 \<le> pool_page (kernel_pool s) k"
proof -
  let ?f = "pool_page (kernel_pool s) k"
  note u = unat_pool_page [OF mem_invD(1) [OF inv] k]
  have "unat (?f mod of_nat PG_SIZE) = 0"
    using frame_pool_page [OF mem_invD(1) [OF inv] k] unfolding frame_unat unat_mod by (simp add: PG_SIZE_def)
  then show "?f mod of_nat PG_SIZE = 0"
    by (simp only: unat_eq_0)
  have "k * PG_SIZE < pool_pages (kernel_pool s) * PG_SIZE"
    using k by (simp add: PG_SIZE_def)
  then show "?f < phy_addr_start (user_pool s)"
    using mem_invD(3) [OF inv] u unfolding word_less_nat_alt by linarith
  show "phy_addr_start (kernel_pool s) \<le> ?f" "0x102000 \<le> ?f"
    using mem_invD(2) [OF inv] u unfolding word_le_nat_alt by simp_all
qed

lemma unmap_pages_ok:
  assumes "mem_inv s" "i + n \<le> heap_size s"
    and "\<And>j. j < n \<Longrightarrow> heap_frame s (i + j) = Some (pool_page (kernel_pool s) (fs j)) \<and> fs j < pool_pages (kernel_pool s)"
    and "\<And>f. phy_addr_start (kernel_pool s) \<le> f \<Longrightarrow> f < phy_addr_start (user_pool s) \<Longrightarrow> ok f"
  shows "\<exists>s'. unmap_pages ok (kva s i) n s = Ret () s' \<and> mem_inv s' \<and>
    (\<forall>j < heap_size s. heap_frame s' j = (if i \<le> j \<and> j < i + n then None else heap_frame s j)) \<and>
    pool_free (kernel_pool s') = pool_free (kernel_pool s) \<union> fs ` {..<n} \<and>
    pool_page (kernel_pool s') = pool_page (kernel_pool s) \<and>
    data_kept s s' \<and>
    s' = s\<lparr>pmem := pmem s', kernel_pool := kernel_pool s'\<rparr>"
  using assms
proof (induction n arbitrary: i s fs)
  case 0
  then show ?case by (auto simp: data_kept_refl)
next
  case (Suc n)
  have i: "i < heap_size s" "heap_frame s i = Some (pool_page (kernel_pool s) (fs 0))" "fs 0 < pool_pages (kernel_pool s)"
    using Suc.prems(2) Suc.prems(3) [of 0] by simp_all
  obtain k s1 s2 where k: "pool_page (kernel_pool s) (fs 0) = pool_page (kernel_pool s) k" "k < pool_pages (kernel_pool s)"
    "addr_v2p s (kva s i) = Inr (pool_page (kernel_pool s) (fs 0))"
    "pfree (pool_page (kernel_pool s) (fs 0)) s = Ret () s1" "page_table_pte_remove (kva s i) s1 = Inr s2" "mem_inv s2"
    "\<And>j. j < heap_size s \<Longrightarrow> heap_frame s2 j = (if j = i then None else heap_frame s j)"
    "pool_free (kernel_pool s2) = insert k (pool_free (kernel_pool s))"
    "pool_page (kernel_pool s2) = pool_page (kernel_pool s)"
    "s2 = s\<lparr>pmem := pmem s2, kernel_pool := kernel_pool s2\<rparr>"
    "data_kept s s2"
    using unmap_one [OF Suc.prems(1) i(1,2)] by blast
  have k0: "k = fs 0"
    using pool_page_inj [OF mem_invD(1) [OF Suc.prems(1)] i(3) k(2)] k(1) by simp
  have v: "kernel_vaddr s2 = kernel_vaddr s" "user_pool s2 = user_pool s"
    by (subst k(10), simp)+
  then have s2: "heap_size s2 = heap_size s" "kva s2 = kva s"
    by (auto simp: heap_size_def kva_def fun_eq_iff)
  have pp: "pool_pages (kernel_pool s2) = pool_pages (kernel_pool s)" "phy_addr_start (kernel_pool s2) = phy_addr_start (kernel_pool s)"
  proof -
    obtain b where "btmp_bytes_len b = btmp_bytes_len (pool_bitmap (kernel_pool s))"
      "pfree (pool_page (kernel_pool s) (fs 0)) s = Ret () (s\<lparr>kernel_pool := (kernel_pool s)\<lparr>pool_bitmap := b\<rparr>\<rparr>)"
      using pfree_kernel [OF Suc.prems(1) i(3)] by blast
    then show "pool_pages (kernel_pool s2) = pool_pages (kernel_pool s)" "phy_addr_start (kernel_pool s2) = phy_addr_start (kernel_pool s)"
      using k(4,5) by (auto simp: pool_pages_def page_table_pte_remove_def vwrite_def res_iffs split: option.splits)
  qed
  have "\<exists>s'. unmap_pages ok (kva s2 (i + 1)) n s2 = Ret () s' \<and> mem_inv s' \<and>
    (\<forall>j < heap_size s2. heap_frame s' j = (if i + 1 \<le> j \<and> j < i + 1 + n then None else heap_frame s2 j)) \<and>
    pool_free (kernel_pool s') = pool_free (kernel_pool s2) \<union> (\<lambda>j. fs (Suc j)) ` {..<n} \<and>
    pool_page (kernel_pool s') = pool_page (kernel_pool s2) \<and>
    data_kept s2 s' \<and>
    s' = s2\<lparr>pmem := pmem s', kernel_pool := kernel_pool s'\<rparr>"
  proof (rule Suc.IH)
    show "mem_inv s2" by (rule k(6))
    show "i + 1 + n \<le> heap_size s2"
      using Suc.prems(2) s2 by simp
    show "heap_frame s2 (i + 1 + j) = Some (pool_page (kernel_pool s2) (fs (Suc j))) \<and> fs (Suc j) < pool_pages (kernel_pool s2)"
      if "j < n" for j
      using that Suc.prems(2) Suc.prems(3) [of "Suc j"] k(7) [of "i + 1 + j"] unfolding k(9) pp by simp
    show "ok f" if "phy_addr_start (kernel_pool s2) \<le> f" "f < phy_addr_start (user_pool s2)" for f
      using that Suc.prems(4) [of f] pp v by simp
  qed
  then obtain s' where s': "unmap_pages ok (kva s (i + 1)) n s2 = Ret () s'" "mem_inv s'"
    "\<And>j. j < heap_size s \<Longrightarrow> heap_frame s' j = (if i + 1 \<le> j \<and> j < i + 1 + n then None else heap_frame s2 j)"
    "pool_free (kernel_pool s') = insert k (pool_free (kernel_pool s)) \<union> (\<lambda>j. fs (Suc j)) ` {..<n}"
    "pool_page (kernel_pool s') = pool_page (kernel_pool s)"
    "s' = s2\<lparr>pmem := pmem s', kernel_pool := kernel_pool s'\<rparr>"
    "data_kept s2 s'"
    unfolding s2 k(8,9) by blast
  have "unmap_pages ok (kva s i) (Suc n) s = Ret () s'"
    using k(3-5) s'(1) kva_page(3) [OF Suc.prems(1) i(1)] kernel_page_range [OF Suc.prems(1) i(3)] Suc.prems(4)
    by simp
  moreover have "heap_frame s' j = (if i \<le> j \<and> j < i + Suc n then None else heap_frame s j)" if "j < heap_size s" for j
    using s'(3) [OF that] k(7) [OF that] by auto
  moreover have "pool_free (kernel_pool s') = pool_free (kernel_pool s) \<union> fs ` {..<Suc n}"
    unfolding s'(4) k0 lessThan_Suc_eq_insert_0 by (auto simp: image_iff)
  moreover have "s' = s\<lparr>pmem := pmem s', kernel_pool := kernel_pool s'\<rparr>"
  proof -
    have "s2\<lparr>pmem := a, kernel_pool := b\<rparr> = s\<lparr>pmem := a, kernel_pool := b\<rparr>" for a b
      by (subst k(10)) simp
    then show ?thesis
      using s'(6) by simp
  qed
  ultimately show ?case
    using s'(2,5) data_kept_trans [OF k(11) s'(7)] by blast
qed

lemma mfree_kernel:
  assumes inv: "mem_inv s" and n: "0 < n" and jn: "j + n \<le> heap_size s"
    and f: "\<And>i. i < n \<Longrightarrow> heap_frame s (j + i) = Some (pool_page (kernel_pool s) (fs i)) \<and> fs i < pool_pages (kernel_pool s)"
  shows "\<exists>s'. mfree_page PF_KERNEL (kva s j) n s = Ret () s' \<and> mem_inv s' \<and>
    (\<forall>i < heap_size s. heap_frame s' i = (if j \<le> i \<and> i < j + n then None else heap_frame s i)) \<and>
    pool_free (kernel_pool s') = pool_free (kernel_pool s) \<union> fs ` {..<n} \<and>
    (\<forall>i. bitmap_bit (vaddr_bitmap (kernel_vaddr s')) i =
       (\<not> (j \<le> i \<and> i < j + n) \<and> bitmap_bit (vaddr_bitmap (kernel_vaddr s)) i)) \<and>
    kva s' = kva s \<and> heap_size s' = heap_size s \<and> data_kept s s' \<and>
    s' = s\<lparr>pmem := pmem s', kernel_pool := kernel_pool s', kernel_vaddr := kernel_vaddr s'\<rparr>"
proof -
  let ?kp = "phy_addr_start (kernel_pool s)" and ?up = "phy_addr_start (user_pool s)"
  have j: "j < heap_size s" "heap_frame s j = Some (pool_page (kernel_pool s) (fs 0))" "fs 0 < pool_pages (kernel_pool s)"
    using n jn f [of 0] by simp_all
  note r = kernel_page_range [OF inv j(3)]
  obtain s1 where s1: "unmap_pages (\<lambda>a. ?kp \<le> a \<and> a < ?up) (kva s j) n s = Ret () s1" "mem_inv s1"
    "\<forall>i < heap_size s. heap_frame s1 i = (if j \<le> i \<and> i < j + n then None else heap_frame s i)"
    "pool_free (kernel_pool s1) = pool_free (kernel_pool s) \<union> fs ` {..<n}"
    "s1 = s\<lparr>pmem := pmem s1, kernel_pool := kernel_pool s1\<rparr>" "data_kept s s1"
    using unmap_pages_ok [where ok = "\<lambda>a. ?kp \<le> a \<and> a < ?up", OF inv jn f] by auto
  have v1: "kernel_vaddr s1 = kernel_vaddr s"
    by (subst s1(5)) simp
  let ?vb = "vaddr_bitmap (kernel_vaddr s)"
  obtain b where b: "set_bits ?vb j n 0 = Inr b" "btmp_bytes_len b = btmp_bytes_len ?vb" "length (bits b) = length (bits ?vb)"
    "\<And>i. bitmap_bit b i = (if j \<le> i \<and> i < j + n then (0::int) = 1 else bitmap_bit ?vb i)"
    using set_bits_ok [of j n ?vb 0] wf_readable [OF mem_invD(4) [OF inv]] jn by (auto simp: heap_size_def)
  have idx: "unat ((kva s j - vaddr_start (kernel_vaddr s)) div of_nat PG_SIZE) = j"
  proof -
    have "j * PG_SIZE < 2 ^ 32"
      using kva_page(1) [OF inv j(1)] unsigned_less [of "kva s j", where ?'a = nat] by simp
    then have "unat (of_nat (j * PG_SIZE) :: u32) = j * PG_SIZE"
      by (simp only: unat_of_nat) simp
    from unat_div_page [OF this] show ?thesis
      by (simp add: kva_def)
  qed
  have h1: "heap_size s1 = heap_size s"
    using v1 by (simp add: heap_size_def)
  have clear: "heap_frame s1 i = None" if "i < heap_size s1" "\<not> bitmap_bit b i" for i
    using that s1(3) b(4) [of i] mem_invD(13) [OF inv, of i] h1 by (auto split: if_splits)
  note m = mark_pages [OF s1(2), of b, unfolded v1, OF b(2,3) clear]
  let ?s' = "set_vaddr PF_KERNEL b s1"
  have rem: "vaddr_remove PF_KERNEL (kva s j) n s1 = Ret () ?s'"
    using idx b(1) v1 by (simp add: vaddr_remove_def Let_def bindK_def)
  have "unat (kva s j mod of_nat PG_SIZE) = 0"
    using kva_page(2) [OF inv j(1)] unfolding frame_unat unat_mod by (simp add: PG_SIZE_def)
  then have al: "kva s j mod of_nat PG_SIZE = 0"
    by (simp only: unat_eq_0)
  have "addr_v2p s (kva s j) = Inr (pool_page (kernel_pool s) (fs 0))"
    using unmap_one [OF inv j(1,2)] by blast
  then have "mfree_page PF_KERNEL (kva s j) n s = Ret () ?s'"
    using n al r not_le [THEN iffD2, OF r(3)] s1(1) rem by (simp add: mfree_page_def bindK_def thenK_def)
  moreover have "pool_free (kernel_pool ?s') = pool_free (kernel_pool s) \<union> fs ` {..<n}"
    using s1(4) by simp
  moreover have "\<forall>i. bitmap_bit (vaddr_bitmap (kernel_vaddr ?s')) i = (\<not> (j \<le> i \<and> i < j + n) \<and> bitmap_bit ?vb i)"
    using b(4) by auto
  moreover have "data_kept s ?s'"
    using data_kept_trans [OF s1(6), of ?s'] data_kept_refl [of ?s' s1] by simp
  moreover have "kva ?s' = kva s" "heap_size ?s' = heap_size s"
    using b(2) v1 by (auto simp: kva_def heap_size_def fun_eq_iff)
  moreover have "?s' = s\<lparr>pmem := pmem ?s', kernel_pool := kernel_pool ?s', kernel_vaddr := kernel_vaddr ?s'\<rparr>"
  proof -
    have "s1\<lparr>kernel_vaddr := w\<rparr> = s\<lparr>pmem := pmem s1, kernel_pool := kernel_pool s1, kernel_vaddr := w\<rparr>" for w
      by (subst s1(5)) simp
    then show ?thesis
      by simp
  qed
  ultimately show ?thesis
    using m(1,2) s1(3) by (intro exI [of _ ?s']) (simp del: set_vaddr.simps)
qed

subsection \<open>A machine that has just started\<close>

text \<open>A directory at \<^verbatim>\<open>0x100000\<close> with the kernel's table at \<^verbatim>\<open>0x101000\<close> and the window; eight pages in each
  pool, eight heap pages. The lock of the kernel pool lies at \<^verbatim>\<open>0x5000\<close>.\<close>

definition demo_tables :: "addr \<Rightarrow> u32" where
  "demo_tables = (\<lambda>_. 0)(0x100000 + 0x3ff * 4 := 0x100007, 0x100000 + 0x300 * 4 := 0x101007)"

definition demo_memory :: memory where
  "demo_memory = sync.extend ((lock_init 0x5000 demo_sync)\<lparr>cr3 := 0x100000, pmem := demo_tables\<rparr>)
     (memory.fields \<lparr>pool_bitmap = \<lparr>btmp_bytes_len = 1, bits = [0]\<rparr>, phy_addr_start = 0x200000, pool_size = 0x8000, pool_lock = 0x5000\<rparr>
        \<lparr>pool_bitmap = \<lparr>btmp_bytes_len = 1, bits = [0]\<rparr>, phy_addr_start = 0x208000, pool_size = 0x8000, pool_lock = 0x5100\<rparr>
        \<lparr>vaddr_bitmap = \<lparr>btmp_bytes_len = 1, bits = [0]\<rparr>, vaddr_start = K_HEAP_START\<rparr>
        block_desc_init (\<lambda>_. \<lparr>arena_desc = None, arena_cnt = 0, arena_large = False\<rparr>))"

lemma demo_memory_simps [simp]:
  "cr3 demo_memory = 0x100000" "pmem demo_memory = demo_tables"
  "kernel_pool demo_memory = \<lparr>pool_bitmap = \<lparr>btmp_bytes_len = 1, bits = [0]\<rparr>, phy_addr_start = 0x200000, pool_size = 0x8000, pool_lock = 0x5000\<rparr>"
  "phy_addr_start (user_pool demo_memory) = 0x208000"
  "kernel_vaddr demo_memory = \<lparr>vaddr_bitmap = \<lparr>btmp_bytes_len = 1, bits = [0]\<rparr>, vaddr_start = 0xc0100000\<rparr>"
  "locks demo_memory = locks (lock_init 0x5000 demo_sync)" "semas demo_memory = semas (lock_init 0x5000 demo_sync)"
  "esp demo_memory = esp (lock_init 0x5000 demo_sync)"
  by (simp_all add: demo_memory_def sync.defs memory.defs K_HEAP_START_def)

lemma demo_lock: "lock_free 0x5000 demo_memory"
  using demo_lock_free [of "0x5000"] by (simp add: lock_free_def running_thread_def)

lemma demo_pde: "pde_of demo_memory va = (if PDE_IDX va = 0x300 then 0x101007 else if PDE_IDX va = 0x3ff then 0x100007 else 0)"
proof -
  have f: "frame 0x100000 = 0x100000"
    by (simp add: frame_def)
  have "PDE_IDX va * 4 = 0x300 * 4 \<longleftrightarrow> PDE_IDX va = 0x300" "PDE_IDX va * 4 = 0x3ff * 4 \<longleftrightarrow> PDE_IDX va = 0x3ff"
    using times_4_inj [of va "0xc0000000"] times_4_inj [of va "0xffc00000"] by (simp_all add: PDE_IDX_def)
  then show ?thesis
    by (simp add: pde_of_def f demo_tables_def)
qed

lemma demo_kva:
  assumes "i < 8"
  shows "PDE_IDX (kva demo_memory i) = 0x300" "PTE_IDX (kva demo_memory i) = 0x100 + of_nat i"
    "pte_of demo_memory (kva demo_memory i) = 0"
proof -
  have i: "i = 0 \<or> i = 1 \<or> i = 2 \<or> i = 3 \<or> i = 4 \<or> i = 5 \<or> i = 6 \<or> i = 7"
    using assms by linarith
  then show p: "PDE_IDX (kva demo_memory i) = 0x300" "PTE_IDX (kva demo_memory i) = 0x100 + of_nat i"
    by (elim disjE; simp add: kva_def PG_SIZE_def PDE_IDX_def PTE_IDX_def)+
  have "pte_of demo_memory (kva demo_memory i) = demo_tables (0x101000 + (0x100 + of_nat i) * 4)"
    by (simp add: pte_of_def demo_pde p frame_def)
  then show "pte_of demo_memory (kva demo_memory i) = 0"
    using i by (elim disjE; simp add: demo_tables_def)
qed

lemma demo_no_table: "f \<noteq> 0x100000 \<Longrightarrow> f \<noteq> 0x101000 \<Longrightarrow> no_table f demo_memory"
  by (auto simp: no_table_def demo_pde frame_def present_def)

lemma demo_bits: "\<not> bitmap_bit \<lparr>btmp_bytes_len = 1, bits = [0]\<rparr> i" if "i < 8"
  using that by (simp add: bitmap_bit_def)

lemma demo_pool_free: "pool_free (kernel_pool demo_memory) = {..<8}"
  using demo_bits by (auto simp: pool_free_def pool_pages_def)

lemma demo_mem_inv: "mem_inv demo_memory"
proof -
  have sz: "heap_size demo_memory = 8" "pool_pages (kernel_pool demo_memory) = 8"
    by (simp_all add: heap_size_def pool_pages_def)
  have hf: "heap_frame demo_memory i = None" if "i < 8" for i
    using demo_kva [OF that] by (simp add: heap_frame_def present_def)
  show ?thesis
  proof (rule mem_invI)
    show "mem_layout demo_memory"
      using sz by (simp add: mem_layout_def pool_ok_def wf_bitmap_def PG_SIZE_def frame_def)
    have "PTE_IDX (kva demo_memory i) = PTE_IDX (kva demo_memory j) \<Longrightarrow> i = j" if ij: "i < 8" "j < 8" for i j
    proof -
      assume "PTE_IDX (kva demo_memory i) = PTE_IDX (kva demo_memory j)"
      then have "(of_nat i :: u32) = of_nat j"
        using demo_kva(2) [OF ij(1)] demo_kva(2) [OF ij(2)] by simp
      then have "unat (of_nat i :: u32) = unat (of_nat j :: u32)"
        by simp
      then show "i = j"
        using ij by (simp only: unat_of_nat) simp
    qed
    then show "heap_tables demo_memory"
      using sz demo_kva(1) by (simp add: heap_tables_def selfmap_def same_slot_def demo_pde present_def frame_def)
        (simp add: demo_tables_def PG_P_1_def)
    have "pool_page (kernel_pool demo_memory) i \<noteq> 0x100000" "pool_page (kernel_pool demo_memory) i \<noteq> 0x101000"
      if "i < 8" for i
    proof -
      have "pool_ok (kernel_pool demo_memory)"
        using sz by (simp add: pool_ok_def wf_bitmap_def PG_SIZE_def frame_def)
      from unat_pool_page [OF this] that sz(2)
      have "unat (pool_page (kernel_pool demo_memory) i) \<ge> 0x200000"
        by simp
      then show "pool_page (kernel_pool demo_memory) i \<noteq> 0x100000" "pool_page (kernel_pool demo_memory) i \<noteq> 0x101000"
        by auto
    qed
    then show "free_no_table PF_KERNEL demo_memory"
      using demo_no_table unfolding free_no_table_def get_pool.simps demo_pool_free by blast
  qed (use sz hf in auto)
qed

lemma demo_run: "first_run (vaddr_bitmap (kernel_vaddr demo_memory)) 0 2"
  using demo_bits by (simp add: first_run_def free_run_def)

subsection \<open>Properties\<close>

text \<open>C21: \<^verbatim>\<open>page_table_add\<close> maps one page and nothing else. On an address with no entry it returns, the
  whole page then translates to the given frame, and every other address keeps its translation,
  except those that share the table slot (the kernel's first and 768th table are one frame). When the
  directory has no table for the address, a cleared table from the kernel pool is installed. The
  addresses of the window itself are not spoken of: their contents are the tables.\<close>

theorem page_table_add_maps:
  assumes "selfmap s" "PDE_IDX va \<noteq> 0x3ff" "frame pa = pa" "frame (pde_of s va) \<noteq> frame (cr3 s)"
    and "present (pde_of s va) \<Longrightarrow> \<not> present (pte_of s va)"
    and "pool_ok (kernel_pool s)" "pool_free (kernel_pool s) \<noteq> {}" "free_no_table PF_KERNEL s"
  shows "\<exists>s'. page_table_add va pa s = Ret () s' \<and>
    (\<forall>v. frame v = frame va \<longrightarrow> translate s' v = Some (pa + page_offset v)) \<and>
    (\<forall>v. frame (pde_of s v) \<noteq> frame (cr3 s) \<longrightarrow> \<not> same_slot s' v va \<longrightarrow> translate s' v = translate s v)"
proof (cases "present (pde_of s va)")
  case True
  let ?s' = "s\<lparr>pmem := (pmem s)(frame (pde_of s va) + PTE_IDX va * 4 := page_entry pa)\<rparr>"
  note w = write_pte [OF assms(1) True assms(4), where e = "page_entry pa"]
  have slot: "same_slot ?s' v va = same_slot s v va" for v
    using w(1) by (simp add: same_slot_def)
  have "same_slot s v va" if "frame v = frame va" for v
    using True idx_of_frame [OF that] by (simp add: same_slot_def pde_of_def)
  then show ?thesis
    using page_table_add_present [OF assms(1) True assms(5) [OF True], of pa] w(5) slot entry_parts [OF assms(3)]
    by (intro exI [of _ ?s']) simp
next
  case False
  obtain s' where s': "page_table_add va pa s = Ret () s'" "present (pde_of s' va)"
    "\<And>v. frame (pde_of s v) \<noteq> frame (cr3 s) \<Longrightarrow>
      translate s' v = (if same_slot s' v va then Some (pa + page_offset v) else translate s v)"
    using page_table_add_new [OF assms(1-3) False assms(6-8)] by blast
  have "translate s' v = Some (pa + page_offset v)" if "frame v = frame va" for v
  proof -
    have "pde_of s v = pde_of s va" "same_slot s' v va"
      using s'(2) idx_of_frame [OF that] by (simp_all add: same_slot_def pde_of_def)
    then show ?thesis
      using s'(3) [of v] assms(4) by simp
  qed
  then show ?thesis
    using s'(1,3) by auto
qed

theorem page_table_add_maps_witness:
  "\<exists>s'. page_table_add 0x08048000 0x300000 demo_memory = Ret () s' \<and> translate s' 0x08048abc = Some 0x300abc \<and>
     translate s' 0xc0100000 = translate demo_memory 0xc0100000"
proof -
  have i: "PDE_IDX 0x08048000 = 0x20" "PDE_IDX 0xc0100000 = 0x300" "PTE_IDX 0x08048000 \<noteq> PTE_IDX 0xc0100000"
    "frame 0x08048abc = frame 0x08048000" "page_offset 0x08048abc = 0xabc"
    by (simp_all add: PDE_IDX_def PTE_IDX_def frame_def page_offset_def)
  have "\<exists>s'. page_table_add 0x08048000 0x300000 demo_memory = Ret () s' \<and>
    (\<forall>v. frame v = frame 0x08048000 \<longrightarrow> translate s' v = Some (0x300000 + page_offset v)) \<and>
    (\<forall>v. frame (pde_of demo_memory v) \<noteq> frame (cr3 demo_memory) \<longrightarrow> \<not> same_slot s' v 0x08048000 \<longrightarrow>
       translate s' v = translate demo_memory v)"
    by (rule page_table_add_maps [OF mem_invD(8) [OF demo_mem_inv]])
      (use mem_invD(1,9) [OF demo_mem_inv] demo_pool_free i(1) in \<open>auto simp: demo_pde frame_def present_def lessThan_empty_iff\<close>)
  then obtain s' where s': "page_table_add 0x08048000 0x300000 demo_memory = Ret () s'"
    "\<And>v. frame v = frame 0x08048000 \<Longrightarrow> translate s' v = Some (0x300000 + page_offset v)"
    "\<And>v. frame (pde_of demo_memory v) \<noteq> frame (cr3 demo_memory) \<Longrightarrow> \<not> same_slot s' v 0x08048000 \<Longrightarrow>
       translate s' v = translate demo_memory v"
    by blast
  have "frame (pde_of demo_memory 0xc0100000) \<noteq> frame (cr3 demo_memory)" "\<not> same_slot s' 0xc0100000 0x08048000"
    using i(2,3) by (simp_all add: demo_pde frame_def same_slot_def)
  then show ?thesis
    using s' i(4,5) by (intro exI [of _ s']) simp
qed

lemma without_lock_mem:
  fixes s :: "'a memory_scheme"
  shows "pmem (without_lock l s) = pmem s" "cr3 (without_lock l s) = cr3 s"
    "kernel_vaddr (without_lock l s) = kernel_vaddr s" "kernel_pool (without_lock l s) = kernel_pool s"
    "user_pool (without_lock l s) = user_pool s"
  by (simp_all add: without_lock_def)

lemma vread_lock: "vread (without_lock l s) a = vread (s :: 'a memory_scheme) a"
  by (simp only: vread_def mem_inv_cong(5) [OF without_lock_mem] without_lock_mem)

text \<open>C2: \<^verbatim>\<open>get_kernel_pages\<close> gives fresh, cleared, consecutive pages. With the pool lock free, a run of
  \<open>n\<close> free virtual pages and \<open>n\<close> free frames, the call returns the first such run; the pages were not
  mapped before and are mapped afterwards to different frames that were free, every word of them reads
  0, no other heap page changes its frame or its contents, the memory invariant holds and the lock is free again.\<close>

theorem get_kernel_pages_fresh:
  fixes s :: "'a memory_scheme"
  assumes inv: "mem_inv s" and n: "0 < n" "n < 3840"
    and run: "first_run (vaddr_bitmap (kernel_vaddr s)) j n" and free: "n \<le> card (pool_free (kernel_pool s))"
    and l: "lock_free (pool_lock (kernel_pool s)) s"
  shows "\<exists>s'. get_kernel_pages n s = Ret (kva s j) s' \<and> mem_inv s' \<and> lock_free (pool_lock (kernel_pool s)) s' \<and>
    (\<forall>i < n. heap_frame s (j + i) = None \<and>
       (\<exists>f \<in> pool_free (kernel_pool s). heap_frame s' (j + i) = Some (pool_page (kernel_pool s) f))) \<and>
    inj_on (heap_frame s') {j..<j + n} \<and>
    (\<forall>k < n * 1024. vread s' (kva s j + of_nat (4 * k)) = Inr 0) \<and>
    (\<forall>i < heap_size s. i < j \<or> j + n \<le> i \<longrightarrow> heap_frame s' i = heap_frame s i \<and>
       (heap_frame s i \<noteq> None \<longrightarrow> (\<forall>e < 0x1000. vread s' (kva s i + e) = vread s (kva s i + e))))"
proof -
  let ?l = "pool_lock (kernel_pool s)"
  have jn: "j + n \<le> heap_size s"
    using run by (simp add: first_run_def heap_size_def)
  have none: "heap_frame s (j + i) = None" if "i < n" for i
    using that jn run mem_invD(13) [OF inv, of "j + i"] by (auto simp: first_run_def free_run_def)
  define Q :: "addr \<Rightarrow> 'a memory_scheme \<Rightarrow> bool" where "Q a s' \<longleftrightarrow> a = kva s j \<and> mem_inv s' \<and>
    (\<forall>i < n. \<exists>f \<in> pool_free (kernel_pool s). heap_frame s' (j + i) = Some (pool_page (kernel_pool s) f)) \<and>
    (\<forall>k < n * 1024. vread s' (kva s j + of_nat (4 * k)) = Inr 0) \<and>
    (\<forall>i < heap_size s. i < j \<or> j + n \<le> i \<longrightarrow> heap_frame s' i = heap_frame s i \<and>
       (heap_frame s i \<noteq> None \<longrightarrow> (\<forall>e < 0x1000. vread s' (kva s i + e) = vread s (kva s i + e)))) \<and>
    heap_size s' = heap_size s" for a s'
  let ?body = "bindK (malloc_page PF_KERNEL n) (\<lambda>vaddr.
    thenK (whenK (vaddr \<noteq> NULL) (updR (vzero vaddr (n * (PG_SIZE div 4))))) (retK vaddr))"
  have body: "\<exists>a s2. ?body s1 = Ret a s2 \<and> lock_held ?l s2 \<and> Q a (without_lock ?l s2)"
    if h: "lock_held ?l s1" and v: "without_lock ?l s1 = s" for s1
  proof -
    have e: "pmem s1 = pmem s" "cr3 s1 = cr3 s" "kernel_vaddr s1 = kernel_vaddr s" "kernel_pool s1 = kernel_pool s"
      "user_pool s1 = user_pool s"
      using without_lock_mem [of ?l s1] unfolding v by simp_all
    note c = mem_inv_cong [OF e]
    obtain s2 fs where s2: "malloc_page PF_KERNEL n s1 = Ret (kva s j) s2" "mem_inv s2" "length fs = n"
      "set fs \<subseteq> pool_free (kernel_pool s)"
      "\<And>i. i < n \<Longrightarrow> heap_frame s2 (j + i) = Some (pool_page (kernel_pool s) (fs ! i))"
      "\<And>i. i < heap_size s \<Longrightarrow> i < j \<or> j + n \<le> i \<Longrightarrow> heap_frame s2 i = heap_frame s i"
      "kva s2 = kva s" "heap_size s2 = heap_size s"
      "s2 = s1\<lparr>pmem := pmem s2, kernel_pool := kernel_pool s2, kernel_vaddr := kernel_vaddr s2\<rparr>" "data_kept s1 s2"
      using malloc_kernel [of s1 n j] inv n run free unfolding c e by blast
    have "j + n \<le> heap_size s2"
      using jn s2(8) by simp
    obtain m where m: "vzero (kva s j) (n * 1024) s2 = Inr (s2\<lparr>pmem := m\<rparr>)"
      "\<And>x. \<not> no_table (frame x) s2 \<Longrightarrow> m x = pmem s2 x"
      "\<And>k. k < n * 1024 \<Longrightarrow> vread (s2\<lparr>pmem := m\<rparr>) (kva s j + of_nat (4 * k)) = Inr 0"
      "\<And>x. frame x \<notin> (\<lambda>i. pool_page (kernel_pool s) (fs ! i)) ` {..<n} \<Longrightarrow> m x = pmem s2 x"
      using zero_heap [OF s2(2) \<open>j + n \<le> heap_size s2\<close> s2(5)] unfolding s2(7) by blast
    let ?s3 = "s2\<lparr>pmem := m\<rparr>"
    note d = mem_inv_data [OF s2(2) m(2)]
    note c3 = mem_inv_cong [OF without_lock_mem, of ?l ?s3]
    have "?body s1 = Ret (kva s j) ?s3"
      using s2(1) m(1) kva_nonzero [OF inv, of j] jn n(1)
      by (simp add: bindK_def thenK_def whenK_def updR_def PG_SIZE_def)
    moreover have "lock_held ?l ?s3"
    proof -
      have "locks ?s3 = locks s1" "semas ?s3 = semas s1" "esp ?s3 = esp s1"
        by (subst s2(9), simp)+
      then show ?thesis
        using h by (simp add: lock_held_def running_thread_def)
    qed
    moreover have "Q (kva s j) (without_lock ?l ?s3)"
      unfolding Q_def c3 vread_lock
    proof (intro conjI refl allI impI)
      show "mem_inv ?s3" by (rule d(1))
      show "heap_size ?s3 = heap_size s" using d(5) s2(8) by (rule trans)
      show "vread ?s3 (kva s j + of_nat (4 * k)) = Inr 0" if "k < n * 1024" for k
        using m(3) that .
      show fr: "heap_frame ?s3 i = heap_frame s i" if "i < heap_size s" "i < j \<or> j + n \<le> i" for i
        using d(2) [of i] s2(6) [OF that] s2(8) that(1) by simp
      show "vread ?s3 (kva s i + x) = vread s (kva s i + x)"
        if i: "i < heap_size s" "i < j \<or> j + n \<le> i" "heap_frame s i \<noteq> None" "x < 0x1000" for i x
      proof -
        obtain g where g: "heap_frame s i = Some g"
          using i(3) by auto
        have g3: "heap_frame s2 i = Some g" "i < heap_size s2"
          using g s2(6) [OF i(1,2)] i(1) s2(8) by simp_all
        have t: "translate s (kva s i + x) = Some (g + x)" "frame g = g"
          using heap_translate [OF inv i(1) g i(4)] by simp_all
        have t3: "translate ?s3 (kva s i + x) = Some (g + x)"
          using heap_translate(1) [OF s2(2) g3(2,1) i(4)] d(3) s2(7) by simp
        have fg: "frame (g + x) = g"
          by (rule frame_add(1) [OF t(2) i(4)])
        have "g \<noteq> pool_page (kernel_pool s) (fs ! k)" if "k < n" for k
          using mem_invD(15) [OF s2(2), of i "j + k"] s2(5) [OF that] g3 i(2) that \<open>j + n \<le> heap_size s2\<close> by auto
        then have "m (g + x) = pmem s2 (g + x)"
          using fg by (intro m(4)) auto
        moreover have "no_table g s1"
          using mem_invD(14) [OF inv i(1) g] e by (simp add: no_table_def pde_of_def)
        then have "pmem s2 (g + x) = pmem s (g + x)"
          using s2(10) fg e(1) by (simp add: data_kept_def)
        ultimately show ?thesis
          using t t3 by (simp add: vread_def)
      qed
      show "\<exists>f \<in> pool_free (kernel_pool s). heap_frame ?s3 (j + i) = Some (pool_page (kernel_pool s) f)" if "i < n" for i
        using d(2) [of "j + i"] s2(3,4) s2(5) [OF that] s2(8) jn that by (intro bexI [of _ "fs ! i"]) auto
    qed
    ultimately show ?thesis
      by blast
  qed
  obtain a s' where "get_kernel_pages n s = Ret a s'" "lock_free ?l s'" "Q a s'"
    using kernel_lock.bracket [where body = ?body and Q = Q, OF l body]
    unfolding get_kernel_pages_def get_pages_def by (auto simp: Let_def)
  moreover have "inj_on (heap_frame s') {j..<j + n}" if "Q a s'" for s'
  proof (rule inj_onI)
    fix i k assume ik: "i \<in> {j..<j + n}" "k \<in> {j..<j + n}" "heap_frame s' i = heap_frame s' k"
    have "heap_frame s' i \<noteq> None"
      using that ik(1) unfolding Q_def by (metis atLeastLessThan_iff le_Suc_ex nat_add_left_cancel_less option.distinct(1))
    then show "i = k"
      using mem_invD(15) [of s' i k] that ik jn by (simp add: Q_def)
  qed
  ultimately show ?thesis
    using none by (auto simp: Q_def)
qed

theorem get_kernel_pages_fresh_witness:
  "\<exists>s'. get_kernel_pages 2 demo_memory = Ret 0xc0100000 s' \<and> vread s' 0xc0101ffc = Inr 0"
proof -
  obtain s' where s': "get_kernel_pages 2 demo_memory = Ret (kva demo_memory 0) s'"
    "\<forall>k < 2048. vread s' (kva demo_memory 0 + of_nat (4 * k)) = Inr 0"
    using get_kernel_pages_fresh [OF demo_mem_inv _ _ demo_run] demo_pool_free demo_lock by auto
  moreover have "kva demo_memory 0 = 0xc0100000"
    by (simp add: kva_def)
  ultimately show ?thesis
    by (auto dest: spec [of _ 2047])
qed

text \<open>C20: \<^verbatim>\<open>mfree_page\<close> undoes \<^verbatim>\<open>malloc_page\<close>. After the allocation of \<open>n\<close> kernel pages and their release, the
  same frames and the same virtual pages are free as before, and every heap page has the frame it had.\<close>

theorem kernel_pages_round_trip:
  fixes s :: "'a memory_scheme"
  assumes inv: "mem_inv s" and n: "0 < n" "n < 3840"
    and run: "first_run (vaddr_bitmap (kernel_vaddr s)) j n" and free: "n \<le> card (pool_free (kernel_pool s))"
  shows "\<exists>s'. bindK (malloc_page PF_KERNEL n) (\<lambda>va. mfree_page PF_KERNEL va n) s = Ret () s' \<and> mem_inv s' \<and>
    pool_free (kernel_pool s') = pool_free (kernel_pool s) \<and>
    (\<forall>i. bitmap_bit (vaddr_bitmap (kernel_vaddr s')) i = bitmap_bit (vaddr_bitmap (kernel_vaddr s)) i) \<and>
    (\<forall>i < heap_size s. heap_frame s' i = heap_frame s i)"
proof -
  have jn: "j + n \<le> heap_size s"
    using run by (simp add: first_run_def heap_size_def)
  have vfree: "\<not> bitmap_bit (vaddr_bitmap (kernel_vaddr s)) i" if "j \<le> i" "i < j + n" for i
    using that run by (auto simp: first_run_def free_run_def dest: le_Suc_ex)
  obtain s1 fs where s1: "malloc_page PF_KERNEL n s = Ret (kva s j) s1" "mem_inv s1" "length fs = n"
    "set fs \<subseteq> pool_free (kernel_pool s)"
    "\<And>i. i < n \<Longrightarrow> heap_frame s1 (j + i) = Some (pool_page (kernel_pool s) (fs ! i))"
    "\<And>i. i < heap_size s \<Longrightarrow> i < j \<or> j + n \<le> i \<Longrightarrow> heap_frame s1 i = heap_frame s i"
    "pool_free (kernel_pool s1) = pool_free (kernel_pool s) - set fs"
    "pool_page (kernel_pool s1) = pool_page (kernel_pool s)"
    "\<And>i. bitmap_bit (vaddr_bitmap (kernel_vaddr s1)) i =
       (j \<le> i \<and> i < j + n \<or> bitmap_bit (vaddr_bitmap (kernel_vaddr s)) i)"
    "kva s1 = kva s" "heap_size s1 = heap_size s" "pool_pages (kernel_pool s1) = pool_pages (kernel_pool s)"
    using malloc_kernel [OF inv n run free] by blast
  have f: "heap_frame s1 (j + i) = Some (pool_page (kernel_pool s1) (fs ! i)) \<and> fs ! i < pool_pages (kernel_pool s1)"
    if "i < n" for i
    using that s1(5) [OF that] s1(8,12) subsetD [OF s1(4), of "fs ! i"] s1(3) by (simp add: pool_free_def)
  have "j + n \<le> heap_size s1"
    using jn s1(11) by simp
  obtain s2 where s2: "mfree_page PF_KERNEL (kva s1 j) n s1 = Ret () s2" "mem_inv s2"
    "\<And>i. i < heap_size s1 \<Longrightarrow> heap_frame s2 i = (if j \<le> i \<and> i < j + n then None else heap_frame s1 i)"
    "pool_free (kernel_pool s2) = pool_free (kernel_pool s1) \<union> (!) fs ` {..<n}"
    "\<And>i. bitmap_bit (vaddr_bitmap (kernel_vaddr s2)) i =
       (\<not> (j \<le> i \<and> i < j + n) \<and> bitmap_bit (vaddr_bitmap (kernel_vaddr s1)) i)"
    using mfree_kernel [where fs = "(!) fs", OF s1(2) n(1) \<open>j + n \<le> heap_size s1\<close> f] by auto
  have "(!) fs ` {..<n} = set fs"
    using s1(3) by (auto simp: set_conv_nth)
  then have "pool_free (kernel_pool s2) = pool_free (kernel_pool s)"
    using s1(4,7) s2(4) by auto
  moreover have "bitmap_bit (vaddr_bitmap (kernel_vaddr s2)) i = bitmap_bit (vaddr_bitmap (kernel_vaddr s)) i" for i
    using s1(9) s2(5) vfree [of i] by auto
  moreover have "heap_frame s2 i = heap_frame s i" if "i < heap_size s" for i
    using that s1(6) [OF that] s1(11) s2(3) [of i] vfree [of i] mem_invD(13) [OF inv that] by auto
  ultimately show ?thesis
    using s1(1,10) s2(1,2) by (intro exI [of _ s2]) simp
qed

theorem kernel_pages_round_trip_witness:
  "\<exists>s'. bindK (malloc_page PF_KERNEL 2) (\<lambda>va. mfree_page PF_KERNEL va 2) demo_memory = Ret () s' \<and>
     pool_free (kernel_pool s') = {..<8}"
  using kernel_pages_round_trip [OF demo_mem_inv _ _ demo_run] demo_pool_free by auto

lemma lock_init_mem [simp]:
  fixes s :: "'a memory_scheme"
  shows "kernel_pool (lock_init l s) = kernel_pool s" "user_pool (lock_init l s) = user_pool s"
    "running_thread (lock_init l s) = running_thread s"
  by (simp_all add: lock_init_def sema_init_def set_lock_def set_sema_def Let_def running_thread_def)

lemma lock_init_free:
  assumes "running_thread s \<noteq> NULL"
  shows "lock_free l (lock_init l s)"
    "lock_free l s \<Longrightarrow> l \<noteq> k \<Longrightarrow> lock_free l (lock_init k s)"
  using assms by (simp_all add: lock_free_def lock_init_def sema_init_def set_lock_def set_sema_def Let_def running_thread_def lock_semaphore_def)

lemma bitmap_init_free:
  assumes "btmp_bytes_len b \<le> length (bits b)"
  obtains b' where "bitmap_init b = Inr b'" "btmp_bytes_len b' = btmp_bytes_len b" "wf_bitmap b'"
    "\<And>i. i < 8 * btmp_bytes_len b \<Longrightarrow> \<not> bitmap_bit b' i"
  by (rule that [of "b\<lparr>bits := replicate (btmp_bytes_len b) 0 @ drop (btmp_bytes_len b) (bits b)\<rparr>"])
    (use assms in \<open>auto simp: bitmap_init_def wf_bitmap_def bitmap_bit_def nth_append\<close>)

text \<open>The page counts of \<^verbatim>\<open>mem_pool_init\<close>: none of the 16-bit values wraps below 258 MB.\<close>

lemma free_pages:
  fixes all_mem :: u32
  defines "af \<equiv> ucast ((all_mem - 0x200000) div 0x1000) :: u16"
  assumes mem: "0x200000 \<le> all_mem" "all_mem < 0x10200000"
  shows "unat af = (unat all_mem - 0x200000) div 4096"
    "unat (af div 2) = unat af div 2" "unat (af div 2 div 8) = unat af div 2 div 8"
    "unat (af - af div 2) = unat af - unat af div 2" "unat ((af - af div 2) div 8) = (unat af - unat af div 2) div 8"
    "unat af < 65536"
proof -
  have b: "unat all_mem \<ge> 0x200000" "unat all_mem < 0x10200000"
    using mem by (simp_all add: word_le_nat_alt word_less_nat_alt)
  have "unat ((all_mem - 0x200000) div 0x1000) = (unat all_mem - 0x200000) div 4096"
    using mem(1) by (simp add: unat_div unat_sub)
  moreover have "(unat all_mem - 0x200000) div 4096 < 2 ^ 16"
    using b(2) by simp
  ultimately show a: "unat af = (unat all_mem - 0x200000) div 4096"
    by (simp add: af_def unsigned_ucast_eq take_bit_nat_eq_self)
  show "unat (af div 2) = unat af div 2" "unat (af div 2 div 8) = unat af div 2 div 8"
    by (simp_all add: unat_div)
  have "af div 2 \<le> af"
    by (simp add: word_le_nat_alt unat_div)
  then show "unat (af - af div 2) = unat af - unat af div 2"
    by (simp add: unat_sub unat_div)
  then show "unat ((af - af div 2) div 8) = (unat af - unat af div 2) div 8"
    by (simp add: unat_div)
  show "unat af < 65536"
    using a b(2) by simp
qed

text \<open>C23: \<^verbatim>\<open>mem_pool_init\<close> splits the memory above the kernel into two pools. With between 2 MB and 258 MB of
  memory and room for the three bitmaps, the pools are adjacent, start at 2 MB and end inside the
  memory, at most seven pages of each share are lost, every page of both is free, the kernel heap has one virtual page for each kernel frame, and
  both locks are free to take.\<close>

theorem mem_pool_init_splits:
  fixes s :: "'a memory_scheme"
  assumes mem: "0x200000 \<le> all_mem" "all_mem < 0x10200000" and raw: "3 * 4096 \<le> length raw"
    and l: "pool_lock (kernel_pool s) = kl" "pool_lock (user_pool s) = ul"
      "lock_semaphore kl \<noteq> lock_semaphore ul" "running_thread s \<noteq> NULL"
  shows "\<exists>s'. mem_pool_init all_mem raw s = Ret () s' \<and> pool_ok (kernel_pool s') \<and> pool_ok (user_pool s') \<and>
    phy_addr_start (kernel_pool s') = 0x200000 \<and>
    phy_addr_start (user_pool s') = phy_addr_start (kernel_pool s') + pool_size (kernel_pool s') \<and>
    pool_pages (kernel_pool s') * PG_SIZE \<le> unat (pool_size (kernel_pool s')) \<and>
    unat (phy_addr_start (user_pool s')) + pool_pages (user_pool s') * PG_SIZE \<le> unat all_mem \<and>
    (unat all_mem - 0x200000) div PG_SIZE \<le> pool_pages (kernel_pool s') + pool_pages (user_pool s') + 14 \<and>
    pool_free (kernel_pool s') = {..<pool_pages (kernel_pool s')} \<and>
    pool_free (user_pool s') = {..<pool_pages (user_pool s')} \<and>
    heap_size s' = pool_pages (kernel_pool s') \<and> kva s' 0 = K_HEAP_START \<and>
    lock_free kl s' \<and> lock_free ul s'"
proof -
  define af :: u16 where "af = ucast ((all_mem - 0x200000) div 0x1000)"
  define kf where "kf = af div 2"
  define uf where "uf = af - kf"
  note w = free_pages [OF mem, folded af_def, folded kf_def, folded uf_def]
  let ?kb = "\<lparr>btmp_bytes_len = unat (kf div 8), bits = raw\<rparr>"
  let ?ub = "\<lparr>btmp_bytes_len = unat (uf div 8), bits = drop (unat (kf div 8)) raw\<rparr>"
  let ?vb = "\<lparr>btmp_bytes_len = unat (kf div 8), bits = drop (unat (kf div 8) + unat (uf div 8)) raw\<rparr>"
  have "unat (kf div 8) \<le> 4096" "unat (uf div 8) \<le> 4096"
    using w(3,5,6) by simp_all
  then have len: "btmp_bytes_len ?kb \<le> length (bits ?kb)" "btmp_bytes_len ?ub \<le> length (bits ?ub)"
    "btmp_bytes_len ?vb \<le> length (bits ?vb)"
    using raw by simp_all
  obtain kb where kb: "bitmap_init ?kb = Inr kb" "btmp_bytes_len kb = unat (kf div 8)" "wf_bitmap kb"
    "\<And>i. i < 8 * unat (kf div 8) \<Longrightarrow> \<not> bitmap_bit kb i"
    by (rule bitmap_init_free [OF len(1)]) simp
  obtain ub where ub: "bitmap_init ?ub = Inr ub" "btmp_bytes_len ub = unat (uf div 8)" "wf_bitmap ub"
    "\<And>i. i < 8 * unat (uf div 8) \<Longrightarrow> \<not> bitmap_bit ub i"
    by (rule bitmap_init_free [OF len(2)]) simp
  obtain vb where vb: "bitmap_init ?vb = Inr vb" "btmp_bytes_len vb = unat (kf div 8)" "wf_bitmap vb"
    by (rule bitmap_init_free [OF len(3)]) simp
  define s' where "s' = lock_init ul (lock_init kl (s\<lparr>kernel_pool := (kernel_pool s)\<lparr>pool_bitmap := kb, phy_addr_start := 0x200000,
      pool_size := ucast kf * 0x1000\<rparr>, user_pool := (user_pool s)\<lparr>pool_bitmap := ub,
      phy_addr_start := 0x200000 + ucast kf * 0x1000, pool_size := ucast uf * 0x1000\<rparr>\<rparr>))
      \<lparr>kernel_vaddr := \<lparr>vaddr_bitmap = vb, vaddr_start = K_HEAP_START\<rparr>\<rparr>"
  have run: "mem_pool_init all_mem raw s = Ret () s'"
    using kb(1) ub(1) vb(1) l(1,2)
    by (simp add: mem_pool_init_def s'_def Let_def bindK_def thenK_def PG_SIZE_def af_def [symmetric] kf_def [symmetric] uf_def [symmetric])
  have kfu: "unat (ucast kf * 0x1000 :: u32) = unat kf * 4096"
  proof -
    have "unat kf * 4096 < 2 ^ 32"
      using w(2,6) by simp
    then show ?thesis
      by (simp add: unat_word_ariths(2) unsigned_ucast_eq take_bit_nat_eq_self unsigned_less [of kf, where ?'a = nat, THEN less_trans])
  qed
  have up: "unat (0x200000 + ucast kf * 0x1000 :: u32) = 0x200000 + unat kf * 4096"
    using w(2,6) kfu by (simp add: unat_word_ariths(1))
  have pools: "kernel_pool s' = (kernel_pool s)\<lparr>pool_bitmap := kb, phy_addr_start := 0x200000, pool_size := ucast kf * 0x1000\<rparr>"
    "user_pool s' = (user_pool s)\<lparr>pool_bitmap := ub, phy_addr_start := 0x200000 + ucast kf * 0x1000, pool_size := ucast uf * 0x1000\<rparr>"
    "kernel_vaddr s' = \<lparr>vaddr_bitmap = vb, vaddr_start = K_HEAP_START\<rparr>"
    by (simp_all add: s'_def)
  have sz: "pool_pages (kernel_pool s') = 8 * (unat kf div 8)" "pool_pages (user_pool s') = 8 * (unat uf div 8)"
    "heap_size s' = 8 * (unat kf div 8)"
    using kb(2) ub(2) vb(2) by (simp_all add: pool_pages_def heap_size_def pools unat_div)
  have "unat all_mem \<ge> 0x200000"
    using mem(1) by (simp add: word_le_nat_alt)
  moreover have "unat kf + unat uf = unat af"
    using w(2,4) by simp
  moreover have "unat af * 4096 \<le> unat all_mem - 0x200000"
    unfolding w(1) by simp
  ultimately have tot: "0x200000 + unat kf * 4096 + unat uf * 4096 \<le> unat all_mem"
    by linarith
  have m: "8 * (unat kf div 8) \<le> unat kf" "8 * (unat uf div 8) \<le> unat uf"
    by simp_all
  have bound: "0x200000 + unat kf * 4096 + 8 * (unat uf div 8) * 4096 \<le> unat all_mem"
    using tot m(2) by linarith
  have al: "unat all_mem < 2 ^ 32"
    using unsigned_less [of all_mem, where ?'a = nat] by simp
  have "pool_ok (kernel_pool s')"
    unfolding pool_ok_def sz using kb(3) bound al m(1) by (simp add: pools PG_SIZE_def frame_def)
  moreover have "pool_ok (user_pool s')"
  proof -
    have "0x200000 + ucast kf * 0x1000 \<noteq> (0 :: u32)"
      using up by (metis add_is_0 unsigned_0 zero_neq_numeral)
    moreover have "frame (0x200000 + ucast kf * 0x1000) = 0x200000 + ucast kf * 0x1000"
      unfolding frame_unat up by simp
    ultimately show ?thesis
      unfolding pool_ok_def sz using ub(3) bound al up by (simp add: pools PG_SIZE_def)
  qed
  moreover have "pool_free (kernel_pool s') = {..<pool_pages (kernel_pool s')}" "pool_free (user_pool s') = {..<pool_pages (user_pool s')}"
    using kb(4) ub(4) unfolding pool_free_def sz by (auto simp: pools unat_div)
  moreover have "lock_free kl s'" "lock_free ul s'"
  proof -
    have upd: "lock_free x (r\<lparr>kernel_vaddr := v\<rparr>) = lock_free x r" for x v and r :: "'a memory_scheme"
      by (simp add: lock_free_def running_thread_def)
    have run': "running_thread (lock_init kl (s\<lparr>kernel_pool := p, user_pool := q\<rparr>)) \<noteq> NULL"
      "running_thread (s\<lparr>kernel_pool := p, user_pool := q\<rparr>) \<noteq> NULL" for p q
      using l(4) by (simp_all add: running_thread_def lock_init_def sema_init_def set_lock_def set_sema_def Let_def)
    have "kl \<noteq> ul"
      using l(3) by auto
    then show "lock_free kl s'" "lock_free ul s'"
      unfolding s'_def upd using lock_init_free run' by blast+
  qed
  moreover have "(unat all_mem - 0x200000) div PG_SIZE \<le> pool_pages (kernel_pool s') + pool_pages (user_pool s') + 14"
  proof -
    have "n \<le> 8 * (n div 8) + 7" for n :: nat
      by simp
    from this [of "unat kf"] this [of "unat uf"] show ?thesis
      unfolding sz PG_SIZE_def w(1) [symmetric] using \<open>unat kf + unat uf = unat af\<close> by linarith
  qed
  ultimately show ?thesis
    using run sz bound up kfu m by (intro exI [of _ s']) (simp add: pools kva_def PG_SIZE_def)
qed

theorem mem_pool_init_splits_witness:
  "\<exists>s'. mem_pool_init 0x2000000 (replicate 0x4000 0xff) demo_memory = Ret () s' \<and>
     7666 \<le> pool_pages (kernel_pool s') + pool_pages (user_pool s') \<and> lock_free 0x5000 s'"
proof -
  have "pool_lock (user_pool demo_memory) = 0x5100"
    by (simp add: demo_memory_def sync.defs memory.defs)
  moreover have "running_thread demo_memory \<noteq> NULL"
    using demo_lock by (simp add: lock_free_def)
  ultimately show ?thesis
    using mem_pool_init_splits [of "0x2000000" "replicate 0x4000 0xff" demo_memory "0x5000" "0x5100"]
    by (auto simp: lock_semaphore_def PG_SIZE_def)
qed

text \<open>The page counts are 16 bits wide. With 258 MB of memory the free page count wraps around to 0:
  both pools are empty, although the comment on the bitmap base promises support for 512 MB.\<close>

theorem mem_pool_init_wraps:
  "\<exists>s'. mem_pool_init 0x10200000 raw s = Ret () s' \<and> pool_pages (kernel_pool s') = 0 \<and>
    pool_pages (user_pool s') = 0 \<and> heap_size s' = 0"
  by (simp add: mem_pool_init_def Let_def bindK_def thenK_def PG_SIZE_def bitmap_init_def pool_pages_def heap_size_def
      lock_init_mem)

end
