(* ===== verification/Heap.thy ===== *)
theory Heap
  imports Memory
begin

section \<open>The heap (sys_malloc and sys_free of kernel/memory.c)\<close>

text \<open>
  Requests of more than 1024 bytes get pages of their own; smaller ones get a block from an arena, a
  page that starts with a 12-byte header and is cut into blocks of one of seven sizes. The headers are
  the field \<open>arenas\<close> of the state, keyed by the address of the page, and the free lists are lists of
  block addresses: the bytes of a page that hold a header or a list element are not looked at as
  words. A descriptor is named by its table (\<^verbatim>\<open>NULL\<close> for \<^verbatim>\<open>k_block_descs\<close>, else the PCB that holds it)
  and its index.
\<close>

subsection \<open>Operations\<close>

type_synonym desc_ptr = "addr \<times> nat"

definition desc_table :: "addr \<Rightarrow> 'a memory_scheme \<Rightarrow> mem_block_desc list" where
  "desc_table t s = (if t = NULL then k_block_descs s else u_block_desc (tasks s t))"

definition get_desc :: "desc_ptr \<Rightarrow> 'a memory_scheme \<Rightarrow> mem_block_desc" where
  "get_desc d s = desc_table (fst d) s ! snd d"

definition set_desc :: "desc_ptr \<Rightarrow> (mem_block_desc \<Rightarrow> mem_block_desc) \<Rightarrow> 'a memory_scheme \<Rightarrow> 'a memory_scheme" where
  "set_desc d f s =
     (let ds = (desc_table (fst d) s)[snd d := f (get_desc d s)] in
      if fst d = NULL then s\<lparr>k_block_descs := ds\<rparr> else set_task (fst d) (\<lambda>t. t\<lparr>u_block_desc := ds\<rparr>) s)"

definition set_arena :: "addr \<Rightarrow> (arena \<Rightarrow> arena) \<Rightarrow> 'a memory_scheme \<Rightarrow> 'a memory_scheme" where
  "set_arena a f s = s\<lparr>arenas := (arenas s)(a := f (arenas s a))\<rparr>"

definition arena2block :: "addr \<Rightarrow> nat \<Rightarrow> nat \<Rightarrow> addr" where
  "arena2block a bs idx = a + of_nat sizeof_arena + of_nat idx * of_nat bs"

definition block2arena :: "addr \<Rightarrow> addr" where
  "block2arena b = b AND 0xfffff000"

text \<open>The search of the descriptor: the index of the first block size that is large enough.\<close>

fun desc_fit :: "mem_block_desc list \<Rightarrow> nat \<Rightarrow> nat" where
  "desc_fit [] sz = 0"
| "desc_fit (d # ds) sz = (if sz \<le> block_size d then 0 else Suc (desc_fit ds sz))"

text \<open>The loop that cuts the arena \<open>a\<close> of the descriptor \<open>d\<close> into blocks, from block \<open>idx\<close> on.\<close>

fun split_arena :: "desc_ptr \<Rightarrow> addr \<Rightarrow> nat \<Rightarrow> nat \<Rightarrow> ('a memory_scheme, unit) kop" where
  "split_arena d a idx 0 = retK ()"
| "split_arena d a idx (Suc n) =
     bindK (getK (\<lambda>s. arena2block a (block_size (get_desc d s)) idx)) (\<lambda>b.
     thenK (assertK (\<lambda>s. b \<notin> set (free_list (get_desc d s))))
    (thenK (modK (set_desc d (\<lambda>e. e\<lparr>free_list := free_list e @ [b]\<rparr>)))
           (split_arena d a (idx + 1) n)))"

text \<open>A new arena for the descriptor \<open>d\<close>; false when there is no page for it.\<close>

definition new_arena :: "pool_flags \<Rightarrow> desc_ptr \<Rightarrow> ('a memory_scheme, bool) kop" where
  "new_arena pf d =
     bindK (malloc_page pf 1) (\<lambda>a.
     if a = NULL then retK False
     else thenK (updR (vzero a (PG_SIZE div 4)))
         (thenK (modK (\<lambda>s. set_arena a (\<lambda>_. \<lparr>arena_desc = Some d,
                  arena_cnt = of_nat (blocks_per_arena (get_desc d s)), arena_large = False\<rparr>) s))
         (bindK (getK (fst \<circ> intr_disable)) (\<lambda>old_status.
          thenK (modK (snd \<circ> intr_disable))
         (bindK (getK (\<lambda>s. blocks_per_arena (get_desc d s))) (\<lambda>n.
          thenK (split_arena d a 0 n)
         (thenK (modK (snd \<circ> intr_set_status old_status)) (retK True))))))))"

text \<open>Taking the first free block. The list is not empty here; an empty one is outside the model.\<close>

definition take_block :: "desc_ptr \<Rightarrow> ('a memory_scheme, addr) kop" where
  "take_block d =
     bindK (getK (\<lambda>s. free_list (get_desc d s))) (\<lambda>fl.
     case fl of [] \<Rightarrow> fltK Out_Of_Bounds
     | b # rest \<Rightarrow>
         thenK (modK (set_desc d (\<lambda>e. e\<lparr>free_list := rest\<rparr>)))
        (bindK (getK (\<lambda>s. block_size (get_desc d s))) (\<lambda>n.
         thenK (updR (vzero b (n div 4)))
        (thenK (modK (set_arena (block2arena b) (\<lambda>a. a\<lparr>arena_cnt := arena_cnt a - 1\<rparr>)))
               (retK b)))))"

text \<open>The part of \<^verbatim>\<open>sys_malloc\<close> between taking and giving back the lock of the pool.\<close>

definition malloc_locked :: "pool_flags \<Rightarrow> addr \<Rightarrow> u32 \<Rightarrow> ('a memory_scheme, addr) kop" where
  "malloc_locked pf t sz =
     (if sz > 1024 then
        let page_cnt = (sz + of_nat sizeof_arena + of_nat PG_SIZE - 1) div of_nat PG_SIZE in
        bindK (malloc_page pf (unat page_cnt)) (\<lambda>a.
        if a = NULL then retK NULL
        else thenK (updR (vzero a (unat page_cnt * (PG_SIZE div 4))))
            (thenK (modK (set_arena a (\<lambda>_. \<lparr>arena_desc = None, arena_cnt = page_cnt, arena_large = True\<rparr>)))
                   (retK (a + of_nat sizeof_arena))))
      else
        bindK (getK (desc_table t)) (\<lambda>descs.
        let desc_idx = desc_fit descs (unat sz) in
        if desc_idx \<ge> length descs then fltK Out_Of_Bounds
        else if free_list (descs ! desc_idx) = [] then
          bindK (new_arena pf (t, desc_idx)) (\<lambda>ok. if ok then take_block (t, desc_idx) else retK NULL)
        else take_block (t, desc_idx)))"

definition sys_malloc :: "u32 \<Rightarrow> ('a memory_scheme, addr) kop" where
  "sys_malloc sz s =
     (let cur_thread = running_thread s;
          pf = (if pgdir (tasks s cur_thread) = NULL then PF_KERNEL else PF_USER);
          t = (if pgdir (tasks s cur_thread) = NULL then NULL else cur_thread);
          l = pool_lock (get_pool pf s)
      in if \<not> (sz > 0 \<and> sz < pool_size (get_pool pf s)) then Ret NULL s
         else thenK (lock_acquire l)
             (bindK (malloc_locked pf t sz) (\<lambda>p. thenK (lock_release l) (retK p))) s)"

text \<open>The loop of \<^verbatim>\<open>sys_free\<close> that takes the blocks of an empty arena out of the free list.\<close>

fun unlink_blocks :: "desc_ptr \<Rightarrow> addr \<Rightarrow> nat \<Rightarrow> nat \<Rightarrow> ('a memory_scheme, unit) kop" where
  "unlink_blocks d a idx 0 = retK ()"
| "unlink_blocks d a idx (Suc n) =
     bindK (getK (\<lambda>s. arena2block a (block_size (get_desc d s)) idx)) (\<lambda>b.
     thenK (assertK (\<lambda>s. b \<in> set (free_list (get_desc d s))))
    (thenK (modK (set_desc d (\<lambda>e. e\<lparr>free_list := remove1 b (free_list e)\<rparr>)))
           (unlink_blocks d a (idx + 1) n)))"

definition free_locked :: "pool_flags \<Rightarrow> addr \<Rightarrow> ('a memory_scheme, unit) kop" where
  "free_locked pf b s =
     (let a = block2arena b;
          ar = arenas s a
      in case arena_desc ar of
           None \<Rightarrow> if arena_large ar then mfree_page pf a (unat (arena_cnt ar)) s else Flt Page_Fault
         | Some d \<Rightarrow>
             thenK (modK (set_desc d (\<lambda>e. e\<lparr>free_list := free_list e @ [b]\<rparr>)))
            (thenK (modK (set_arena a (\<lambda>a. a\<lparr>arena_cnt := arena_cnt a + 1\<rparr>)))
            (bindK (getK (\<lambda>s. (unat (arena_cnt (arenas s a)), blocks_per_arena (get_desc d s)))) (\<lambda>(c, n).
             whenK (c = n)
              (thenK (unlink_blocks d a 0 n) (mfree_page pf a 1))))) s)"

definition sys_free :: "addr \<Rightarrow> ('a memory_scheme, unit) kop" where
  "sys_free p s =
     (let pf = (if pgdir (tasks s (running_thread s)) = NULL then PF_KERNEL else PF_USER);
          l = pool_lock (get_pool pf s)
      in thenK (assertK (\<lambda>_. p \<noteq> NULL \<and> (pf = PF_KERNEL \<longrightarrow> p \<ge> K_HEAP_START)))
        (thenK (lock_acquire l)
        (bindK (free_locked pf p) (\<lambda>u. thenK (lock_release l) (retK u)))) s)"

subsection \<open>The kernel's heap\<close>

text \<open>
  \<open>C\<close> says which pages of the kernel heap are arenas, and of which of the seven sizes: \<open>C k = Some i\<close>.
  The header of such a page counts the blocks of the page that are in the free list of its size; the
  free lists hold blocks of arenas of their size, none twice.
\<close>

definition bsz :: "nat \<Rightarrow> nat" where "bsz i = 16 * 2 ^ i"
definition bpa :: "nat \<Rightarrow> nat" where "bpa i = 4084 div bsz i"

definition blk :: "'a memory_scheme \<Rightarrow> nat \<Rightarrow> nat \<Rightarrow> nat \<Rightarrow> addr" where
  "blk s k i idx = arena2block (kva s k) (bsz i) idx"

definition page_blocks :: "'a memory_scheme \<Rightarrow> nat \<Rightarrow> nat \<Rightarrow> addr set" where
  "page_blocks s k i = blk s k i ` {..<bpa i}"

abbreviation kfree :: "'a memory_scheme \<Rightarrow> nat \<Rightarrow> addr list" where
  "kfree s i \<equiv> free_list (k_block_descs s ! i)"

definition descs_ok :: "mem_block_desc list \<Rightarrow> bool" where
  "descs_ok ds \<longleftrightarrow> length ds = DESC_CNT \<and>
     (\<forall>i < DESC_CNT. block_size (ds ! i) = bsz i \<and> blocks_per_arena (ds ! i) = bpa i)"

definition arena_ok :: "'a memory_scheme \<Rightarrow> nat \<Rightarrow> nat \<Rightarrow> bool" where
  "arena_ok s k i \<longleftrightarrow> i < DESC_CNT \<and> k < heap_size s \<and> heap_frame s k \<noteq> None \<and>
     arena_desc (arenas s (kva s k)) = Some (NULL, i) \<and> \<not> arena_large (arenas s (kva s k)) \<and>
     unat (arena_cnt (arenas s (kva s k))) = card (page_blocks s k i \<inter> set (kfree s i))"

definition kheap :: "'a memory_scheme \<Rightarrow> (nat \<Rightarrow> nat option) \<Rightarrow> bool" where
  "kheap s C \<longleftrightarrow> mem_inv s \<and> descs_ok (k_block_descs s) \<and> (\<forall>k i. C k = Some i \<longrightarrow> arena_ok s k i) \<and>
     (\<forall>i < DESC_CNT. distinct (kfree s i) \<and>
        (\<forall>b \<in> set (kfree s i). \<exists>k. C k = Some i \<and> b \<in> page_blocks s k i))"

text \<open>The blocks that are handed out, with their size class.\<close>

definition allocated :: "'a memory_scheme \<Rightarrow> (nat \<Rightarrow> nat option) \<Rightarrow> (addr \<times> nat) set" where
  "allocated s C = {(b, i). \<exists>k. C k = Some i \<and> b \<in> page_blocks s k i \<and> b \<notin> set (kfree s i)}"

lemma DESC_CNT_cases: "i < DESC_CNT \<Longrightarrow> i = 0 \<or> i = 1 \<or> i = 2 \<or> i = 3 \<or> i = 4 \<or> i = 5 \<or> i = 6"
  unfolding DESC_CNT_def by linarith

lemma sizes:
  assumes "i < DESC_CNT"
  shows "16 \<le> bsz i" "bsz i \<le> 1024" "bsz i mod 4 = 0" "3 \<le> bpa i" "bpa i \<le> 255" "12 + bpa i * bsz i \<le> 4096"
  using DESC_CNT_cases [OF assms] by (elim disjE; simp add: bsz_def bpa_def)+

lemma block_desc_init_eq:
  "block_desc_init = map (\<lambda>i. \<lparr>block_size = bsz i, blocks_per_arena = bpa i, free_list = []\<rparr>) [0, 1, 2, 3, 4, 5, 6]"
proof -
  have "DESC_CNT = Suc (Suc (Suc (Suc (Suc (Suc (Suc 0))))))"
    by (simp add: DESC_CNT_def)
  then have "block_desc_init = block_descs (Suc (Suc (Suc (Suc (Suc (Suc (Suc 0))))))) 16"
    by (simp only: block_desc_init_def)
  also have "\<dots> = map (\<lambda>i. \<lparr>block_size = bsz i, blocks_per_arena = bpa i, free_list = []\<rparr>) [0, 1, 2, 3, 4, 5, 6]"
    by (simp add: bsz_def bpa_def PG_SIZE_def sizeof_arena_def)
  finally show ?thesis .
qed

lemma block_desc_init_ok: "descs_ok block_desc_init"
proof -
  have "block_size (block_desc_init ! i) = bsz i \<and> blocks_per_arena (block_desc_init ! i) = bpa i" if "i < DESC_CNT" for i
    unfolding block_desc_init_eq using DESC_CNT_cases [OF that] by (elim disjE) simp_all
  moreover have "length block_desc_init = DESC_CNT"
    by (simp add: block_desc_init_eq DESC_CNT_def)
  ultimately show ?thesis
    by (simp add: descs_ok_def)
qed

text \<open>Where a word of a block lies.\<close>

lemma block_offset:
  assumes "i < DESC_CNT" "idx < bpa i" "w < bsz i"
  shows "12 + idx * bsz i + w < 4096"
    "(of_nat sizeof_arena + of_nat idx * of_nat (bsz i) + of_nat w :: u32) < 0x1000"
    "unat (of_nat sizeof_arena + of_nat idx * of_nat (bsz i) + of_nat w :: u32) = 12 + idx * bsz i + w"
proof -
  have "(idx + 1) * bsz i \<le> bpa i * bsz i"
    using assms(2) by (intro mult_le_mono1) simp
  then show lt: "12 + idx * bsz i + w < 4096"
    using sizes(6) [OF assms(1)] assms(3) by simp
  have "(of_nat sizeof_arena + of_nat idx * of_nat (bsz i) + of_nat w :: u32) = of_nat (12 + idx * bsz i + w)"
    by (simp add: sizeof_arena_def)
  then show u: "unat (of_nat sizeof_arena + of_nat idx * of_nat (bsz i) + of_nat w :: u32) = 12 + idx * bsz i + w"
    using lt by (simp only: unat_of_nat) simp
  then show "(of_nat sizeof_arena + of_nat idx * of_nat (bsz i) + of_nat w :: u32) < 0x1000"
    using lt by (simp add: word_less_nat_alt)
qed

lemma blk_page:
  assumes inv: "mem_inv s" and k: "k < heap_size s" and i: "i < DESC_CNT" "idx < bpa i" "w < bsz i"
  shows "frame (blk s k i idx + of_nat w) = kva s k" "page_offset (blk s k i idx + of_nat w) = of_nat (12 + idx * bsz i + w)"
    "blk s k i idx + of_nat w = kva s k + of_nat (12 + idx * bsz i + w)"
proof -
  note o = block_offset [OF i]
  show e: "blk s k i idx + of_nat w = kva s k + of_nat (12 + idx * bsz i + w)"
    by (simp add: blk_def arena2block_def sizeof_arena_def)
  have "(of_nat (12 + idx * bsz i + w) :: u32) < 0x1000"
    using o(2) by (simp add: sizeof_arena_def)
  then show "frame (blk s k i idx + of_nat w) = kva s k" "page_offset (blk s k i idx + of_nat w) = of_nat (12 + idx * bsz i + w)"
    unfolding e using frame_add [OF kva_page(2) [OF inv k]] by simp_all
qed

lemma block2arena_blk:
  assumes "mem_inv s" "k < heap_size s" "i < DESC_CNT" "b \<in> page_blocks s k i"
  shows "block2arena b = kva s k"
  using assms blk_page(1) [OF assms(1-3), of _ 0] sizes(1) [OF assms(3)]
  by (auto simp: page_blocks_def block2arena_def frame_def)

lemma kva_inj:
  assumes "mem_inv s" "k < heap_size s" "k' < heap_size s" "kva s k = kva s k'"
  shows "k = k'"
proof -
  have "k * PG_SIZE = k' * PG_SIZE"
    using kva_page(1) [OF assms(1,2)] kva_page(1) [OF assms(1,3)] assms(4) by (metis add_left_cancel)
  then show ?thesis
    by (simp add: PG_SIZE_def)
qed

text \<open>Different blocks have no byte in common.\<close>

lemma blocks_disjoint:
  assumes inv: "mem_inv s" and k: "k < heap_size s" "k' < heap_size s" and i: "i < DESC_CNT" "idx < bpa i" "w < bsz i"
    and i': "idx' < bpa i" "w' < bsz i"
    and eq: "blk s k i idx + of_nat w = blk s k' i idx' + of_nat w'"
  shows "k = k' \<and> idx = idx' \<and> w = w'"
proof -
  have "kva s k = kva s k'"
    using blk_page(1) [OF inv k(1) i] blk_page(1) [OF inv k(2) i(1) i'] eq by simp
  then have kk: "k = k'"
    using kva_inj [OF inv k] by simp
  have "unat (of_nat (12 + idx * bsz i + w) :: u32) = unat (of_nat (12 + idx' * bsz i + w') :: u32)"
    by (simp only: blk_page(2) [OF inv k(1) i, symmetric] blk_page(2) [OF inv k(2) i(1) i', symmetric] eq)
  then have "idx * bsz i + w = idx' * bsz i + w'"
    using block_offset(1) [OF i] block_offset(1) [OF i(1) i'] by (simp only: unat_of_nat) simp
  then have "(idx * bsz i + w) div bsz i = (idx' * bsz i + w') div bsz i"
    by simp
  then have "idx = idx'"
    using i(3) i'(2) div_mult_self3 [of "bsz i" idx w] div_mult_self3 [of "bsz i" idx' w'] by simp
  then show ?thesis
    using kk \<open>idx * bsz i + w = idx' * bsz i + w'\<close> by simp
qed

lemma kheapD:
  assumes "kheap s C"
  shows "mem_inv s" "descs_ok (k_block_descs s)" "C k = Some i \<Longrightarrow> arena_ok s k i"
    "i < DESC_CNT \<Longrightarrow> distinct (kfree s i)"
    "i < DESC_CNT \<Longrightarrow> b \<in> set (kfree s i) \<Longrightarrow> \<exists>k. C k = Some i \<and> b \<in> page_blocks s k i"
  using assms by (simp_all add: kheap_def)

lemma kheapI:
  assumes "mem_inv s" "descs_ok (k_block_descs s)" "\<And>k i. C k = Some i \<Longrightarrow> arena_ok s k i"
    "\<And>i. i < DESC_CNT \<Longrightarrow> distinct (kfree s i)"
    "\<And>i b. i < DESC_CNT \<Longrightarrow> b \<in> set (kfree s i) \<Longrightarrow> \<exists>k. C k = Some i \<and> b \<in> page_blocks s k i"
  shows "kheap s C"
  using assms by (simp add: kheap_def)

lemma arena_okD:
  assumes "arena_ok s k i"
  shows "i < DESC_CNT" "k < heap_size s" "heap_frame s k \<noteq> None" "arena_desc (arenas s (kva s k)) = Some (NULL, i)"
    "\<not> arena_large (arenas s (kva s k))"
    "unat (arena_cnt (arenas s (kva s k))) = card (page_blocks s k i \<inter> set (kfree s i))"
  using assms by (simp_all add: arena_ok_def)

lemma page_blocks_cong: "kva s' = kva s \<Longrightarrow> page_blocks s' = page_blocks s" "kva s' = kva s \<Longrightarrow> blk s' = blk s"
  by (simp_all add: page_blocks_def blk_def fun_eq_iff)

lemma page_blocks_other:
  assumes "mem_inv s" "k < heap_size s" "k' < heap_size s" "i < DESC_CNT" "i' < DESC_CNT"
    "b \<in> page_blocks s k i" "b \<in> page_blocks s k' i'"
  shows "k = k'"
  using block2arena_blk [OF assms(1,2,4,6)] block2arena_blk [OF assms(1,3,5,7)] kva_inj [OF assms(1-3)] by simp

lemma card_page_blocks:
  assumes "mem_inv s" "k < heap_size s" "i < DESC_CNT"
  shows "inj_on (blk s k i) {..<bpa i}" "card (page_blocks s k i) = bpa i" "finite (page_blocks s k i)"
proof -
  show inj: "inj_on (blk s k i) {..<bpa i}"
    using blocks_disjoint [OF assms(1,2,2,3), of _ 0 _ 0] sizes(1) [OF assms(3)] by (auto intro!: inj_onI)
  show "card (page_blocks s k i) = bpa i" "finite (page_blocks s k i)"
    unfolding page_blocks_def using card_image [OF inj] by simp_all
qed

lemma descs_ok_update: "descs_ok ds \<Longrightarrow> i < DESC_CNT \<Longrightarrow> descs_ok (ds[i := (ds ! i)\<lparr>free_list := fl\<rparr>])"
  by (auto simp: descs_ok_def nth_list_update)

text \<open>A change of the free list of size \<open>i\<close> that concerns only blocks of page \<open>k\<close>.\<close>

lemma kheap_change:
  assumes h: "kheap s C" and C: "C k = Some i"
    and s': "mem_inv s'" "kva s' = kva s" "heap_size s' = heap_size s"
      "\<And>j. j < heap_size s \<Longrightarrow> heap_frame s' j = heap_frame s j"
      "k_block_descs s' = (k_block_descs s)[i := (k_block_descs s ! i)\<lparr>free_list := fl\<rparr>]"
      "arenas s' = (arenas s)(kva s k := (arenas s (kva s k))\<lparr>arena_cnt := c\<rparr>)"
    and fl: "distinct fl" "\<And>b. b \<notin> page_blocks s k i \<Longrightarrow> b \<in> set fl \<longleftrightarrow> b \<in> set (kfree s i)"
      "unat c = card (page_blocks s k i \<inter> set fl)"
  shows "kheap s' C"
    "allocated s' C = {(b, j). if b \<in> page_blocks s k i \<and> j = i then b \<notin> set fl else (b, j) \<in> allocated s C}"
proof -
  note inv = kheapD(1) [OF h] and ds = kheapD(2) [OF h] and ok = arena_okD [OF kheapD(3) [OF h C]]
  have pb: "page_blocks s' = page_blocks s"
    by (rule page_blocks_cong [OF s'(2)])
  have len: "length (k_block_descs s) = DESC_CNT"
    using ds by (simp add: descs_ok_def)
  have kf: "kfree s' j = (if j = i then fl else kfree s j)" if "j < DESC_CNT" for j
    using that len s'(5) by simp
  have same: "page_blocks s k' i \<inter> set fl = page_blocks s k' i \<inter> set (kfree s i)" if "k' < heap_size s" "k' \<noteq> k" for k'
    using fl(2) page_blocks_other [OF inv that(1) ok(2) ok(1) ok(1)] that(2) by blast
  have ok': "arena_ok s' k' j" if "C k' = Some j" for k' j
  proof -
    note o = arena_okD [OF kheapD(3) [OF h that]]
    show ?thesis
    proof (cases "k' = k")
      case True
      then have "j = i"
        using that C by simp
      then show ?thesis
        using True o s' kf [OF ok(1)] fl(3) pb by (simp add: arena_ok_def)
    next
      case False
      have "kva s k' \<noteq> kva s k"
        using kva_inj [OF inv o(2) ok(2)] False by blast
      then show ?thesis
        using o s' kf [OF o(1)] pb same [OF o(2) False] by (auto simp: arena_ok_def)
    qed
  qed
  show "kheap s' C"
  proof (rule kheapI)
    show "descs_ok (k_block_descs s')"
      unfolding s'(5) by (rule descs_ok_update [OF ds ok(1)])
    show "distinct (kfree s' j)" if "j < DESC_CNT" for j
      using that kf fl(1) kheapD(4) [OF h that] by simp
    show "\<exists>k'. C k' = Some j \<and> b \<in> page_blocks s' k' j" if "j < DESC_CNT" "b \<in> set (kfree s' j)" for j b
      using that(2) kf [OF that(1)] kheapD(5) [OF h that(1), of b] fl(2) [of b] C pb by (auto split: if_splits)
  qed (use s'(1) ok' in blast)+
  have dom: "j < DESC_CNT" "k' < heap_size s" if "C k' = Some j" for k' j
    using arena_okD(1,2) [OF kheapD(3) [OF h that]] by blast+
  have "(b, j) \<in> allocated s' C \<longleftrightarrow> (if b \<in> page_blocks s k i \<and> j = i then b \<notin> set fl else (b, j) \<in> allocated s C)" for b j
  proof (cases "j = i")
    case True
    then show ?thesis
      using kf [OF ok(1)] fl(2) [of b] C by (auto simp: allocated_def pb)
  next
    case False
    then show ?thesis
      using kf dom by (auto simp: allocated_def pb)
  qed
  then show "allocated s' C = {(b, j). if b \<in> page_blocks s k i \<and> j = i then b \<notin> set fl else (b, j) \<in> allocated s C}"
    unfolding set_eq_iff split_paired_All mem_Collect_eq prod.case by blast
qed

text \<open>The words of a block in memory.\<close>

lemma block_word:
  assumes "mem_inv s" "k < heap_size s" "heap_frame s k = Some f" "i < DESC_CNT" "idx < bpa i" "w < bsz i"
  shows "translate s (blk s k i idx + of_nat w) = Some (f + of_nat (12 + idx * bsz i + w))"
    "frame (f + of_nat (12 + idx * bsz i + w)) = f" "page_offset (f + of_nat (12 + idx * bsz i + w)) = of_nat (12 + idx * bsz i + w)"
proof -
  have o: "(of_nat (12 + idx * bsz i + w) :: u32) < 0x1000"
    using block_offset(2) [OF assms(4-6)] by (simp add: sizeof_arena_def)
  show "translate s (blk s k i idx + of_nat w) = Some (f + of_nat (12 + idx * bsz i + w))"
    unfolding blk_page(3) [OF assms(1,2,4-6)] by (rule heap_translate(1) [OF assms(1-3) o])
  show "frame (f + of_nat (12 + idx * bsz i + w)) = f" "page_offset (f + of_nat (12 + idx * bsz i + w)) = of_nat (12 + idx * bsz i + w)"
    using frame_add [OF heap_translate(2) [OF assms(1-3) o] o] by simp_all
qed

lemma zero_block:
  assumes inv: "mem_inv s" and k: "k < heap_size s" "heap_frame s k = Some f" and i: "i < DESC_CNT" "idx < bpa i"
  shows "\<exists>m. vzero (blk s k i idx) (bsz i div 4) s = Inr (s\<lparr>pmem := m\<rparr>) \<and>
    (\<forall>x. \<not> no_table (frame x) s \<longrightarrow> m x = pmem s x) \<and>
    (\<forall>w < bsz i div 4. vread (s\<lparr>pmem := m\<rparr>) (blk s k i idx + of_nat (4 * w)) = Inr 0) \<and>
    (\<forall>x. (\<forall>w < bsz i. x \<noteq> f + of_nat (12 + idx * bsz i + w)) \<longrightarrow> m x = pmem s x)"
proof -
  let ?pa = "\<lambda>w. f + of_nat (12 + idx * bsz i + 4 * w)"
  have w: "translate s (blk s k i idx + of_nat (4 * w)) = Some (?pa w)" "frame (?pa w) = f" if "w < bsz i div 4" for w
    using block_word [OF inv k i, of "4 * w"] that by simp_all
  have nt: "no_table f s"
    using mem_invD(14) [OF inv k] by blast
  define m where "m = (\<lambda>x. if \<exists>w < bsz i div 4. x = ?pa w then 0 else pmem s x)"
  have z: "vzero (blk s k i idx) (bsz i div 4) s = Inr (s\<lparr>pmem := m\<rparr>)"
    unfolding m_def
  proof (rule vzero_run)
    fix m' q assume q: "q < bsz i div 4" and m': "\<And>x. \<forall>w < bsz i div 4. x \<noteq> ?pa w \<Longrightarrow> m' x = pmem s x"
    have "translate (s\<lparr>pmem := m'\<rparr>) v = translate s v" for v
    proof (rule mem_inv_data(3) [OF inv])
      show "m' x = pmem s x" if "\<not> no_table (frame x) s" for x
        by (rule m') (use nt w(2) that in metis)
    qed
    then show "translate (s\<lparr>pmem := m'\<rparr>) (blk s k i idx + of_nat (4 * q)) = Some (?pa q)"
      using w(1) [OF q] by simp
  qed
  have o: "m x = pmem s x" if "\<not> no_table (frame x) s" for x
    using that nt w(2) by (auto simp: m_def)
  have "vread (s\<lparr>pmem := m\<rparr>) (blk s k i idx + of_nat (4 * q)) = Inr 0" if "q < bsz i div 4" for q
    using mem_inv_data(3) [OF inv o, of "blk s k i idx + of_nat (4 * q)"] w(1) [OF that] that
    by (auto simp: vread_def m_def)
  moreover have "m x = pmem s x" if x: "\<forall>w < bsz i. x \<noteq> f + of_nat (12 + idx * bsz i + w)" for x
  proof -
    have "x \<noteq> ?pa w" if "w < bsz i div 4" for w
      using spec [OF x, of "4 * w"] that by simp
    then show ?thesis
      by (auto simp: m_def)
  qed
  ultimately show ?thesis
    using z o by blast
qed

lemma allocatedD:
  assumes "kheap s C" "(b, i) \<in> allocated s C"
  obtains k idx f where "C k = Some i" "arena_ok s k i" "idx < bpa i" "b = blk s k i idx" "heap_frame s k = Some f"
    "b \<in> page_blocks s k i" "b \<notin> set (kfree s i)"
  using assms kheapD(3) [OF assms(1)] arena_okD(3) by (fastforce simp: allocated_def page_blocks_def)

text \<open>Two words of different blocks lie at different physical addresses.\<close>

lemma block_phys:
  assumes h: "kheap s C" and k: "C k = Some i" "C k' = Some i'" and f: "heap_frame s k = Some f" "heap_frame s k' = Some f'"
    and x: "idx < bpa i" "idx' < bpa i'" "w < bsz i" "w' < bsz i'" "blk s k i idx \<noteq> blk s k' i' idx'"
  shows "f + of_nat (12 + idx * bsz i + w) \<noteq> f' + of_nat (12 + idx' * bsz i' + w')"
proof
  assume eq: "f + of_nat (12 + idx * bsz i + w) = f' + of_nat (12 + idx' * bsz i' + w')"
  note inv = kheapD(1) [OF h]
  note a = arena_okD [OF kheapD(3) [OF h k(1)]] and a' = arena_okD [OF kheapD(3) [OF h k(2)]]
  note b = block_word [OF inv a(2) f(1) a(1) x(1,3)] and b' = block_word [OF inv a'(2) f(2) a'(1) x(2,4)]
  have "f = f'"
    by (metis eq b(2) b'(2))
  then have kk: "k = k'"
    using mem_invD(15) [OF inv a(2) a'(2)] f by simp
  then have ii: "i = i'"
    using k by simp
  have "blk s k i idx + of_nat w = blk s k' i' idx' + of_nat w'"
    unfolding blk_page(3) [OF inv a(2,1) x(1,3)] blk_page(3) [OF inv a'(2,1) x(2,4)] using eq kk ii \<open>f = f'\<close> by simp
  then show False
    using blocks_disjoint [OF inv a(2) a'(2) a(1) x(1,3)] x(2,4,5) kk ii by blast
qed

lemma allocated_disjoint:
  assumes h: "kheap s C" and b: "(b, i) \<in> allocated s C" "(b', j) \<in> allocated s C" "(b, i) \<noteq> (b', j)"
    and w: "w < bsz i" "w' < bsz j"
  shows "b + of_nat w \<noteq> b' + of_nat w'"
proof
  assume eq: "b + of_nat w = b' + of_nat w'"
  obtain k x f where k: "C k = Some i" "arena_ok s k i" "x < bpa i" "b = blk s k i x" "heap_frame s k = Some f"
    "b \<in> page_blocks s k i" "b \<notin> set (kfree s i)"
    by (rule allocatedD [OF h b(1)])
  obtain l y g where l: "C l = Some j" "arena_ok s l j" "y < bpa j" "b' = blk s l j y" "heap_frame s l = Some g"
    "b' \<in> page_blocks s l j" "b' \<notin> set (kfree s j)"
    by (rule allocatedD [OF h b(2)])
  note a = arena_okD(1,2) [OF k(2)] and a' = arena_okD(1,2) [OF l(2)] and inv = kheapD(1) [OF h]
  have "kva s k = kva s l"
    using blk_page(1) [OF inv a(2,1) k(3) w(1)] blk_page(1) [OF inv a'(2,1) l(3) w(2)] eq k(4) l(4) by simp
  then have "k = l"
    by (rule kva_inj [OF inv a(2) a'(2)])
  then show False
    using blocks_disjoint [OF inv a(2) a(2) a(1) k(3) w(1), of y w'] eq k l w(2) b(3) by auto
qed

text \<open>What a routine leaves alone: everything but memory, the pool, the kernel's maps and the heap.\<close>

definition heap_only :: "'a memory_scheme \<Rightarrow> 'a memory_scheme \<Rightarrow> bool" where
  "heap_only s s' \<longleftrightarrow> s' = s\<lparr>pmem := pmem s', kernel_pool := kernel_pool s', kernel_vaddr := kernel_vaddr s',
     k_block_descs := k_block_descs s', arenas := arenas s'\<rparr> \<and>
     pool_area (kernel_pool s') = pool_area (kernel_pool s) \<and> kva s' = kva s"

definition blocks_kept :: "'a memory_scheme \<Rightarrow> (nat \<Rightarrow> nat option) \<Rightarrow> 'a memory_scheme \<Rightarrow> bool" where
  "blocks_kept s C s' \<longleftrightarrow>
     (\<forall>(b, i) \<in> allocated s C. \<forall>w < bsz i div 4. vread s' (b + of_nat (4 * w)) = vread s (b + of_nat (4 * w)))"

lemma vread_cong: "translate s' = translate s \<Longrightarrow> pmem s' = pmem s \<Longrightarrow> vread s' = vread s"
  by (auto simp: vread_def fun_eq_iff split: option.splits)

lemma take_block_ok:
  assumes h: "kheap s C" and i: "i < DESC_CNT" and fl: "kfree s i = b # rest"
  shows "\<exists>s'. take_block (NULL, i) s = Ret b s' \<and> kheap s' C \<and> (b, i) \<notin> allocated s C \<and>
    allocated s' C = insert (b, i) (allocated s C) \<and> blocks_kept s C s' \<and>
    (\<forall>w < bsz i div 4. vread s' (b + of_nat (4 * w)) = Inr 0) \<and> heap_only s s'"
proof -
  note inv = kheapD(1) [OF h]
  obtain k where k: "C k = Some i" "b \<in> page_blocks s k i"
    using kheapD(5) [OF h i, of b] fl by auto
  obtain idx where idx: "idx < bpa i" "b = blk s k i idx"
    using k(2) by (auto simp: page_blocks_def)
  note a = arena_okD [OF kheapD(3) [OF h k(1)]]
  obtain f where f: "heap_frame s k = Some f"
    using a(3) by auto
  have b2a: "block2arena b = kva s k"
    by (rule block2arena_blk [OF inv a(2) i k(2)])
  let ?ds = "(k_block_descs s)[i := (k_block_descs s ! i)\<lparr>free_list := rest\<rparr>]"
  let ?s1 = "s\<lparr>k_block_descs := ?ds\<rparr>"
  have len: "length (k_block_descs s) = DESC_CNT" "block_size (k_block_descs s ! i) = bsz i"
    using kheapD(2) [OF h] i by (simp_all add: descs_ok_def)
  have c1: "mem_inv ?s1" "heap_frame ?s1 = heap_frame s" "kva ?s1 = kva s" "heap_size ?s1 = heap_size s"
    "translate ?s1 = translate s"
    using mem_inv_cong [of ?s1 s] inv by simp_all
  have nt: "no_table g ?s1 = no_table g s" for g
    by (simp add: no_table_def pde_of_def)
  obtain m where m: "vzero b (bsz i div 4) ?s1 = Inr (?s1\<lparr>pmem := m\<rparr>)"
    "\<And>x. \<not> no_table (frame x) ?s1 \<Longrightarrow> m x = pmem s x"
    "\<And>w. w < bsz i div 4 \<Longrightarrow> vread (?s1\<lparr>pmem := m\<rparr>) (b + of_nat (4 * w)) = Inr 0"
    "\<And>x. \<forall>w < bsz i. x \<noteq> f + of_nat (12 + idx * bsz i + w) \<Longrightarrow> m x = pmem s x"
    using zero_block [OF c1(1), of k f i idx] a(2) f i idx page_blocks_cong(2) [OF c1(3)] unfolding c1 by auto
  let ?s2 = "?s1\<lparr>pmem := m\<rparr>"
  define s' where "s' = set_arena (kva s k) (\<lambda>a. a\<lparr>arena_cnt := arena_cnt a - 1\<rparr>) ?s2"
  have run: "take_block (NULL, i) s = Ret b s'"
    using fl m(1) len i b2a by (simp add: take_block_def get_desc_def desc_table_def set_desc_def s'_def Let_def)
  have m': "m x = pmem ?s1 x" if "\<not> no_table (frame x) ?s1" for x
    using m(2) [OF that] by simp
  note d = mem_inv_data [OF c1(1) m', unfolded c1(2-5)]
  have c2: "mem_inv s'" "heap_frame s' = heap_frame ?s2" "kva s' = kva ?s2" "heap_size s' = heap_size ?s2" "translate s' = translate ?s2"
    using mem_inv_cong [of s' ?s2] d(1) by (simp_all add: s'_def set_arena_def)
  have hf: "heap_frame s' j = heap_frame s j" if "j < heap_size s" for j
    using d(2) [of j] that c2(2) by simp
  have fl': "distinct rest" "x \<notin> page_blocks s k i \<Longrightarrow> x \<in> set rest \<longleftrightarrow> x \<in> set (kfree s i)"
    "page_blocks s k i \<inter> set rest = page_blocks s k i \<inter> set (kfree s i) - {b}" for x
    using kheapD(4) [OF h i] fl k(2) by auto
  have "unat (arena_cnt (arenas s (kva s k)) - 1) = card (page_blocks s k i \<inter> set rest)"
  proof -
    let ?c = "arena_cnt (arenas s (kva s k))"
    have fin: "finite (page_blocks s k i \<inter> set (kfree s i))" "b \<in> page_blocks s k i \<inter> set (kfree s i)"
      using k(2) fl by simp_all
    then have "?c \<noteq> 0"
      using a(6) by auto
    then have "unat (?c - 1) = unat ?c - 1"
      by (simp add: unat_minus_one)
    then show ?thesis
      unfolding fl'(3) using a(6) fin by simp
  qed
  note ch = kheap_change [OF h k(1) c2(1) _ _ hf _ _ fl'(1,2) this]
  have kh: "kheap s' C"
    by (rule ch(1)) (simp_all add: c2 d, simp_all add: s'_def set_arena_def)
  have al: "allocated s' C = {(x, j). if x \<in> page_blocks s k i \<and> j = i then x \<notin> set rest else (x, j) \<in> allocated s C}"
    by (rule ch(2)) (simp_all add: c2 d, simp_all add: s'_def set_arena_def)
  have mem: "(x, i) \<in> allocated s C \<longleftrightarrow> x \<notin> set (kfree s i)" if "x \<in> page_blocks s k i" for x
    using that k(1) by (auto simp: allocated_def)
  have new: "(b, i) \<notin> allocated s C"
    using mem [OF k(2)] fl by simp
  have "(x, j) \<in> allocated s' C \<longleftrightarrow> (x, j) \<in> insert (b, i) (allocated s C)" for x j
    using mem [of x] fl kheapD(4) [OF h i] k(2) by (auto simp: al)
  then have al': "allocated s' C = insert (b, i) (allocated s C)"
    by auto
  have "vread s' (x + of_nat (4 * w)) = vread s (x + of_nat (4 * w))"
    if xj: "(x, j) \<in> allocated s C" "w < bsz j div 4" for x j w
  proof -
    obtain k' idx' f' where k': "C k' = Some j" "arena_ok s k' j" "idx' < bpa j" "x = blk s k' j idx'" "heap_frame s k' = Some f'"
      "x \<in> page_blocks s k' j" "x \<notin> set (kfree s j)"
      by (rule allocatedD [OF h xj(1)])
    have w: "4 * w < bsz j"
      using xj(2) by simp
    have t: "translate s (x + of_nat (4 * w)) = Some (f' + of_nat (12 + idx' * bsz j + 4 * w))"
      using block_word(1) [OF inv arena_okD(2) [OF k'(2)] k'(5) arena_okD(1) [OF k'(2)] k'(3) w] k'(4) by simp
    have "blk s k i idx \<noteq> blk s k' j idx'"
    proof
      assume "blk s k i idx = blk s k' j idx'"
      then have "x = b" "k = k'"
        using idx(2) k'(4) page_blocks_other [OF inv a(2) arena_okD(2,1) [OF k'(2)] i, of b] k(2) k'(6)
          page_blocks_other [OF inv a(2) arena_okD(2) [OF k'(2)] i arena_okD(1) [OF k'(2)], of b] by simp_all
      then show False
        using k(1) k'(1) xj(1) new by simp
    qed
    then have "m (f' + of_nat (12 + idx' * bsz j + 4 * w)) = pmem s (f' + of_nat (12 + idx' * bsz j + 4 * w))"
      using block_phys [OF h k(1) k'(1) f k'(5) idx(1) k'(3) _ w] by (intro m(4)) metis
    then show ?thesis
      using t c2(5) d(3) by (simp add: vread_def s'_def set_arena_def)
  qed
  then have "blocks_kept s C s'"
    by (auto simp: blocks_kept_def)
  moreover have "vread s' (b + of_nat (4 * w)) = Inr 0" if "w < bsz i div 4" for w
  proof -
    have "pmem s' = pmem ?s2"
      by (simp add: s'_def set_arena_def)
    from vread_cong [OF c2(5) this] show ?thesis
      using m(3) [OF that] by simp
  qed
  moreover have "heap_only s s'"
    using c2(3) d(4) by (simp add: heap_only_def s'_def set_arena_def)
  ultimately show ?thesis
    using run kh al' new by blast
qed

lemma split_arena_run:
  assumes "i < length (k_block_descs s)" "block_size (k_block_descs s ! i) = bs"
    and "\<And>m. idx \<le> m \<Longrightarrow> m < idx + n \<Longrightarrow> arena2block a bs m \<notin> set (kfree s i)"
    and "inj_on (arena2block a bs) {idx..<idx + n}"
  shows "split_arena (NULL, i) a idx n s = Ret () (s\<lparr>k_block_descs := (k_block_descs s)[i := (k_block_descs s ! i)
    \<lparr>free_list := kfree s i @ map (arena2block a bs) [idx..<idx + n]\<rparr>]\<rparr>)"
  using assms
proof (induction n arbitrary: idx s)
  case 0
  then show ?case by simp
next
  case (Suc n)
  let ?b = "arena2block a bs idx"
  let ?s = "s\<lparr>k_block_descs := (k_block_descs s)[i := (k_block_descs s ! i)\<lparr>free_list := kfree s i @ [?b]\<rparr>]\<rparr>"
  have ne: "arena2block a bs m \<noteq> ?b" if "idx + 1 \<le> m" "m < idx + Suc n" for m
    using Suc.prems(4) that by (auto dest: inj_onD [of _ _ m idx])
  have "split_arena (NULL, i) a (idx + 1) n ?s = Ret () (?s\<lparr>k_block_descs := (k_block_descs ?s)[i := (k_block_descs ?s ! i)
      \<lparr>free_list := kfree ?s i @ map (arena2block a bs) [idx + 1..<idx + 1 + n]\<rparr>]\<rparr>)"
  proof (rule Suc.IH)
    show "inj_on (arena2block a bs) {idx + 1..<idx + 1 + n}"
      using Suc.prems(4) by (rule inj_on_subset) auto
    show "arena2block a bs m \<notin> set (kfree ?s i)" if "idx + 1 \<le> m" "m < idx + 1 + n" for m
      using that Suc.prems(1) Suc.prems(3) [of m] ne [of m] by simp
  qed (use Suc.prems in simp_all)
  moreover have "?b \<notin> set (kfree s i)"
    by (rule Suc.prems(3)) simp_all
  moreover have "[idx..<idx + Suc n] = idx # [idx + 1..<idx + 1 + n]"
    by (simp add: upt_conv_Cons)
  ultimately show ?case
    using Suc.prems(1,2) by (simp add: get_desc_def desc_table_def set_desc_def Let_def)
qed

text \<open>Page \<open>j\<close> becomes an arena of size \<open>i\<close>; all its blocks are free.\<close>

lemma kheap_add:
  assumes h: "kheap s C" and i: "i < DESC_CNT" and j: "C j = None" "j < heap_size s"
    and s': "mem_inv s'" "kva s' = kva s" "heap_size s' = heap_size s" "heap_frame s' j \<noteq> None"
      "\<And>l. l < heap_size s \<Longrightarrow> l \<noteq> j \<Longrightarrow> heap_frame s' l = heap_frame s l"
      "k_block_descs s' = (k_block_descs s)[i := (k_block_descs s ! i)\<lparr>free_list := map (blk s j i) [0..<bpa i]\<rparr>]"
      "arenas s' = (arenas s)(kva s j := \<lparr>arena_desc = Some (NULL, i), arena_cnt = of_nat (bpa i), arena_large = False\<rparr>)"
    and e: "kfree s i = []"
  shows "kheap s' (C(j \<mapsto> i))" "allocated s' (C(j \<mapsto> i)) = allocated s C"
proof -
  note inv = kheapD(1) [OF h] and ds = kheapD(2) [OF h]
  note pb = page_blocks_cong [OF s'(2)]
  note cp = card_page_blocks [OF inv j(2) i]
  have len: "length (k_block_descs s) = DESC_CNT"
    using ds by (simp add: descs_ok_def)
  have kf: "kfree s' l = (if l = i then map (blk s j i) [0..<bpa i] else kfree s l)" if "l < DESC_CNT" for l
    using that len s'(6) by simp
  have setj: "set (map (blk s j i) [0..<bpa i]) = page_blocks s j i"
    by (auto simp: page_blocks_def)
  have other: "page_blocks s l i \<inter> page_blocks s j i = {}" if "l < heap_size s" "l \<noteq> j" for l
    using page_blocks_other [OF inv that(1) j(2) i i] that(2) by blast
  show "kheap s' (C(j \<mapsto> i))"
  proof (rule kheapI)
    show "descs_ok (k_block_descs s')"
      unfolding s'(6) by (rule descs_ok_update [OF ds i])
    show "arena_ok s' l t" if lt: "(C(j \<mapsto> i)) l = Some t" for l t
    proof (cases "l = j")
      case True
      have "unat (of_nat (bpa i) :: u32) = bpa i"
        using sizes(5) [OF i] by (simp only: unat_of_nat) simp
      moreover have "page_blocks s j i \<inter> set (kfree s' i) = page_blocks s j i"
        using kf [OF i] setj by simp
      ultimately show ?thesis
        using lt True s' j(2) i cp(2) pb by (simp add: arena_ok_def)
    next
      case False
      then have "C l = Some t"
        using lt by simp
      note o = arena_okD [OF kheapD(3) [OF h this]]
      have "kva s l \<noteq> kva s j"
        using kva_inj [OF inv o(2) j(2)] False by blast
      moreover have "page_blocks s l t \<inter> set (kfree s' t) = page_blocks s l t \<inter> set (kfree s t)"
        using kf [OF o(1)] setj other [OF o(2) False] e by auto
      ultimately show ?thesis
        using o s' False pb by (simp add: arena_ok_def)
    qed
    show "distinct (kfree s' l)" if "l < DESC_CNT" for l
      using that kf kheapD(4) [OF h that] cp(1) by (simp add: distinct_map lessThan_atLeast0)
    show "\<exists>k. (C(j \<mapsto> i)) k = Some l \<and> b \<in> page_blocks s' k l" if lb: "l < DESC_CNT" "b \<in> set (kfree s' l)" for l b
    proof (cases "l = i")
      case True
      then show ?thesis
        using lb kf setj pb by auto
    next
      case False
      then obtain k where "C k = Some l" "b \<in> page_blocks s k l"
        using lb kf [OF lb(1)] kheapD(5) [OF h lb(1), of b] by auto
      then show ?thesis
        using j(1) pb by (intro exI [of _ k]) auto
    qed
  qed (rule s'(1))
  have dom: "t < DESC_CNT" "l < heap_size s" "l \<noteq> j" if "C l = Some t" for l t
    using arena_okD(1,2) [OF kheapD(3) [OF h that]] that j(1) by auto
  have "(b, t) \<in> allocated s' (C(j \<mapsto> i)) \<longleftrightarrow> (b, t) \<in> allocated s C" for b t
  proof -
    have "(b, t) \<in> allocated s' (C(j \<mapsto> i)) \<longleftrightarrow>
        (\<exists>l. C l = Some t \<and> b \<in> page_blocks s l t \<and> b \<notin> set (kfree s' t))"
    proof
      assume "(b, t) \<in> allocated s' (C(j \<mapsto> i))"
      then obtain l where l: "(C(j \<mapsto> i)) l = Some t" "b \<in> page_blocks s l t" "b \<notin> set (kfree s' t)"
        by (auto simp: allocated_def pb)
      then have "l \<noteq> j"
        using kf [OF i] setj by auto
      then show "\<exists>l. C l = Some t \<and> b \<in> page_blocks s l t \<and> b \<notin> set (kfree s' t)"
        using l by auto
    next
      assume "\<exists>l. C l = Some t \<and> b \<in> page_blocks s l t \<and> b \<notin> set (kfree s' t)"
      then obtain l where l: "C l = Some t" "b \<in> page_blocks s l t" "b \<notin> set (kfree s' t)"
        by blast
      then show "(b, t) \<in> allocated s' (C(j \<mapsto> i))"
        using dom(3) [OF l(1)] by (auto simp: allocated_def pb intro!: exI [of _ l])
    qed
    also have "\<dots> \<longleftrightarrow> (b, t) \<in> allocated s C"
    proof -
      have "b \<notin> set (kfree s' t) \<longleftrightarrow> b \<notin> set (kfree s t)" if "C l = Some t" "b \<in> page_blocks s l t" for l
        using kf [OF dom(1) [OF that(1)]] e setj other [OF dom(2,3) [OF that(1)]] that(2) by auto
      then show ?thesis
        unfolding allocated_def mem_Collect_eq prod.case by blast
    qed
    finally show ?thesis .
  qed
  then show "allocated s' (C(j \<mapsto> i)) = allocated s C"
    by auto
qed

lemma new_arena_ok:
  assumes h: "kheap s C" and i: "i < DESC_CNT" and e: "kfree s i = []"
    and run: "first_run (vaddr_bitmap (kernel_vaddr s)) j 1" and free: "pool_free (kernel_pool s) \<noteq> {}"
  shows "\<exists>s'. new_arena PF_KERNEL (NULL, i) s = Ret True s' \<and> kheap s' (C(j \<mapsto> i)) \<and> kfree s' i \<noteq> [] \<and>
    allocated s' (C(j \<mapsto> i)) = allocated s C \<and> blocks_kept s C s' \<and> heap_only s s'"
proof -
  note inv = kheapD(1) [OF h]
  have j: "j < heap_size s"
    using run by (simp add: first_run_def heap_size_def)
  have "heap_frame s j = None"
    using j run mem_invD(13) [OF inv j] by (auto simp: first_run_def free_run_def)
  then have Cj: "C j = None"
    using arena_okD(3) [OF kheapD(3) [OF h, of j]] by (cases "C j") auto
  have "1 \<le> card (pool_free (kernel_pool s))"
    using free by (simp add: Suc_le_eq card_gt_0_iff)
  then obtain s1 fs where s1': "malloc_page PF_KERNEL 1 s = Ret (kva s j) s1" "mem_inv s1"
    "\<forall>i < 1. heap_frame s1 (j + i) = Some (pool_page (kernel_pool s) (fs ! i))"
    "\<forall>i < heap_size s. i < j \<or> j + 1 \<le> i \<longrightarrow> heap_frame s1 i = heap_frame s i"
    "kva s1 = kva s" "heap_size s1 = heap_size s" "data_kept s s1"
    "s1 = s\<lparr>pmem := pmem s1, kernel_pool := kernel_pool s1, kernel_vaddr := kernel_vaddr s1\<rparr>"
    using malloc_kernel [OF inv _ _ run] by (simp only:) (metis one_less_numeral_iff semiring_norm(76) zero_less_one num.distinct(1))
  define f where "f = pool_page (kernel_pool s) (fs ! 0)"
  have s1: "malloc_page PF_KERNEL 1 s = Ret (kva s j) s1" "mem_inv s1"
    "heap_frame s1 j = Some f" "\<And>l. l < heap_size s \<Longrightarrow> l \<noteq> j \<Longrightarrow> heap_frame s1 l = heap_frame s l"
    "kva s1 = kva s" "heap_size s1 = heap_size s" "data_kept s s1"
    "s1 = s\<lparr>pmem := pmem s1, kernel_pool := kernel_pool s1, kernel_vaddr := kernel_vaddr s1\<rparr>"
  proof -
    show "heap_frame s1 j = Some f"
      using s1'(3) by (simp add: f_def)
    show "heap_frame s1 l = heap_frame s l" if "l < heap_size s" "l \<noteq> j" for l
      using s1'(4) that by (cases "l < j") simp_all
  qed (use s1' in blast)+
  obtain m where m: "vzero (kva s j) 1024 s1 = Inr (s1\<lparr>pmem := m\<rparr>)"
    "\<And>x. \<not> no_table (frame x) s1 \<Longrightarrow> m x = pmem s1 x"
    "\<And>x. frame x \<noteq> f \<Longrightarrow> m x = pmem s1 x"
    using zero_heap [OF s1(2), of j 1 "\<lambda>_. f"] s1(3,5,6) j by auto
  note d = mem_inv_data [OF s1(2) m(2), unfolded s1(5,6)]
  let ?d = "(k_block_descs s)[i := (k_block_descs s ! i)\<lparr>free_list := map (blk s j i) [0..<bpa i]\<rparr>]"
  let ?a = "\<lparr>arena_desc = Some (NULL, i), arena_cnt = of_nat (bpa i), arena_large = False\<rparr>"
  define s' where "s' = s1\<lparr>pmem := m, arenas := (arenas s)(kva s j := ?a), k_block_descs := ?d\<rparr>"
  have f1: "k_block_descs s1 = k_block_descs s" "arenas s1 = arenas s" "iflag s1 = iflag s"
    by (subst s1(8), simp)+
  have len: "i < length (k_block_descs s)" "block_size (k_block_descs s ! i) = bsz i" "blocks_per_arena (k_block_descs s ! i) = bpa i"
    using kheapD(2) [OF h] i by (simp_all add: descs_ok_def)
  have inj: "inj_on (arena2block (kva s j) (bsz i)) {0..<0 + bpa i}"
    using card_page_blocks(1) [OF inv j i] by (simp add: blk_def [abs_def] lessThan_atLeast0)
  have run': "new_arena PF_KERNEL (NULL, i) s = Ret True s'"
  proof -
    let ?s3 = "s1\<lparr>pmem := m, arenas := (arenas s)(kva s j := ?a), iflag := False\<rparr>"
    have sp: "split_arena (NULL, i) (kva s j) 0 (bpa i) ?s3 = Ret () (?s3\<lparr>k_block_descs := (k_block_descs ?s3)[i := (k_block_descs ?s3 ! i)
        \<lparr>free_list := kfree ?s3 i @ map (arena2block (kva s j) (bsz i)) [0..<0 + bpa i]\<rparr>]\<rparr>)"
      by (rule split_arena_run) (use len inj e f1 in simp_all)
    have "blk s j i = arena2block (kva s j) (bsz i)"
      by (simp add: blk_def fun_eq_iff)
    then show ?thesis
      using s1(1) m(1) kva_nonzero [OF inv j] sp f1 len e
      by (simp add: new_arena_def PG_SIZE_def get_desc_def desc_table_def set_arena_def intr_eqs s'_def)
  qed
  have c: "mem_inv s'" "heap_frame s' = heap_frame (s1\<lparr>pmem := m\<rparr>)" "kva s' = kva s" "heap_size s' = heap_size s"
    "translate s' = translate s1"
    using mem_inv_cong [of s' "s1\<lparr>pmem := m\<rparr>"] d by (simp_all add: s'_def fun_eq_iff)
  have hf: "heap_frame s' l = heap_frame s1 l" if "l < heap_size s" for l
    using d(2) [of l] that c(2) by simp
  have hj: "heap_frame s' j \<noteq> None" "\<And>l. l < heap_size s \<Longrightarrow> l \<noteq> j \<Longrightarrow> heap_frame s' l = heap_frame s l"
    using hf j s1(3,4) by simp_all
  have da: "k_block_descs s' = ?d" "arenas s' = (arenas s)(kva s j := ?a)"
    by (simp_all add: s'_def)
  note kheap_add [OF h i Cj j c(1,3,4) hj da e]
  moreover have "kfree s' i \<noteq> []"
    using len(1) sizes(4) [OF i] by (simp add: s'_def)
  moreover have "blocks_kept s C s'"
  proof -
    have "vread s' (x + of_nat (4 * w)) = vread s (x + of_nat (4 * w))"
      if xt: "(x, t) \<in> allocated s C" "w < bsz t div 4" for x t w
    proof -
      obtain k' idx' f' where k': "C k' = Some t" "arena_ok s k' t" "idx' < bpa t" "x = blk s k' t idx'" "heap_frame s k' = Some f'"
        "x \<in> page_blocks s k' t" "x \<notin> set (kfree s t)"
        by (rule allocatedD [OF h xt(1)])
      note k = arena_okD(1,2) [OF k'(2)]
      have w: "4 * w < bsz t"
        using xt(2) by simp
      have nj: "k' \<noteq> j"
        using k'(1) Cj by auto
      have f1': "heap_frame s1 k' = Some f'" "k' < heap_size s1"
        using s1(4) [OF k(2) nj] k'(5) k(2) s1(6) by simp_all
      let ?o = "of_nat (12 + idx' * bsz t + 4 * w) :: u32"
      have b: "blk s1 = blk s"
        by (rule page_blocks_cong(2) [OF s1(5)])
      have t: "translate s (x + of_nat (4 * w)) = Some (f' + ?o)" "frame (f' + ?o) = f'"
        using block_word(1,2) [OF inv k(2) k'(5) k(1) k'(3) w] k'(4) by simp_all
      have t': "translate s' (x + of_nat (4 * w)) = Some (f' + ?o)"
        using block_word(1) [OF s1(2) f1'(2,1) k(1) k'(3) w] k'(4) b c(5) by simp
      have "f' \<noteq> f"
        using mem_invD(15) [OF s1(2) f1'(2), of j] f1'(1) s1(3,6) j nj by auto
      then have "m (f' + ?o) = pmem s1 (f' + ?o)"
        using t(2) by (intro m(3)) simp
      moreover have "no_table f' s"
        using mem_invD(14) [OF inv k(2) k'(5)] by blast
      then have "pmem s1 (f' + ?o) = pmem s (f' + ?o)"
        using s1(7) t(2) by (simp add: data_kept_def)
      ultimately show ?thesis
        using t t' by (simp add: vread_def s'_def)
    qed
    then show ?thesis
      by (auto simp: blocks_kept_def)
  qed
  moreover have "heap_only s s'"
  proof -
    have "s1\<lparr>pmem := m, arenas := x, k_block_descs := y\<rparr> = s\<lparr>pmem := m, kernel_pool := kernel_pool s1, kernel_vaddr := kernel_vaddr s1,
        k_block_descs := y, arenas := x\<rparr>" for x y
      by (subst s1(8)) simp
    moreover have "pool_area (kernel_pool s1) = pool_area (kernel_pool s)"
      using s1(7) by (simp add: data_kept_def)
    ultimately show ?thesis
      using c(3) by (simp add: heap_only_def s'_def)
  qed
  ultimately show ?thesis
    using run' by blast
qed

lemma kheap_cong:
  assumes "pmem s' = pmem s" "cr3 s' = cr3 s" "kernel_vaddr s' = kernel_vaddr s" "kernel_pool s' = kernel_pool s"
    "user_pool s' = user_pool s" "k_block_descs s' = k_block_descs s" "arenas s' = arenas s"
  shows "kheap s' = kheap s" "allocated s' = allocated s" "vread s' = vread s"
proof -
  note c = mem_inv_cong [OF assms(1-5)]
  note pb = page_blocks_cong [OF c(3)]
  show "kheap s' = kheap s" "allocated s' = allocated s"
    unfolding kheap_def allocated_def arena_ok_def fun_eq_iff c pb assms by simp_all
  show "vread s' = vread s"
    by (rule vread_cong [OF c(5) assms(1)])
qed

lemma heap_only_trans:
  assumes "heap_only s s1" "heap_only s1 s2"
  shows "heap_only s s2"
proof -
  have a: "s1 = s\<lparr>pmem := pmem s1, kernel_pool := kernel_pool s1, kernel_vaddr := kernel_vaddr s1,
      k_block_descs := k_block_descs s1, arenas := arenas s1\<rparr>"
    and b: "s2 = s1\<lparr>pmem := pmem s2, kernel_pool := kernel_pool s2, kernel_vaddr := kernel_vaddr s2,
      k_block_descs := k_block_descs s2, arenas := arenas s2\<rparr>"
    using assms by (simp_all add: heap_only_def)
  have "s1\<lparr>pmem := x, kernel_pool := p, kernel_vaddr := v, k_block_descs := d, arenas := r\<rparr> =
      s\<lparr>pmem := x, kernel_pool := p, kernel_vaddr := v, k_block_descs := d, arenas := r\<rparr>" for x p v d r
    by (subst a) simp
  then have "s2 = s\<lparr>pmem := pmem s2, kernel_pool := kernel_pool s2, kernel_vaddr := kernel_vaddr s2,
      k_block_descs := k_block_descs s2, arenas := arenas s2\<rparr>"
    using b by simp
  then show ?thesis
    using assms unfolding heap_only_def by (metis (no_types, lifting))
qed

lemma heap_only_rest:
  assumes "heap_only s s'"
  shows "locks s' = locks s" "semas s' = semas s" "esp s' = esp s" "tasks s' = tasks s"
    "pool_lock (kernel_pool s') = pool_lock (kernel_pool s)" "vaddr_start (kernel_vaddr s') = vaddr_start (kernel_vaddr s)"
proof -
  have a: "s' = s\<lparr>pmem := pmem s', kernel_pool := kernel_pool s', kernel_vaddr := kernel_vaddr s',
      k_block_descs := k_block_descs s', arenas := arenas s'\<rparr>"
    using assms by (simp add: heap_only_def)
  show "locks s' = locks s" "semas s' = semas s" "esp s' = esp s" "tasks s' = tasks s"
    by (subst a, simp)+
  show "pool_lock (kernel_pool s') = pool_lock (kernel_pool s)"
    using assms by (simp add: heap_only_def pool_area_def)
  have "kva s' 0 = kva s 0"
    using assms by (simp add: heap_only_def)
  then show "vaddr_start (kernel_vaddr s') = vaddr_start (kernel_vaddr s)"
    by (simp add: kva_def)
qed

lemma heap_only_lock: "heap_only s s' \<Longrightarrow> lock_held l s \<Longrightarrow> lock_held l s'"
  using heap_only_rest [of s s'] by (simp add: lock_held_def running_thread_def)

lemma desc_fit_ok:
  assumes "i < length ds" "sz \<le> block_size (ds ! i)"
  shows "desc_fit ds sz < length ds" "sz \<le> block_size (ds ! desc_fit ds sz)"
    "j < desc_fit ds sz \<Longrightarrow> block_size (ds ! j) < sz"
proof -
  have "desc_fit ds sz < length ds \<and> sz \<le> block_size (ds ! desc_fit ds sz) \<and>
      (\<forall>j < desc_fit ds sz. block_size (ds ! j) < sz)"
    using assms
  proof (induction ds arbitrary: i)
    case (Cons d ds)
    then show ?case
      by (cases i) (auto simp: less_Suc_eq_0_disj)
  qed simp
  then show "desc_fit ds sz < length ds" "sz \<le> block_size (ds ! desc_fit ds sz)"
    "j < desc_fit ds sz \<Longrightarrow> block_size (ds ! j) < sz"
    by blast+
qed

lemma malloc_small:
  assumes h: "kheap s C" and sz: "0 < sz" "sz \<le> 1024"
    and i: "i = desc_fit (k_block_descs s) (unat sz)"
    and room: "kfree s i \<noteq> [] \<or> (\<exists>j. first_run (vaddr_bitmap (kernel_vaddr s)) j 1) \<and> pool_free (kernel_pool s) \<noteq> {}"
  shows "\<exists>b s' C'. malloc_locked PF_KERNEL NULL sz s = Ret b s' \<and> kheap s' C' \<and> (b, i) \<notin> allocated s C \<and>
    allocated s' C' = insert (b, i) (allocated s C) \<and> blocks_kept s C s' \<and>
    (\<forall>w < bsz i div 4. vread s' (b + of_nat (4 * w)) = Inr 0) \<and> heap_only s s' \<and> i < DESC_CNT \<and>
    unat sz \<le> bsz i \<and> (\<forall>j < i. bsz j < unat sz)"
proof -
  note ds = kheapD(2) [OF h, unfolded descs_ok_def]
  have u: "unat sz \<le> 1024" "\<not> 1024 < sz"
    using sz(2) by (simp_all add: word_le_nat_alt not_less)
  have six: "(6::nat) < length (k_block_descs s)" "unat sz \<le> block_size (k_block_descs s ! 6)"
    using ds u(1) by (simp_all add: DESC_CNT_def bsz_def)
  note fit = desc_fit_ok [OF six, folded i]
  have i7: "i < DESC_CNT"
    using fit(1) ds by simp
  have fit': "unat sz \<le> bsz i" "\<forall>j < i. bsz j < unat sz"
    using fit(2,3) ds i7 by (simp, metis order.strict_trans)
  show ?thesis
  proof (cases "kfree s i")
    case (Cons b rest)
    from take_block_ok [OF h i7 this] obtain s' where s': "take_block (NULL, i) s = Ret b s'" "kheap s' C"
      "(b, i) \<notin> allocated s C" "allocated s' C = insert (b, i) (allocated s C)" "blocks_kept s C s'"
      "\<forall>w < bsz i div 4. vread s' (b + of_nat (4 * w)) = Inr 0" "heap_only s s'"
      by blast
    have "malloc_locked PF_KERNEL NULL sz s = Ret b s'"
      using s'(1) u fit(1) Cons i by (simp add: malloc_locked_def desc_table_def Let_def)
    then show ?thesis
      using s' i7 fit' by blast
  next
    case Nil
    then obtain j where j: "first_run (vaddr_bitmap (kernel_vaddr s)) j 1" "pool_free (kernel_pool s) \<noteq> {}"
      using room by auto
    from new_arena_ok [OF h i7 Nil j] obtain s1 where s1: "new_arena PF_KERNEL (NULL, i) s = Ret True s1" "kheap s1 (C(j \<mapsto> i))"
      "kfree s1 i \<noteq> []" "allocated s1 (C(j \<mapsto> i)) = allocated s C" "blocks_kept s C s1" "heap_only s s1"
      by blast
    obtain b rest where b: "kfree s1 i = b # rest"
      using s1(3) by (cases "kfree s1 i") auto
    from take_block_ok [OF s1(2) i7 b] obtain s' where s': "take_block (NULL, i) s1 = Ret b s'" "kheap s' (C(j \<mapsto> i))"
      "(b, i) \<notin> allocated s C" "allocated s' (C(j \<mapsto> i)) = insert (b, i) (allocated s C)" "blocks_kept s1 (C(j \<mapsto> i)) s'"
      "\<forall>w < bsz i div 4. vread s' (b + of_nat (4 * w)) = Inr 0" "heap_only s1 s'"
      unfolding s1(4) by blast
    have "malloc_locked PF_KERNEL NULL sz s = Ret b s'"
      using s'(1) s1(1) u fit(1) Nil i by (simp add: malloc_locked_def desc_table_def Let_def)
    moreover have "blocks_kept s C s'"
      using s1(5) s'(5) unfolding blocks_kept_def s1(4) by fastforce
    ultimately show ?thesis
      using s' i7 fit' heap_only_trans [OF s1(6) s'(7)] by blast
  qed
qed

subsection \<open>Giving a block back\<close>

lemma unlink_blocks_run:
  assumes "i < length (k_block_descs s)" "block_size (k_block_descs s ! i) = bs" "distinct (kfree s i)"
    and "\<And>m. idx \<le> m \<Longrightarrow> m < idx + n \<Longrightarrow> arena2block a bs m \<in> set (kfree s i)"
    and "inj_on (arena2block a bs) {idx..<idx + n}"
  shows "unlink_blocks (NULL, i) a idx n s = Ret () (s\<lparr>k_block_descs := (k_block_descs s)[i := (k_block_descs s ! i)
    \<lparr>free_list := filter (\<lambda>x. x \<notin> arena2block a bs ` {idx..<idx + n}) (kfree s i)\<rparr>]\<rparr>)"
  using assms
proof (induction n arbitrary: idx s)
  case 0
  then show ?case by simp
next
  case (Suc n)
  let ?b = "arena2block a bs idx"
  let ?s = "s\<lparr>k_block_descs := (k_block_descs s)[i := (k_block_descs s ! i)\<lparr>free_list := remove1 ?b (kfree s i)\<rparr>]\<rparr>"
  have ne: "arena2block a bs m \<noteq> ?b" if "idx + 1 \<le> m" "m < idx + Suc n" for m
    using Suc.prems(5) that by (auto dest: inj_onD [of _ _ m idx])
  have "unlink_blocks (NULL, i) a (idx + 1) n ?s = Ret () (?s\<lparr>k_block_descs := (k_block_descs ?s)[i := (k_block_descs ?s ! i)
      \<lparr>free_list := filter (\<lambda>x. x \<notin> arena2block a bs ` {idx + 1..<idx + 1 + n}) (kfree ?s i)\<rparr>]\<rparr>)"
  proof (rule Suc.IH)
    show "inj_on (arena2block a bs) {idx + 1..<idx + 1 + n}"
      using Suc.prems(5) by (rule inj_on_subset) auto
    show "arena2block a bs m \<in> set (kfree ?s i)" if "idx + 1 \<le> m" "m < idx + 1 + n" for m
      using that Suc.prems(1) Suc.prems(4) [of m] ne [of m] by simp
  qed (use Suc.prems in simp_all)
  moreover have "?b \<in> set (kfree s i)"
    by (rule Suc.prems(4)) simp_all
  moreover have "filter (\<lambda>x. x \<notin> arena2block a bs ` {idx + 1..<idx + 1 + n}) (remove1 ?b (kfree s i)) =
      filter (\<lambda>x. x \<notin> arena2block a bs ` {idx..<idx + Suc n}) (kfree s i)"
  proof -
    have "{idx..<idx + Suc n} = insert idx {idx + 1..<idx + 1 + n}"
      by auto
    then show ?thesis
      unfolding distinct_remove1_removeAll [OF Suc.prems(3)] removeAll_filter_not_eq
      by (auto intro: filter_cong)
  qed
  ultimately show ?case
    using Suc.prems(1,2) by (simp add: get_desc_def desc_table_def set_desc_def Let_def)
qed

text \<open>Page \<open>k\<close>, all of whose blocks are free, stops being an arena.\<close>

lemma kheap_remove:
  assumes h: "kheap s C" and k: "C k = Some i" "page_blocks s k i \<subseteq> set (kfree s i)"
    and s': "mem_inv s'" "kva s' = kva s" "heap_size s' = heap_size s"
      "\<And>l. l < heap_size s \<Longrightarrow> l \<noteq> k \<Longrightarrow> heap_frame s' l = heap_frame s l"
      "k_block_descs s' = (k_block_descs s)[i := (k_block_descs s ! i)\<lparr>free_list := filter (\<lambda>x. x \<notin> page_blocks s k i) (kfree s i)\<rparr>]"
      "arenas s' = arenas s"
  shows "kheap s' (C(k := None))" "allocated s' (C(k := None)) = allocated s C"
proof -
  note inv = kheapD(1) [OF h] and ds = kheapD(2) [OF h] and a = arena_okD [OF kheapD(3) [OF h k(1)]]
  note pb = page_blocks_cong [OF s'(2)]
  have len: "length (k_block_descs s) = DESC_CNT"
    using ds by (simp add: descs_ok_def)
  have kf: "kfree s' l = (if l = i then filter (\<lambda>x. x \<notin> page_blocks s k i) (kfree s i) else kfree s l)" if "l < DESC_CNT" for l
    using that len s'(5) by simp
  have other: "page_blocks s l i \<inter> page_blocks s k i = {}" if "l < heap_size s" "l \<noteq> k" for l
    using page_blocks_other [OF inv that(1) a(2) a(1) a(1)] that(2) by blast
  have dom: "t < DESC_CNT" "l < heap_size s" if "C l = Some t" for l t
    using arena_okD(1,2) [OF kheapD(3) [OF h that]] by auto
  have mem: "b \<in> set (kfree s' t) \<longleftrightarrow> b \<in> set (kfree s t)" if "C l = Some t" "l \<noteq> k" "b \<in> page_blocks s l t" for b l t
    using kf [OF dom(1) [OF that(1)]] other [OF dom(2) [OF that(1)] that(2)] that(3) by auto
  show "kheap s' (C(k := None))"
  proof (rule kheapI)
    show "descs_ok (k_block_descs s')"
      unfolding s'(5) by (rule descs_ok_update [OF ds a(1)])
    show "arena_ok s' l t" if lt: "(C(k := None)) l = Some t" for l t
    proof -
      have l: "C l = Some t" "l \<noteq> k"
        using lt by (auto split: if_splits)
      have "page_blocks s l t \<inter> set (kfree s' t) = page_blocks s l t \<inter> set (kfree s t)"
        using mem [OF l] by auto
      then show ?thesis
        using arena_okD [OF kheapD(3) [OF h l(1)]] s' l(2) pb by (simp add: arena_ok_def)
    qed
    show "distinct (kfree s' l)" if "l < DESC_CNT" for l
      using that kf kheapD(4) [OF h that] kheapD(4) [OF h a(1)] by simp
    show "\<exists>l. (C(k := None)) l = Some t \<and> b \<in> page_blocks s' l t" if tb: "t < DESC_CNT" "b \<in> set (kfree s' t)" for t b
    proof -
      have "b \<in> set (kfree s t)" and n: "t = i \<Longrightarrow> b \<notin> page_blocks s k i"
        using tb kf [OF tb(1)] by (auto split: if_splits)
      then obtain l where "C l = Some t" "b \<in> page_blocks s l t"
        using kheapD(5) [OF h tb(1)] by blast
      then show ?thesis
        using n k(1) pb by (intro exI [of _ l]) auto
    qed
  qed (rule s'(1))
  have "(b, t) \<in> allocated s' (C(k := None)) \<longleftrightarrow> (b, t) \<in> allocated s C" for b t
  proof -
    have "(\<exists>l. (C(k := None)) l = Some t \<and> b \<in> page_blocks s l t \<and> b \<notin> set (kfree s' t)) \<longleftrightarrow>
        (\<exists>l. C l = Some t \<and> l \<noteq> k \<and> b \<in> page_blocks s l t \<and> b \<notin> set (kfree s t))"
      using mem by (auto split: if_splits)
    also have "\<dots> \<longleftrightarrow> (\<exists>l. C l = Some t \<and> b \<in> page_blocks s l t \<and> b \<notin> set (kfree s t))"
      using k by (metis option.inject subsetD)
    finally show ?thesis
      by (simp add: allocated_def pb)
  qed
  then show "allocated s' (C(k := None)) = allocated s C"
    by auto
qed

text \<open>What freeing block \<open>b\<close> of the arena in heap page \<open>k\<close> does to the page. When all other blocks of the
  arena are free, the page is given back: it is no longer mapped, its frame is free in the pool again,
  its bit in the bitmap of virtual addresses is clear, and the free list has none of its blocks.
  Otherwise nothing is given back, and the block is the last element of the free list.\<close>

definition last_block :: "'a memory_scheme \<Rightarrow> nat \<Rightarrow> nat \<Rightarrow> addr \<Rightarrow> bool" where
  "last_block s k i b \<longleftrightarrow> page_blocks s k i \<subseteq> insert b (set (kfree s i))"

definition page_given_back :: "'a memory_scheme \<Rightarrow> nat \<Rightarrow> 'a memory_scheme \<Rightarrow> bool" where
  "page_given_back s k s' \<longleftrightarrow>
     (\<exists>q. heap_frame s k = Some (pool_page (kernel_pool s) q) \<and> q \<notin> pool_free (kernel_pool s) \<and>
        pool_free (kernel_pool s') = insert q (pool_free (kernel_pool s))) \<and>
     heap_frame s' k = None \<and>
     (\<forall>j. bitmap_bit (vaddr_bitmap (kernel_vaddr s')) j = (j \<noteq> k \<and> bitmap_bit (vaddr_bitmap (kernel_vaddr s)) j))"

definition freed_in :: "'a memory_scheme \<Rightarrow> nat \<Rightarrow> nat \<Rightarrow> addr \<Rightarrow> 'a memory_scheme \<Rightarrow> bool" where
  "freed_in s k i b s' \<longleftrightarrow>
     (if last_block s k i b
      then page_given_back s k s' \<and> kfree s' i = filter (\<lambda>x. x \<notin> page_blocks s k i) (kfree s i)
      else kernel_pool s' = kernel_pool s \<and> kernel_vaddr s' = kernel_vaddr s \<and> kfree s' i = kfree s i @ [b])"

definition arenas_after :: "'a memory_scheme \<Rightarrow> (nat \<Rightarrow> nat option) \<Rightarrow> nat \<Rightarrow> nat \<Rightarrow> addr \<Rightarrow> (nat \<Rightarrow> nat option)" where
  "arenas_after s C k i b = (if last_block s k i b then C(k := None) else C)"

lemma free_small:
  assumes h: "kheap s C" and b: "(b, i) \<in> allocated s C"
  shows "\<exists>s' k C'. free_locked PF_KERNEL b s = Ret () s' \<and> C k = Some i \<and> b \<in> page_blocks s k i \<and>
    C' = arenas_after s C k i b \<and> kheap s' C' \<and> freed_in s k i b s' \<and>
    allocated s' C' = allocated s C - {(b, i)} \<and> blocks_kept s' C' s \<and> heap_only s s'"
proof -
  note inv = kheapD(1) [OF h]
  obtain k idx f where k: "C k = Some i" "arena_ok s k i" "idx < bpa i" "b = blk s k i idx" "heap_frame s k = Some f"
    "b \<in> page_blocks s k i" "b \<notin> set (kfree s i)"
    by (rule allocatedD [OF h b])
  note a = arena_okD [OF k(2)]
  note cp = card_page_blocks [OF inv a(2,1)]
  have b2a: "block2arena b = kva s k"
    by (rule block2arena_blk [OF inv a(2,1) k(6)])
  have len: "i < length (k_block_descs s)" "block_size (k_block_descs s ! i) = bsz i" "blocks_per_arena (k_block_descs s ! i) = bpa i"
    using kheapD(2) [OF h] a(1) by (simp_all add: descs_ok_def)
  let ?fl = "kfree s i @ [b]" and ?c = "arena_cnt (arenas s (kva s k)) + 1"
  let ?d1 = "(k_block_descs s)[i := (k_block_descs s ! i)\<lparr>free_list := ?fl\<rparr>]"
  define s1 where "s1 = s\<lparr>k_block_descs := ?d1, arenas := (arenas s)(kva s k := (arenas s (kva s k))\<lparr>arena_cnt := ?c\<rparr>)\<rparr>"
  have c1: "mem_inv s1" "heap_frame s1 = heap_frame s" "kva s1 = kva s" "heap_size s1 = heap_size s" "translate s1 = translate s"
    using mem_inv_cong [of s1 s] inv by (simp_all add: s1_def)
  have int: "page_blocks s k i \<inter> set ?fl = insert b (page_blocks s k i \<inter> set (kfree s i))"
    using k(6) by auto
  have cnt: "unat ?c = card (page_blocks s k i \<inter> set ?fl)"
  proof -
    have "card (page_blocks s k i \<inter> set (kfree s i)) \<le> 255"
      using card_mono [OF cp(3), of "page_blocks s k i \<inter> set (kfree s i)"] cp(2) sizes(5) [OF a(1)] by simp
    then have "unat ?c = unat (arena_cnt (arenas s (kva s k))) + 1"
      using a(6) by (simp add: unat_word_ariths(1))
    then show ?thesis
      unfolding int using a(6) k(7) by simp
  qed
  have fl: "distinct ?fl" "x \<notin> page_blocks s k i \<Longrightarrow> x \<in> set ?fl \<longleftrightarrow> x \<in> set (kfree s i)" for x
    using kheapD(4) [OF h a(1)] k(6,7) by auto
  have d1: "k_block_descs s1 = ?d1" "arenas s1 = (arenas s)(kva s k := (arenas s (kva s k))\<lparr>arena_cnt := ?c\<rparr>)"
    by (simp_all add: s1_def)
  have hf1: "heap_frame s1 j = heap_frame s j" for j
    by (simp add: c1)
  note ch = kheap_change [OF h k(1) c1(1,3,4) hf1 d1 fl cnt]
  have al1: "allocated s1 C = allocated s C - {(b, i)}"
  proof -
    have "(x, i) \<in> allocated s C \<longleftrightarrow> x \<notin> set (kfree s i)" if "x \<in> page_blocks s k i" for x
      using that k(1) by (auto simp: allocated_def)
    then have "(x, t) \<in> allocated s1 C \<longleftrightarrow> (x, t) \<in> allocated s C - {(b, i)}" for x t
      using k(6) by (auto simp: ch(2))
    then show ?thesis
      by auto
  qed
  have v1: "vread s1 = vread s"
    by (rule vread_cong [OF c1(5)]) (simp add: s1_def)
  have ho: "heap_only s s1"
    using c1(3) by (simp add: heap_only_def s1_def)
  have run: "free_locked PF_KERNEL b s = whenK (unat ?c = bpa i)
      (thenK (unlink_blocks (NULL, i) (kva s k) 0 (bpa i)) (mfree_page PF_KERNEL (kva s k) 1)) s1"
    using b2a a(4) len by (simp add: free_locked_def set_desc_def set_arena_def get_desc_def desc_table_def Let_def s1_def thenK_def bindK_def)
  have last: "last_block s k i b \<longleftrightarrow> unat ?c = bpa i"
  proof
    assume "last_block s k i b"
    then have "page_blocks s k i \<inter> set ?fl = page_blocks s k i"
      by (auto simp: last_block_def)
    then show "unat ?c = bpa i"
      using cnt cp(2) by simp
  next
    assume "unat ?c = bpa i"
    then have "page_blocks s k i \<inter> set ?fl = page_blocks s k i"
      using cnt cp(2,3) by (intro card_subset_eq) auto
    then show "last_block s k i b"
      by (auto simp: last_block_def)
  qed
  show ?thesis
  proof (cases "unat ?c = bpa i")
    case False
    then have "free_locked PF_KERNEL b s = Ret () s1"
      using run by simp
    moreover have "freed_in s k i b s1" "arenas_after s C k i b = C"
      using False last len(1) by (simp_all add: freed_in_def arenas_after_def s1_def)
    ultimately show ?thesis
      using ch(1) al1 v1 ho k(1,6) by (intro exI [of _ s1] exI [of _ k] exI [of _ C]) (auto simp: blocks_kept_def)
  next
    case True
    have "page_blocks s k i \<inter> set ?fl = page_blocks s k i"
      using cnt True cp(2,3) by (intro card_subset_eq) auto
    then have all: "page_blocks s1 k i \<subseteq> set (kfree s1 i)"
      using len(1) by (auto simp: d1 page_blocks_cong [OF c1(3)])
    have img: "arena2block (kva s k) (bsz i) ` {0..<0 + bpa i} = page_blocks s1 k i"
      by (simp add: page_blocks_def blk_def c1(3) lessThan_atLeast0)
    let ?d2 = "(k_block_descs s1)[i := (k_block_descs s1 ! i)\<lparr>free_list := filter (\<lambda>x. x \<notin> page_blocks s1 k i) (kfree s1 i)\<rparr>]"
    let ?s2 = "s1\<lparr>k_block_descs := ?d2\<rparr>"
    have un: "unlink_blocks (NULL, i) (kva s k) 0 (bpa i) s1 = Ret () ?s2"
      unfolding img [symmetric]
    proof (rule unlink_blocks_run)
      show "arena2block (kva s k) (bsz i) m \<in> set (kfree s1 i)" if "m < 0 + bpa i" for m
        using all that unfolding img [symmetric] by auto
      show "inj_on (arena2block (kva s k) (bsz i)) {0..<0 + bpa i}"
        using cp(1) by (simp add: blk_def [abs_def] lessThan_atLeast0)
    qed (use len kheapD(4) [OF ch(1) a(1)] in \<open>simp_all add: d1\<close>)
    have c2: "mem_inv ?s2" "heap_frame ?s2 = heap_frame s" "kva ?s2 = kva s" "heap_size ?s2 = heap_size s" "translate ?s2 = translate s"
      using mem_inv_cong [of ?s2 s1] c1 by simp_all
    obtain q where q: "q < pool_pages (kernel_pool ?s2)" "f = pool_page (kernel_pool ?s2) q"
      "bitmap_bit (pool_bitmap (kernel_pool ?s2)) q"
      using mem_invD(14) [OF c2(1), of k f] a(2) k(5) c2(2,4) by auto
    obtain s3 where s3: "mfree_page PF_KERNEL (kva s k) 1 ?s2 = Ret () s3" "mem_inv s3"
      "\<And>l. l < heap_size s \<Longrightarrow> heap_frame s3 l = (if k \<le> l \<and> l < k + 1 then None else heap_frame s l)"
      "kva s3 = kva s" "heap_size s3 = heap_size s" "data_kept ?s2 s3"
      "s3 = ?s2\<lparr>pmem := pmem s3, kernel_pool := kernel_pool s3, kernel_vaddr := kernel_vaddr s3\<rparr>"
      "pool_free (kernel_pool s3) = pool_free (kernel_pool ?s2) \<union> (\<lambda>_. q) ` {..<1 :: nat}"
      "\<And>j. bitmap_bit (vaddr_bitmap (kernel_vaddr s3)) j =
         (\<not> (k \<le> j \<and> j < k + 1) \<and> bitmap_bit (vaddr_bitmap (kernel_vaddr ?s2)) j)"
      using mfree_kernel [OF c2(1), of 1 k "\<lambda>_. q"] a(2) k(5) q unfolding c2 by auto
    have f3: "k_block_descs s3 = ?d2" "arenas s3 = arenas s1"
      by (subst s3(7), simp)+
    have hf3: "heap_frame s3 l = heap_frame s1 l" if "l < heap_size s1" "l \<noteq> k" for l
      using s3(3) [of l] that c1(2,4) by auto
    have k3: "kva s3 = kva s1" "heap_size s3 = heap_size s1"
      using s3(4,5) c1(3,4) by simp_all
    note rm = kheap_remove [OF ch(1) k(1) all s3(2) k3 hf3 f3]
    have "vread s (x + of_nat (4 * w)) = vread s3 (x + of_nat (4 * w))"
      if xt: "(x, t) \<in> allocated s3 (C(k := None))" "w < bsz t div 4" for x t w
    proof -
      obtain l y g where l: "(C(k := None)) l = Some t" "arena_ok s3 l t" "y < bpa t" "x = blk s3 l t y" "heap_frame s3 l = Some g"
        "x \<in> page_blocks s3 l t" "x \<notin> set (kfree s3 t)"
        by (rule allocatedD [OF rm(1) xt(1)])
      note o = arena_okD(1,2) [OF l(2)]
      have w: "4 * w < bsz t"
        using xt(2) by simp
      have l': "heap_frame s l = Some g" "l < heap_size s"
        using hf3 [of l] l(1,5) o(2) k3(2) c1(2,4) by (auto split: if_splits)
      have bb: "blk s3 = blk s"
        by (rule page_blocks_cong(2) [OF s3(4)])
      let ?o = "of_nat (12 + y * bsz t + 4 * w) :: u32"
      have t3: "translate s3 (x + of_nat (4 * w)) = Some (g + ?o)"
        using block_word(1) [OF s3(2) o(2) l(5) o(1) l(3) w] l(4) by simp
      have t0: "translate s (x + of_nat (4 * w)) = Some (g + ?o)" "frame (g + ?o) = g"
        using block_word(1,2) [OF inv l'(2,1) o(1) l(3) w] l(4) bb by simp_all
      have "no_table g ?s2"
        using mem_invD(14) [OF c2(1), of l g] l' c2(2,4) by simp
      then have "pmem s3 (g + ?o) = pmem s (g + ?o)"
        using s3(6) t0(2) by (simp add: data_kept_def s1_def)
      then show ?thesis
        using t3 t0 by (simp add: vread_def)
    qed
    then have "blocks_kept s3 (C(k := None)) s"
      by (auto simp: blocks_kept_def)
    moreover have "free_locked PF_KERNEL b s = Ret () s3"
      using run True un s3(1) by simp
    moreover have "heap_only s s3"
    proof -
      have "heap_only s1 s3"
      proof -
        have "?s2\<lparr>pmem := p, kernel_pool := kp, kernel_vaddr := kv\<rparr> =
            s1\<lparr>pmem := p, kernel_pool := kp, kernel_vaddr := kv, k_block_descs := ?d2, arenas := arenas s1\<rparr>" for p kp kv
          by simp
        then have "s3 = s1\<lparr>pmem := pmem s3, kernel_pool := kernel_pool s3, kernel_vaddr := kernel_vaddr s3,
            k_block_descs := k_block_descs s3, arenas := arenas s3\<rparr>"
          using s3(7) f3 by metis
        then show ?thesis
          using s3(6) k3(1) by (simp add: heap_only_def data_kept_def)
      qed
      then show ?thesis
        by (rule heap_only_trans [OF ho])
    qed
    moreover have "freed_in s k i b s3" "arenas_after s C k i b = C(k := None)"
    proof -
      have s2s: "kernel_pool ?s2 = kernel_pool s" "kernel_vaddr ?s2 = kernel_vaddr s"
        by (simp_all add: s1_def)
      have "q \<notin> pool_free (kernel_pool s)" "heap_frame s k = Some (pool_page (kernel_pool s) q)"
        using q k(5) unfolding s2s by (simp_all add: pool_free_def)
      moreover have "pool_free (kernel_pool s3) = insert q (pool_free (kernel_pool s))"
        using s3(8) unfolding s2s by auto
      moreover have "heap_frame s3 k = None"
        using s3(3) [OF a(2)] by simp
      moreover have "bitmap_bit (vaddr_bitmap (kernel_vaddr s3)) j = (j \<noteq> k \<and> bitmap_bit (vaddr_bitmap (kernel_vaddr s)) j)" for j
        using s3(9) [of j] unfolding s2s by auto
      ultimately have "page_given_back s k s3"
        unfolding page_given_back_def by blast
      moreover have "kfree s3 i = filter (\<lambda>x. x \<notin> page_blocks s k i) (kfree s i)"
        using len(1) k(6) by (simp add: f3 d1 page_blocks_cong [OF c1(3)])
      ultimately show "freed_in s k i b s3" "arenas_after s C k i b = C(k := None)"
        using True last by (simp_all add: freed_in_def arenas_after_def)
    qed
    ultimately show ?thesis
      using rm al1 k(1,6) by (intro exI [of _ s3] exI [of _ k] exI [of _ "C(k := None)"]) simp
  qed
qed

subsection \<open>Properties\<close>

lemma without_lock_heap:
  fixes s :: "'a memory_scheme"
  shows "k_block_descs (without_lock l s) = k_block_descs s" "arenas (without_lock l s) = arenas s"
    "tasks (without_lock l s) = tasks s"
  by (simp_all add: without_lock_def)

lemmas without_lock_kheap = kheap_cong [OF without_lock_mem without_lock_heap(1,2)]

lemma sys_malloc_run:
  fixes s :: "'a memory_scheme"
  assumes h: "kheap s C" and kt: "pgdir (tasks s (running_thread s)) = NULL"
    and l: "lock_free (pool_lock (kernel_pool s)) s"
    and sz: "0 < sz" "sz \<le> 1024" "sz < pool_size (kernel_pool s)"
    and i: "i = desc_fit (k_block_descs s) (unat sz)"
    and room: "kfree s i \<noteq> [] \<or> (\<exists>j. first_run (vaddr_bitmap (kernel_vaddr s)) j 1) \<and> pool_free (kernel_pool s) \<noteq> {}"
  shows "\<exists>b s' C'. sys_malloc sz s = Ret b s' \<and> kheap s' C' \<and> (b, i) \<notin> allocated s C \<and>
    allocated s' C' = insert (b, i) (allocated s C) \<and> blocks_kept s C s' \<and>
    (\<forall>w < bsz i div 4. vread s' (b + of_nat (4 * w)) = Inr 0) \<and>
    unat sz \<le> bsz i \<and> (\<forall>j < i. bsz j < unat sz) \<and> lock_free (pool_lock (kernel_pool s)) s' \<and>
    pgdir (tasks s' (running_thread s')) = NULL \<and> pool_lock (kernel_pool s') = pool_lock (kernel_pool s) \<and>
    vaddr_start (kernel_vaddr s') = vaddr_start (kernel_vaddr s)"
proof -
  let ?l = "pool_lock (kernel_pool s)"
  define Q :: "addr \<Rightarrow> 'a memory_scheme \<Rightarrow> bool" where "Q b s' \<longleftrightarrow> (\<exists>C'. kheap s' C' \<and> (b, i) \<notin> allocated s C \<and>
    allocated s' C' = insert (b, i) (allocated s C) \<and> blocks_kept s C s' \<and>
    (\<forall>w < bsz i div 4. vread s' (b + of_nat (4 * w)) = Inr 0) \<and> unat sz \<le> bsz i \<and> (\<forall>j < i. bsz j < unat sz) \<and>
    pgdir (tasks s' (running_thread s')) = NULL \<and> pool_lock (kernel_pool s') = pool_lock (kernel_pool s) \<and>
    vaddr_start (kernel_vaddr s') = vaddr_start (kernel_vaddr s))" for b s'
  have body: "\<exists>b s2. malloc_locked PF_KERNEL NULL sz s1 = Ret b s2 \<and> lock_held ?l s2 \<and> Q b (without_lock ?l s2)"
    if hl: "lock_held ?l s1" and v: "without_lock ?l s1 = s" for s1
  proof -
    note c1 = without_lock_kheap [of ?l s1, unfolded v]
    have e: "kernel_vaddr s1 = kernel_vaddr s" "kernel_pool s1 = kernel_pool s" "k_block_descs s1 = k_block_descs s"
      "tasks s1 = tasks s" "running_thread s1 = running_thread s"
      using without_lock_mem(3,4) [of ?l s1] without_lock_heap [of ?l s1] running_lock(1) [of ?l s1] unfolding v by simp_all
    obtain b s2 C' where b: "malloc_locked PF_KERNEL NULL sz s1 = Ret b s2" "kheap s2 C'" "(b, i) \<notin> allocated s1 C"
      "allocated s2 C' = insert (b, i) (allocated s1 C)" "blocks_kept s1 C s2"
      "\<forall>w < bsz i div 4. vread s2 (b + of_nat (4 * w)) = Inr 0" "heap_only s1 s2" "unat sz \<le> bsz i" "\<forall>j < i. bsz j < unat sz"
      using malloc_small [of s1 C sz i] h sz(1,2) i room unfolding c1 e by blast
    note c2 = without_lock_kheap [of ?l s2]
    have t: "tasks s2 = tasks s1" "esp s2 = esp s1" "pool_lock (kernel_pool s2) = pool_lock (kernel_pool s1)"
      "vaddr_start (kernel_vaddr s2) = vaddr_start (kernel_vaddr s1)"
      using heap_only_rest [OF b(7)] by simp_all
    have "Q b (without_lock ?l s2)"
      unfolding Q_def c2 without_lock_heap without_lock_mem running_lock
      using b t e kt by (intro exI [of _ C']) (auto simp: c1 blocks_kept_def c2 running_thread_def)
    then show ?thesis
      using b(1) heap_only_lock [OF b(7) hl] by blast
  qed
  obtain b s' where "sys_malloc sz s = Ret b s'" "lock_free ?l s'" "Q b s'"
    using kernel_lock.bracket [where body = "malloc_locked PF_KERNEL NULL sz" and Q = Q, OF l body] kt sz
    unfolding sys_malloc_def by (auto simp: Let_def)
  then show ?thesis
    unfolding Q_def by blast
qed

lemma demo_heap:
  "kheap demo_memory Map.empty" "pgdir (tasks demo_memory (running_thread demo_memory)) = NULL"
  "pool_lock (kernel_pool demo_memory) = 0x5000" "pool_size (kernel_pool demo_memory) = 0x8000"
  "first_run (vaddr_bitmap (kernel_vaddr demo_memory)) 0 1" "pool_free (kernel_pool demo_memory) \<noteq> {}"
  "desc_fit (k_block_descs demo_memory) 100 = 3"
proof -
  have k: "k_block_descs demo_memory = block_desc_init" "tasks demo_memory = tasks demo_sched"
    by (simp_all add: demo_memory_def sync.defs memory.defs lock_init_def sema_init_def set_lock_def set_sema_def Let_def)
  have "kfree demo_memory i = []" if "i < DESC_CNT" for i
    unfolding k block_desc_init_eq using DESC_CNT_cases [OF that] by (elim disjE) simp_all
  then show "kheap demo_memory Map.empty"
    using demo_mem_inv block_desc_init_ok k by (simp add: kheap_def)
  show "pgdir (tasks demo_memory (running_thread demo_memory)) = NULL"
    by (simp add: k fun_eq_iff demo_task_def)
  show "first_run (vaddr_bitmap (kernel_vaddr demo_memory)) 0 1"
    using demo_bits by (simp add: first_run_def free_run_def)
  show "pool_free (kernel_pool demo_memory) \<noteq> {}"
    unfolding demo_pool_free by (simp add: lessThan_empty_iff)
  show "desc_fit (k_block_descs demo_memory) 100 = 3"
    unfolding k block_desc_init_eq by (simp add: bsz_def)
qed simp_all

text \<open>C3: \<^verbatim>\<open>sys_malloc\<close> for a kernel thread and at most 1024 bytes: it returns a block of the smallest of the
  seven sizes that is large enough; the block was not handed out, shares no byte with the blocks that
  are, and reads as zeros; the contents of all blocks handed out before are unchanged, the heap
  invariant holds and the lock is free again. The hypothesis on room says that the size has a free
  block, or that there is a page for a new arena.\<close>

theorem sys_malloc_fresh:
  fixes s :: "'a memory_scheme"
  assumes "kheap s C" "pgdir (tasks s (running_thread s)) = NULL" "lock_free (pool_lock (kernel_pool s)) s"
    and "0 < sz" "sz \<le> 1024" "sz < pool_size (kernel_pool s)"
    and "i = desc_fit (k_block_descs s) (unat sz)"
    and "kfree s i \<noteq> [] \<or> (\<exists>j. first_run (vaddr_bitmap (kernel_vaddr s)) j 1) \<and> pool_free (kernel_pool s) \<noteq> {}"
  shows "\<exists>b s' C'. sys_malloc sz s = Ret b s' \<and> kheap s' C' \<and>
    unat sz \<le> bsz i \<and> (\<forall>j < i. bsz j < unat sz) \<and>
    (b, i) \<notin> allocated s C \<and> allocated s' C' = insert (b, i) (allocated s C) \<and>
    (\<forall>(b', j) \<in> allocated s C. \<forall>w < bsz i. \<forall>w' < bsz j. b + of_nat w \<noteq> b' + of_nat w') \<and>
    (\<forall>w < bsz i div 4. vread s' (b + of_nat (4 * w)) = Inr 0) \<and> blocks_kept s C s' \<and>
    lock_free (pool_lock (kernel_pool s)) s'"
proof -
  from sys_malloc_run [OF assms] obtain b s' C' where r: "sys_malloc sz s = Ret b s'" "kheap s' C'" "(b, i) \<notin> allocated s C"
    "allocated s' C' = insert (b, i) (allocated s C)" "blocks_kept s C s'" "\<forall>w < bsz i div 4. vread s' (b + of_nat (4 * w)) = Inr 0"
    "unat sz \<le> bsz i" "\<forall>j < i. bsz j < unat sz" "lock_free (pool_lock (kernel_pool s)) s'"
    by blast
  have "b + of_nat w \<noteq> b' + of_nat w'" if "(b', j) \<in> allocated s C" "w < bsz i" "w' < bsz j" for b' j w w'
    using allocated_disjoint [OF r(2), of b i b' j w w'] r(3,4) that by auto
  then show ?thesis
    using r by blast
qed

lemma allocated_above:
  assumes h: "kheap s C" and b: "(b, i) \<in> allocated s C"
  shows "vaddr_start (kernel_vaddr s) \<le> b" "b \<noteq> NULL"
proof -
  obtain k x f where k: "C k = Some i" "arena_ok s k i" "x < bpa i" "b = blk s k i x" "heap_frame s k = Some f"
    "b \<in> page_blocks s k i" "b \<notin> set (kfree s i)"
    by (rule allocatedD [OF h b])
  note a = arena_okD(1,2) [OF k(2)] and inv = kheapD(1) [OF h]
  have z: "0 < bsz i"
    using sizes(1) [OF a(1)] by simp
  note o = block_offset(1,3) [OF a(1) k(3) z]
  have e: "b = kva s k + of_nat (12 + x * bsz i)"
    using blk_page(3) [OF inv a(2,1) k(3) z] k(4) by simp
  have uo: "unat (of_nat (12 + x * bsz i) :: u32) = 12 + x * bsz i"
    using o(1) by (simp only: unat_of_nat) simp
  have le: "unat (vaddr_start (kernel_vaddr s)) + k * PG_SIZE + PG_SIZE \<le> 0xffc00000"
    using mem_invD(7) [OF inv] mult_le_mono1 [of "Suc k" "heap_size s" PG_SIZE] a(2) by simp
  have "unat b = unat (kva s k) + (12 + x * bsz i)"
    unfolding e using uo kva_page(1) [OF inv a(2)] le o(1)
    by (subst unat_add_lem [THEN iffD1]) (simp_all add: PG_SIZE_def)
  then have ub: "unat b = unat (vaddr_start (kernel_vaddr s)) + k * PG_SIZE + (12 + x * bsz i)"
    using kva_page(1) [OF inv a(2)] by simp
  then show "vaddr_start (kernel_vaddr s) \<le> b" "b \<noteq> NULL"
    by (auto simp: word_le_nat_alt)
qed

lemma freed_in_lock:
  fixes s :: "'a memory_scheme"
  shows "page_blocks (without_lock l s) = page_blocks s" "arenas_after (without_lock l s) = arenas_after s"
    "freed_in (without_lock l s) k i b (without_lock l s') = freed_in s k i b s'"
proof -
  note c = without_lock_kheap [of l s] without_lock_kheap [of l s']
    and m = without_lock_mem(3,4) [of l s] without_lock_mem(3,4) [of l s']
    and d = without_lock_heap [of l s] without_lock_heap [of l s']
  have fr: "heap_frame (without_lock l s) = heap_frame s" "heap_frame (without_lock l s') = heap_frame s'"
    "kva (without_lock l s) = kva s"
    by (rule mem_inv_cong [OF without_lock_mem])+
  show pb: "page_blocks (without_lock l s) = page_blocks s"
    by (rule page_blocks_cong [OF fr(3)])
  have lb: "last_block (without_lock l s) = last_block s"
    by (simp add: last_block_def fun_eq_iff pb d)
  show "arenas_after (without_lock l s) = arenas_after s"
    by (simp add: arenas_after_def fun_eq_iff lb)
  show "freed_in (without_lock l s) k i b (without_lock l s') = freed_in s k i b s'"
    by (simp only: freed_in_def page_given_back_def lb pb d m fr)
qed

lemma sys_free_run:
  fixes s :: "'a memory_scheme"
  assumes h: "kheap s C" and kt: "pgdir (tasks s (running_thread s)) = NULL"
    and l: "lock_free (pool_lock (kernel_pool s)) s" and base: "K_HEAP_START \<le> vaddr_start (kernel_vaddr s)"
    and b: "(b, i) \<in> allocated s C"
  shows "\<exists>s' k C'. sys_free b s = Ret () s' \<and> C k = Some i \<and> b \<in> page_blocks s k i \<and>
    C' = arenas_after s C k i b \<and> kheap s' C' \<and> freed_in s k i b s' \<and>
    allocated s' C' = allocated s C - {(b, i)} \<and> blocks_kept s' C' s \<and> lock_free (pool_lock (kernel_pool s)) s'"
proof -
  let ?l = "pool_lock (kernel_pool s)"
  define Q :: "unit \<Rightarrow> 'a memory_scheme \<Rightarrow> bool" where "Q u s' \<longleftrightarrow> (\<exists>k C'. C k = Some i \<and> b \<in> page_blocks s k i \<and>
    C' = arenas_after s C k i b \<and> kheap s' C' \<and> freed_in s k i b s' \<and>
    allocated s' C' = allocated s C - {(b, i)} \<and> blocks_kept s' C' s)" for u s'
  have body: "\<exists>u s2. free_locked PF_KERNEL b s1 = Ret u s2 \<and> lock_held ?l s2 \<and> Q u (without_lock ?l s2)"
    if hl: "lock_held ?l s1" and v: "without_lock ?l s1 = s" for s1
  proof -
    note c1 = without_lock_kheap [of ?l s1, unfolded v]
    obtain s2 k C' where s2: "free_locked PF_KERNEL b s1 = Ret () s2" "kheap s2 C'"
      "allocated s2 C' = allocated s1 C - {(b, i)}" "blocks_kept s2 C' s1" "heap_only s1 s2"
      "C k = Some i" "b \<in> page_blocks s1 k i" "C' = arenas_after s1 C k i b" "freed_in s1 k i b s2"
      using free_small [of s1 C b i] h b unfolding c1 by blast
    note c2 = without_lock_kheap [of ?l s2]
    have fr: "page_blocks s1 = page_blocks s" "arenas_after s1 = arenas_after s"
        "freed_in s1 k i b s2 = freed_in s k i b (without_lock ?l s2)"
      using freed_in_lock [of ?l s1, unfolded v] by simp_all
    have "Q () (without_lock ?l s2)"
      unfolding Q_def c2 using s2 fr by (intro exI [of _ k] exI [of _ C']) (auto simp: c1 blocks_kept_def c2)
    then show ?thesis
      using s2(1) heap_only_lock [OF s2(5) hl] by blast
  qed
  have "b \<noteq> NULL" "K_HEAP_START \<le> b"
    using allocated_above [OF h b] base by auto
  then obtain s' where "sys_free b s = Ret () s'" "lock_free ?l s'" "Q () s'"
    using kernel_lock.bracket [where body = "free_locked PF_KERNEL b" and Q = Q, OF l body] kt
    unfolding sys_free_def by (auto simp: Let_def)
  then show ?thesis
    unfolding Q_def by blast
qed

theorem sys_malloc_fresh_witness:
  "\<exists>b s'. sys_malloc 100 demo_memory = Ret b s' \<and> (\<forall>w < 32. vread s' (b + of_nat (4 * w)) = Inr 0)"
proof -
  have "\<exists>b s' C'. sys_malloc 100 demo_memory = Ret b s' \<and> kheap s' C' \<and>
    unat (100 :: u32) \<le> bsz 3 \<and> (\<forall>j < 3. bsz j < unat (100 :: u32)) \<and>
    (b, 3) \<notin> allocated demo_memory Map.empty \<and> allocated s' C' = insert (b, 3) (allocated demo_memory Map.empty) \<and>
    (\<forall>(b', j) \<in> allocated demo_memory Map.empty. \<forall>w < bsz 3. \<forall>w' < bsz j. b + of_nat w \<noteq> b' + of_nat w') \<and>
    (\<forall>w < bsz 3 div 4. vread s' (b + of_nat (4 * w)) = Inr 0) \<and> blocks_kept demo_memory Map.empty s' \<and>
    lock_free (pool_lock (kernel_pool demo_memory)) s'"
    by (rule sys_malloc_fresh [OF demo_heap(1,2)]) (use demo_heap demo_lock in auto)
  moreover have "bsz 3 div 4 = 32"
    by (simp add: bsz_def)
  ultimately show ?thesis
    by auto
qed

text \<open>C4: \<^verbatim>\<open>sys_free\<close> of a block that is handed out, by a kernel thread: it returns, exactly that block is no
  longer handed out, the contents of all other blocks are unchanged, the heap invariant holds and the
  lock is free again. When all other blocks of its arena were free, the arena's page is given back: its
  blocks leave the free list, the page is no longer mapped, its frame is free in the pool again, its
  virtual address is free, and the page is no arena any more. Otherwise the block is queued at the end
  of the free list of its size and no page is given back.\<close>

theorem sys_free_returns_block:
  fixes s :: "'a memory_scheme"
  assumes "kheap s C" "pgdir (tasks s (running_thread s)) = NULL" "lock_free (pool_lock (kernel_pool s)) s"
    and "K_HEAP_START \<le> vaddr_start (kernel_vaddr s)" "(b, i) \<in> allocated s C"
  shows "\<exists>s' k C'. sys_free b s = Ret () s' \<and> C k = Some i \<and> b \<in> page_blocks s k i \<and>
    C' = arenas_after s C k i b \<and> kheap s' C' \<and> freed_in s k i b s' \<and>
    allocated s' C' = allocated s C - {(b, i)} \<and> blocks_kept s' C' s \<and> lock_free (pool_lock (kernel_pool s)) s'"
  by (rule sys_free_run [OF assms])

theorem sys_free_returns_block_witness:
  "\<exists>b s s' k. sys_malloc 100 demo_memory = Ret b s \<and> sys_free b s = Ret () s' \<and> page_given_back s k s'"
proof -
  have "\<exists>b s' C'. sys_malloc 100 demo_memory = Ret b s' \<and> kheap s' C' \<and> (b, 3) \<notin> allocated demo_memory Map.empty \<and>
    allocated s' C' = insert (b, 3) (allocated demo_memory Map.empty) \<and> blocks_kept demo_memory Map.empty s' \<and>
    (\<forall>w < bsz 3 div 4. vread s' (b + of_nat (4 * w)) = Inr 0) \<and>
    unat (100 :: u32) \<le> bsz 3 \<and> (\<forall>j < 3. bsz j < unat (100 :: u32)) \<and> lock_free (pool_lock (kernel_pool demo_memory)) s' \<and>
    pgdir (tasks s' (running_thread s')) = NULL \<and> pool_lock (kernel_pool s') = pool_lock (kernel_pool demo_memory) \<and>
    vaddr_start (kernel_vaddr s') = vaddr_start (kernel_vaddr demo_memory)"
    by (rule sys_malloc_run [OF demo_heap(1,2)]) (use demo_heap demo_lock in auto)
  moreover have "allocated demo_memory Map.empty = {}"
    by (simp add: allocated_def)
  ultimately obtain b s C where s: "sys_malloc 100 demo_memory = Ret b s" "kheap s C" "(b, 3) \<in> allocated s C"
    "lock_free (pool_lock (kernel_pool s)) s" "pgdir (tasks s (running_thread s)) = NULL"
    "K_HEAP_START \<le> vaddr_start (kernel_vaddr s)" "allocated s C = {(b, 3)}"
    by (auto simp: K_HEAP_START_def)
  from sys_free_returns_block [OF s(2,5,4,6,3)] obtain s' k where
    f: "sys_free b s = Ret () s'" "C k = Some 3" "freed_in s k 3 b s'"
    by blast
  have "x \<in> insert b (set (kfree s 3))" if "x \<in> page_blocks s k 3" for x
  proof (rule ccontr)
    assume "x \<notin> insert b (set (kfree s 3))"
    then have "(x, 3) \<in> allocated s C" "x \<noteq> b"
      using f(2) that by (auto simp: allocated_def)
    then show False
      using s(7) by simp
  qed
  then have "last_block s k 3 b"
    unfolding last_block_def by blast
  then have "page_given_back s k s'"
    using f(3) by (simp add: freed_in_def)
  then show ?thesis
    using s(1) f(1) by blast
qed

end
