(* ===== verification/Ioqueue.thy ===== *)
theory Ioqueue
  imports Memory
begin

section \<open>Ring buffers and pipes (device/ioqueue.c, shell/pipe.c)\<close>

text \<open>
  The ring buffer between the keyboard and its readers and inside a pipe, with the threads that sleep
  on it. The lock is the first field of the structure, so the address of a queue is the address of its
  lock. A routine that puts its caller to sleep ends in \<open>Blk\<close>; \<open>ioq_getchar_resume\<close> and
  \<open>ioq_putchar_resume\<close> are what the sleeper does when it runs again.
\<close>

subsection \<open>Operations\<close>

definition bufsize :: nat where "bufsize = 2048"

record ioqueue =
  producer :: addr
  consumer :: addr
  buf :: "u8 list"
  ioq_head :: int
  ioq_tail :: int

record io = memory +
  ioqs :: "addr \<Rightarrow> ioqueue"

definition set_ioq :: "addr \<Rightarrow> (ioqueue \<Rightarrow> ioqueue) \<Rightarrow> 'a io_scheme \<Rightarrow> 'a io_scheme" where
  "set_ioq q f s = s\<lparr>ioqs := (ioqs s)(q := f (ioqs s q))\<rparr>"

definition ioqueue_init :: "addr \<Rightarrow> 'a io_scheme \<Rightarrow> 'a io_scheme" where
  "ioqueue_init ioq s =
     set_ioq ioq (\<lambda>q. q\<lparr>producer := NULL, consumer := NULL, ioq_head := 0, ioq_tail := 0\<rparr>) (lock_init ioq s)"

definition next_pos :: "int \<Rightarrow> int" where
  "next_pos pos = (pos + 1) mod int bufsize"

definition ioq_full :: "addr \<Rightarrow> ('a io_scheme, bool) kop" where
  "ioq_full ioq =
     thenK (assertK (\<lambda>s. intr_get_status s = INTR_OFF))
           (getK (\<lambda>s. next_pos (ioq_head (ioqs s ioq)) = ioq_tail (ioqs s ioq)))"

definition ioq_empty :: "addr \<Rightarrow> ('a io_scheme, bool) kop" where
  "ioq_empty ioq =
     thenK (assertK (\<lambda>s. intr_get_status s = INTR_OFF))
           (getK (\<lambda>s. ioq_head (ioqs s ioq) = ioq_tail (ioqs s ioq)))"

text \<open>The two \<^verbatim>\<open>task_struct**\<close> arguments are the fields \<^verbatim>\<open>producer\<close> and \<^verbatim>\<open>consumer\<close> of a queue, given here by
  their selector and their update.\<close>

definition ioq_wait :: "(ioqueue \<Rightarrow> addr) \<Rightarrow> ((addr \<Rightarrow> addr) \<Rightarrow> ioqueue \<Rightarrow> ioqueue) \<Rightarrow> addr \<Rightarrow> ('a io_scheme, 'b) kop" where
  "ioq_wait waiter waiter_upd ioq s =
     (if waiter (ioqs s ioq) \<noteq> NULL then Flt Panic
      else let s = set_ioq ioq (waiter_upd (\<lambda>_. running_thread s)) s
           in case thread_block TASK_BLOCKED s of Ret old s \<Rightarrow> Blk s | Blk s \<Rightarrow> Blk s | Flt e \<Rightarrow> Flt e)"

definition wakeup :: "(ioqueue \<Rightarrow> addr) \<Rightarrow> ((addr \<Rightarrow> addr) \<Rightarrow> ioqueue \<Rightarrow> ioqueue) \<Rightarrow> addr \<Rightarrow> ('a io_scheme, unit) kop" where
  "wakeup waiter waiter_upd ioq s =
     (if waiter (ioqs s ioq) = NULL then Flt Panic
      else thenK (thread_unblock (waiter (ioqs s ioq))) (modK (set_ioq ioq (waiter_upd (\<lambda>_. NULL)))) s)"

definition ioq_getchar :: "addr \<Rightarrow> ('a io_scheme, u8) kop" where
  "ioq_getchar ioq =
     thenK (assertK (\<lambda>s. intr_get_status s = INTR_OFF))
    (bindK (ioq_empty ioq) (\<lambda>empty.
     if empty then thenK (lock_acquire ioq) (ioq_wait consumer consumer_update ioq)
     else
       bindK (\<lambda>s. liftR (rd (buf (ioqs s ioq)) (nat (ioq_tail (ioqs s ioq)))) s) (\<lambda>byte.
       thenK (modK (set_ioq ioq (\<lambda>q. q\<lparr>ioq_tail := next_pos (ioq_tail q)\<rparr>)))
      (thenK (\<lambda>s. whenK (producer (ioqs s ioq) \<noteq> NULL) (wakeup producer producer_update ioq) s)
             (retK byte)))))"

definition ioq_getchar_resume :: "addr \<Rightarrow> ('a io_scheme, u8) kop" where
  "ioq_getchar_resume ioq = thenK (lock_release ioq) (ioq_getchar ioq)"

definition ioq_putchar :: "addr \<Rightarrow> u8 \<Rightarrow> ('a io_scheme, unit) kop" where
  "ioq_putchar ioq byte =
     thenK (assertK (\<lambda>s. intr_get_status s = INTR_OFF))
    (bindK (ioq_full ioq) (\<lambda>full.
     if full then thenK (lock_acquire ioq) (ioq_wait producer producer_update ioq)
     else
       bindK (\<lambda>s. liftR (wr (buf (ioqs s ioq)) (nat (ioq_head (ioqs s ioq))) byte) s) (\<lambda>b.
       thenK (modK (set_ioq ioq (\<lambda>q. q\<lparr>buf := b, ioq_head := next_pos (ioq_head q)\<rparr>)))
             (\<lambda>s. whenK (consumer (ioqs s ioq) \<noteq> NULL) (wakeup consumer consumer_update ioq) s))))"

definition ioq_putchar_resume :: "addr \<Rightarrow> u8 \<Rightarrow> ('a io_scheme, unit) kop" where
  "ioq_putchar_resume ioq byte = thenK (lock_release ioq) (ioq_putchar ioq byte)"

definition ioq_length :: "ioqueue \<Rightarrow> int" where
  "ioq_length q =
     (if ioq_head q \<ge> ioq_tail q then ioq_head q - ioq_tail q
      else int bufsize - (ioq_tail q - ioq_head q))"

text \<open>Loops that get \<open>n\<close> elements one by one and put the elements of a list one by one.\<close>

fun timesK :: "nat \<Rightarrow> ('s, 'a) kop \<Rightarrow> ('s, 'a list) kop" where
  "timesK 0 m = retK []"
| "timesK (Suc n) m = bindK m (\<lambda>a. bindK (timesK n m) (\<lambda>as. retK (a # as)))"

fun eachK :: "('a \<Rightarrow> ('s, unit) kop) \<Rightarrow> 'a list \<Rightarrow> ('s, unit) kop" where
  "eachK f [] = retK ()"
| "eachK f (a # as) = thenK (f a) (eachK f as)"

text \<open>\<^verbatim>\<open>pipe_read\<close> and \<^verbatim>\<open>pipe_write\<close> on the queue of the pipe; the bytes are a list.\<close>

definition pipe_read :: "addr \<Rightarrow> nat \<Rightarrow> ('a io_scheme, u8 list) kop" where
  "pipe_read ioq count s =
     (let ioq_len = nat (ioq_length (ioqs s ioq))
      in timesK (if ioq_len > count then count else ioq_len) (ioq_getchar ioq) s)"

definition pipe_write :: "addr \<Rightarrow> u8 list \<Rightarrow> ('a io_scheme, nat) kop" where
  "pipe_write ioq bs s =
     (let ioq_left = nat (int bufsize - ioq_length (ioqs s ioq));
          sz = (if ioq_left > length bs then length bs else ioq_left)
      in thenK (eachK (ioq_putchar ioq) (take sz bs)) (retK sz) s)"

subsection \<open>The queue as a list\<close>

text \<open>The bytes in the buffer, oldest first.\<close>

definition ioq_at :: "ioqueue \<Rightarrow> nat \<Rightarrow> u8" where
  "ioq_at q i = buf q ! nat ((ioq_tail q + int i) mod int bufsize)"

definition ioq_contents :: "ioqueue \<Rightarrow> u8 list" where
  "ioq_contents q = map (ioq_at q) [0..<nat (ioq_length q)]"

definition wf_ioq :: "ioqueue \<Rightarrow> bool" where
  "wf_ioq q \<longleftrightarrow> length (buf q) = bufsize \<and> 0 \<le> ioq_head q \<and> ioq_head q < int bufsize \<and>
     0 \<le> ioq_tail q \<and> ioq_tail q < int bufsize"

lemma ioq_length_mod: "wf_ioq q \<Longrightarrow> ioq_length q = (ioq_head q - ioq_tail q) mod int bufsize"
proof -
  assume w: "wf_ioq q"
  show ?thesis
  proof (cases "ioq_head q \<ge> ioq_tail q")
    case True
    then show ?thesis
      using w by (simp add: ioq_length_def wf_ioq_def)
  next
    case False
    have "(ioq_head q - ioq_tail q) mod int bufsize = (ioq_head q - ioq_tail q + int bufsize) mod int bufsize"
      by simp
    also have "\<dots> = ioq_head q - ioq_tail q + int bufsize"
      using w False by (intro mod_pos_pos_trivial) (auto simp: wf_ioq_def)
    finally show ?thesis
      using False by (simp add: ioq_length_def)
  qed
qed

lemma ioq_length_range: "wf_ioq q \<Longrightarrow> 0 \<le> ioq_length q \<and> ioq_length q < int bufsize"
  by (simp add: ioq_length_mod bufsize_def)

lemma length_contents: "wf_ioq q \<Longrightarrow> int (length (ioq_contents q)) = ioq_length q"
  using ioq_length_range [of q] by (simp add: ioq_contents_def)

lemma empty_iff: "wf_ioq q \<Longrightarrow> ioq_head q = ioq_tail q \<longleftrightarrow> ioq_contents q = []"
  by (auto simp: ioq_contents_def ioq_length_def wf_ioq_def)

lemma next_pos_eq: "0 \<le> h \<Longrightarrow> h < int bufsize \<Longrightarrow> next_pos h = (if h = int bufsize - 1 then 0 else h + 1)"
  by (auto simp: next_pos_def)

lemma next_pos_range: "0 \<le> next_pos h" "next_pos h < int bufsize"
  by (simp_all add: next_pos_def bufsize_def)

lemma full_iff: "wf_ioq q \<Longrightarrow> next_pos (ioq_head q) = ioq_tail q \<longleftrightarrow> length (ioq_contents q) = bufsize - 1"
proof -
  assume w: "wf_ioq q"
  then have n: "next_pos (ioq_head q) = (if ioq_head q = int bufsize - 1 then 0 else ioq_head q + 1)"
    by (intro next_pos_eq) (simp_all add: wf_ioq_def)
  have "next_pos (ioq_head q) = ioq_tail q \<longleftrightarrow> ioq_length q = int bufsize - 1"
    unfolding n using w by (auto simp: ioq_length_def wf_ioq_def bufsize_def)
  then show ?thesis
    using length_contents [OF w] by (auto simp: bufsize_def)
qed

lemma put_contents:
  assumes w: "wf_ioq q" and nf: "length (ioq_contents q) \<noteq> bufsize - 1"
    and q': "q' = q\<lparr>buf := (buf q)[nat (ioq_head q) := b], ioq_head := next_pos (ioq_head q)\<rparr>"
  shows "wf_ioq q'" "ioq_contents q' = ioq_contents q @ [b]"
proof -
  show w': "wf_ioq q'"
    using w next_pos_range [of "ioq_head q"] by (simp add: q' wf_ioq_def)
  let ?B = "int bufsize" and ?l = "ioq_length q"
  have l: "0 \<le> ?l" "?l + 1 < ?B"
    using ioq_length_range [OF w] length_contents [OF w] nf by (auto simp: bufsize_def)
  have "ioq_length q' = (ioq_head q - ioq_tail q + 1) mod ?B"
    unfolding ioq_length_mod [OF w'] by (simp add: q' next_pos_def mod_diff_left_eq algebra_simps)
  also have "\<dots> = ((ioq_head q - ioq_tail q) mod ?B + 1) mod ?B"
    by (simp add: mod_add_left_eq)
  also have "\<dots> = ?l + 1"
    using l by (simp add: ioq_length_mod [OF w, symmetric])
  finally have len: "ioq_length q' = ?l + 1" .
  have hl: "(ioq_tail q + ?l) mod ?B = ioq_head q"
    using w by (simp add: ioq_length_mod [OF w] mod_add_right_eq wf_ioq_def)
  have old: "ioq_at q' i = ioq_at q i" if "int i < ?l" for i
  proof -
    have "(ioq_tail q + int i) mod ?B \<noteq> ioq_head q"
    proof
      assume *: "(ioq_tail q + int i) mod ?B = ioq_head q"
      have "?l = ((ioq_tail q + int i) mod ?B - ioq_tail q) mod ?B"
        unfolding * by (rule ioq_length_mod [OF w])
      also have "\<dots> = int i mod ?B"
        by (simp add: mod_diff_left_eq)
      finally show False
        using that l by simp
    qed
    moreover have "0 \<le> (ioq_tail q + int i) mod ?B"
      by (simp add: bufsize_def)
    ultimately have "nat ((ioq_tail q + int i) mod ?B) \<noteq> nat (ioq_head q)"
      using w by (simp add: wf_ioq_def eq_nat_nat_iff)
    then show ?thesis
      by (simp add: ioq_at_def q')
  qed
  have new: "ioq_at q' (nat ?l) = b"
  proof -
    have "nat (ioq_head q) < length (buf q)"
      using w by (auto simp: wf_ioq_def)
    then show ?thesis
      using hl l by (simp add: ioq_at_def q')
  qed
  have "nat (?l + 1) = Suc (nat ?l)"
    using l by simp
  then show "ioq_contents q' = ioq_contents q @ [b]"
    unfolding ioq_contents_def len using old new by simp
qed

lemma get_contents:
  assumes w: "wf_ioq q" and ne: "ioq_contents q \<noteq> []" and q': "q' = q\<lparr>ioq_tail := next_pos (ioq_tail q)\<rparr>"
  shows "wf_ioq q'" "ioq_contents q = buf q ! nat (ioq_tail q) # ioq_contents q'"
proof -
  show w': "wf_ioq q'"
    using w next_pos_range [of "ioq_tail q"] by (simp add: q' wf_ioq_def)
  let ?B = "int bufsize" and ?l = "ioq_length q"
  have l: "1 \<le> ?l" "?l < ?B"
    using ioq_length_range [OF w] length_contents [OF w] ne by (simp_all flip: length_greater_0_conv)
  have "ioq_length q' = (ioq_head q - ioq_tail q - 1) mod ?B"
    unfolding ioq_length_mod [OF w'] by (simp add: q' next_pos_def mod_diff_right_eq algebra_simps)
  also have "\<dots> = ((ioq_head q - ioq_tail q) mod ?B - 1) mod ?B"
    by (simp add: mod_diff_left_eq)
  also have "\<dots> = ?l - 1"
    using l by (simp add: ioq_length_mod [OF w, symmetric])
  finally have len: "ioq_length q' = ?l - 1" .
  have at: "ioq_at q' i = ioq_at q (Suc i)" for i
  proof -
    have "((ioq_tail q + 1) mod ?B + int i) mod ?B = (ioq_tail q + int (Suc i)) mod ?B"
      by (simp only: mod_add_left_eq) (simp add: ac_simps)
    then show ?thesis
      by (simp del: of_nat_Suc add: ioq_at_def q' next_pos_def)
  qed
  have z: "ioq_at q 0 = buf q ! nat (ioq_tail q)"
    using w by (simp add: ioq_at_def wf_ioq_def)
  have "nat ?l = Suc (nat (?l - 1))"
    using l by simp
  then have "[0..<nat ?l] = 0 # map Suc [0..<nat (?l - 1)]"
    by (simp add: map_Suc_upt upt_conv_Cons)
  then show "ioq_contents q = buf q ! nat (ioq_tail q) # ioq_contents q'"
    unfolding ioq_contents_def len using z by (simp add: at)
qed

subsection \<open>Operations on a queue that is neither full nor empty\<close>

lemma set_ioq_simps [simp]:
  "ioqs (set_ioq q f s) = (ioqs s)(q := f (ioqs s q))" "iflag (set_ioq q f s) = iflag s" "tasks (set_ioq q f s) = tasks s"
  "thread_ready_list (set_ioq q f s) = thread_ready_list s" "thread_all_list (set_ioq q f s) = thread_all_list s"
  "idle_thread (set_ioq q f s) = idle_thread s" "esp (set_ioq q f s) = esp s" "locks (set_ioq q f s) = locks s"
  "semas (set_ioq q f s) = semas s" "cr3 (set_ioq q f s) = cr3 s" "pmem (set_ioq q f s) = pmem s"
  by (simp_all add: set_ioq_def)

lemma set_ioq_inv [simp]:
  "running_thread (set_ioq q f s) = running_thread s" "queues (set_ioq q f s) = queues s"
  "sched_inv (set_ioq q f s) = sched_inv s"
  by (rule sched_parts; simp)+

lemma off_iff: "intr_get_status s = INTR_OFF \<longleftrightarrow> \<not> iflag s"
  by (simp add: intr_get_status_def)

text \<open>The thread that sleeps at one end, if there is one, is known to the scheduler and asleep.\<close>

definition waiter_ok :: "addr \<Rightarrow> 'a io_scheme \<Rightarrow> bool" where
  "waiter_ok t s \<longleftrightarrow> t = NULL \<or> t \<in> set (thread_all_list s) \<and> blocked_status (status (tasks s t))"

text \<open>The ready queue after the sleeper \<open>t\<close> has been woken, if there was one.\<close>

definition woken :: "addr \<Rightarrow> addr list \<Rightarrow> addr list" where
  "woken t ts = (if t = NULL then ts else t # ts)"

definition ioq_ready :: "addr \<Rightarrow> 'a io_scheme \<Rightarrow> bool" where
  "ioq_ready ioq s \<longleftrightarrow> \<not> iflag s \<and> queues s \<and> wf_ioq (ioqs s ioq) \<and>
     waiter_ok (consumer (ioqs s ioq)) s \<and> waiter_ok (producer (ioqs s ioq)) s \<and>
     (consumer (ioqs s ioq) = producer (ioqs s ioq) \<longrightarrow> consumer (ioqs s ioq) = NULL)"

lemma rest_io: "same_rest s s' \<Longrightarrow> ioqs s' = ioqs s"
  by (cases s; cases s'; simp add: same_rest_def)

lemma unblock_waiter:
  assumes "queues s" "t \<noteq> NULL" "waiter_ok t s" "\<not> iflag s"
  shows "\<exists>s'. thread_unblock t s = Ret () s' \<and> queues s' \<and> \<not> iflag s' \<and> ioqs s' = ioqs s \<and>
    thread_ready_list s' = t # thread_ready_list s \<and> (\<forall>u. u \<noteq> t \<longrightarrow> waiter_ok u s \<longrightarrow> waiter_ok u s')"
proof -
  obtain s' where s': "thread_unblock t s = Ret () s'" "queues s'" "thread_ready_list s' = t # thread_ready_list s"
    "thread_all_list s' = thread_all_list s" "iflag s' = iflag s"
    "tasks s' = (tasks s)(t := (tasks s t)\<lparr>status := TASK_READY\<rparr>)"
    using thread_unblock_ok [OF assms(1), of t] assms(2,3) by (auto simp: waiter_ok_def)
  then show ?thesis
    using assms(4) rest_io [OF thread_unblock_rest [OF s'(1)]] by (auto simp: waiter_ok_def)
qed

lemma ioq_putchar_ok:
  assumes r: "ioq_ready q s" and nf: "length (ioq_contents (ioqs s q)) < bufsize - 1"
  shows "\<exists>s'. ioq_putchar q b s = Ret () s' \<and> ioq_ready q s' \<and>
    ioq_contents (ioqs s' q) = ioq_contents (ioqs s q) @ [b] \<and> consumer (ioqs s' q) = NULL \<and>
    thread_ready_list s' = woken (consumer (ioqs s q)) (thread_ready_list s)"
proof -
  let ?q = "ioqs s q"
  let ?q' = "?q\<lparr>buf := (buf ?q)[nat (ioq_head ?q) := b], ioq_head := next_pos (ioq_head ?q)\<rparr>"
  let ?s1 = "set_ioq q (\<lambda>_. ?q') s"
  have w: "wf_ioq ?q" "\<not> iflag s"
    using r by (simp_all add: ioq_ready_def)
  have c: "wf_ioq ?q'" "ioq_contents ?q' = ioq_contents ?q @ [b]"
    using put_contents [OF w(1) _ refl] nf by simp_all
  have "nat (ioq_head ?q) < length (buf ?q)"
    using w(1) by (auto simp: wf_ioq_def)
  then have run: "ioq_putchar q b s = whenK (consumer ?q \<noteq> NULL) (wakeup consumer consumer_update q) ?s1"
    using w full_iff [OF w(1)] nf by (simp add: ioq_putchar_def ioq_full_def off_iff bindK_def thenK_def set_ioq_def)
  have ok: "waiter_ok t ?s1 = waiter_ok t s" for t
    by (simp add: waiter_ok_def)
  show ?thesis
  proof (cases "consumer ?q = NULL")
    case True
    then show ?thesis
      using run c r ok by (intro exI [of _ ?s1]) (simp add: ioq_ready_def woken_def)
  next
    case False
    obtain s2 where s2: "thread_unblock (consumer ?q) ?s1 = Ret () s2" "queues s2" "\<not> iflag s2" "ioqs s2 = ioqs ?s1"
      "thread_ready_list s2 = consumer ?q # thread_ready_list s"
      "\<forall>u. u \<noteq> consumer ?q \<longrightarrow> waiter_ok u s \<longrightarrow> waiter_ok u s2"
      using unblock_waiter [of ?s1 "consumer ?q"] r False ok by (auto simp: ioq_ready_def)
    let ?s3 = "set_ioq q (consumer_update (\<lambda>_. NULL)) s2"
    have "ioq_putchar q b s = Ret () ?s3"
      using run False s2(1) by (simp add: wakeup_def)
    moreover have "ioq_ready q ?s3"
    proof -
      have "waiter_ok (producer ?q) s2"
        using r s2(6) False by (auto simp: ioq_ready_def)
      then show ?thesis
        using c(1) s2 by (auto simp: ioq_ready_def waiter_ok_def wf_ioq_def)
    qed
    moreover have "ioq_contents (ioqs ?s3 q) = ioq_contents ?q'"
      using s2(4) by (simp add: ioq_contents_def ioq_at_def [abs_def] ioq_length_def)
    ultimately show ?thesis
      using c(2) s2(5) False by (intro exI [of _ ?s3]) (simp add: woken_def)
  qed
qed

lemma ioq_getchar_ok:
  assumes r: "ioq_ready q s" and ne: "ioq_contents (ioqs s q) \<noteq> []"
  shows "\<exists>s'. ioq_getchar q s = Ret (hd (ioq_contents (ioqs s q))) s' \<and> ioq_ready q s' \<and>
    ioq_contents (ioqs s' q) = tl (ioq_contents (ioqs s q)) \<and> producer (ioqs s' q) = NULL \<and>
    thread_ready_list s' = woken (producer (ioqs s q)) (thread_ready_list s)"
proof -
  let ?q = "ioqs s q"
  let ?q' = "?q\<lparr>ioq_tail := next_pos (ioq_tail ?q)\<rparr>"
  let ?s1 = "set_ioq q (\<lambda>_. ?q') s"
  have w: "wf_ioq ?q" "\<not> iflag s"
    using r by (simp_all add: ioq_ready_def)
  have c: "wf_ioq ?q'" "ioq_contents ?q = buf ?q ! nat (ioq_tail ?q) # ioq_contents ?q'"
    using get_contents [OF w(1) ne refl] by simp_all
  let ?b = "buf ?q ! nat (ioq_tail ?q)"
  have "nat (ioq_tail ?q) < length (buf ?q)"
    using w(1) by (auto simp: wf_ioq_def)
  then have run: "ioq_getchar q s = thenK (whenK (producer ?q \<noteq> NULL) (wakeup producer producer_update q)) (retK ?b) ?s1"
    using w empty_iff [OF w(1)] ne
    by (simp add: ioq_getchar_def ioq_empty_def off_iff bindK_def thenK_def set_ioq_def)
  have ok: "waiter_ok t ?s1 = waiter_ok t s" for t
    by (simp add: waiter_ok_def)
  show ?thesis
  proof (cases "producer ?q = NULL")
    case True
    then show ?thesis
      using run c r ok by (intro exI [of _ ?s1]) (simp add: ioq_ready_def woken_def)
  next
    case False
    obtain s2 where s2: "thread_unblock (producer ?q) ?s1 = Ret () s2" "queues s2" "\<not> iflag s2" "ioqs s2 = ioqs ?s1"
      "thread_ready_list s2 = producer ?q # thread_ready_list s"
      "\<forall>u. u \<noteq> producer ?q \<longrightarrow> waiter_ok u s \<longrightarrow> waiter_ok u s2"
      using unblock_waiter [of ?s1 "producer ?q"] r False ok by (auto simp: ioq_ready_def)
    let ?s3 = "set_ioq q (producer_update (\<lambda>_. NULL)) s2"
    have "ioq_getchar q s = Ret ?b ?s3"
      using run False s2(1) by (simp add: wakeup_def)
    moreover have "ioq_ready q ?s3"
    proof -
      have "waiter_ok (consumer ?q) s2"
        using r s2(6) False by (auto simp: ioq_ready_def)
      then show ?thesis
        using c(1) s2 by (auto simp: ioq_ready_def waiter_ok_def wf_ioq_def)
    qed
    moreover have "ioq_contents (ioqs ?s3 q) = ioq_contents ?q'"
      using s2(4) by (simp add: ioq_contents_def ioq_at_def [abs_def] ioq_length_def)
    ultimately show ?thesis
      using c(2) s2(5) False by (intro exI [of _ ?s3]) (simp add: woken_def)
  qed
qed

subsection \<open>Bounded queues\<close>

text \<open>What the pipe relies on: elements come out in the order they went in, and neither operation sleeps
  while there is room and there are elements.\<close>

locale bounded_queue =
  fixes put :: "'a \<Rightarrow> ('s, unit) kop" and get :: "('s, 'a) kop" and elems :: "'s \<Rightarrow> 'a list"
    and ready :: "'s \<Rightarrow> bool" and cap :: nat
  assumes put: "ready s \<Longrightarrow> length (elems s) < cap \<Longrightarrow>
      \<exists>s'. put a s = Ret () s' \<and> ready s' \<and> elems s' = elems s @ [a]"
    and get: "ready s \<Longrightarrow> elems s \<noteq> [] \<Longrightarrow>
      \<exists>s'. get s = Ret (hd (elems s)) s' \<and> ready s' \<and> elems s' = tl (elems s)"
begin

lemma put_each:
  "ready s \<Longrightarrow> length (elems s) + length as \<le> cap \<Longrightarrow>
    \<exists>s'. eachK put as s = Ret () s' \<and> ready s' \<and> elems s' = elems s @ as"
proof (induction as arbitrary: s)
  case (Cons a as)
  obtain s1 where s1: "put a s = Ret () s1" "ready s1" "elems s1 = elems s @ [a]"
    using put [of s a] Cons.prems by auto
  then obtain s' where "eachK put as s1 = Ret () s'" "ready s'" "elems s' = elems s1 @ as"
    using Cons.IH [of s1] Cons.prems by auto
  then show ?case
    using s1 by simp
qed simp

lemma get_times:
  "ready s \<Longrightarrow> n \<le> length (elems s) \<Longrightarrow>
    \<exists>s'. timesK n get s = Ret (take n (elems s)) s' \<and> ready s' \<and> elems s' = drop n (elems s)"
proof (induction n arbitrary: s)
  case (Suc n)
  then have ne: "elems s \<noteq> []"
    by auto
  obtain s1 where s1: "get s = Ret (hd (elems s)) s1" "ready s1" "elems s1 = tl (elems s)"
    using get [OF Suc.prems(1) ne] by blast
  moreover have "n \<le> length (elems s1)"
    using s1(3) Suc.prems(2) by simp
  ultimately obtain s' where "timesK n get s1 = Ret (take n (elems s1)) s'" "ready s'" "elems s' = drop n (elems s1)"
    using Suc.IH [of s1] by blast
  then show ?case
    using s1 ne by (cases "elems s") auto
qed simp

end

interpretation ring: bounded_queue "ioq_putchar q" "ioq_getchar q" "\<lambda>s. ioq_contents (ioqs s q)" "ioq_ready q" "bufsize - 1"
  for q
proof
  show "\<exists>s'. ioq_putchar q a s = Ret () s' \<and> ioq_ready q s' \<and> ioq_contents (ioqs s' q) = ioq_contents (ioqs s q) @ [a]"
    if "ioq_ready q s" "length (ioq_contents (ioqs s q)) < bufsize - 1" for a s
    using ioq_putchar_ok [OF that] by blast
  show "\<exists>s'. ioq_getchar q s = Ret (hd (ioq_contents (ioqs s q))) s' \<and> ioq_ready q s' \<and>
      ioq_contents (ioqs s' q) = tl (ioq_contents (ioqs s q))"
    if "ioq_ready q s" "ioq_contents (ioqs s q) \<noteq> []" for s
    using ioq_getchar_ok [OF that] by blast
qed

subsection \<open>Properties\<close>

text \<open>A machine with one thread ready to run and an empty queue at \<^verbatim>\<open>0x6000\<close>.\<close>

definition demo_io :: io where
  "demo_io = ioqueue_init 0x6000 (memory.extend (sync.extend demo_sync (sync.more demo_memory))
     (io.fields (\<lambda>_. \<lparr>producer = 0, consumer = 0, buf = replicate bufsize 0, ioq_head = 0, ioq_tail = 0\<rparr>)))"

lemma lock_init_io [simp]:
  "sched_inv (lock_init l s) = sched_inv s" "iflag (lock_init l s) = iflag s" "idle_thread (lock_init l s) = idle_thread s"
  "ioqs (lock_init l (s' :: 'a io_scheme)) = ioqs s'"
  by (simp_all add: lock_init_def sema_init_def Let_def) (simp add: set_lock_def set_sema_def)

lemma demo_io_ok: "sched_inv demo_io" "\<not> iflag demo_io" "lock_free 0x6000 demo_io"
  "ioqs demo_io 0x6000 = \<lparr>producer = 0, consumer = 0, buf = replicate bufsize 0, ioq_head = 0, ioq_tail = 0\<rparr>"
  "running_thread demo_io \<noteq> idle_thread demo_io"
proof -
  let ?s = "memory.extend (sync.extend demo_sync (sync.more demo_memory))
     (io.fields (\<lambda>_. \<lparr>producer = 0, consumer = 0, buf = replicate bufsize 0, ioq_head = 0, ioq_tail = 0\<rparr>))"
  have f [simp]: "tasks ?s = tasks demo_sync" "thread_ready_list ?s = thread_ready_list demo_sync"
    "thread_all_list ?s = thread_all_list demo_sync" "idle_thread ?s = idle_thread demo_sync"
    "esp ?s = esp demo_sync" "cr3 ?s = cr3 demo_sync" "iflag ?s = iflag demo_sync"
    by (simp_all add: memory.defs sync.defs io.defs)
  have r: "running_thread ?s = 0xc009e000"
    using demo_sync_running by (simp only: running_thread_def f)
  have "spaces root ?s" for root
    by (simp add: spaces_def roots_def demo_task_def)
  then have i: "sched_inv ?s"
    using r by (simp add: sched_inv_def queues_def demo_task_def)
  show "sched_inv demo_io" "\<not> iflag demo_io" 
    using i by (simp_all add: demo_io_def ioqueue_init_def)
  show "lock_free 0x6000 demo_io"
    using lock_init_free(1) [of ?s "0x6000"] r by (simp add: demo_io_def ioqueue_init_def lock_free_def)
  show "running_thread demo_io \<noteq> idle_thread demo_io"
    using r by (simp add: demo_io_def ioqueue_init_def)
  show "ioqs demo_io 0x6000 = \<lparr>producer = 0, consumer = 0, buf = replicate bufsize 0, ioq_head = 0, ioq_tail = 0\<rparr>"
    by (simp add: demo_io_def ioqueue_init_def) (simp add: memory.defs sync.defs io.defs)
qed

text \<open>C5: A pipe is a first-in first-out queue of at most 2047 bytes. With interrupts off and a well-formed
  queue, \<^verbatim>\<open>pipe_write\<close> of bytes that fit returns their number and appends them, and a following \<^verbatim>\<open>pipe_read\<close>
  returns the oldest bytes, in order, as many as were asked for and are there; neither call sleeps.\<close>

theorem pipe_is_fifo:
  assumes r: "ioq_ready q s" and fit: "length (ioq_contents (ioqs s q)) + length bs \<le> bufsize - 1"
  shows "\<exists>s1 s2. pipe_write q bs s = Ret (length bs) s1 \<and>
    ioq_contents (ioqs s1 q) = ioq_contents (ioqs s q) @ bs \<and>
    pipe_read q n s1 = Ret (take n (ioq_contents (ioqs s q) @ bs)) s2 \<and>
    ioq_contents (ioqs s2 q) = drop n (ioq_contents (ioqs s q) @ bs) \<and> ioq_ready q s2"
proof -
  have w: "wf_ioq (ioqs s q)"
    using r by (simp add: ioq_ready_def)
  obtain s1 where s1: "eachK (ioq_putchar q) bs s = Ret () s1" "ioq_ready q s1"
    "ioq_contents (ioqs s1 q) = ioq_contents (ioqs s q) @ bs"
    using ring.put_each [OF r fit] by blast
  have "nat (int bufsize - ioq_length (ioqs s q)) > length bs"
    using fit length_contents [OF w] by (simp add: bufsize_def)
  then have wr: "pipe_write q bs s = Ret (length bs) s1"
    using s1(1) by (simp add: pipe_write_def Let_def)
  let ?xs = "ioq_contents (ioqs s q) @ bs"
  have len: "nat (ioq_length (ioqs s1 q)) = length ?xs"
    using length_contents [of "ioqs s1 q"] s1(2,3) by (simp add: ioq_ready_def)
  let ?n = "if length ?xs > n then n else length ?xs"
  have "?n \<le> length (ioq_contents (ioqs s1 q))"
    using s1(3) by simp
  from ring.get_times [OF s1(2) this] obtain s2 where s2: "timesK ?n (ioq_getchar q) s1 = Ret (take ?n ?xs) s2"
    "ioq_ready q s2" "ioq_contents (ioqs s2 q) = drop ?n ?xs"
    unfolding s1(3) by blast
  have "pipe_read q n s1 = Ret (take ?n ?xs) s2"
    using s2(1) unfolding pipe_read_def Let_def len .
  moreover have "take ?n ?xs = take n ?xs" "drop ?n ?xs = drop n ?xs"
    by simp_all
  ultimately show ?thesis
    using wr s1(3) s2(2,3) by metis
qed

theorem pipe_is_fifo_witness:
  "\<exists>s1 s2. pipe_write 0x6000 [1, 2, 3] demo_io = Ret 3 s1 \<and> pipe_read 0x6000 2 s1 = Ret [1, 2] s2"
proof -
  have "ioq_ready 0x6000 demo_io"
    using demo_io_ok sched_invD(1) [OF demo_io_ok(1)] by (simp add: ioq_ready_def wf_ioq_def bufsize_def waiter_ok_def)
  moreover have "ioq_contents (ioqs demo_io 0x6000) = []"
    by (simp add: demo_io_ok ioq_contents_def ioq_length_def)
  ultimately show ?thesis
    using pipe_is_fifo [of "0x6000" demo_io "[1, 2, 3]" 2] by (auto simp: bufsize_def)
qed

lemma eachK_append: "eachK f (as @ bs) s = thenK (eachK f as) (eachK f bs) s"
  by (induction as arbitrary: s) (simp_all add: thenK_def bindK_def split: outcome.splits)

text \<open>Without a sleeping consumer a write changes nothing but the queue.\<close>

lemma put_alone:
  assumes "ioq_ready q s" "consumer (ioqs s q) = NULL" "length (ioq_contents (ioqs s q)) + length bs \<le> bufsize - 1"
  shows "\<exists>c. eachK (ioq_putchar q) bs s = Ret () (set_ioq q (\<lambda>_. c) s) \<and> wf_ioq c \<and>
    ioq_contents c = ioq_contents (ioqs s q) @ bs \<and> producer c = producer (ioqs s q) \<and> consumer c = NULL"
  using assms
proof (induction bs arbitrary: s)
  case Nil
  have "set_ioq q (\<lambda>_. ioqs s q) s = s"
    by (simp add: set_ioq_def)
  then show ?case
    using Nil by (intro exI [of _ "ioqs s q"]) (simp add: ioq_ready_def)
next
  case (Cons b bs)
  let ?q = "ioqs s q"
  let ?q' = "?q\<lparr>buf := (buf ?q)[nat (ioq_head ?q) := b], ioq_head := next_pos (ioq_head ?q)\<rparr>"
  let ?s1 = "set_ioq q (\<lambda>_. ?q') s"
  have w: "wf_ioq ?q" "\<not> iflag s" "length (ioq_contents ?q) \<noteq> bufsize - 1"
    using Cons.prems by (simp_all add: ioq_ready_def)
  note c = put_contents [OF w(1,3) refl, of b]
  have "nat (ioq_head ?q) < length (buf ?q)"
    using w(1) by (auto simp: wf_ioq_def)
  then have run: "ioq_putchar q b s = Ret () ?s1"
    using w full_iff [OF w(1)] Cons.prems(2) by (simp add: ioq_putchar_def ioq_full_def off_iff bindK_def thenK_def set_ioq_def)
  have "ioq_ready q ?s1"
    using Cons.prems(1) c(1) by (simp add: ioq_ready_def waiter_ok_def)
  then obtain d where "eachK (ioq_putchar q) bs ?s1 = Ret () (set_ioq q (\<lambda>_. d) ?s1)" "wf_ioq d"
    "ioq_contents d = ioq_contents ?q @ b # bs" "producer d = producer ?q" "consumer d = NULL"
    using Cons.IH [of ?s1] Cons.prems c(2) by auto
  moreover have "set_ioq q (\<lambda>_. d) ?s1 = set_ioq q (\<lambda>_. d) s"
    by (simp add: set_ioq_def)
  ultimately show ?case
    using run by (intro exI [of _ d]) simp
qed

text \<open>C40: \<^verbatim>\<open>pipe_write\<close> can sleep. It takes the room in the ring to be 2048 bytes less those in it, but a ring
  of 2048 bytes is full with 2047: a write of 2048 bytes or more into an empty pipe stores 2047 of them
  and puts the writer to sleep, although the comment says that the smaller amount is chosen to avoid
  blocking.\<close>

theorem pipe_write_sleeps:
  fixes s :: "'a io_scheme"
  assumes inv: "sched_inv s" and r: "ioq_ready q s" and e: "ioq_contents (ioqs s q) = []"
    and n: "consumer (ioqs s q) = NULL" "producer (ioqs s q) = NULL" and l: "lock_free q s"
    and len: "2048 \<le> length bs" and ni: "running_thread s \<noteq> idle_thread s"
  shows "\<exists>s'. pipe_write q bs s = Blk s' \<and> ioq_contents (ioqs s' q) = take 2047 bs \<and>
    producer (ioqs s' q) = running_thread s \<and> running_thread s' \<noteq> running_thread s"
proof -
  have w: "wf_ioq (ioqs s q)" "\<not> iflag s"
    using r by (simp_all add: ioq_ready_def)
  have B: "bufsize = 2048"
    by (simp add: bufsize_def)
  have "nat (int bufsize - ioq_length (ioqs s q)) = 2048"
    using length_contents [OF w(1)] e B by simp
  moreover have "take 2048 bs = take 2047 bs @ [bs ! 2047]"
    using len take_Suc_conv_app_nth [of 2047 bs] by simp
  ultimately have split: "pipe_write q bs s = thenK (eachK (ioq_putchar q) (take 2047 bs @ [bs ! 2047])) (retK 2048) s"
    using len by (auto simp: pipe_write_def Let_def)
  obtain c where c: "eachK (ioq_putchar q) (take 2047 bs) s = Ret () (set_ioq q (\<lambda>_. c) s)" "wf_ioq c"
    "ioq_contents c = take 2047 bs" "producer c = NULL" "consumer c = NULL"
  proof -
    have "length (ioq_contents (ioqs s q)) + length (take 2047 bs) \<le> bufsize - 1"
      using e len by (simp add: bufsize_def)
    from put_alone [OF r n(1) this] show ?thesis
      using that e n(2) by auto
  qed
  let ?s1 = "set_ioq q (\<lambda>_. c) s"
  have full: "next_pos (ioq_head c) = ioq_tail c"
    using full_iff [OF c(2)] c(3) len B by simp
  have l1: "lock_acquire q ?s1 = Ret () (with_lock q ?s1)"
    using l by (intro lock_acquire_free) (simp add: lock_free_def)
  let ?s2 = "with_lock q ?s1"
  let ?s3 = "set_ioq q (producer_update (\<lambda>_. running_thread s)) ?s2"
  have i3: "sched_inv ?s3" "running_thread ?s3 = running_thread s" "idle_thread ?s3 = idle_thread s"
    "ioqs ?s3 q = c\<lparr>producer := running_thread s\<rparr>"
  proof -
    have "sched_inv ?s2 = sched_inv ?s1"
      by (rule sched_parts; simp add: with_lock_def)
    then show "sched_inv ?s3"
      using inv by simp
    show "running_thread ?s3 = running_thread s" "idle_thread ?s3 = idle_thread s"
      "ioqs ?s3 q = c\<lparr>producer := running_thread s\<rparr>"
      by simp_all (simp_all add: with_lock_def)
  qed
  have "\<exists>s'. thread_block TASK_BLOCKED ?s3 = Ret (intr_get_status ?s3) s' \<and> sched_inv s' \<and> \<not> iflag s' \<and>
      running_thread s' # thread_ready_list s' =
        (if thread_ready_list ?s3 = [] then [idle_thread ?s3] else thread_ready_list ?s3) \<and>
      thread_all_list s' = thread_all_list ?s3 \<and> idle_thread s' = idle_thread ?s3 \<and>
      (\<forall>t. t \<noteq> idle_thread ?s3 \<longrightarrow> blocked_status (status (tasks s' t)) =
        (t = running_thread ?s3 \<or> blocked_status (status (tasks ?s3 t))))"
    by (rule thread_block_ok [OF i3(1)]) (simp_all add: blocked_status_def)
  then obtain old s' where s': "thread_block TASK_BLOCKED ?s3 = Ret old s'" "sched_inv s'"
    "blocked_status (status (tasks s' (running_thread s)))"
    using i3(2,3) ni by auto
  have ioq': "ioqs s' q = c\<lparr>producer := running_thread s\<rparr>"
    using rest_io [OF thread_block_rest [OF s'(1)]] i3(4) by simp
  have "ioq_putchar q (bs ! 2047) ?s1 = Blk s'"
  proof -
    have "ioq_putchar q (bs ! 2047) ?s1 = ioq_wait producer producer_update q ?s2"
      using full w(2) l1 by (simp add: ioq_putchar_def ioq_full_def off_iff bindK_def thenK_def)
    also have "\<dots> = Blk s'"
    proof -
      have "ioqs ?s2 = ioqs ?s1" "running_thread ?s2 = running_thread s"
        by (simp_all) (simp add: with_lock_def)
      then show ?thesis
        using s'(1) c(4) by (simp add: ioq_wait_def Let_def)
    qed
    finally show ?thesis .
  qed
  then have "pipe_write q bs s = Blk s'"
    unfolding split using c(1) by (simp add: eachK_append thenK_def)
  moreover have "running_thread s' \<noteq> running_thread s"
    using s'(2,3) sched_invD(3) [OF s'(2)] by (auto simp: blocked_status_def)
  moreover have "ioq_contents (c\<lparr>producer := running_thread s\<rparr>) = ioq_contents c"
    by (simp add: ioq_contents_def ioq_at_def [abs_def] ioq_length_def)
  ultimately show ?thesis
    using ioq' c(3) by auto
qed

theorem pipe_write_sleeps_witness:
  "\<exists>s'. pipe_write 0x6000 (replicate 2048 7) demo_io = Blk s' \<and> length (ioq_contents (ioqs s' 0x6000)) = 2047"
proof -
  have "ioq_ready 0x6000 demo_io"
    using demo_io_ok sched_invD(1) [OF demo_io_ok(1)] by (simp add: ioq_ready_def wf_ioq_def bufsize_def waiter_ok_def)
  moreover have "ioq_contents (ioqs demo_io 0x6000) = []"
    by (simp add: demo_io_ok ioq_contents_def ioq_length_def)
  ultimately show ?thesis
    using pipe_write_sleeps [OF demo_io_ok(1), of "0x6000" "replicate 2048 7"] demo_io_ok(3-5) by auto
qed

end
