(* ===== verification/Disk.thy ===== *)
theory Disk
  imports Bitmap
begin

section \<open>The state of the file system and the services below it\<close>

text \<open>
  The file system (\<^verbatim>\<open>fs/inode.c\<close>, \<^verbatim>\<open>fs/file.c\<close>, \<^verbatim>\<open>fs/dir.c\<close>, \<^verbatim>\<open>fs/fs.c\<close>) is modelled on a state of its own,
  above the two services it calls. The disk of the mounted partition is an array of sectors, read and
  written by \<open>ide_read\<close> and \<open>ide_write\<close> with the assertions of \<^verbatim>\<open>device/ide.c\<close>; that the driver moves
  exactly these sectors is shown in theory \<^verbatim>\<open>Ide\<close>. A request to the heap is answered by
  the next element of \<open>grants\<close> (\<^verbatim>\<open>NULL\<close>: refused), so that a statement about all \<open>grants\<close> is one about every
  behaviour of the heap; \<open>live\<close> are the blocks handed out and not given back, each with the pool it is
  from. One call of the file system runs alone: the source has no lock above the one of the channel.
\<close>

subsection \<open>Structures\<close>

record super_block =
  magic :: u32
  sb_sec_cnt :: u32
  inode_cnt :: u32
  part_lba_base :: u32
  block_bitmap_lba :: u32
  block_bitmap_sects :: u32
  inode_bitmap_lba :: u32
  inode_bitmap_sects :: u32
  inode_table_lba :: u32
  inode_table_sects :: u32
  data_start_lba :: u32
  root_inode_no :: u32
  dir_entry_size :: u32

text \<open>\<^verbatim>\<open>inode_tag\<close> is the place of the inode in the list \<open>open_inodes\<close>.\<close>

record inode =
  i_no :: u32
  i_size :: u32
  i_open_cnts :: u32
  write_deny :: bool
  i_sectors :: "u32 list"

record partition =
  start_lba :: u32
  sec_cnt :: u32
  sb :: super_block
  block_bitmap :: bitmap
  inode_bitmap :: bitmap
  open_inodes :: "addr list"

record open_file =
  fd_pos :: u32
  fd_flag :: u32
  fd_inode :: addr

record dir =
  dir_inode :: addr
  dir_pos :: u32

text \<open>
  \<open>fd_table\<close>, \<open>cwd_inode_nr\<close> and \<open>in_kernel\<close> (its \<^verbatim>\<open>pgdir\<close> is \<^verbatim>\<open>NULL\<close>) are those of the running thread;
  \<open>root_dir\<close> is the address of the global of that name.
\<close>

record fsys =
  disk :: "nat \<Rightarrow> u8 list"
  cur_part :: partition
  inodes :: "addr \<Rightarrow> inode"
  dirs :: "addr \<Rightarrow> dir"
  root_dir :: addr
  file_table :: "open_file list"
  fd_table :: "int list"
  cwd_inode_nr :: u32
  in_kernel :: bool
  grants :: "addr list"
  live :: "(addr \<times> bool) list"

definition SECTOR_SIZE :: nat where "SECTOR_SIZE = 512"
definition MAX_FILE_OPEN :: nat where "MAX_FILE_OPEN = 32"
definition MAX_FILES_OPEN_PER_PROC :: nat where "MAX_FILES_OPEN_PER_PROC = 8"
definition MAX_FILE_NAME_LEN :: nat where "MAX_FILE_NAME_LEN = 16"
definition MAX_PATH_LEN :: nat where "MAX_PATH_LEN = 512"
definition sizeof_inode :: nat where "sizeof_inode = 76"
definition sizeof_dir_entry :: nat where "sizeof_dir_entry = 24"

definition set_inode :: "addr \<Rightarrow> (inode \<Rightarrow> inode) \<Rightarrow> fsys \<Rightarrow> fsys" where
  "set_inode a f s = s\<lparr>inodes := (inodes s)(a := f (inodes s a))\<rparr>"

definition set_file :: "nat \<Rightarrow> (open_file \<Rightarrow> open_file) \<Rightarrow> fsys \<Rightarrow> fsys" where
  "set_file i f s = s\<lparr>file_table := (file_table s)[i := f (file_table s ! i)]\<rparr>"

definition set_part :: "(partition \<Rightarrow> partition) \<Rightarrow> fsys \<Rightarrow> fsys" where
  "set_part f s = s\<lparr>cur_part := f (cur_part s)\<rparr>"

definition set_dir :: "addr \<Rightarrow> (dir \<Rightarrow> dir) \<Rightarrow> fsys \<Rightarrow> fsys" where
  "set_dir d f s = s\<lparr>dirs := (dirs s)(d := f (dirs s d))\<rparr>"

subsection \<open>The heap as the file system sees it\<close>

text \<open>\<^verbatim>\<open>sys_malloc\<close>: the pool is the kernel's when the running thread has no page directory of its own.\<close>

definition heap_alloc :: "(fsys, addr) kop" where
  "heap_alloc s =
     (case grants s of
        [] \<Rightarrow> Ret NULL s
      | p # ps \<Rightarrow> Ret p (s\<lparr>grants := ps, live := (if p = NULL then live s else (p, in_kernel s) # live s)\<rparr>))"

text \<open>\<^verbatim>\<open>sys_free\<close> asserts that the pointer is not \<^verbatim>\<open>NULL\<close> and, for the kernel, that it is an address of the
  kernel's heap; giving back what is not handed out is outside the model.\<close>

definition heap_free :: "addr \<Rightarrow> (fsys, unit) kop" where
  "heap_free p s =
     (if p = NULL then Flt Panic
      else if (p, in_kernel s) \<in> set (live s) then Ret () (s\<lparr>live := remove1 (p, in_kernel s) (live s)\<rparr>)
      else if in_kernel s then Flt Panic else Flt Out_Of_Bounds)"

text \<open>An access through \<^verbatim>\<open>NULL\<close>.\<close>

definition derefK :: "addr \<Rightarrow> (fsys, unit) kop" where
  "derefK p = (if p = NULL then fltK Page_Fault else retK ())"

subsection \<open>The disk as an array of sectors\<close>

definition max_lba :: u32 where "max_lba = 80 * 1024 * 1024 div 512 - 1"

fun rd_secs :: "(nat \<Rightarrow> u8 list) \<Rightarrow> nat \<Rightarrow> nat \<Rightarrow> u8 list" where
  "rd_secs d l 0 = []"
| "rd_secs d l (Suc n) = d l @ rd_secs d (Suc l) n"

fun wr_secs :: "(nat \<Rightarrow> u8 list) \<Rightarrow> nat \<Rightarrow> u8 list \<Rightarrow> nat \<Rightarrow> nat \<Rightarrow> u8 list" where
  "wr_secs d l bs 0 = d"
| "wr_secs d l bs (Suc n) = wr_secs (d(l := take SECTOR_SIZE bs)) (Suc l) (drop SECTOR_SIZE bs) n"

text \<open>\<open>room\<close> is the size of the buffer the sectors are read into.\<close>

definition ide_read :: "u32 \<Rightarrow> nat \<Rightarrow> nat \<Rightarrow> (fsys, u8 list) kop" where
  "ide_read lba room n s =
     (if \<not> (lba \<le> max_lba \<and> 0 < n) then Flt Panic
      else if room < n * SECTOR_SIZE then Flt Out_Of_Bounds
      else Ret (rd_secs (disk s) (unat lba) n) s)"

definition ide_write :: "u32 \<Rightarrow> u8 list \<Rightarrow> nat \<Rightarrow> (fsys, unit) kop" where
  "ide_write lba bs n s =
     (if \<not> (lba \<le> max_lba \<and> 0 < n) then Flt Panic
      else if length bs < n * SECTOR_SIZE then Flt Out_Of_Bounds
      else Ret () (s\<lparr>disk := wr_secs (disk s) (unat lba) bs n\<rparr>))"

subsection \<open>Bytes and words\<close>

text \<open>\<^verbatim>\<open>memcpy(buf + off, src, n)\<close> on a buffer held as a list.\<close>

definition memcpy_at :: "u8 list \<Rightarrow> nat \<Rightarrow> u8 list \<Rightarrow> nat \<Rightarrow> u8 list res" where
  "memcpy_at b off src n =
     (if off + n \<le> length b \<and> n \<le> length src then Inr (take off b @ take n src @ drop (off + n) b)
      else Inl Out_Of_Bounds)"

text \<open>The little-endian layout of a 32-bit word.\<close>

definition le32 :: "u32 \<Rightarrow> u8 list" where
  "le32 w = [ucast w, ucast (drop_bit 8 w), ucast (drop_bit 16 w), ucast (drop_bit 24 w)]"

definition of_le32 :: "u8 list \<Rightarrow> u32" where
  "of_le32 bs = (case bs of
     [a, b, c, d] \<Rightarrow> ucast a OR push_bit 8 (ucast b) OR push_bit 16 (ucast c) OR push_bit 24 (ucast d)
   | _ \<Rightarrow> 0)"

text \<open>The word at byte \<open>off\<close> of a buffer, and the words a buffer holds.\<close>

definition word_at :: "u8 list \<Rightarrow> nat \<Rightarrow> u32" where
  "word_at bs off = of_le32 (take 4 (drop off bs))"

definition words_of :: "u8 list \<Rightarrow> nat \<Rightarrow> u32 list" where
  "words_of bs n = map (\<lambda>i. word_at bs (4 * i)) [0..<n]"

definition bytes_of :: "u32 list \<Rightarrow> u8 list" where
  "bytes_of ws = concat (map le32 ws)"

lemma le32_inverse [simp]: "of_le32 (le32 w) = w"
proof (rule bit_word_eqI)
  fix n
  assume n: "n < LENGTH(32)"
  consider "n < 8" | "8 \<le> n" "n < 16" | "16 \<le> n" "n < 24" | "24 \<le> n"
    by linarith
  then show "bit (of_le32 (le32 w)) n \<longleftrightarrow> bit w n"
    using n by cases (auto simp: le32_def of_le32_def bit_or_iff bit_push_bit_iff bit_ucast_iff bit_drop_bit_eq)
qed

lemma length_le32 [simp]: "length (le32 w) = 4"
  by (simp add: le32_def)

lemma length_bytes_of [simp]: "length (bytes_of ws) = 4 * length ws"
  by (induction ws) (simp_all add: bytes_of_def)

lemma word_at_bytes_of: "i < length ws \<Longrightarrow> word_at (bytes_of ws @ rest) (4 * i) = ws ! i"
proof (induction ws arbitrary: i)
  case (Cons w ws)
  show ?case
  proof (cases i)
    case 0
    then show ?thesis
      by (simp add: word_at_def bytes_of_def)
  next
    case (Suc k)
    then have "word_at (bytes_of ws @ rest) (4 * k) = ws ! k"
      using Cons by simp
    then show ?thesis
      using Suc by (simp add: word_at_def bytes_of_def)
  qed
qed simp

lemma words_of_bytes_of: "words_of (bytes_of ws @ rest) (length ws) = ws"
  by (rule nth_equalityI) (simp_all add: words_of_def word_at_bytes_of)

lemma length_words_of [simp]: "length (words_of bs n) = n"
  by (simp add: words_of_def)

lemma memcpy_at_Inr: "off + n \<le> length b \<Longrightarrow> n \<le> length src \<Longrightarrow>
    memcpy_at b off src n = Inr (take off b @ take n src @ drop (off + n) b)"
  by (simp add: memcpy_at_def)

subsection \<open>Reading and writing sectors\<close>

definition sectors_ok :: "(nat \<Rightarrow> u8 list) \<Rightarrow> bool" where
  "sectors_ok d \<longleftrightarrow> (\<forall>l. length (d l) = SECTOR_SIZE)"

lemma length_rd_secs [simp]: "sectors_ok d \<Longrightarrow> length (rd_secs d l n) = n * SECTOR_SIZE"
  by (induction n arbitrary: l) (simp_all add: sectors_ok_def)

lemma sectors_ok_upd [simp]: "sectors_ok d \<Longrightarrow> length b = SECTOR_SIZE \<Longrightarrow> sectors_ok (d(l := b))"
  by (simp add: sectors_ok_def)

lemma sectors_ok_wr: "sectors_ok d \<Longrightarrow> n * SECTOR_SIZE \<le> length bs \<Longrightarrow> sectors_ok (wr_secs d l bs n)"
  by (induction n arbitrary: d l bs) (simp_all add: SECTOR_SIZE_def)

lemma wr_secs_outside: "k < l \<or> l + n \<le> k \<Longrightarrow> wr_secs d l bs n k = d k"
  by (induction n arbitrary: d l bs) auto

lemma wr_secs_inside: "k < n \<Longrightarrow> wr_secs d l bs n (l + k) = take SECTOR_SIZE (drop (k * SECTOR_SIZE) bs)"
proof (induction n arbitrary: d l bs k)
  case (Suc n)
  show ?case
  proof (cases k)
    case 0
    then show ?thesis
      by (simp add: wr_secs_outside)
  next
    case (Suc j)
    then have "wr_secs (d(l := take SECTOR_SIZE bs)) (Suc l) (drop SECTOR_SIZE bs) n (Suc l + j) =
        take SECTOR_SIZE (drop (j * SECTOR_SIZE) (drop SECTOR_SIZE bs))"
      using Suc.prems by (intro Suc.IH) simp
    then show ?thesis
      using \<open>k = Suc j\<close> by (simp add: add.commute)
  qed
qed simp

lemma rd_wr_secs: "n * SECTOR_SIZE \<le> length bs \<Longrightarrow> rd_secs (wr_secs d l bs n) l n = take (n * SECTOR_SIZE) bs"
proof (induction n arbitrary: d l bs)
  case (Suc n)
  have "rd_secs (wr_secs (d(l := take SECTOR_SIZE bs)) (Suc l) (drop SECTOR_SIZE bs) n) (Suc l) n
      = take (n * SECTOR_SIZE) (drop SECTOR_SIZE bs)"
    using Suc.prems by (intro Suc.IH) simp
  then show ?case
    by (simp add: wr_secs_outside take_add)
qed simp

lemma rd_secs_cong: "(\<And>k. l \<le> k \<Longrightarrow> k < l + n \<Longrightarrow> d k = d' k) \<Longrightarrow> rd_secs d l n = rd_secs d' l n"
  by (induction n arbitrary: l) auto

lemma ide_read_run: "lba \<le> max_lba \<Longrightarrow> 0 < n \<Longrightarrow> n * SECTOR_SIZE \<le> room \<Longrightarrow>
    ide_read lba room n s = Ret (rd_secs (disk s) (unat lba) n) s"
  by (simp add: ide_read_def)

lemma ide_write_run: "lba \<le> max_lba \<Longrightarrow> 0 < n \<Longrightarrow> n * SECTOR_SIZE \<le> length bs \<Longrightarrow>
    ide_write lba bs n s = Ret () (s\<lparr>disk := wr_secs (disk s) (unat lba) bs n\<rparr>)"
  by (simp add: ide_write_def)

lemma ide_read_one: "lba \<le> max_lba \<Longrightarrow> SECTOR_SIZE \<le> room \<Longrightarrow> ide_read lba room 1 s = Ret (disk s (unat lba)) s"
  by (simp add: ide_read_def)

lemma ide_write_one: "lba \<le> max_lba \<Longrightarrow> length bs = SECTOR_SIZE \<Longrightarrow>
    ide_write lba bs 1 s = Ret () (s\<lparr>disk := (disk s)(unat lba := bs)\<rparr>)"
  by (simp add: ide_write_def)

text \<open>A window of \<open>n\<close> sectors inside \<open>m\<close> sectors, read and written.\<close>

lemma rd_secs_add: "rd_secs d l (m + n) = rd_secs d l m @ rd_secs d (l + m) n"
  by (induction m arbitrary: l) simp_all

lemma rd_secs_window:
  assumes "sectors_ok d" "a + n \<le> m"
  shows "rd_secs d (l + a) n = take (n * SECTOR_SIZE) (drop (a * SECTOR_SIZE) (rd_secs d l m))"
proof -
  have "rd_secs d l m = rd_secs d l a @ rd_secs d (l + a) n @ rd_secs d (l + a + n) (m - (a + n))"
    using assms(2) by (simp add: rd_secs_add [symmetric])
  then show ?thesis
    using assms(1) by simp
qed

lemma wr_secs_window:
  assumes "sectors_ok d" "a + n \<le> m" "n * SECTOR_SIZE \<le> length b"
  shows "rd_secs (wr_secs d (l + a) b n) l m =
    take (a * SECTOR_SIZE) (rd_secs d l m) @ take (n * SECTOR_SIZE) b @ drop ((a + n) * SECTOR_SIZE) (rd_secs d l m)"
proof -
  let ?d = "wr_secs d (l + a) b n"
  have split: "rd_secs e l m = rd_secs e l a @ rd_secs e (l + a) n @ rd_secs e (l + a + n) (m - (a + n))" for e
    using assms(2) by (simp add: rd_secs_add [symmetric])
  have "rd_secs ?d l a = rd_secs d l a" "rd_secs ?d (l + a + n) (m - (a + n)) = rd_secs d (l + a + n) (m - (a + n))"
    by (rule rd_secs_cong, simp add: wr_secs_outside)+
  then show ?thesis
    unfolding split [of ?d] split [of d] using assms by (simp add: rd_wr_secs distrib_right)
qed

end
