(* ===== verification/Path.thy ===== *)
theory Path
  imports Disk
begin

section \<open>Path names (path_parse and path_depth_cnt of fs/fs.c)\<close>

text \<open>
  A C string is the list of its bytes with the terminating zero; a pointer into it is a suffix of that
  list, and reading past its end is \<open>Out_Of_Bounds\<close>.
\<close>

subsection \<open>Operations\<close>

definition SLASH :: u8 where "SLASH = 47"

fun skip_slashes :: "u8 list \<Rightarrow> u8 list res" where
  "skip_slashes [] = Inl Out_Of_Bounds"
| "skip_slashes (c # cs) = (if c = SLASH then skip_slashes cs else Inr (c # cs))"

fun take_name :: "u8 list \<Rightarrow> (u8 list \<times> u8 list) res" where
  "take_name [] = Inl Out_Of_Bounds"
| "take_name (c # cs) =
     (if c \<noteq> SLASH \<and> c \<noteq> 0 then bindR (take_name cs) (\<lambda>(n, r). Inr (c # n, r)) else Inr ([], c # cs))"

text \<open>The bytes that are written to \<^verbatim>\<open>name_store\<close>, and the returned pointer (\<open>None\<close>: \<^verbatim>\<open>NULL\<close>).\<close>

definition path_parse :: "u8 list \<Rightarrow> (u8 list \<times> u8 list option) res" where
  "path_parse pathname =
     bindR (rd pathname 0) (\<lambda>c.
     bindR (if c = SLASH then skip_slashes (drop 1 pathname) else Inr pathname) (\<lambda>p.
     bindR (take_name p) (\<lambda>(n, r).
     Inr (n, if r ! 0 = 0 then None else Some r))))"

text \<open>The bytes of a component in the array \<^verbatim>\<open>char name[MAX_FILE_NAME_LEN]\<close>: \<open>path_parse\<close> writes past the end
  of the array when the component is longer, and writes no terminating zero.\<close>

definition store_name :: "u8 list \<Rightarrow> u8 list res" where
  "store_name n =
     (if length n \<le> MAX_FILE_NAME_LEN then Inr (n @ replicate (MAX_FILE_NAME_LEN - length n) 0)
      else Inl Out_Of_Bounds)"

lemma take_name_length:
  "take_name p = Inr (n, r) \<Longrightarrow> length n + length r = length p \<and> r \<noteq> [] \<and> (r ! 0 = SLASH \<or> r ! 0 = 0)"
  by (induction p arbitrary: n r) (auto split: if_splits simp: res_iffs)

lemma skip_slashes_length: "skip_slashes p = Inr q \<Longrightarrow> length q \<le> length p \<and> q \<noteq> [] \<and> q ! 0 \<noteq> SLASH"
  by (induction p) (auto split: if_splits)

lemma path_parse_shorter:
  assumes "path_parse p = Inr (n, Some r)"
  shows "length r < length p"
proof -
  obtain q where q: "take_name q = Inr (n, r)" "r ! 0 \<noteq> 0"
    and p: "p \<noteq> []" "if p ! 0 = SLASH then skip_slashes (drop 1 p) = Inr q else q = p"
    using assms by (auto simp: path_parse_def res_iffs split: if_splits)
  have "length n + length r = length q" "r \<noteq> []" "r ! 0 = SLASH"
    using take_name_length [OF q(1)] q(2) by auto
  show ?thesis
  proof (cases "p ! 0 = SLASH")
    case True
    then have "length q \<le> length p - 1"
      using p skip_slashes_length [of "drop 1 p" q] by auto
    then show ?thesis
      using \<open>length n + length r = length q\<close> p(1) by (cases p) auto
  next
    case False
    then have "n \<noteq> []"
      using p q(1) \<open>r \<noteq> []\<close> \<open>r ! 0 = SLASH\<close> q(2) by (cases p) (auto split: if_splits simp: res_iffs)
    then show ?thesis
      using False p(2) \<open>length n + length r = length q\<close> by (cases n) auto
  qed
qed

text \<open>The loop of \<^verbatim>\<open>path_depth_cnt\<close>; \<open>name\<close> is the array.\<close>

function depth_loop :: "u8 list option \<Rightarrow> u8 list \<Rightarrow> nat \<Rightarrow> nat res" where
  "depth_loop p name depth =
     (if name ! 0 = 0 then Inr depth
      else case p of
        None \<Rightarrow> depth_loop None (replicate MAX_FILE_NAME_LEN 0) (depth + 1)
      | Some q \<Rightarrow>
          bindR (path_parse q) (\<lambda>(n, r).
          bindR (store_name n) (\<lambda>name. depth_loop r name (depth + 1))))"
  by pat_completeness auto
termination
proof (relation "measures [\<lambda>(p, name, depth). case p of None \<Rightarrow> 0 | Some q \<Rightarrow> Suc (length q),
    \<lambda>(p, name, depth). if name ! 0 = 0 then 0 else 1]", goal_cases)
  case (3 p name depth q nr n r name')
  then show ?case
    using path_parse_shorter [of q n] by (cases r) auto
qed (auto simp: MAX_FILE_NAME_LEN_def)

declare depth_loop.simps [simp del]

text \<open>The array is not initialised before the first component is written to it: looking at its first byte
  when that component is empty is outside the model.\<close>

definition path_depth_cnt :: "u8 list \<Rightarrow> nat res" where
  "path_depth_cnt pathname =
     bindR (path_parse pathname) (\<lambda>(n, p).
     if n = [] then Inl Out_Of_Bounds
     else bindR (store_name n) (\<lambda>name. depth_loop p name 0))"

subsection \<open>The components of a path\<close>

text \<open>The reference: the pieces of a string between separators, without the empty ones; for a path the separator
  is the slash.\<close>

fun pieces :: "u8 \<Rightarrow> u8 list \<Rightarrow> u8 list \<Rightarrow> u8 list list" where
  "pieces sep acc [] = [acc]"
| "pieces sep acc (c # cs) = (if c = sep then acc # pieces sep [] cs else pieces sep (acc @ [c]) cs)"

definition split_by :: "u8 \<Rightarrow> u8 list \<Rightarrow> u8 list list" where
  "split_by sep p = filter (\<lambda>c. c \<noteq> []) (pieces sep [] p)"

abbreviation components :: "u8 list \<Rightarrow> u8 list list" where
  "components \<equiv> split_by SLASH"

abbreviation cstr :: "u8 list \<Rightarrow> u8 list" where
  "cstr p \<equiv> p @ [0]"

text \<open>The first piece and what follows it.\<close>

definition first_field :: "u8 \<Rightarrow> u8 list \<Rightarrow> u8 list" where
  "first_field sep p = takeWhile (\<lambda>c. c \<noteq> sep) (dropWhile (\<lambda>c. c = sep) p)"

definition rest_fields :: "u8 \<Rightarrow> u8 list \<Rightarrow> u8 list" where
  "rest_fields sep p = dropWhile (\<lambda>c. c \<noteq> sep) (dropWhile (\<lambda>c. c = sep) p)"

abbreviation first_name :: "u8 list \<Rightarrow> u8 list" where "first_name \<equiv> first_field SLASH"
abbreviation rest_path :: "u8 list \<Rightarrow> u8 list" where "rest_path \<equiv> rest_fields SLASH"

lemma SLASH_nonzero [simp]: "SLASH \<noteq> 0" "0 \<noteq> SLASH"
  by (simp_all add: SLASH_def)

lemma skip_slashes_cstr: "skip_slashes (cstr p) = Inr (cstr (dropWhile (\<lambda>c. c = SLASH) p))"
  by (induction p) auto

lemma take_name_cstr: "0 \<notin> set p \<Longrightarrow>
    take_name (cstr p) = Inr (takeWhile (\<lambda>c. c \<noteq> SLASH) p, cstr (dropWhile (\<lambda>c. c \<noteq> SLASH) p))"
  by (induction p) auto

lemma zero_free_parts: "0 \<notin> set p \<Longrightarrow> 0 \<notin> set (dropWhile P p)" "0 \<notin> set p \<Longrightarrow> 0 \<notin> set (rest_path p)"
  by (auto simp: rest_fields_def dest: set_dropWhileD)

lemma path_parse_cstr:
  assumes "0 \<notin> set p"
  shows "path_parse (cstr p) = Inr (first_name p, if rest_path p = [] then None else Some (cstr (rest_path p)))"
proof -
  have 1: "path_parse (cstr p) =
      bindR (take_name (cstr (dropWhile (\<lambda>c. c = SLASH) p))) (\<lambda>(n, r). Inr (n, if r ! 0 = 0 then None else Some r))"
    by (cases p) (simp_all add: path_parse_def skip_slashes_cstr)
  have 2: "cstr (rest_path p) ! 0 = 0 \<longleftrightarrow> rest_path p = []"
    using zero_free_parts(2) [OF assms] by (cases "rest_path p") auto
  have 3: "take_name (cstr (dropWhile (\<lambda>c. c = SLASH) p)) = Inr (first_name p, cstr (rest_path p))"
    unfolding first_field_def rest_fields_def by (rule take_name_cstr [OF zero_free_parts(1) [OF assms]])
  show ?thesis
    unfolding 1 3 by (simp add: 2)
qed

lemma pieces_append: "sep \<notin> set n \<Longrightarrow> pieces sep acc (n @ p) = pieces sep (acc @ n) p"
  by (induction n arbitrary: acc) auto

lemma split_by_skip: "split_by sep p = split_by sep (dropWhile (\<lambda>c. c = sep) p)"
  by (induction p) (auto simp: split_by_def)

lemma dropWhile_shape: "dropWhile P xs = [] \<or> (\<exists>y ys. dropWhile P xs = y # ys \<and> \<not> P y)"
  by (induction xs) auto

lemma split_by_step:
  "split_by sep p = (if first_field sep p = [] then [] else first_field sep p # split_by sep (rest_fields sep p))"
proof -
  define q where "q = dropWhile (\<lambda>c. c = sep) p"
  have parts: "q = first_field sep p @ rest_fields sep p" "sep \<notin> set (first_field sep p)"
    unfolding q_def first_field_def rest_fields_def by (auto dest: set_takeWhileD)
  have c: "split_by sep p = split_by sep q"
    unfolding q_def by (rule split_by_skip)
  consider "q = []" | c cs where "q = c # cs" "c \<noteq> sep"
    using dropWhile_shape [of "\<lambda>c. c = sep" p] unfolding q_def by blast
  then show ?thesis
  proof cases
    case 1
    then show ?thesis
      using c parts(1) by (simp add: split_by_def)
  next
    case 2
    then have n: "first_field sep p \<noteq> []"
      unfolding first_field_def q_def [symmetric] by simp
    have p: "pieces sep [] q = pieces sep (first_field sep p) (rest_fields sep p)"
      unfolding parts(1) pieces_append [OF parts(2)] by simp
    consider "rest_fields sep p = []" | r where "rest_fields sep p = sep # r"
      using dropWhile_shape [of "\<lambda>c. c \<noteq> sep" q] unfolding rest_fields_def q_def by blast
    then have "split_by sep q = first_field sep p # split_by sep (rest_fields sep p)"
      by cases (simp_all add: split_by_def p n)
    then show ?thesis
      using c n by simp
  qed
qed

lemmas components_step = split_by_step [of SLASH]

lemma store_name_nth: "store_name n = Inr a \<Longrightarrow> 0 \<notin> set n \<Longrightarrow> a ! 0 = 0 \<longleftrightarrow> n = []"
  by (cases n) (auto simp: store_name_def MAX_FILE_NAME_LEN_def split: if_splits)

lemma store_name_Inr: "length n \<le> MAX_FILE_NAME_LEN \<Longrightarrow>
    store_name n = Inr (n @ replicate (MAX_FILE_NAME_LEN - length n) 0)"
  by (simp add: store_name_def)

lemma rest_path_shorter: "first_name p \<noteq> [] \<Longrightarrow> length (rest_path p) < length p"
proof -
  assume "first_name p \<noteq> []"
  moreover have "length (first_name p) + length (rest_path p) = length (dropWhile (\<lambda>c. c = SLASH) p)"
    unfolding first_field_def rest_fields_def by (metis length_append takeWhile_dropWhile_id)
  moreover have "length (dropWhile (\<lambda>c. c = SLASH) p) \<le> length p"
    by (rule length_dropWhile_le)
  ultimately show ?thesis
    by (cases "first_name p") auto
qed

lemma first_name_zero: "0 \<notin> set p \<Longrightarrow> 0 \<notin> set (first_name p)"
  unfolding first_field_def by (meson set_dropWhileD set_takeWhileD)

lemma depth_loop_end: "name ! 0 = 0 \<Longrightarrow> depth_loop p name depth = Inr depth"
  by (subst depth_loop.simps) simp

lemma depth_loop_None: "name ! 0 \<noteq> 0 \<Longrightarrow> depth_loop None name depth = Inr (depth + 1)"
  by (subst depth_loop.simps) (simp add: depth_loop_end MAX_FILE_NAME_LEN_def)

lemma depth_loop_Some: "name ! 0 \<noteq> 0 \<Longrightarrow> path_parse q = Inr (n, r) \<Longrightarrow> store_name n = Inr a \<Longrightarrow>
    depth_loop (Some q) name depth = depth_loop r a (depth + 1)"
  by (subst depth_loop.simps) simp

lemma depth_loop_cstr:
  assumes "0 \<notin> set p" "\<forall>c \<in> set (components p). length c \<le> MAX_FILE_NAME_LEN" "name ! 0 \<noteq> 0"
  shows "depth_loop (if p = [] then None else Some (cstr p)) name depth = Inr (depth + 1 + length (components p))"
  using assms
proof (induction p arbitrary: name depth rule: measure_induct_rule [of length])
  case (less p)
  show ?case
  proof (cases "p = []")
    case True
    then show ?thesis
      using less.prems by (simp add: depth_loop_None split_by_def)
  next
    case False
    let ?n = "first_name p" and ?r = "rest_path p"
    have len: "length ?n \<le> MAX_FILE_NAME_LEN"
      using less.prems(2) components_step [of p] by (cases "?n = []") auto
    obtain a where a: "store_name ?n = Inr a" "a ! 0 = 0 \<longleftrightarrow> ?n = []"
      using store_name_Inr [OF len] store_name_nth first_name_zero [OF less.prems(1)] by blast
    have step: "depth_loop (Some (cstr p)) name depth = depth_loop (if ?r = [] then None else Some (cstr ?r)) a (depth + 1)"
      by (rule depth_loop_Some [OF less.prems(3) path_parse_cstr [OF less.prems(1)] a(1)])
    show ?thesis
    proof (cases "?n = []")
      case True
      then show ?thesis
        using step a(2) False components_step [of p] by (simp add: depth_loop_end)
    next
      case n: False
      have "depth_loop (if ?r = [] then None else Some (cstr ?r)) a (depth + 1) = Inr (depth + 1 + 1 + length (components ?r))"
        using less.prems n a(2) components_step [of p] rest_path_shorter [OF n] zero_free_parts(2)
        by (intro less.IH) auto
      then show ?thesis
        using step False n components_step [of p] by simp
    qed
  qed
qed

text \<open>C31: \<^verbatim>\<open>path_depth_cnt\<close> ends on every path with at least one component and no component longer than the
  16 bytes of its array, and returns the number of components: the pieces between slashes that are not
  empty, so that repeated and trailing slashes do not count.\<close>

theorem path_depth_cnt_counts_components:
  assumes "0 \<notin> set p" "components p \<noteq> []" "\<forall>c \<in> set (components p). length c \<le> MAX_FILE_NAME_LEN"
  shows "path_depth_cnt (cstr p) = Inr (length (components p))"
proof -
  let ?n = "first_name p" and ?r = "rest_path p"
  have c: "?n \<noteq> []" "components p = ?n # components ?r"
    using assms(2) components_step [of p] by (auto split: if_splits)
  then have len: "length ?n \<le> MAX_FILE_NAME_LEN"
    using assms(3) by simp
  obtain a where a: "store_name ?n = Inr a" "a ! 0 \<noteq> 0"
    using store_name_Inr [OF len] store_name_nth first_name_zero [OF assms(1)] c(1) by blast
  have "depth_loop (if ?r = [] then None else Some (cstr ?r)) a 0 = Inr (0 + 1 + length (components ?r))"
    using assms c a(2) zero_free_parts(2) by (intro depth_loop_cstr) auto
  then show ?thesis
    using a(1) c path_parse_cstr [OF assms(1)] by (simp add: path_depth_cnt_def)
qed

theorem path_depth_cnt_counts_components_witness:
  "path_depth_cnt (cstr [47, 47, 97, 47, 98, 99, 47]) = Inr 2"
proof -
  have c: "components [47, 47, 97, 47, 98, 99, 47] = [[97], [98, 99]]"
    by (simp add: split_by_def SLASH_def)
  show ?thesis
    using path_depth_cnt_counts_components [of "[47, 47, 97, 47, 98, 99, 47]"] unfolding c
    by (simp add: MAX_FILE_NAME_LEN_def)
qed

end
