(* ===== verification/Inode.thy ===== *)
theory Inode
  imports Disk
begin

section \<open>Inodes (fs/inode.c) and the bitmaps of a partition (fs/file.c)\<close>

text \<open>
  The inode table on the disk, the list of open inodes that caches it, and the two bitmaps with their
  copies on the disk. A buffer that a caller provides for disk transfers is given by its size: every
  routine fills it from the disk before it looks at it. Every routine is called for the mounted
  partition, \<open>cur_part\<close>.
\<close>

subsection \<open>Operations\<close>

record inode_position =
  two_sec :: bool
  sec_lba :: u32
  off_size :: nat

definition inode_locate :: "u32 \<Rightarrow> (fsys, inode_position) kop" where
  "inode_locate no =
     thenK (assertK (\<lambda>_. no < 4096))
    (getK (\<lambda>s.
       let off = no * of_nat sizeof_inode;
           off_in_sec = off mod 512;
           left_in_sec = 512 - off_in_sec
       in \<lparr>two_sec = (left_in_sec < of_nat sizeof_inode),
           sec_lba = inode_table_lba (sb (cur_part s)) + off div 512,
           off_size = unat off_in_sec\<rparr>))"

text \<open>The 76 bytes of an inode on the disk: \<^verbatim>\<open>i_open_cnts\<close>, \<^verbatim>\<open>write_deny\<close> and the list element are zero
  (\<^verbatim>\<open>pure_inode\<close>).\<close>

definition inode_bytes :: "inode \<Rightarrow> u8 list" where
  "inode_bytes i = bytes_of ([i_no i, i_size i, 0, 0] @ i_sectors i @ [0, 0])"

definition inode_of :: "u8 list \<Rightarrow> inode" where
  "inode_of bs =
     (let ws = words_of bs 17 in
      \<lparr>i_no = ws ! 0, i_size = ws ! 1, i_open_cnts = ws ! 2, write_deny = (ws ! 3 \<noteq> 0),
       i_sectors = drop 4 ws\<rparr>)"

definition inode_sync :: "inode \<Rightarrow> nat \<Rightarrow> (fsys, unit) kop" where
  "inode_sync i io_buf =
     (let inode_no = ucast (ucast (i_no i) :: u8) in
      bindK (inode_locate inode_no) (\<lambda>pos.
      thenK (assertK (\<lambda>s. sec_lba pos \<le> start_lba (cur_part s) + sec_cnt (cur_part s)))
     (let n = (if two_sec pos then 2 else 1) in
      bindK (ide_read (sec_lba pos) io_buf n) (\<lambda>b.
      bindK (liftR (memcpy_at b (off_size pos) (inode_bytes i) sizeof_inode)) (\<lambda>b.
      ide_write (sec_lba pos) b n)))))"

definition inode_open :: "u32 \<Rightarrow> (fsys, addr) kop" where
  "inode_open no s =
     (case find (\<lambda>a. i_no (inodes s a) = no) (open_inodes (cur_part s)) of
        Some a \<Rightarrow> Ret a (set_inode a (\<lambda>i. i\<lparr>i_open_cnts := i_open_cnts i + 1\<rparr>) s)
      | None \<Rightarrow>
          bindK (inode_locate no) (\<lambda>pos.
          let n = (if two_sec pos then 2 else 1) in
          bindK (getK in_kernel) (\<lambda>cur_pagedir_bak.
          thenK (modK (\<lambda>s. s\<lparr>in_kernel := True\<rparr>))
         (bindK heap_alloc (\<lambda>a.
          thenK (modK (\<lambda>s. s\<lparr>in_kernel := cur_pagedir_bak\<rparr>))
         (bindK heap_alloc (\<lambda>inode_buf.
          thenK (derefK inode_buf)
         (bindK (ide_read (sec_lba pos) (n * SECTOR_SIZE) n) (\<lambda>b.
          thenK (derefK a)
         (thenK (modK (set_inode a (\<lambda>_. inode_of (take sizeof_inode (drop (off_size pos) b)))))
         (thenK (modK (set_part (\<lambda>p. p\<lparr>open_inodes := a # open_inodes p\<rparr>)))
         (thenK (modK (set_inode a (\<lambda>i. i\<lparr>i_open_cnts := 1\<rparr>)))
         (thenK (heap_free inode_buf)
                (retK a))))))))))))) s)"

text \<open>The interrupt flag is off from the test of the counter to the end, and put back.\<close>

definition inode_close :: "addr \<Rightarrow> (fsys, unit) kop" where
  "inode_close a =
     thenK (modK (set_inode a (\<lambda>i. i\<lparr>i_open_cnts := i_open_cnts i - 1\<rparr>)))
    (\<lambda>s. whenK (i_open_cnts (inodes s a) = 0)
      (thenK (modK (set_part (\<lambda>p. p\<lparr>open_inodes := remove1 a (open_inodes p)\<rparr>)))
      (bindK (getK in_kernel) (\<lambda>cur_pagedir_bak.
       thenK (modK (\<lambda>s. s\<lparr>in_kernel := True\<rparr>))
      (thenK (heap_free a)
             (modK (\<lambda>s. s\<lparr>in_kernel := cur_pagedir_bak\<rparr>)))))) s)"

definition inode_delete :: "u32 \<Rightarrow> nat \<Rightarrow> (fsys, unit) kop" where
  "inode_delete no io_buf =
     thenK (assertK (\<lambda>_. no < 4096))
    (bindK (inode_locate no) (\<lambda>pos.
     thenK (assertK (\<lambda>s. sec_lba pos \<le> start_lba (cur_part s) + sec_cnt (cur_part s)))
    (let n = (if two_sec pos then 2 else 1) in
     bindK (ide_read (sec_lba pos) io_buf n) (\<lambda>b.
     bindK (liftR (memcpy_at b (off_size pos) (replicate sizeof_inode 0) sizeof_inode)) (\<lambda>b.
     ide_write (sec_lba pos) b n)))))"

datatype bitmap_type = INODE_BITMAP | BLOCK_BITMAP

definition bitmap_sync :: "u32 \<Rightarrow> bitmap_type \<Rightarrow> (fsys, unit) kop" where
  "bitmap_sync bit_idx btmp_type =
     bindK (getK cur_part) (\<lambda>p.
     let off_sec = bit_idx div 4096;
         off_size = unat off_sec * SECTOR_SIZE;
         (lba, bs) = (case btmp_type of
             INODE_BITMAP \<Rightarrow> (inode_bitmap_lba (sb p) + off_sec, drop off_size (bits (inode_bitmap p)))
           | BLOCK_BITMAP \<Rightarrow> (block_bitmap_lba (sb p) + off_sec, drop off_size (bits (block_bitmap p))))
     in ide_write lba bs 1)"

text \<open>Setting one bit of the bitmaps in memory.\<close>

definition set_block_bit :: "nat \<Rightarrow> int \<Rightarrow> (fsys, unit) kop" where
  "set_block_bit i v =
     bindK (getK cur_part) (\<lambda>p. bindK (liftR (bitmap_set (block_bitmap p) i v)) (\<lambda>b.
     modK (set_part (\<lambda>p. p\<lparr>block_bitmap := b\<rparr>))))"

definition set_inode_bit :: "nat \<Rightarrow> int \<Rightarrow> (fsys, unit) kop" where
  "set_inode_bit i v =
     bindK (getK cur_part) (\<lambda>p. bindK (liftR (bitmap_set (inode_bitmap p) i v)) (\<lambda>b.
     modK (set_part (\<lambda>p. p\<lparr>inode_bitmap := b\<rparr>))))"

text \<open>The array \<^verbatim>\<open>all_blocks\<close> that several routines collect: the twelve direct blocks, and the 128 blocks of
  the indirect table when there is one.\<close>

definition all_blocks :: "inode \<Rightarrow> (fsys, u32 list) kop" where
  "all_blocks i =
     (if i_sectors i ! 12 \<noteq> 0 then
        bindK (ide_read (i_sectors i ! 12) SECTOR_SIZE 1) (\<lambda>b. retK (take 12 (i_sectors i) @ words_of b 128))
      else retK (take 12 (i_sectors i) @ replicate 128 0))"

text \<open>Giving back one block, and the loop of \<^verbatim>\<open>inode_release\<close> over the array.\<close>

definition release_block :: "u32 \<Rightarrow> (fsys, unit) kop" where
  "release_block lba =
     bindK (getK (\<lambda>s. lba - data_start_lba (sb (cur_part s)))) (\<lambda>block_bitmap_idx.
     thenK (assertK (\<lambda>_. block_bitmap_idx > 0))
    (thenK (set_block_bit (unat block_bitmap_idx) 0)
           (bitmap_sync block_bitmap_idx BLOCK_BITMAP)))"

fun release_blocks :: "u32 list \<Rightarrow> (fsys, unit) kop" where
  "release_blocks [] = retK ()"
| "release_blocks (b # bs) = thenK (whenK (b \<noteq> 0) (release_block b)) (release_blocks bs)"

definition inode_release :: "u32 \<Rightarrow> (fsys, unit) kop" where
  "inode_release no =
     bindK (inode_open no) (\<lambda>inode_to_del.
     bindK (getK (\<lambda>s. inodes s inode_to_del)) (\<lambda>i.
     thenK (assertK (\<lambda>_. i_no i = no))
    (bindK (all_blocks i) (\<lambda>blocks.
     thenK (whenK (i_sectors i ! 12 \<noteq> 0) (release_block (i_sectors i ! 12)))
    (thenK (release_blocks (if i_sectors i ! 12 \<noteq> 0 then blocks else take 12 blocks))
    (thenK (set_inode_bit (unat no) 0)
    (thenK (bitmap_sync no INODE_BITMAP)
    (bindK heap_alloc (\<lambda>io_buf.
     thenK (derefK io_buf)
    (thenK (inode_delete no 1024)
    (thenK (heap_free io_buf)
           (inode_close inode_to_del))))))))))))"

definition inode_init :: "u32 \<Rightarrow> inode" where
  "inode_init no = \<lparr>i_no = no, i_size = 0, i_open_cnts = 0, write_deny = False, i_sectors = replicate 13 0\<rparr>"

text \<open>The two allocators; -1 is the value when the map has no free bit.\<close>

definition inode_bitmap_alloc :: "(fsys, u32) kop" where
  "inode_bitmap_alloc =
     bindK (getK (\<lambda>s. inode_bitmap (cur_part s))) (\<lambda>b.
     bindK (liftR (bitmap_scan b 1)) (\<lambda>bit_idx.
     if bit_idx = - 1 then retK (- 1)
     else thenK (set_inode_bit (nat bit_idx) 1) (retK (of_int bit_idx))))"

definition block_bitmap_alloc :: "(fsys, u32) kop" where
  "block_bitmap_alloc =
     bindK (getK (\<lambda>s. block_bitmap (cur_part s))) (\<lambda>b.
     bindK (liftR (bitmap_scan b 1)) (\<lambda>bit_idx.
     if bit_idx = - 1 then retK (- 1)
     else thenK (set_block_bit (nat bit_idx) 1)
               (getK (\<lambda>s. data_start_lba (sb (cur_part s)) + of_int bit_idx))))"

subsection \<open>A mounted partition\<close>

text \<open>The regions of the partition follow each other: block bitmap, inode bitmap, inode table (4096 inodes of
  76 bytes: 608 sectors), data. Every block the bitmap has free is a sector of the disk; block 0 is the
  root directory's.\<close>

definition IT_SECTS :: nat where "IT_SECTS = 608"

definition layout_ok :: "partition \<Rightarrow> bool" where
  "layout_ok p \<longleftrightarrow>
     unat (block_bitmap_lba (sb p)) + unat (block_bitmap_sects (sb p)) \<le> unat (inode_bitmap_lba (sb p)) \<and>
     unat (inode_bitmap_lba (sb p)) + 1 \<le> unat (inode_table_lba (sb p)) \<and>
     unat (inode_table_lba (sb p)) + IT_SECTS \<le> unat (data_start_lba (sb p)) \<and>
     data_start_lba (sb p) \<le> max_lba \<and>
     unat (inode_table_lba (sb p)) + IT_SECTS \<le> unat (start_lba p) + unat (sec_cnt p) \<and>
     unat (start_lba p) + unat (sec_cnt p) < 2 ^ 32 \<and> dir_entry_size (sb p) = of_nat sizeof_dir_entry"

definition bitmaps_ok :: "partition \<Rightarrow> bool" where
  "bitmaps_ok p \<longleftrightarrow>
     length (bits (block_bitmap p)) = unat (block_bitmap_sects (sb p)) * SECTOR_SIZE \<and>
     btmp_bytes_len (block_bitmap p) = length (bits (block_bitmap p)) \<and>
     length (bits (inode_bitmap p)) = SECTOR_SIZE \<and> btmp_bytes_len (inode_bitmap p) = SECTOR_SIZE \<and>
     bitmap_bit (block_bitmap p) 0 \<and>
     (\<forall>k < 8 * btmp_bytes_len (block_bitmap p). \<not> bitmap_bit (block_bitmap p) k \<longrightarrow>
        unat (data_start_lba (sb p)) + k \<le> unat max_lba)"

definition fs_ok :: "fsys \<Rightarrow> bool" where
  "fs_ok s \<longleftrightarrow> sectors_ok (disk s) \<and> layout_ok (cur_part s) \<and> bitmaps_ok (cur_part s) \<and>
     length (file_table s) = MAX_FILE_OPEN \<and> length (fd_table s) = MAX_FILES_OPEN_PER_PROC"

abbreviation sb_of_fs :: "fsys \<Rightarrow> super_block" where "sb_of_fs s \<equiv> sb (cur_part s)"
abbreviation data_start :: "fsys \<Rightarrow> nat" where "data_start s \<equiv> unat (data_start_lba (sb_of_fs s))"
abbreviation itab_start :: "fsys \<Rightarrow> nat" where "itab_start s \<equiv> unat (inode_table_lba (sb_of_fs s))"

definition free_blocks :: "fsys \<Rightarrow> nat set" where
  "free_blocks s = {k. k < 8 * btmp_bytes_len (block_bitmap (cur_part s)) \<and> \<not> bitmap_bit (block_bitmap (cur_part s)) k}"

text \<open>A sector of the data region whose bit is set.\<close>

definition taken :: "fsys \<Rightarrow> nat \<Rightarrow> bool" where
  "taken s l \<longleftrightarrow> data_start s < l \<and> l \<le> unat max_lba \<and>
     l - data_start s < 8 * btmp_bytes_len (block_bitmap (cur_part s)) \<and>
     bitmap_bit (block_bitmap (cur_part s)) (l - data_start s)"

lemma set_part_simps [simp]:
  "disk (set_part f s) = disk s" "cur_part (set_part f s) = f (cur_part s)" "inodes (set_part f s) = inodes s"
  "dirs (set_part f s) = dirs s" "root_dir (set_part f s) = root_dir s" "file_table (set_part f s) = file_table s"
  "fd_table (set_part f s) = fd_table s" "cwd_inode_nr (set_part f s) = cwd_inode_nr s"
  "in_kernel (set_part f s) = in_kernel s" "grants (set_part f s) = grants s" "live (set_part f s) = live s"
  by (simp_all add: set_part_def)

lemma set_inode_simps [simp]:
  "disk (set_inode a f s) = disk s" "cur_part (set_inode a f s) = cur_part s"
  "inodes (set_inode a f s) = (inodes s)(a := f (inodes s a))"
  "dirs (set_inode a f s) = dirs s" "root_dir (set_inode a f s) = root_dir s" "file_table (set_inode a f s) = file_table s"
  "fd_table (set_inode a f s) = fd_table s" "cwd_inode_nr (set_inode a f s) = cwd_inode_nr s"
  "in_kernel (set_inode a f s) = in_kernel s" "grants (set_inode a f s) = grants s" "live (set_inode a f s) = live s"
  by (simp_all add: set_inode_def)

lemma set_file_simps [simp]:
  "disk (set_file i f s) = disk s" "cur_part (set_file i f s) = cur_part s" "inodes (set_file i f s) = inodes s"
  "dirs (set_file i f s) = dirs s" "root_dir (set_file i f s) = root_dir s"
  "file_table (set_file i f s) = (file_table s)[i := f (file_table s ! i)]"
  "fd_table (set_file i f s) = fd_table s" "cwd_inode_nr (set_file i f s) = cwd_inode_nr s"
  "in_kernel (set_file i f s) = in_kernel s" "grants (set_file i f s) = grants s" "live (set_file i f s) = live s"
  by (simp_all add: set_file_def)

lemma fs_okD:
  assumes "fs_ok s"
  shows "sectors_ok (disk s)" "layout_ok (cur_part s)" "bitmaps_ok (cur_part s)" "length (file_table s) = MAX_FILE_OPEN"
    "length (fd_table s) = MAX_FILES_OPEN_PER_PROC"
  using assms by (simp_all add: fs_ok_def)

lemma fs_ok_cong:
  assumes "fs_ok s" "sectors_ok (disk s')" "cur_part s' = cur_part s" "length (file_table s') = length (file_table s)"
    "length (fd_table s') = length (fd_table s)"
  shows "fs_ok s'"
  using assms by (simp add: fs_ok_def)

lemma layout_okD:
  assumes "layout_ok (cur_part s)"
  shows "unat (block_bitmap_lba (sb_of_fs s)) + unat (block_bitmap_sects (sb_of_fs s)) \<le> unat (inode_bitmap_lba (sb_of_fs s))"
    "unat (inode_bitmap_lba (sb_of_fs s)) < itab_start s" "itab_start s + IT_SECTS \<le> data_start s"
    "data_start s \<le> unat max_lba" "itab_start s + IT_SECTS \<le> unat (start_lba (cur_part s)) + unat (sec_cnt (cur_part s))"
    "unat (start_lba (cur_part s)) + unat (sec_cnt (cur_part s)) < 2 ^ 32"
    "dir_entry_size (sb_of_fs s) = of_nat sizeof_dir_entry"
  using assms by (simp_all add: layout_ok_def word_le_nat_alt)

lemma unat_max_lba: "unat max_lba = 163839"
  by (simp add: max_lba_def)

text \<open>The address of a block.\<close>

lemma block_lba:
  assumes "data_start s + k \<le> unat max_lba" "0 < data_start s"
  defines "lba \<equiv> data_start_lba (sb_of_fs s) + of_nat k"
  shows "unat lba = data_start s + k" "lba \<le> max_lba" "lba \<noteq> - 1" "lba \<noteq> 0" "lba - data_start_lba (sb_of_fs s) = of_nat k"
    "unat (of_nat k :: u32) = k"
proof -
  have k: "k < 2 ^ 32" "data_start s + k < 2 ^ 32"
    using assms(1) by (simp_all add: unat_max_lba)
  show "unat (of_nat k :: u32) = k"
    using k(1) by (simp only: unat_of_nat) simp
  then show u: "unat lba = data_start s + k"
    using k(2) unfolding lba_def by (simp add: unat_word_ariths)
  show "lba \<le> max_lba"
    using assms(1) u by (simp add: word_le_nat_alt)
  show "lba \<noteq> - 1"
  proof
    assume "lba = - 1"
    then have "unat lba = unat (- 1 :: u32)"
      by simp
    then show False
      using assms(1) unfolding u unat_max_lba by (simp add: unsigned_minus_1_eq_mask mask_eq_exp_minus_1)
  qed
  show "lba \<noteq> 0"
    using u assms(2) by auto
  show "lba - data_start_lba (sb_of_fs s) = of_nat k"
    by (simp add: lba_def)
qed

lemma bitmaps_okD:
  assumes "bitmaps_ok (cur_part s)"
  shows "wf_bitmap (block_bitmap (cur_part s))"
    "length (bits (block_bitmap (cur_part s))) = unat (block_bitmap_sects (sb_of_fs s)) * SECTOR_SIZE"
    "btmp_bytes_len (block_bitmap (cur_part s)) = unat (block_bitmap_sects (sb_of_fs s)) * SECTOR_SIZE"
    "bitmap_bit (block_bitmap (cur_part s)) 0" "k \<in> free_blocks s \<Longrightarrow> data_start s + k \<le> unat max_lba"
    "k \<in> free_blocks s \<Longrightarrow> 0 < k"
proof -
  show "wf_bitmap (block_bitmap (cur_part s))"
    "length (bits (block_bitmap (cur_part s))) = unat (block_bitmap_sects (sb_of_fs s)) * SECTOR_SIZE"
    "btmp_bytes_len (block_bitmap (cur_part s)) = unat (block_bitmap_sects (sb_of_fs s)) * SECTOR_SIZE"
    "bitmap_bit (block_bitmap (cur_part s)) 0" "k \<in> free_blocks s \<Longrightarrow> data_start s + k \<le> unat max_lba"
    using assms by (auto simp: bitmaps_ok_def wf_bitmap_def free_blocks_def)
  then show "0 < k" if "k \<in> free_blocks s"
    using that by (cases k) (auto simp: free_blocks_def)
qed

lemma block_bitmap_alloc_ok:
  assumes ok: "fs_ok s" and free: "free_blocks s \<noteq> {}"
  obtains k b where "k \<in> free_blocks s"
    "block_bitmap_alloc s = Ret (data_start_lba (sb_of_fs s) + of_nat k) (set_part (\<lambda>p. p\<lparr>block_bitmap := b\<rparr>) s)"
    "fs_ok (set_part (\<lambda>p. p\<lparr>block_bitmap := b\<rparr>) s)" "btmp_bytes_len b = btmp_bytes_len (block_bitmap (cur_part s))"
    "\<And>j. bitmap_bit b j = (j = k \<or> bitmap_bit (block_bitmap (cur_part s)) j)"
proof -
  let ?b = "block_bitmap (cur_part s)"
  note bm = bitmaps_okD [OF fs_okD(3) [OF ok]]
  obtain i where i: "i < 8 * btmp_bytes_len ?b" "\<not> bitmap_bit ?b i"
    using free by (auto simp: free_blocks_def)
  obtain k b where k: "bitmap_scan ?b 1 = Inr (int k)" "k \<le> i" "\<not> bitmap_bit ?b k" "bitmap_set ?b k 1 = Inr b"
    "btmp_bytes_len b = btmp_bytes_len ?b" "length (bits b) = length (bits ?b)" "\<And>j. bitmap_bit b j = (j = k \<or> bitmap_bit ?b j)"
    using scan_one [OF bm(1) i] by metis
  have "bitmaps_ok ((cur_part s)\<lparr>block_bitmap := b\<rparr>)"
    using fs_okD(3) [OF ok] k(5-7) by (auto simp: bitmaps_ok_def)
  moreover have "layout_ok ((cur_part s)\<lparr>block_bitmap := b\<rparr>)"
    using fs_okD(2) [OF ok] by (simp add: layout_ok_def)
  ultimately have "fs_ok (set_part (\<lambda>p. p\<lparr>block_bitmap := b\<rparr>) s)"
    using ok by (simp add: fs_ok_def)
  moreover have "block_bitmap_alloc s = Ret (data_start_lba (sb_of_fs s) + of_nat k) (set_part (\<lambda>p. p\<lparr>block_bitmap := b\<rparr>) s)"
    using k(1,4) by (simp add: block_bitmap_alloc_def set_block_bit_def)
  ultimately show ?thesis
    using that [of k b] k i by (simp add: free_blocks_def)
qed

lemma unat_div_4096: "unat (of_nat k div 4096 :: u32) = k div 4096" if "k < 2 ^ 32"
proof -
  have "unat (of_nat k :: u32) = k"
    using that by (simp only: unat_of_nat) simp
  then show ?thesis
    by (simp add: unat_div_distrib)
qed

lemma bitmap_sync_ok:
  assumes ok: "fs_ok s" and k: "k < 8 * btmp_bytes_len (block_bitmap (cur_part s))"
  obtains d where "bitmap_sync (of_nat k) BLOCK_BITMAP s = Ret () (s\<lparr>disk := d\<rparr>)" "sectors_ok d"
    "\<And>l. itab_start s \<le> l \<Longrightarrow> d l = disk s l"
    "d (unat (block_bitmap_lba (sb_of_fs s)) + k div 4096) =
       take SECTOR_SIZE (drop (k div 4096 * SECTOR_SIZE) (bits (block_bitmap (cur_part s))))"
    "\<And>l. l \<noteq> unat (block_bitmap_lba (sb_of_fs s)) + k div 4096 \<Longrightarrow> d l = disk s l"
proof -
  note bm = bitmaps_okD [OF fs_okD(3) [OF ok]] and lay = layout_okD [OF fs_okD(2) [OF ok]]
  let ?b = "bits (block_bitmap (cur_part s))" and ?j = "k div 4096"
  let ?lba = "block_bitmap_lba (sb_of_fs s) + of_nat k div 4096"
  have j: "?j < unat (block_bitmap_sects (sb_of_fs s))"
    using k unfolding bm(3) SECTOR_SIZE_def by (simp add: less_mult_imp_div_less)
  have "unat (block_bitmap_sects (sb_of_fs s)) \<le> 163839"
    using lay unfolding unat_max_lba by linarith
  then have "k < 2 ^ 32"
    using k unfolding bm(3) SECTOR_SIZE_def by simp
  note u = unat_div_4096 [OF this]
  have lba: "unat ?lba = unat (block_bitmap_lba (sb_of_fs s)) + ?j"
    using j lay u unfolding unat_max_lba by (subst unat_word_ariths) simp
  have le: "?lba \<le> max_lba"
    unfolding word_le_nat_alt lba using j lay by linarith
  have len: "1 * SECTOR_SIZE \<le> length (drop (?j * SECTOR_SIZE) ?b)"
  proof -
    have "(?j + 1) * SECTOR_SIZE \<le> unat (block_bitmap_sects (sb_of_fs s)) * SECTOR_SIZE"
      using j by (intro mult_right_mono) simp_all
    then show ?thesis
      using bm(2) by simp
  qed
  let ?d = "wr_secs (disk s) (unat ?lba) (drop (?j * SECTOR_SIZE) ?b) 1"
  have "bitmap_sync (of_nat k) BLOCK_BITMAP s = Ret () (s\<lparr>disk := ?d\<rparr>)"
    using ide_write_run [OF le _ len, of s] u by (simp add: bitmap_sync_def Let_def)
  moreover have "sectors_ok ?d"
    using sectors_ok_wr [OF fs_okD(1) [OF ok] len] .
  moreover have "?d l = disk s l" if "itab_start s \<le> l" for l
    using that j lay unfolding lba by (intro wr_secs_outside) linarith
  moreover have "?d (unat (block_bitmap_lba (sb_of_fs s)) + ?j) = take SECTOR_SIZE (drop (?j * SECTOR_SIZE) ?b)"
    unfolding lba by simp
  moreover have "?d l = disk s l" if "l \<noteq> unat (block_bitmap_lba (sb_of_fs s)) + ?j" for l
    using that unfolding lba by (intro wr_secs_outside) linarith
  ultimately show ?thesis
    by (rule that)
qed

lemma assert_then: "P s \<Longrightarrow> thenK (assertK P) m s = m s"
  by simp

subsection \<open>The inode table\<close>

text \<open>The table as a string of bytes, and the bytes of the inode with number \<open>n\<close>.\<close>

definition itab :: "fsys \<Rightarrow> u8 list" where
  "itab s = rd_secs (disk s) (itab_start s) IT_SECTS"

definition islot :: "fsys \<Rightarrow> nat \<Rightarrow> u8 list" where
  "islot s n = take sizeof_inode (drop (n * sizeof_inode) (itab s))"

definition slot_sec :: "nat \<Rightarrow> nat" where "slot_sec n = n * sizeof_inode div SECTOR_SIZE"
definition slot_off :: "nat \<Rightarrow> nat" where "slot_off n = n * sizeof_inode mod SECTOR_SIZE"
definition slot_cnt :: "nat \<Rightarrow> nat" where "slot_cnt n = (if slot_off n + sizeof_inode > SECTOR_SIZE then 2 else 1)"

definition slot_pos :: "fsys \<Rightarrow> nat \<Rightarrow> inode_position" where
  "slot_pos s n = \<lparr>two_sec = (slot_off n + sizeof_inode > SECTOR_SIZE),
     sec_lba = inode_table_lba (sb_of_fs s) + of_nat (slot_sec n), off_size = slot_off n\<rparr>"

lemma slot_bounds:
  assumes "n < 4096"
  shows "slot_sec n + slot_cnt n \<le> IT_SECTS" "slot_off n + sizeof_inode \<le> slot_cnt n * SECTOR_SIZE"
    "n * sizeof_inode + sizeof_inode \<le> IT_SECTS * SECTOR_SIZE" "slot_sec n * SECTOR_SIZE + slot_off n = n * sizeof_inode"
proof -
  show e: "slot_sec n * SECTOR_SIZE + slot_off n = n * sizeof_inode"
    unfolding slot_sec_def slot_off_def by (rule div_mult_mod_eq)
  have o: "slot_off n < SECTOR_SIZE"
    by (simp add: slot_off_def SECTOR_SIZE_def)
  show b: "n * sizeof_inode + sizeof_inode \<le> IT_SECTS * SECTOR_SIZE"
    using assms by (simp add: sizeof_inode_def IT_SECTS_def SECTOR_SIZE_def)
  have "y + 76 \<le> (if y + 76 > 512 then 2 else 1) * 512" if "y < 512" for y :: nat
    using that by simp
  then show "slot_off n + sizeof_inode \<le> slot_cnt n * SECTOR_SIZE"
    using o unfolding slot_cnt_def SECTOR_SIZE_def sizeof_inode_def by blast
  have *: "x + c \<le> 608" if "x * 512 + y + 76 \<le> 608 * 512" "y < 512" "c = (if y + 76 > 512 then 2 else 1)" for x y c :: nat
    using that by (auto split: if_splits)
  show "slot_sec n + slot_cnt n \<le> IT_SECTS"
    unfolding IT_SECTS_def
    using b e o by (intro * [of _ "slot_off n"]) (auto simp: slot_cnt_def sizeof_inode_def IT_SECTS_def SECTOR_SIZE_def)
qed

lemma inode_locate_ok:
  assumes "unat no < 4096"
  shows "inode_locate no s = Ret (slot_pos s (unat no)) s"
proof -
  have off: "unat (no * of_nat sizeof_inode) = unat no * sizeof_inode"
    using assms by (simp add: unat_word_ariths sizeof_inode_def)
  have m: "unat (no * of_nat sizeof_inode mod 512) = slot_off (unat no)"
    unfolding unat_mod_distrib off by (simp add: slot_off_def SECTOR_SIZE_def)
  have lt: "slot_off (unat no) < 512"
    by (simp add: slot_off_def SECTOR_SIZE_def)
  have "unat (512 - no * of_nat sizeof_inode mod 512) = 512 - slot_off (unat no)"
    using lt by (subst unat_sub) (simp_all add: word_le_nat_alt m less_imp_le)
  then have t: "512 - no * of_nat sizeof_inode mod 512 < of_nat sizeof_inode \<longleftrightarrow> slot_off (unat no) + sizeof_inode > SECTOR_SIZE"
    using lt unfolding word_less_nat_alt by (simp add: sizeof_inode_def SECTOR_SIZE_def) linarith
  have "unat (no * of_nat sizeof_inode div 512) = slot_sec (unat no)"
    unfolding unat_div_distrib off by (simp add: slot_sec_def SECTOR_SIZE_def)
  moreover have "of_nat (unat w) = w" for w :: u32
    by simp
  ultimately have d: "no * of_nat sizeof_inode div 512 = of_nat (slot_sec (unat no))"
    by metis
  have "no < 4096"
    using assms by (simp add: word_less_nat_alt)
  then show ?thesis
    by (simp add: inode_locate_def slot_pos_def Let_def t d m)
qed

lemma patch_window:
  assumes "a + c \<le> length t" "x + length bs \<le> c"
  shows "take a t @ (take x (take c (drop a t)) @ bs @ drop (x + length bs) (take c (drop a t))) @ drop (a + c) t =
    take (a + x) t @ bs @ drop (a + x + length bs) t"
proof -
  have "drop (x + length bs) (take c (drop a t)) @ drop (a + c) t = drop (a + x + length bs) t"
  proof -
    have "drop (x + length bs) (take c (drop a t)) = take (c - (x + length bs)) (drop (a + x + length bs) t)"
      by (simp add: drop_take add.commute add.left_commute)
    moreover have "drop (a + c) t = drop (c - (x + length bs)) (drop (a + x + length bs) t)"
      using assms by (simp add: add.commute)
    ultimately show ?thesis
      by (simp only: append_take_drop_id)
  qed
  moreover have "take a t @ take x (take c (drop a t)) = take (a + x) t"
    using assms by (simp add: take_add)
  ultimately show ?thesis
    by simp
qed

lemma length_itab: "fs_ok s \<Longrightarrow> length (itab s) = IT_SECTS * SECTOR_SIZE"
  by (simp add: itab_def fs_ok_def)

lemma slot_lba:
  assumes ok: "fs_ok s" and n: "n < 4096"
  shows "unat (sec_lba (slot_pos s n)) = itab_start s + slot_sec n" "sec_lba (slot_pos s n) \<le> max_lba"
    "sec_lba (slot_pos s n) \<le> start_lba (cur_part s) + sec_cnt (cur_part s)"
proof -
  note lay = layout_okD [OF fs_okD(2) [OF ok]] and b = slot_bounds(1) [OF n]
  have l: "slot_sec n < IT_SECTS"
    using b by (auto simp: slot_cnt_def split: if_splits)
  then have "slot_sec n < 2 ^ 32" "itab_start s + slot_sec n < 2 ^ 32"
    using lay unfolding unat_max_lba by (simp_all add: IT_SECTS_def)
  then show u: "unat (sec_lba (slot_pos s n)) = itab_start s + slot_sec n"
    unfolding slot_pos_def by (simp add: unat_word_ariths unat_of_nat)
  show "sec_lba (slot_pos s n) \<le> max_lba"
    unfolding word_le_nat_alt u using l lay by linarith
  show "sec_lba (slot_pos s n) \<le> start_lba (cur_part s) + sec_cnt (cur_part s)"
    unfolding word_le_nat_alt u using l lay by (simp add: unat_word_ariths)
qed

text \<open>Reading the sectors of an inode, replacing its bytes and writing them back.\<close>

lemma table_patch:
  assumes ok: "fs_ok s" and n: "n < 4096" and bs: "length bs = sizeof_inode" and room: "slot_cnt n * SECTOR_SIZE \<le> room"
  obtains d where "bindK (ide_read (sec_lba (slot_pos s n)) room (slot_cnt n)) (\<lambda>b.
      bindK (liftR (memcpy_at b (off_size (slot_pos s n)) bs sizeof_inode)) (\<lambda>b.
      ide_write (sec_lba (slot_pos s n)) b (slot_cnt n))) s = Ret () (s\<lparr>disk := d\<rparr>)"
    "sectors_ok d" "\<And>l. l < itab_start s \<or> itab_start s + IT_SECTS \<le> l \<Longrightarrow> d l = disk s l"
    "itab (s\<lparr>disk := d\<rparr>) = take (n * sizeof_inode) (itab s) @ bs @ drop (n * sizeof_inode + sizeof_inode) (itab s)"
proof -
  let ?lba = "sec_lba (slot_pos s n)" and ?c = "slot_cnt n" and ?x = "slot_off n" and ?a = "slot_sec n"
  note lb = slot_lba [OF ok n] and sb = slot_bounds [OF n] and so = fs_okD(1) [OF ok]
  define w where "w = rd_secs (disk s) (itab_start s + ?a) ?c"
  define b where "b = take ?x w @ bs @ drop (?x + sizeof_inode) w"
  define d where "d = wr_secs (disk s) (itab_start s + ?a) b ?c"
  have lw: "length w = ?c * SECTOR_SIZE"
    unfolding w_def using so by simp
  have lb': "length b = ?c * SECTOR_SIZE"
    unfolding b_def using lw sb(2) bs by simp
  have c: "0 < ?c"
    by (simp add: slot_cnt_def)
  have r: "ide_read ?lba room ?c s = Ret w s"
    unfolding w_def using ide_read_run [OF lb(2) c room] by (simp add: lb(1))
  have m: "memcpy_at w (off_size (slot_pos s n)) bs sizeof_inode = Inr b"
    unfolding b_def using sb(2) lw bs by (simp add: memcpy_at_Inr slot_pos_def)
  have wr: "ide_write ?lba b ?c s = Ret () (s\<lparr>disk := d\<rparr>)"
    unfolding d_def using ide_write_run [OF lb(2) c] lb' by (simp add: lb(1))
  have run: "bindK (ide_read ?lba room ?c) (\<lambda>b. bindK (liftR (memcpy_at b (off_size (slot_pos s n)) bs sizeof_inode)) (\<lambda>b.
      ide_write ?lba b ?c)) s = Ret () (s\<lparr>disk := d\<rparr>)"
    unfolding bindK_def liftR_def by (simp only: r m wr outcome.case sum.case)
  have "itab (s\<lparr>disk := d\<rparr>) = take (?a * SECTOR_SIZE) (itab s) @ b @ drop ((?a + ?c) * SECTOR_SIZE) (itab s)"
    unfolding d_def itab_def using wr_secs_window [OF so sb(1), of b] lb' by simp
  also have "w = take (?c * SECTOR_SIZE) (drop (?a * SECTOR_SIZE) (itab s))"
    unfolding w_def itab_def by (rule rd_secs_window [OF so sb(1)])
  then have "take (?a * SECTOR_SIZE) (itab s) @ b @ drop ((?a + ?c) * SECTOR_SIZE) (itab s) =
      take (?a * SECTOR_SIZE + ?x) (itab s) @ bs @ drop (?a * SECTOR_SIZE + ?x + sizeof_inode) (itab s)"
    unfolding b_def distrib_right
    using patch_window [of "?a * SECTOR_SIZE" "?c * SECTOR_SIZE" "itab s" ?x bs] sb(1,2) length_itab [OF ok] bs
    by (simp add: distrib_right [symmetric] del: mult_Suc)
  finally have "itab (s\<lparr>disk := d\<rparr>) = take (n * sizeof_inode) (itab s) @ bs @ drop (n * sizeof_inode + sizeof_inode) (itab s)"
    unfolding sb(4) .
  moreover have "sectors_ok d"
    unfolding d_def using sectors_ok_wr [OF so] lb' by simp
  moreover have "d l = disk s l" if "l < itab_start s \<or> itab_start s + IT_SECTS \<le> l" for l
    unfolding d_def using that sb(1) by (intro wr_secs_outside) linarith
  ultimately show ?thesis
    using run that by blast
qed

lemma patch_nth:
  assumes "q + length bs \<le> length t" "p < q \<or> q + length bs \<le> p" "p < length t"
  shows "(take q t @ bs @ drop (q + length bs) t) ! p = t ! p"
  using assms by (auto simp: nth_append)

lemma islot_patch:
  assumes t: "itab s' = take (n * sizeof_inode) (itab s) @ bs @ drop (n * sizeof_inode + sizeof_inode) (itab s)"
    and len: "length (itab s) = IT_SECTS * SECTOR_SIZE" "length bs = sizeof_inode" and n: "n < 4096"
  shows "islot s' n = bs" "m < 4096 \<Longrightarrow> m \<noteq> n \<Longrightarrow> islot s' m = islot s m"
proof -
  have l: "n * sizeof_inode + sizeof_inode \<le> length (itab s)"
    using slot_bounds(3) [OF n] len(1) by simp
  show "islot s' n = bs"
    unfolding islot_def t using l len(2) by simp
  show "islot s' m = islot s m" if m: "m < 4096" "m \<noteq> n"
  proof (rule nth_equalityI)
    have lm: "m * sizeof_inode + sizeof_inode \<le> length (itab s)"
      using slot_bounds(3) [OF m(1)] len(1) by simp
    have "length (itab s') = length (itab s)"
      unfolding t using l len(2) by simp
    then show "length (islot s' m) = length (islot s m)"
      by (simp add: islot_def)
    fix i
    assume "i < length (islot s' m)"
    then have i: "i < sizeof_inode" "m * sizeof_inode + i < length (itab s)"
      using \<open>length (itab s') = length (itab s)\<close> lm by (auto simp: islot_def)
    have "m * sizeof_inode + i < n * sizeof_inode \<or> n * sizeof_inode + sizeof_inode \<le> m * sizeof_inode + i"
    proof (cases "m < n")
      case True
      then have "Suc m * sizeof_inode \<le> n * sizeof_inode"
        by (intro mult_right_mono) auto
      then show ?thesis
        using i(1) by simp
    next
      case False
      then have "Suc n * sizeof_inode \<le> m * sizeof_inode"
        using m(2) by (intro mult_right_mono) auto
      then show ?thesis
        by simp
    qed
    then have "itab s' ! (m * sizeof_inode + i) = itab s ! (m * sizeof_inode + i)"
      unfolding t using patch_nth [of "n * sizeof_inode" bs "itab s" "m * sizeof_inode + i"] l i(2) len(2) by simp
    then show "islot s' m ! i = islot s m ! i"
      using i \<open>length (itab s') = length (itab s)\<close> by (simp add: islot_def)
  qed
qed

lemma length_inode_bytes: "length (i_sectors i) = 13 \<Longrightarrow> length (inode_bytes i) = sizeof_inode"
  by (simp add: inode_bytes_def sizeof_inode_def)

text \<open>What is read back is the inode with the fields that only matter in memory cleared.\<close>

lemma inode_of_bytes:
  assumes "length (i_sectors i) = 13"
  shows "inode_of (inode_bytes i) = i\<lparr>i_open_cnts := 0, write_deny := False\<rparr>"
proof -
  let ?ws = "[i_no i, i_size i, 0, 0] @ i_sectors i"
  have "inode_bytes i = bytes_of ?ws @ bytes_of [0, 0]"
    by (simp add: inode_bytes_def bytes_of_def)
  then have "words_of (inode_bytes i) (length ?ws) = ?ws"
    by (simp only: words_of_bytes_of)
  moreover have "length ?ws = 17"
    using assms by simp
  ultimately have "words_of (inode_bytes i) 17 = ?ws"
    by metis
  then show ?thesis
    by (simp add: inode_of_def)
qed

lemma trunc_u8: "unat (ucast (ucast (w :: u32) :: u8) :: u32) = unat w mod 256"
  by (simp add: unsigned_ucast_eq take_bit_eq_mod unat_mod_distrib)

text \<open>The slot that is written is the one of the number modulo 256.\<close>

lemma inode_sync_ok:
  assumes ok: "fs_ok s" and len: "length (i_sectors i) = 13"
    and n: "n = unat (i_no i) mod 256" and room: "slot_cnt n * SECTOR_SIZE \<le> io_buf"
  obtains d where "inode_sync i io_buf s = Ret () (s\<lparr>disk := d\<rparr>)" "sectors_ok d"
    "\<And>l. l < itab_start s \<or> itab_start s + IT_SECTS \<le> l \<Longrightarrow> d l = disk s l"
    "islot (s\<lparr>disk := d\<rparr>) n = inode_bytes i" "\<And>m. m < 4096 \<Longrightarrow> m \<noteq> n \<Longrightarrow> islot (s\<lparr>disk := d\<rparr>) m = islot s m"
proof -
  have n': "n < 4096" "unat (ucast (ucast (i_no i) :: u8) :: u32) = n"
    using trunc_u8 [of "i_no i"] n by auto
  obtain d where d: "bindK (ide_read (sec_lba (slot_pos s n)) io_buf (slot_cnt n)) (\<lambda>b.
      bindK (liftR (memcpy_at b (off_size (slot_pos s n)) (inode_bytes i) sizeof_inode)) (\<lambda>b.
      ide_write (sec_lba (slot_pos s n)) b (slot_cnt n))) s = Ret () (s\<lparr>disk := d\<rparr>)"
    "sectors_ok d" "\<And>l. l < itab_start s \<or> itab_start s + IT_SECTS \<le> l \<Longrightarrow> d l = disk s l"
    "itab (s\<lparr>disk := d\<rparr>) = take (n * sizeof_inode) (itab s) @ inode_bytes i @ drop (n * sizeof_inode + sizeof_inode) (itab s)"
    by (rule table_patch [OF ok n'(1) length_inode_bytes [OF len] room]) blast
  have two: "(if two_sec (slot_pos s n) then 2 else 1) = slot_cnt n"
    by (simp add: slot_pos_def slot_cnt_def)
  have "inode_sync i io_buf s = Ret () (s\<lparr>disk := d\<rparr>)"
  proof -
    let ?no = "ucast (ucast (i_no i) :: u8)"
    have loc: "inode_locate ?no s = Ret (slot_pos s n) s"
      using inode_locate_ok [of ?no s] n' by simp
    show ?thesis
      unfolding inode_sync_def Let_def
      by (simp only: bindK_run(1) [of "inode_locate ?no" s, OF loc] assert_then slot_lba(3) [OF ok n'(1)] two d(1))
  qed
  moreover note islot_patch [OF d(4) length_itab [OF ok] length_inode_bytes [OF len] n'(1)]
  ultimately show ?thesis
    using d(2,3) that by blast
qed

text \<open>A buffer that is too small for the sectors of the inode is overrun by the first read.\<close>

lemma inode_sync_short:
  assumes ok: "fs_ok s" and room: "io_buf < slot_cnt (unat (i_no i) mod 256) * SECTOR_SIZE"
  shows "inode_sync i io_buf s = Flt Out_Of_Bounds"
proof -
  let ?n = "unat (i_no i) mod 256" and ?no = "ucast (ucast (i_no i) :: u8)"
  have n: "?n < 4096" "unat (?no :: u32) = ?n"
    using trunc_u8 [of "i_no i"] by auto
  have loc: "inode_locate ?no s = Ret (slot_pos s ?n) s"
    using inode_locate_ok [of ?no s] n by simp
  have two: "(if two_sec (slot_pos s ?n) then 2 else 1) = slot_cnt ?n" "0 < slot_cnt ?n"
    by (simp_all add: slot_pos_def slot_cnt_def)
  have "ide_read (sec_lba (slot_pos s ?n)) io_buf (slot_cnt ?n) s = Flt Out_Of_Bounds"
    using slot_lba(2) [OF ok n(1)] two(2) room by (simp add: ide_read_def)
  then show ?thesis
    unfolding inode_sync_def Let_def
    by (simp only: bindK_run(1) [of "inode_locate ?no" s, OF loc] assert_then slot_lba(3) [OF ok n(1)] two(1)) (simp add: bindK_def)
qed

text \<open>Opening an inode that is not in the list reads it from its slot.\<close>

lemma inode_open_new:
  assumes ok: "fs_ok s" and no: "unat no < 4096" and new: "\<And>x. x \<in> set (open_inodes (cur_part s)) \<Longrightarrow> i_no (inodes s x) \<noteq> no"
    and g: "grants s = a # b # gs" "a \<noteq> NULL" "b \<noteq> NULL"
  defines "s' \<equiv> s\<lparr>inodes := (inodes s)(a := (inode_of (islot s (unat no)))\<lparr>i_open_cnts := 1\<rparr>),
      cur_part := (cur_part s)\<lparr>open_inodes := a # open_inodes (cur_part s)\<rparr>, grants := gs, live := (a, True) # live s\<rparr>"
  shows "inode_open no s = Ret a s'"
proof -
  let ?n = "unat no" and ?c = "slot_cnt (unat no)"
  note lb = slot_lba [OF ok no] and bd = slot_bounds [OF no]
  have f: "find (\<lambda>a. i_no (inodes s a) = no) (open_inodes (cur_part s)) = None"
    using new by (simp add: find_None_iff)
  define w where "w = rd_secs (disk s) (itab_start s + slot_sec ?n) ?c"
  have "w = take (?c * SECTOR_SIZE) (drop (slot_sec ?n * SECTOR_SIZE) (itab s))"
    unfolding w_def itab_def by (rule rd_secs_window [OF fs_okD(1) [OF ok] bd(1)])
  then have sl: "take sizeof_inode (drop (slot_off ?n) w) = islot s ?n"
    using bd(2,4) by (simp add: islot_def drop_take add.commute take_take min_def del: One_nat_def)
  have two: "(if two_sec (slot_pos s ?n) then 2 else 1) = ?c" "off_size (slot_pos s ?n) = slot_off ?n" "0 < ?c"
    by (simp_all add: slot_pos_def slot_cnt_def)
  have r: "ide_read (sec_lba (slot_pos s ?n)) (?c * SECTOR_SIZE) ?c t = Ret w t" if "disk t = disk s" for t
    unfolding w_def using ide_read_run [OF lb(2) two(3), of "?c * SECTOR_SIZE" t] that by (simp add: lb(1))
  show ?thesis
    using inode_locate_ok [OF no, of s] g
    by (simp add: inode_open_def f two heap_alloc_def derefK_def r sl heap_free_def Let_def del: One_nat_def)
       (simp add: s'_def set_inode_def set_part_def)
qed

subsection \<open>Sectors of the data region\<close>

text \<open>The free sectors, and the effect of a routine that takes the sectors \<open>N\<close> and otherwise writes nothing but
  bitmaps and inodes in memory.\<close>

definition freesecs :: "fsys \<Rightarrow> nat set" where
  "freesecs s = (+) (data_start s) ` free_blocks s"

definition rest_same :: "fsys \<Rightarrow> fsys \<Rightarrow> bool" where
  "rest_same s s' \<longleftrightarrow> cur_part s' = (cur_part s)\<lparr>block_bitmap := block_bitmap (cur_part s')\<rparr> \<and>
     file_table s' = file_table s \<and> fd_table s' = fd_table s \<and> dirs s' = dirs s \<and> root_dir s' = root_dir s \<and>
     cwd_inode_nr s' = cwd_inode_nr s \<and> in_kernel s' = in_kernel s \<and> grants s' = grants s \<and> live s' = live s"

text \<open>A sector that is taken in the bitmap in memory and in the copy of the bitmap on the disk.\<close>

definition noted :: "fsys \<Rightarrow> nat \<Rightarrow> bool" where
  "noted s l \<longleftrightarrow> taken s l \<and>
     (let k = l - data_start s in
      bit (disk s (unat (block_bitmap_lba (sb_of_fs s)) + k div 4096) ! (k mod 4096 div 8)) (k mod 8))"

lemma notedI:
  assumes "noted s l" "fs_ok s" "sb_of_fs s' = sb_of_fs s" "taken s l \<Longrightarrow> taken s' l" "\<And>x. x < itab_start s \<Longrightarrow> disk s' x = disk s x"
  shows "noted s' l"
proof -
  note lay = layout_okD [OF fs_okD(2) [OF assms(2)]] and bm = bitmaps_okD(3) [OF fs_okD(3) [OF assms(2)]]
  have "l - data_start s < 8 * (unat (block_bitmap_sects (sb_of_fs s)) * SECTOR_SIZE)"
    using assms(1) bm by (auto simp: noted_def taken_def)
  then have "(l - data_start s) div 4096 < unat (block_bitmap_sects (sb_of_fs s))"
    by (simp add: SECTOR_SIZE_def less_mult_imp_div_less)
  then have "unat (block_bitmap_lba (sb_of_fs s)) + (l - data_start s) div 4096 < itab_start s"
    using lay by linarith
  then show ?thesis
    using assms by (simp add: noted_def Let_def)
qed

definition takes :: "fsys \<Rightarrow> nat set \<Rightarrow> fsys \<Rightarrow> bool" where
  "takes s N s' \<longleftrightarrow> fs_ok s' \<and> N \<subseteq> freesecs s \<and> freesecs s' = freesecs s - N \<and>
     (\<forall>l. taken s' l \<longleftrightarrow> taken s l \<or> l \<in> N) \<and> (\<forall>l \<ge> itab_start s. disk s' l = disk s l) \<and> rest_same s s' \<and>
     (\<forall>l. noted s l \<longrightarrow> noted s' l)"

lemma rest_same_refl [simp]: "rest_same s s"
  by (simp add: rest_same_def)

lemma rest_same_sb: "rest_same s s' \<Longrightarrow> sb_of_fs s' = sb_of_fs s"
  by (simp add: rest_same_def) (metis partition.select_convs(3) partition.surjective partition.update_convs(4))

lemma rest_same_trans: "rest_same s s' \<Longrightarrow> rest_same s' s'' \<Longrightarrow> rest_same s s''"
  unfolding rest_same_def by (metis partition.surjective partition.update_convs(4))

lemma takesD:
  assumes "takes s N s'"
  shows "fs_ok s'" "N \<subseteq> freesecs s" "freesecs s' = freesecs s - N" "taken s' l \<longleftrightarrow> taken s l \<or> l \<in> N"
    "itab_start s \<le> l \<Longrightarrow> disk s' l = disk s l" "rest_same s s'" "sb_of_fs s' = sb_of_fs s"
    "noted s l \<Longrightarrow> noted s' l"
  using assms rest_same_sb [of s s'] by (auto simp: takes_def)

lemma takes_refl: "fs_ok s \<Longrightarrow> takes s {} s"
  by (simp add: takes_def)

lemma takes_trans:
  assumes "takes s N s'" "takes s' M s''"
  shows "takes s (N \<union> M) s''"
  unfolding takes_def
  using takesD [OF assms(1)] takesD [OF assms(2)] rest_same_trans by (auto simp del: atLeastLessThan_iff)

lemma finite_freesecs: "finite (freesecs s)"
  unfolding freesecs_def free_blocks_def by simp

lemma freesecsD:
  assumes ok: "fs_ok s" and l: "l \<in> freesecs s"
  shows "data_start s < l" "l \<le> unat max_lba" "\<not> taken s l"
proof -
  obtain k where k: "l = data_start s + k" "k \<in> free_blocks s"
    using l by (auto simp: freesecs_def)
  then show "data_start s < l" "l \<le> unat max_lba" "\<not> taken s l"
    using bitmaps_okD(5,6) [OF fs_okD(3) [OF ok] k(2)] by (auto simp: taken_def free_blocks_def)
qed

lemma alloc_sec:
  assumes ok: "fs_ok s" and free: "freesecs s \<noteq> {}"
  obtains lba s' where "block_bitmap_alloc s = Ret lba s'" "unat lba \<in> freesecs s" "lba \<noteq> - 1" "lba \<noteq> 0" "lba \<le> max_lba"
    "takes s {unat lba} s'" "inodes s' = inodes s" "disk s' = disk s"
proof -
  have "free_blocks s \<noteq> {}"
    using free by (simp add: freesecs_def)
  then obtain k b where k: "k \<in> free_blocks s"
    "block_bitmap_alloc s = Ret (data_start_lba (sb_of_fs s) + of_nat k) (set_part (\<lambda>p. p\<lparr>block_bitmap := b\<rparr>) s)"
    "fs_ok (set_part (\<lambda>p. p\<lparr>block_bitmap := b\<rparr>) s)" "btmp_bytes_len b = btmp_bytes_len (block_bitmap (cur_part s))"
    "\<And>j. bitmap_bit b j = (j = k \<or> bitmap_bit (block_bitmap (cur_part s)) j)"
    using block_bitmap_alloc_ok [OF ok] by metis
  let ?s' = "set_part (\<lambda>p. p\<lparr>block_bitmap := b\<rparr>) s"
  note bm = bitmaps_okD(5,6) [OF fs_okD(3) [OF ok] k(1)] and lay = layout_okD [OF fs_okD(2) [OF ok]]
  have "0 < data_start s"
    using lay by (simp add: IT_SECTS_def)
  note lba = block_lba [OF bm(1) this]
  have f: "free_blocks ?s' = free_blocks s - {k}"
    using k(4,5) by (auto simp: free_blocks_def)
  have kl: "k < 8 * btmp_bytes_len (block_bitmap (cur_part s))"
    using k(1) by (simp add: free_blocks_def)
  have fs: "freesecs ?s' = freesecs s - {data_start s + k}"
    unfolding freesecs_def f by (auto simp: image_set_diff)
  have tk: "taken ?s' l \<longleftrightarrow> taken s l \<or> l \<in> {data_start s + k}" for l
    unfolding taken_def using k(4,5) bm kl by (simp, safe) auto
  have m: "data_start s + k \<in> freesecs s"
    using k(1) by (simp add: freesecs_def)
  have "rest_same s ?s'"
    by (simp add: rest_same_def)
  then have "takes s {data_start s + k} ?s'"
    unfolding takes_def fs using tk k(3) m by (auto intro: notedI [OF _ ok])
  then show ?thesis
    using that [OF k(2)] lba(1-4) m by simp
qed

lemma byte_in_sector: "n div 4096 * 512 + n mod 4096 div 8 = n div (8 :: nat)"
proof -
  have "n div 8 = (n mod 4096 + 8 * (512 * (n div 4096))) div 8"
    by (simp add: mult.assoc [symmetric])
  also have "\<dots> = 512 * (n div 4096) + n mod 4096 div 8"
    by (rule div_mult_self2) simp
  finally show ?thesis
    by simp
qed

lemma sync_sec:
  assumes ok: "fs_ok s" and t: "taken s (unat lba)"
  obtains s' where "bitmap_sync (lba - data_start_lba (sb_of_fs s)) BLOCK_BITMAP s = Ret () s'" "takes s {} s'" "inodes s' = inodes s"
    "noted s' (unat lba)"
proof -
  let ?k = "unat lba - data_start s"
  have k: "?k < 8 * btmp_bytes_len (block_bitmap (cur_part s))" "data_start s < unat lba"
    using t by (auto simp: taken_def)
  have e: "lba - data_start_lba (sb_of_fs s) = of_nat ?k"
  proof -
    have "unat (lba - data_start_lba (sb_of_fs s)) = ?k"
      using k(2) by (simp add: unat_sub word_le_nat_alt)
    moreover have "of_nat (unat w) = w" for w :: u32
      by simp
    ultimately show ?thesis
      by metis
  qed
  let ?B = "unat (block_bitmap_lba (sb_of_fs s))" and ?b = "block_bitmap (cur_part s)"
  obtain d where d: "bitmap_sync (of_nat ?k) BLOCK_BITMAP s = Ret () (s\<lparr>disk := d\<rparr>)" "sectors_ok d"
    "\<And>l. itab_start s \<le> l \<Longrightarrow> d l = disk s l"
    "d (?B + ?k div 4096) = take SECTOR_SIZE (drop (?k div 4096 * SECTOR_SIZE) (bits ?b))"
    "\<And>l. l \<noteq> ?B + ?k div 4096 \<Longrightarrow> d l = disk s l"
    by (rule bitmap_sync_ok [OF ok k(1)]) blast
  have same: "taken (s\<lparr>disk := d\<rparr>) = taken s"
    by (simp add: taken_def fun_eq_iff)
  have here: "noted (s\<lparr>disk := d\<rparr>) l" if l: "taken s l" "(l - data_start s) div 4096 = ?k div 4096" for l
  proof -
    let ?l = "l - data_start s"
    have x: "?l div 4096 * SECTOR_SIZE + ?l mod 4096 div 8 = ?l div 8" "?l mod 4096 div 8 < SECTOR_SIZE"
      by (simp_all add: byte_in_sector SECTOR_SIZE_def)
    have "?l div 8 < length (bits ?b)"
      using l(1) bitmaps_okD(2,3) [OF fs_okD(3) [OF ok]] by (auto simp: taken_def)
    then have "d (?B + ?l div 4096) ! (?l mod 4096 div 8) = bits ?b ! (?l div 8)"
      unfolding l(2) d(4) using x unfolding l(2) by simp
    then show ?thesis
      using l(1) by (simp add: noted_def same Let_def) (simp add: taken_def bitmap_bit_def)
  qed
  have "noted (s\<lparr>disk := d\<rparr>) l" if "noted s l" for l
  proof (cases "(l - data_start s) div 4096 = ?k div 4096")
    case True
    then show ?thesis
      using here that by (simp add: noted_def)
  next
    case False
    then show ?thesis
      using that d(5) by (simp add: noted_def same Let_def)
  qed
  then have "takes s {} (s\<lparr>disk := d\<rparr>)"
    using ok d(2,3) fs_ok_cong [OF ok, of "s\<lparr>disk := d\<rparr>"] same
    by (simp add: takes_def rest_same_def freesecs_def free_blocks_def)
  then show ?thesis
    using that [of "s\<lparr>disk := d\<rparr>"] d(1) e here [OF t] by simp
qed

subsection \<open>Properties\<close>

text \<open>A small partition for the examples: one sector of block bitmap with only block 0 taken, and one open inode,
  empty, in every slot of the file table.\<close>

definition demo_sb :: super_block where
  "demo_sb = \<lparr>magic = 0x19590318, sb_sec_cnt = 5000, inode_cnt = 4096, part_lba_base = 0, block_bitmap_lba = 2,
     block_bitmap_sects = 1, inode_bitmap_lba = 3, inode_bitmap_sects = 1, inode_table_lba = 4, inode_table_sects = 608,
     data_start_lba = 612, root_inode_no = 0, dir_entry_size = 24\<rparr>"

definition demo_bits :: bitmap where
  "demo_bits = \<lparr>btmp_bytes_len = 512, bits = 1 # replicate 511 0\<rparr>"

definition demo_fs :: fsys where
  "demo_fs = \<lparr>disk = (\<lambda>_. replicate 512 0),
     cur_part = \<lparr>start_lba = 0, sec_cnt = 5000, sb = demo_sb, block_bitmap = demo_bits, inode_bitmap = demo_bits, open_inodes = [0x1000]\<rparr>,
     inodes = (\<lambda>_. inode_init 1), dirs = (\<lambda>_. \<lparr>dir_inode = NULL, dir_pos = 0\<rparr>), root_dir = 0x500,
     file_table = replicate 32 \<lparr>fd_pos = 0, fd_flag = 2, fd_inode = 0x1000\<rparr>, fd_table = [0, 1, 2, 3, - 1, - 1, - 1, - 1],
     cwd_inode_nr = 0, in_kernel = True, grants = [0x2000, 0x3000, 0x4000, 0x5000], live = [(0x1000, True)]\<rparr>"

lemma demo_bit: "bitmap_bit demo_bits k \<longleftrightarrow> k = 0" if "k < 4096"
proof (cases "k div 8 = 0")
  case True
  then have "bits demo_bits ! (k div 8) = 1" "k mod 8 = k"
    by (simp_all add: demo_bits_def)
  then show ?thesis
    by (simp add: bitmap_bit_def bit_1_iff)
next
  case False
  have "k div 8 < 512"
    using that by (simp add: less_mult_imp_div_less)
  then have "bits demo_bits ! (k div 8) = 0"
    using False by (cases "k div 8") (simp_all add: demo_bits_def)
  then show ?thesis
    using False by (auto simp: bitmap_bit_def)
qed

lemma demo_fs_ok: "fs_ok demo_fs"
  using demo_bit
  by (auto simp: fs_ok_def demo_fs_def sectors_ok_def SECTOR_SIZE_def layout_ok_def bitmaps_ok_def demo_sb_def
      IT_SECTS_def max_lba_def sizeof_dir_entry_def MAX_FILE_OPEN_def MAX_FILES_OPEN_PER_PROC_def)
     (simp_all add: demo_bits_def)

text \<open>C9: An inode with a number below 256 that is written to the disk and opened again is read back with all its
  fields; only the open count starts at 1 and the write flag is clear. The other inodes of the table, the
  sectors outside the table and the blocks of the heap are as before (but for the new inode).\<close>

theorem inode_sync_then_open:
  assumes ok: "fs_ok s" and len: "length (i_sectors i) = 13" and no: "unat (i_no i) < 256"
    and room: "slot_cnt (unat (i_no i)) * SECTOR_SIZE \<le> io_buf"
    and new: "\<And>x. x \<in> set (open_inodes (cur_part s)) \<Longrightarrow> i_no (inodes s x) \<noteq> i_no i"
    and g: "grants s = a # b # gs" "a \<noteq> NULL" "b \<noteq> NULL"
  shows "\<exists>s'. thenK (inode_sync i io_buf) (inode_open (i_no i)) s = Ret a s' \<and> fs_ok s' \<and>
    inodes s' = (inodes s)(a := i\<lparr>write_deny := False, i_open_cnts := 1\<rparr>) \<and>
    (\<forall>m < 4096. m \<noteq> unat (i_no i) \<longrightarrow> islot s' m = islot s m) \<and>
    (\<forall>l. l < itab_start s \<or> itab_start s + IT_SECTS \<le> l \<longrightarrow> disk s' l = disk s l) \<and>
    open_inodes (cur_part s') = a # open_inodes (cur_part s) \<and> live s' = (a, True) # live s"
proof -
  have n: "unat (i_no i) = unat (i_no i) mod 256" "unat (i_no i) < 4096"
    using no by simp_all
  obtain d where d: "inode_sync i io_buf s = Ret () (s\<lparr>disk := d\<rparr>)" "sectors_ok d"
    "\<And>l. l < itab_start s \<or> itab_start s + IT_SECTS \<le> l \<Longrightarrow> d l = disk s l"
    "islot (s\<lparr>disk := d\<rparr>) (unat (i_no i)) = inode_bytes i"
    "\<And>m. m < 4096 \<Longrightarrow> m \<noteq> unat (i_no i) \<Longrightarrow> islot (s\<lparr>disk := d\<rparr>) m = islot s m"
    by (rule inode_sync_ok [OF ok len n(1) room]) blast
  let ?t = "s\<lparr>disk := d\<rparr>"
  let ?s' = "?t\<lparr>inodes := (inodes s)(a := i\<lparr>write_deny := False, i_open_cnts := 1\<rparr>),
      cur_part := (cur_part s)\<lparr>open_inodes := a # open_inodes (cur_part s)\<rparr>, grants := gs, live := (a, True) # live s\<rparr>"
  have "fs_ok ?t"
    using fs_ok_cong [OF ok, of ?t] d(2) by simp
  then have "inode_open (i_no i) ?t = Ret a ?s'"
    using inode_open_new [of ?t "i_no i" a b gs] n(2) new g inode_of_bytes [OF len] d(4) by simp
  moreover have "fs_ok ?s'"
    using ok d(2) by (simp add: fs_ok_def layout_ok_def bitmaps_ok_def)
  moreover have "islot ?s' m = islot ?t m" for m
    by (simp add: islot_def itab_def)
  ultimately show ?thesis
    using d(1,3,5) by (intro exI [of _ ?s']) simp
qed

theorem inode_sync_then_open_witness:
  "\<exists>s'. thenK (inode_sync (inode_init 6) 1024) (inode_open 6) demo_fs = Ret 0x2000 s' \<and>
    inodes s' 0x2000 = (inode_init 6)\<lparr>i_open_cnts := 1\<rparr>"
proof -
  let ?i = "inode_init 6"
  have i: "i_no ?i = 6" "length (i_sectors ?i) = 13" "?i\<lparr>write_deny := False, i_open_cnts := 1\<rparr> = ?i\<lparr>i_open_cnts := 1\<rparr>"
    by (simp_all add: inode_init_def)
  have r: "slot_cnt 6 * SECTOR_SIZE \<le> 1024"
    by (simp add: slot_cnt_def SECTOR_SIZE_def)
  have d: "grants demo_fs = [0x2000, 0x3000, 0x4000, 0x5000]" "\<And>x. i_no (inodes demo_fs x) \<noteq> 6"
    by (simp_all add: demo_fs_def inode_init_def)
  from inode_sync_then_open [OF demo_fs_ok i(2), of 1024 "0x2000" "0x3000" "[0x4000, 0x5000]"]
  obtain s' where "thenK (inode_sync ?i 1024) (inode_open 6) demo_fs = Ret 0x2000 s'"
    "inodes s' = (inodes demo_fs)(0x2000 := ?i\<lparr>write_deny := False, i_open_cnts := 1\<rparr>)"
    using i r d by auto
  then show ?thesis
    using i(3) by auto
qed

text \<open>C30: An inode with a number of 256 or more is written to the slot of another inode: its number is cut to eight
  bits on the way. The slot of its own keeps what it had, the slot of the number modulo 256 is overwritten.\<close>

theorem inode_sync_wrong_slot:
  assumes ok: "fs_ok s" and len: "length (i_sectors i) = 13" and no: "256 \<le> unat (i_no i)" "unat (i_no i) < 4096"
    and room: "1024 \<le> io_buf"
  shows "\<exists>s'. inode_sync i io_buf s = Ret () s' \<and> islot s' (unat (i_no i)) = islot s (unat (i_no i)) \<and>
    islot s' (unat (i_no i) mod 256) = inode_bytes i"
proof -
  let ?n = "unat (i_no i) mod 256"
  have r: "slot_cnt ?n * SECTOR_SIZE \<le> io_buf"
    using room by (simp add: slot_cnt_def SECTOR_SIZE_def)
  obtain d where "inode_sync i io_buf s = Ret () (s\<lparr>disk := d\<rparr>)"
    "islot (s\<lparr>disk := d\<rparr>) ?n = inode_bytes i" "\<And>m. m < 4096 \<Longrightarrow> m \<noteq> ?n \<Longrightarrow> islot (s\<lparr>disk := d\<rparr>) m = islot s m"
    by (rule inode_sync_ok [OF ok len refl r]) blast
  moreover have "unat (i_no i) \<noteq> ?n"
    using no(1) mod_less_divisor [of 256 "unat (i_no i)"] by linarith
  ultimately show ?thesis
    using no(2) by blast
qed

theorem inode_sync_wrong_slot_witness:
  "\<exists>s'. inode_sync (inode_init 256) 1024 demo_fs = Ret () s' \<and> islot s' 256 = islot demo_fs 256 \<and>
    islot s' 0 = inode_bytes (inode_init 256)"
proof -
  have "unat (i_no (inode_init 256)) = 256" "length (i_sectors (inode_init 256)) = 13"
    by (simp_all add: inode_init_def)
  then show ?thesis
    using inode_sync_wrong_slot [OF demo_fs_ok, of "inode_init 256" 1024] by simp
qed

end
