(* ===== verification/File.thy ===== *)
theory File
  imports Inode
begin

section \<open>Open files (fs/file.c)\<close>

text \<open>
  The file table, the descriptors of the running thread, and reading and writing the blocks of an open
  file. A \<^verbatim>\<open>struct file*\<close> is an index of the file table. The caller's buffer is a list of bytes; the count is
  the 32-bit argument. \<open>file_create\<close>, which also writes a directory, is in the theory of the system calls.
\<close>

subsection \<open>Operations\<close>

text \<open>The search loops for a free slot: the first index from \<open>i\<close> on, \<open>i + n\<close> when there is none.\<close>

fun free_slot :: "('a \<Rightarrow> bool) \<Rightarrow> 'a list \<Rightarrow> nat \<Rightarrow> nat \<Rightarrow> nat res" where
  "free_slot P xs i 0 = Inr i"
| "free_slot P xs i (Suc n) = bindR (rd xs i) (\<lambda>x. if P x then Inr i else free_slot P xs (i + 1) n)"

definition get_free_slot_in_global :: "(fsys, int) kop" where
  "get_free_slot_in_global =
     bindK (getK file_table) (\<lambda>t.
     bindK (liftR (free_slot (\<lambda>f. fd_inode f = NULL) t 3 (MAX_FILE_OPEN - 3))) (\<lambda>fd_idx.
     if fd_idx = MAX_FILE_OPEN then retK (- 1) else retK (int fd_idx)))"

definition pcb_fd_install :: "int \<Rightarrow> (fsys, int) kop" where
  "pcb_fd_install globa_fd_idx =
     bindK (getK fd_table) (\<lambda>t.
     bindK (liftR (free_slot (\<lambda>g. g = - 1) t 3 (MAX_FILES_OPEN_PER_PROC - 3))) (\<lambda>local_fd_idx.
     if local_fd_idx = MAX_FILES_OPEN_PER_PROC then retK (- 1)
     else thenK (modK (\<lambda>s. s\<lparr>fd_table := (fd_table s)[local_fd_idx := globa_fd_idx]\<rparr>))
               (retK (int local_fd_idx))))"

definition O_WRONLY :: u32 where "O_WRONLY = 1"
definition O_RDWR :: u32 where "O_RDWR = 2"
definition O_CREAT :: u32 where "O_CREAT = 4"

definition file_open :: "u32 \<Rightarrow> u32 \<Rightarrow> (fsys, int) kop" where
  "file_open inode_no flag =
     bindK get_free_slot_in_global (\<lambda>fd_idx.
     if fd_idx = - 1 then retK (- 1)
     else
       bindK (inode_open inode_no) (\<lambda>a.
       thenK (modK (set_file (nat fd_idx) (\<lambda>f. f\<lparr>fd_inode := a, fd_pos := 0, fd_flag := flag\<rparr>)))
      (if flag AND O_WRONLY \<noteq> 0 \<or> flag AND O_RDWR \<noteq> 0 then
         bindK (getK (\<lambda>s. write_deny (inodes s a))) (\<lambda>deny.
         if \<not> deny then
           thenK (modK (set_inode a (\<lambda>i. i\<lparr>write_deny := True\<rparr>))) (pcb_fd_install fd_idx)
         else retK (- 1))
       else pcb_fd_install fd_idx)))"

definition file_close :: "nat \<Rightarrow> (fsys, int) kop" where
  "file_close fd =
     bindK (getK (\<lambda>s. fd_inode (file_table s ! fd))) (\<lambda>a.
     thenK (modK (set_inode a (\<lambda>i. i\<lparr>write_deny := False\<rparr>)))
    (thenK (inode_close a)
    (thenK (modK (set_file fd (\<lambda>f. f\<lparr>fd_inode := NULL\<rparr>)))
           (retK 0))))"

text \<open>The loops of \<^verbatim>\<open>file_write\<close> that allocate the blocks from \<open>block_idx\<close> on. The source has three of them, for
  direct blocks only, for both and for indirect blocks only; they differ in the test \<open>block_idx < 12\<close>, which
  is always true in the first and always false in the last. \<open>None\<close> is the early return of -1.\<close>

fun grow_blocks :: "addr \<Rightarrow> nat \<Rightarrow> nat \<Rightarrow> u32 list \<Rightarrow> (fsys, u32 list option) kop" where
  "grow_blocks a block_idx 0 blocks = retK (Some blocks)"
| "grow_blocks a block_idx (Suc n) blocks =
     bindK block_bitmap_alloc (\<lambda>block_lba.
     if block_lba = - 1 then retK None
     else
       thenK (whenK (block_idx < 12)
         (thenK (assertK (\<lambda>s. i_sectors (inodes s a) ! block_idx = 0))
                (modK (set_inode a (\<lambda>i. i\<lparr>i_sectors := (i_sectors i)[block_idx := block_lba]\<rparr>)))))
      (bindK (liftR (wr blocks block_idx block_lba)) (\<lambda>blocks.
       bindK (getK (\<lambda>s. block_lba - data_start_lba (sb (cur_part s)))) (\<lambda>block_bitmap_idx.
       thenK (bitmap_sync block_bitmap_idx BLOCK_BITMAP)
             (grow_blocks a (block_idx + 1) n blocks)))))"

text \<open>The 128 entries of the indirect table, read into the array from index 12 on.\<close>

definition read_table :: "u32 \<Rightarrow> u32 list \<Rightarrow> (fsys, u32 list) kop" where
  "read_table lba blocks =
     bindK (ide_read lba SECTOR_SIZE 1) (\<lambda>b. retK (take 12 blocks @ words_of b 128))"

definition write_table :: "u32 \<Rightarrow> u32 list \<Rightarrow> (fsys, unit) kop" where
  "write_table lba blocks = ide_write lba (bytes_of (drop 12 blocks)) 1"

text \<open>The part of \<^verbatim>\<open>file_write\<close> that collects the addresses of the blocks to write, allocating what is missing.\<close>

definition write_blocks :: "addr \<Rightarrow> nat \<Rightarrow> nat \<Rightarrow> u32 list \<Rightarrow> (fsys, u32 list option) kop" where
  "write_blocks a has will blocks =
     bindK (getK (\<lambda>s. i_sectors (inodes s a))) (\<lambda>secs.
     if has = will then
       if has \<le> 12 then bindK (liftR (wr blocks (has - 1) (secs ! (has - 1)))) (\<lambda>blocks. retK (Some blocks))
       else thenK (assertK (\<lambda>_. secs ! 12 \<noteq> 0))
                  (bindK (read_table (secs ! 12) blocks) (\<lambda>blocks. retK (Some blocks)))
     else if will \<le> 12 then
       thenK (assertK (\<lambda>_. secs ! (has - 1) \<noteq> 0))
      (bindK (liftR (wr blocks (has - 1) (secs ! (has - 1)))) (\<lambda>blocks.
       grow_blocks a has (will - has) blocks))
     else if has \<le> 12 then
       bindK (liftR (wr blocks (has - 1) (secs ! (has - 1)))) (\<lambda>blocks.
       bindK block_bitmap_alloc (\<lambda>indirect_block_table.
       if indirect_block_table = - 1 then retK None
       else
         thenK (assertK (\<lambda>_. secs ! 12 = 0))
        (thenK (modK (set_inode a (\<lambda>i. i\<lparr>i_sectors := (i_sectors i)[12 := indirect_block_table]\<rparr>)))
        (bindK (grow_blocks a has (will - has) blocks) (\<lambda>r.
         case r of None \<Rightarrow> retK None
         | Some blocks \<Rightarrow> thenK (write_table indirect_block_table blocks) (retK (Some blocks)))))))
     else
       thenK (assertK (\<lambda>_. secs ! 12 \<noteq> 0))
      (bindK (read_table (secs ! 12) blocks) (\<lambda>blocks.
       bindK (grow_blocks a has (will - has) blocks) (\<lambda>r.
       case r of None \<Rightarrow> retK None
       | Some blocks \<Rightarrow> thenK (write_table (secs ! 12) blocks) (retK (Some blocks))))))"

text \<open>The loop that writes the data. Every turn writes at least one byte, so \<open>fuel\<close> is the number of bytes.\<close>

fun write_chunks :: "nat \<Rightarrow> nat \<Rightarrow> u32 list \<Rightarrow> bool \<Rightarrow> u8 list \<Rightarrow> nat \<Rightarrow> (fsys, unit) kop" where
  "write_chunks fuel fd blocks first_write_block src size_left =
     (if size_left = 0 then retK ()
      else case fuel of
        0 \<Rightarrow> fltK Diverges
      | Suc n \<Rightarrow>
          bindK (getK (\<lambda>s. fd_inode (file_table s ! fd))) (\<lambda>a.
          bindK (getK (\<lambda>s. unat (i_size (inodes s a)))) (\<lambda>size.
          let sec_off_bytes = size mod SECTOR_SIZE;
              sec_left_bytes = SECTOR_SIZE - sec_off_bytes;
              chunk_size = (if size_left < sec_left_bytes then size_left else sec_left_bytes)
          in
          bindK (liftR (rd blocks (size div SECTOR_SIZE))) (\<lambda>lba.
          bindK (if first_write_block then ide_read lba SECTOR_SIZE 1 else retK (replicate SECTOR_SIZE 0)) (\<lambda>io_buf.
          bindK (liftR (memcpy_at io_buf sec_off_bytes src chunk_size)) (\<lambda>io_buf.
          thenK (ide_write lba io_buf 1)
         (thenK (modK (set_inode a (\<lambda>i. i\<lparr>i_size := i_size i + of_nat chunk_size\<rparr>)))
         (thenK (modK (set_file fd (\<lambda>f. f\<lparr>fd_pos := fd_pos f + of_nat chunk_size\<rparr>)))
                (write_chunks n fd blocks False (drop chunk_size src) (size_left - chunk_size))))))))))"

declare write_chunks.simps [simp del]

text \<open>The first block of a file that was never written; false is the early return of -1.\<close>

definition first_block :: "addr \<Rightarrow> (fsys, bool) kop" where
  "first_block a =
     bindK (getK (\<lambda>s. i_sectors (inodes s a) ! 0)) (\<lambda>sec.
     if sec \<noteq> 0 then retK True
     else bindK block_bitmap_alloc (\<lambda>block_lba.
     if block_lba = - 1 then retK False
     else
       thenK (modK (set_inode a (\<lambda>i. i\<lparr>i_sectors := (i_sectors i)[0 := block_lba]\<rparr>)))
      (bindK (getK (\<lambda>s. block_lba - data_start_lba (sb (cur_part s)))) (\<lambda>block_bitmap_idx.
       thenK (assertK (\<lambda>_. block_bitmap_idx \<noteq> 0))
      (thenK (bitmap_sync block_bitmap_idx BLOCK_BITMAP)
             (retK True))))))"

text \<open>\<^verbatim>\<open>io_buf\<close> has 512 bytes, also for the call of \<open>inode_sync\<close> at the end.\<close>

definition file_write :: "nat \<Rightarrow> u8 list \<Rightarrow> u32 \<Rightarrow> (fsys, u32) kop" where
  "file_write fd buf count =
     bindK (getK (\<lambda>s. fd_inode (file_table s ! fd))) (\<lambda>a.
     bindK (getK (\<lambda>s. i_size (inodes s a))) (\<lambda>size.
     if size + count > of_nat SECTOR_SIZE * 140 then retK (- 1)
     else
       bindK heap_alloc (\<lambda>io_buf.
       if io_buf = NULL then retK (- 1)
       else bindK heap_alloc (\<lambda>all_blocks.
       if all_blocks = NULL then retK (- 1)
       else bindK (first_block a) (\<lambda>ok.
       if \<not> ok then retK (- 1)
       else
         let file_has_used_blocks = unat (size div 512 + 1);
             file_will_use_blocks = unat ((size + count) div 512 + 1)
         in
         thenK (assertK (\<lambda>_. file_will_use_blocks \<le> 140))
        (bindK (write_blocks a file_has_used_blocks file_will_use_blocks (replicate 140 0)) (\<lambda>r.
         case r of None \<Rightarrow> retK (- 1)
         | Some blocks \<Rightarrow>
             thenK (modK (set_file fd (\<lambda>f. f\<lparr>fd_pos := size - 1\<rparr>)))
            (thenK (write_chunks (unat count) fd blocks True buf (unat count))
            (bindK (getK (\<lambda>s. inodes s a)) (\<lambda>i.
             thenK (inode_sync i 512)
            (thenK (heap_free all_blocks)
            (thenK (heap_free io_buf)
                   (retK count)))))))))))))"

text \<open>The part of \<^verbatim>\<open>file_read\<close> that collects the addresses of the blocks to read.\<close>

definition read_blocks :: "inode \<Rightarrow> nat \<Rightarrow> nat \<Rightarrow> u32 list \<Rightarrow> (fsys, u32 list) kop" where
  "read_blocks i start_idx end_idx blocks =
     (let secs = i_sectors i;
          direct = (\<lambda>m n. take m blocks @ take (n - m) (drop m secs) @ drop (max m n) blocks)
      in if start_idx = end_idx then
           if end_idx < 12 then retK (direct end_idx (end_idx + 1))
           else read_table (secs ! 12) blocks
         else if end_idx < 12 then retK (direct start_idx (end_idx + 1))
         else if start_idx < 12 then
           thenK (assertK (\<lambda>_. secs ! 12 \<noteq> 0)) (read_table (secs ! 12) (direct start_idx 12))
         else thenK (assertK (\<lambda>_. secs ! 12 \<noteq> 0)) (read_table (secs ! 12) blocks))"

text \<open>The loop that reads the data; the value is what it puts into the caller's buffer.\<close>

fun read_chunks :: "nat \<Rightarrow> nat \<Rightarrow> u32 list \<Rightarrow> nat \<Rightarrow> (fsys, u8 list) kop" where
  "read_chunks fuel fd blocks size_left =
     (if size_left = 0 then retK []
      else case fuel of
        0 \<Rightarrow> fltK Diverges
      | Suc n \<Rightarrow>
          bindK (getK (\<lambda>s. unat (fd_pos (file_table s ! fd)))) (\<lambda>pos.
          let sec_off_bytes = pos mod SECTOR_SIZE;
              sec_left_bytes = SECTOR_SIZE - sec_off_bytes;
              chunk_size = (if size_left < sec_left_bytes then size_left else sec_left_bytes)
          in
          bindK (liftR (rd blocks (pos div SECTOR_SIZE))) (\<lambda>lba.
          bindK (ide_read lba SECTOR_SIZE 1) (\<lambda>io_buf.
          thenK (modK (set_file fd (\<lambda>f. f\<lparr>fd_pos := fd_pos f + of_nat chunk_size\<rparr>)))
         (bindK (read_chunks n fd blocks (size_left - chunk_size)) (\<lambda>rest.
          retK (take chunk_size (drop sec_off_bytes io_buf) @ rest)))))))"

declare read_chunks.simps [simp del]

text \<open>The value is the return value and the bytes that were put into the caller's buffer. A refused first
  request is only reported, and the buffer at \<^verbatim>\<open>NULL\<close> is used by the loop.\<close>

definition file_read :: "nat \<Rightarrow> u32 \<Rightarrow> (fsys, u32 \<times> u8 list) kop" where
  "file_read fd count =
     bindK (getK (\<lambda>s. file_table s ! fd)) (\<lambda>f.
     bindK (getK (\<lambda>s. inodes s (fd_inode f))) (\<lambda>i.
     let size = (if fd_pos f + count > i_size i then i_size i - fd_pos f else count) in
     if fd_pos f + count > i_size i \<and> size = 0 then retK (- 1, [])
     else
       bindK heap_alloc (\<lambda>io_buf.
       bindK heap_alloc (\<lambda>all_blocks.
       if all_blocks = NULL then retK (- 1, [])
       else
         let block_read_start_idx = unat (fd_pos f div 512);
             block_read_end_idx = unat ((fd_pos f + size) div 512)
         in
         thenK (assertK (\<lambda>_. block_read_start_idx < 139 \<and> block_read_end_idx < 139))
        (bindK (read_blocks i block_read_start_idx block_read_end_idx (replicate 140 0)) (\<lambda>blocks.
         thenK (whenK (size \<noteq> 0) (derefK io_buf))
        (bindK (read_chunks (unat size) fd blocks (unat size)) (\<lambda>bs.
         thenK (heap_free all_blocks)
        (thenK (heap_free io_buf)
               (retK (size, bs)))))))))))"

subsection \<open>Taking blocks for a file\<close>

lemma takes_set_inode: "fs_ok s \<Longrightarrow> takes s {} (set_inode a f s)"
  using fs_ok_cong [of s "set_inode a f s"]
  by (simp add: takes_def rest_same_def freesecs_def free_blocks_def taken_def noted_def fs_ok_def)

lemma grow_blocks_step:
  assumes ok: "fs_ok s" and free: "freesecs s \<noteq> {}" and idx: "idx < 140" and len: "length blocks = 140"
    and secs: "length (i_sectors (inodes s a)) = 13" "idx < 12 \<Longrightarrow> i_sectors (inodes s a) ! idx = 0"
  obtains lba s' where "grow_blocks a idx (Suc n) blocks s = grow_blocks a (idx + 1) n (blocks[idx := lba]) s'"
    "takes s {unat lba} s'" "unat lba \<in> freesecs s"
    "inodes s' = (inodes s)(a := (inodes s a)\<lparr>i_sectors :=
       (if idx < 12 then (i_sectors (inodes s a))[idx := lba] else i_sectors (inodes s a))\<rparr>)"
    "noted s' (unat lba)"
proof -
  obtain lba s1 where a1: "block_bitmap_alloc s = Ret lba s1" "unat lba \<in> freesecs s" "lba \<noteq> - 1" "lba \<noteq> 0" "lba \<le> max_lba"
    "takes s {unat lba} s1" "inodes s1 = inodes s" "disk s1 = disk s"
    using alloc_sec [OF ok free] by metis
  define s2 where "s2 = (if idx < 12 then set_inode a (\<lambda>i. i\<lparr>i_sectors := (i_sectors i)[idx := lba]\<rparr>) s1 else s1)"
  have t2: "takes s {unat lba} s2"
    using takes_trans [OF a1(6) takes_set_inode [OF takesD(1) [OF a1(6)]], of a "\<lambda>i. i\<lparr>i_sectors := (i_sectors i)[idx := lba]\<rparr>"] a1(6)
    by (simp add: s2_def)
  have "taken s2 (unat lba)"
    using takesD(4) [OF t2] by simp
  then obtain s3 where a3: "bitmap_sync (lba - data_start_lba (sb_of_fs s2)) BLOCK_BITMAP s2 = Ret () s3"
    "takes s2 {} s3" "inodes s3 = inodes s2" "noted s3 (unat lba)"
    using sync_sec [OF takesD(1) [OF t2]] by metis
  have "grow_blocks a idx (Suc n) blocks s = grow_blocks a (idx + 1) n (blocks[idx := lba]) s3"
  proof (cases "idx < 12")
    case True
    then show ?thesis
      using a1 a3 secs(2) idx len by (simp add: s2_def)
  next
    case False
    then show ?thesis
      using a1 a3 idx len by (simp add: s2_def)
  qed
  moreover have "takes s {unat lba} s3"
    using takes_trans [OF t2 a3(2)] by simp
  moreover have "inodes s3 = (inodes s)(a := (inodes s a)\<lparr>i_sectors :=
       (if idx < 12 then (i_sectors (inodes s a))[idx := lba] else i_sectors (inodes s a))\<rparr>)"
    using a3(3) a1(7) by (simp add: s2_def)
  ultimately show ?thesis
    using that a1(2) a3(4) by blast
qed

text \<open>The blocks \<open>idx\<close> to \<open>idx + n - 1\<close> become distinct sectors that were free.\<close>

lemma grow_blocks_ok:
  assumes "fs_ok s" "n \<le> card (freesecs s)" "idx + n \<le> 140" "length blocks = 140"
    and "length (i_sectors (inodes s a)) = 13" "\<And>j. idx \<le> j \<Longrightarrow> j < idx + n \<Longrightarrow> j < 12 \<Longrightarrow> i_sectors (inodes s a) ! j = 0"
  shows "\<exists>blocks' s' secs'. grow_blocks a idx n blocks s = Ret (Some blocks') s' \<and>
    takes s ((\<lambda>j. unat (blocks' ! j)) ` {idx..<idx + n}) s' \<and> (\<forall>j \<in> {idx..<idx + n}. noted s' (unat (blocks' ! j))) \<and>
    length blocks' = 140 \<and>
    (\<forall>j. j < idx \<or> idx + n \<le> j \<longrightarrow> blocks' ! j = blocks ! j) \<and> inj_on (\<lambda>j. unat (blocks' ! j)) {idx..<idx + n} \<and>
    inodes s' = (inodes s)(a := (inodes s a)\<lparr>i_sectors := secs'\<rparr>) \<and> length secs' = 13 \<and>
    (\<forall>j < 13. secs' ! j = (if idx \<le> j \<and> j < idx + n \<and> j < 12 then blocks' ! j else i_sectors (inodes s a) ! j))"
  using assms
proof (induction n arbitrary: idx blocks s)
  case 0
  then show ?case
    using takes_refl by (auto intro!: exI [of _ "i_sectors (inodes s a)"])
next
  case (Suc n)
  have ne: "freesecs s \<noteq> {}"
    using Suc.prems(2) by auto
  have idx: "idx < 140" "idx < 12 \<Longrightarrow> i_sectors (inodes s a) ! idx = 0"
    using Suc.prems(3,6) by auto
  obtain lba s1 where st: "grow_blocks a idx (Suc n) blocks s = grow_blocks a (idx + 1) n (blocks[idx := lba]) s1"
    "takes s {unat lba} s1" "unat lba \<in> freesecs s"
    "inodes s1 = (inodes s)(a := (inodes s a)\<lparr>i_sectors :=
       (if idx < 12 then (i_sectors (inodes s a))[idx := lba] else i_sectors (inodes s a))\<rparr>)"
    "noted s1 (unat lba)"
    by (rule grow_blocks_step [OF Suc.prems(1) ne idx(1) Suc.prems(4,5) idx(2)])
  let ?secs1 = "i_sectors (inodes s1 a)"
  have secs1: "length ?secs1 = 13" "\<And>j. ?secs1 ! j = (if j = idx \<and> idx < 12 then lba else i_sectors (inodes s a) ! j)"
    using st(4) Suc.prems(5) by auto
  have "card (freesecs s1) = card (freesecs s) - 1"
    unfolding takesD(3) [OF st(2)] using st(3) finite_freesecs by simp
  then have c: "n \<le> card (freesecs s1)"
    using Suc.prems(2) by simp
  have p: "idx + 1 + n \<le> 140" "length (blocks[idx := lba]) = 140"
    using Suc.prems(3,4) by simp_all
  have z: "?secs1 ! j = 0" if "idx + 1 \<le> j" "j < idx + 1 + n" "j < 12" for j
    using that Suc.prems(6) [of j] secs1(2) [of j] by simp
  from Suc.IH [OF takesD(1) [OF st(2)] c p secs1(1) z]
  obtain blocks' s' secs' where r: "grow_blocks a (idx + 1) n (blocks[idx := lba]) s1 = Ret (Some blocks') s'"
    "takes s1 ((\<lambda>j. unat (blocks' ! j)) ` {idx + 1..<idx + 1 + n}) s'" "length blocks' = 140"
    "\<forall>j. j < idx + 1 \<or> idx + 1 + n \<le> j \<longrightarrow> blocks' ! j = blocks[idx := lba] ! j"
    "inj_on (\<lambda>j. unat (blocks' ! j)) {idx + 1..<idx + 1 + n}"
    "inodes s' = (inodes s1)(a := (inodes s1 a)\<lparr>i_sectors := secs'\<rparr>)" "length secs' = 13"
    "\<forall>j < 13. secs' ! j = (if idx + 1 \<le> j \<and> j < idx + 1 + n \<and> j < 12 then blocks' ! j else ?secs1 ! j)"
    "\<forall>j \<in> {idx + 1..<idx + 1 + n}. noted s' (unat (blocks' ! j))"
    by blast
  have b: "blocks' ! idx = lba"
    using r(4) Suc.prems(3,4) by simp
  have set: "{idx..<idx + Suc n} = insert idx {idx + 1..<idx + 1 + n}"
    by auto
  have "takes s ((\<lambda>j. unat (blocks' ! j)) ` {idx..<idx + Suc n}) s'"
    using takes_trans [OF st(2) r(2)] b unfolding set by simp
  moreover have "\<forall>j \<in> {idx..<idx + Suc n}. noted s' (unat (blocks' ! j))"
    using r(9) b takesD(8) [OF r(2) st(5)] unfolding set by simp
  moreover have "unat lba \<notin> (\<lambda>j. unat (blocks' ! j)) ` {idx + 1..<idx + 1 + n}"
    using takesD(2) [OF r(2)] takesD(3) [OF st(2)] by auto
  then have "inj_on (\<lambda>j. unat (blocks' ! j)) {idx..<idx + Suc n}"
    unfolding set using r(5) b by auto
  moreover have "inodes s' = (inodes s)(a := (inodes s a)\<lparr>i_sectors := secs'\<rparr>)"
    using r(6) st(4) by simp
  moreover have "\<forall>j < 13. secs' ! j = (if idx \<le> j \<and> j < idx + Suc n \<and> j < 12 then blocks' ! j else i_sectors (inodes s a) ! j)"
    using r(8) secs1(2) b by auto
  moreover have "\<forall>j. j < idx \<or> idx + Suc n \<le> j \<longrightarrow> blocks' ! j = blocks ! j"
    using r(4) by auto
  ultimately show ?case
    using st(1) r(1,3,7) by (intro exI [of _ blocks'] exI [of _ s'] exI [of _ secs']) simp
qed

subsection \<open>Writing the data\<close>

text \<open>The blocks that the bytes \<open>sz\<close> to \<open>sz + n - 1\<close> of a file lie in, and what writing \<open>src\<close> at \<open>sz\<close> through the
  block map \<open>B\<close> does to the disk: those bytes are there, the ones before them in the same sector stay, and no
  other sector changes.\<close>

definition span :: "nat \<Rightarrow> nat \<Rightarrow> nat set" where
  "span sz n = (\<lambda>p. p div SECTOR_SIZE) ` {sz..<sz + n}"

definition wrote_at :: "(nat \<Rightarrow> nat) \<Rightarrow> nat \<Rightarrow> u8 list \<Rightarrow> (nat \<Rightarrow> u8 list) \<Rightarrow> (nat \<Rightarrow> u8 list) \<Rightarrow> bool" where
  "wrote_at B sz src d d' \<longleftrightarrow> sectors_ok d' \<and> (\<forall>l. l \<notin> B ` span sz (length src) \<longrightarrow> d' l = d l) \<and>
     (\<forall>p. sz \<le> p \<and> p < sz + length src \<longrightarrow> d' (B (p div SECTOR_SIZE)) ! (p mod SECTOR_SIZE) = src ! (p - sz)) \<and>
     (\<forall>x < sz mod SECTOR_SIZE. d' (B (sz div SECTOR_SIZE)) ! x = d (B (sz div SECTOR_SIZE)) ! x)"

lemma wrote_at_nothing: "sectors_ok d \<Longrightarrow> wrote_at B sz [] d d"
  by (auto simp: wrote_at_def)

lemma wrote_at_chunk:
  assumes ok: "sectors_ok d" and c: "0 < length src" "sz mod SECTOR_SIZE + length src \<le> SECTOR_SIZE"
    and io: "length io = SECTOR_SIZE" "\<And>x. x < sz mod SECTOR_SIZE \<Longrightarrow> io ! x = d (B (sz div SECTOR_SIZE)) ! x"
  defines "x \<equiv> sz mod SECTOR_SIZE"
  shows "wrote_at B sz src d (d(B (sz div SECTOR_SIZE) := take x io @ src @ drop (x + length src) io))"
proof -
  have in_sec: "p div SECTOR_SIZE = sz div SECTOR_SIZE \<and> p mod SECTOR_SIZE = x + (p - sz)" if p: "sz \<le> p" "p < sz + length src" for p
  proof -
    have lt: "x + (p - sz) < SECTOR_SIZE"
      using c(2) p unfolding x_def by linarith
    have "p = x + (p - sz) + SECTOR_SIZE * (sz div SECTOR_SIZE)"
      using p(1) mod_mult_div_eq [of sz SECTOR_SIZE] unfolding x_def by linarith
    then have "p div SECTOR_SIZE = (x + (p - sz) + SECTOR_SIZE * (sz div SECTOR_SIZE)) div SECTOR_SIZE"
      "p mod SECTOR_SIZE = (x + (p - sz) + SECTOR_SIZE * (sz div SECTOR_SIZE)) mod SECTOR_SIZE"
      by simp_all
    then show ?thesis
      using lt by (simp only: div_mult_self2 mod_mult_self2) simp
  qed
  let ?io = "take x io @ src @ drop (x + length src) io" and ?J = "sz div SECTOR_SIZE"
  have len: "length ?io = SECTOR_SIZE" "x \<le> length io"
    using c(2) io(1) by (simp_all add: x_def)
  have J: "?J \<in> span sz (length src)"
    using c(1) by (auto simp: span_def)
  have mid: "?io ! (x + k) = src ! k" if "k < length src" for k
    using that len(2) by (simp add: nth_append)
  have before: "?io ! y = d (B ?J) ! y" if "y < x" for y
    using that io(2) [of y] len(2) by (simp add: nth_append x_def)
  have bytes: "(d(B ?J := ?io)) (B (p div SECTOR_SIZE)) ! (p mod SECTOR_SIZE) = src ! (p - sz)" if p: "sz \<le> p" "p < sz + length src" for p
  proof -
    have "p - sz < length src"
      using p by linarith
    then show ?thesis
      using mid in_sec [OF p] by simp
  qed
  have others: "(d(B ?J := ?io)) l = d l" if "l \<notin> B ` span sz (length src)" for l
    using that J by auto
  show ?thesis
    unfolding wrote_at_def x_def [symmetric] using sectors_ok_upd [OF ok len(1)] others bytes before by auto
qed

lemma span_append: "span sz (m + n) = span sz m \<union> span (sz + m) n"
  unfolding span_def image_Un [symmetric] by (rule arg_cong [of _ _ "image _"]) auto

lemma wrote_at_append:
  assumes w1: "wrote_at B sz src d d1" and w2: "wrote_at B (sz + length src) src2 d1 d2"
    and inj: "inj_on B (span sz (length src + length src2))" and src: "src \<noteq> []"
    and al: "src2 \<noteq> [] \<Longrightarrow> (sz + length src) mod SECTOR_SIZE = 0"
  shows "wrote_at B sz (src @ src2) d d2"
proof -
  have old: "d2 (B j) = d1 (B j)" if j: "j \<in> span sz (length src)" for j
  proof (cases "src2 = []")
    case True
    then show ?thesis
      using w2 by (simp add: wrote_at_def span_def)
  next
    case False
    have "j \<notin> span (sz + length src) (length src2)"
    proof
      assume "j \<in> span (sz + length src) (length src2)"
      then obtain q where q: "sz + length src \<le> q" "j = q div SECTOR_SIZE"
        by (auto simp: span_def)
      obtain p where p: "p < sz + length src" "j = p div SECTOR_SIZE"
        using j by (auto simp: span_def)
      obtain m where m: "sz + length src = SECTOR_SIZE * m"
        using al [OF False] by (auto simp: mod_eq_0_iff_dvd elim: dvdE)
      have "m \<le> j" "j < m"
        using q p unfolding m by (simp_all add: SECTOR_SIZE_def less_mult_imp_div_less mult.commute)
      then show False
        by simp
    qed
    then have "B j \<notin> B ` span (sz + length src) (length src2)"
      using inj j unfolding span_append by (auto dest: inj_onD)
    then show ?thesis
      using w2 by (simp add: wrote_at_def)
  qed
  have first: "sz div SECTOR_SIZE \<in> span sz (length src)"
    using src by (auto simp: span_def)
  have "d2 (B (p div SECTOR_SIZE)) ! (p mod SECTOR_SIZE) = (src @ src2) ! (p - sz)"
    if p: "sz \<le> p" "p < sz + length (src @ src2)" for p
  proof (cases "p < sz + length src")
    case True
    then have "p div SECTOR_SIZE \<in> span sz (length src)"
      using p by (auto simp: span_def)
    then show ?thesis
      using old w1 p(1) True by (simp add: wrote_at_def nth_append less_diff_conv2)
  next
    case False
    then have "d2 (B (p div SECTOR_SIZE)) ! (p mod SECTOR_SIZE) = src2 ! (p - (sz + length src))"
      using w2 p(2) by (simp add: wrote_at_def)
    moreover have "\<not> p - sz < length src"
      using False by linarith
    ultimately show ?thesis
      by (simp add: nth_append)
  qed
  moreover have "d2 l = d l" if "l \<notin> B ` span sz (length (src @ src2))" for l
    using that w1 w2 by (simp add: wrote_at_def span_append image_Un)
  moreover have "\<forall>x < sz mod SECTOR_SIZE. d2 (B (sz div SECTOR_SIZE)) ! x = d (B (sz div SECTOR_SIZE)) ! x"
    using old [OF first] w1 by (simp add: wrote_at_def)
  moreover have "sectors_ok d2"
    using w2 by (simp add: wrote_at_def)
  ultimately show ?thesis
    unfolding wrote_at_def by blast
qed

text \<open>The state after \<open>n\<close> more bytes of the file in slot \<open>fd\<close> with inode \<open>a\<close>.\<close>

definition written :: "addr \<Rightarrow> nat \<Rightarrow> nat \<Rightarrow> (nat \<Rightarrow> u8 list) \<Rightarrow> fsys \<Rightarrow> fsys" where
  "written a fd n d s = set_file fd (\<lambda>f. f\<lparr>fd_pos := fd_pos f + of_nat n\<rparr>)
     (set_inode a (\<lambda>i. i\<lparr>i_size := i_size i + of_nat n\<rparr>) (s\<lparr>disk := d\<rparr>))"

lemma written_0: "written a fd 0 (disk s) s = s"
  by (simp add: written_def set_file_def set_inode_def fun_upd_idem)

lemma written_written: "fd < length (file_table s) \<Longrightarrow> written a fd m d2 (written a fd n d1 s) = written a fd (n + m) d2 s"
  by (simp add: written_def set_file_def set_inode_def add.assoc)

lemma written_simps [simp]:
  "disk (written a fd n d s) = d" "cur_part (written a fd n d s) = cur_part s"
  "inodes (written a fd n d s) = (inodes s)(a := (inodes s a)\<lparr>i_size := i_size (inodes s a) + of_nat n\<rparr>)"
  "file_table (written a fd n d s) = (file_table s)[fd := (file_table s ! fd)\<lparr>fd_pos := fd_pos (file_table s ! fd) + of_nat n\<rparr>]"
  "fd_table (written a fd n d s) = fd_table s" "grants (written a fd n d s) = grants s" "live (written a fd n d s) = live s"
  "in_kernel (written a fd n d s) = in_kernel s" "dirs (written a fd n d s) = dirs s" "root_dir (written a fd n d s) = root_dir s"
  "cwd_inode_nr (written a fd n d s) = cwd_inode_nr s"
  by (simp_all add: written_def)

lemma write_chunks_step:
  assumes so: "sectors_ok (disk s)" and fd: "fd < length (file_table s)" and src: "src \<noteq> []"
    and first: "first \<or> sz mod SECTOR_SIZE = 0"
    and blk: "sz div SECTOR_SIZE < length blocks" "blocks ! (sz div SECTOR_SIZE) \<le> max_lba"
  defines "a \<equiv> fd_inode (file_table s ! fd)"
  assumes sz: "unat (i_size (inodes s a)) = sz"
  defines "c \<equiv> (if length src < SECTOR_SIZE - sz mod SECTOR_SIZE then length src else SECTOR_SIZE - sz mod SECTOR_SIZE)"
  shows "\<exists>d. write_chunks (Suc n) fd blocks first src (length src) s =
      write_chunks n fd blocks False (drop c src) (length (drop c src)) (written a fd c d s) \<and>
    wrote_at (\<lambda>j. unat (blocks ! j)) sz (take c src) (disk s) d"
proof -
  let ?x = "sz mod SECTOR_SIZE" and ?lba = "blocks ! (sz div SECTOR_SIZE)"
  have x: "?x < SECTOR_SIZE"
    by (simp add: SECTOR_SIZE_def)
  have c: "c \<le> length src" "?x + c \<le> SECTOR_SIZE" "0 < c"
    using x src by (auto simp: c_def)
  define io where "io = (if first then disk s (unat ?lba) else replicate SECTOR_SIZE 0)"
  have io: "length io = SECTOR_SIZE" "\<And>y. y < ?x \<Longrightarrow> io ! y = disk s (unat ?lba) ! y"
    using so first by (auto simp: io_def sectors_ok_def)
  have rd: "(if first then ide_read ?lba SECTOR_SIZE 1 else retK (replicate SECTOR_SIZE 0)) s = Ret io s"
    using ide_read_one [OF blk(2) order_refl, of s] by (simp add: io_def)
  let ?io = "take ?x io @ take c src @ drop (?x + c) io"
  have mc: "memcpy_at io ?x src c = Inr ?io"
    using c io(1) by (simp add: memcpy_at_Inr)
  have len: "length ?io = SECTOR_SIZE"
    using c io(1) by simp
  let ?d = "(disk s)(unat ?lba := ?io)"
  have wr: "ide_write ?lba ?io 1 s = Ret () (s\<lparr>disk := ?d\<rparr>)"
    by (rule ide_write_one [OF blk(2) len])
  have "write_chunks (Suc n) fd blocks first src (length src) s =
      write_chunks n fd blocks False (drop c src) (length (drop c src)) (written a fd c ?d s)"
    apply (subst write_chunks.simps)
    using src sz rd mc wr blk(1)
    apply (simp add: a_def [symmetric] c_def [symmetric] Let_def del: append_assoc)
    apply (simp add: written_def)
    done
  moreover have "wrote_at (\<lambda>j. unat (blocks ! j)) sz (take c src) (disk s) ?d"
    using wrote_at_chunk [OF so, of "take c src" sz io "\<lambda>j. unat (blocks ! j)"] c io by (simp add: min_absorb2)
  ultimately show ?thesis
    by blast
qed

lemma write_chunks_ok:
  assumes "sectors_ok (disk s)" "fd < length (file_table s)" "src \<noteq> [] \<Longrightarrow> first \<or> sz mod SECTOR_SIZE = 0"
    and "\<And>j. j \<in> span sz (length src) \<Longrightarrow> j < length blocks \<and> blocks ! j \<le> max_lba"
    and "inj_on (\<lambda>j. unat (blocks ! j)) (span sz (length src))"
    and "unat (i_size (inodes s (fd_inode (file_table s ! fd)))) = sz" "sz + length src < 2 ^ 32" "length src \<le> fuel"
  shows "\<exists>d. write_chunks fuel fd blocks first src (length src) s =
      Ret () (written (fd_inode (file_table s ! fd)) fd (length src) d s) \<and>
    wrote_at (\<lambda>j. unat (blocks ! j)) sz src (disk s) d"
  using assms
proof (induction fuel arbitrary: s src first sz)
  case 0
  then show ?case
    using wrote_at_nothing [OF 0(1)] by (intro exI [of _ "disk s"]) (simp add: write_chunks.simps written_0)
next
  case (Suc n)
  let ?a = "fd_inode (file_table s ! fd)" and ?B = "\<lambda>j. unat (blocks ! j)"
  show ?case
  proof (cases "src = []")
    case True
    then show ?thesis
      using wrote_at_nothing [OF Suc.prems(1)] by (intro exI [of _ "disk s"]) (simp add: write_chunks.simps written_0)
  next
    case False
    define c where "c = (if length src < SECTOR_SIZE - sz mod SECTOR_SIZE then length src else SECTOR_SIZE - sz mod SECTOR_SIZE)"
    have x: "sz mod SECTOR_SIZE < SECTOR_SIZE"
      by (simp add: SECTOR_SIZE_def)
    have c: "0 < c" "c \<le> length src"
      using x False by (auto simp: c_def)
    have "sz div SECTOR_SIZE \<in> span sz (length src)"
      using False by (auto simp: span_def)
    note blk = Suc.prems(4) [OF this]
    obtain d where d: "write_chunks (Suc n) fd blocks first src (length src) s =
        write_chunks n fd blocks False (drop c src) (length (drop c src)) (written ?a fd c d s)"
      "wrote_at ?B sz (take c src) (disk s) d"
      using write_chunks_step [OF Suc.prems(1,2) False Suc.prems(3) [OF False] conjunct1 [OF blk] conjunct2 [OF blk] Suc.prems(6), of n]
      unfolding c_def [symmetric] by blast
    have sp: "span sz (length src) = span sz c \<union> span (sz + c) (length src - c)"
      using span_append [of sz c "length src - c"] c(2) by simp
    have al: "drop c src \<noteq> [] \<Longrightarrow> (sz + c) mod SECTOR_SIZE = 0"
    proof -
      assume "drop c src \<noteq> []"
      then have "c = SECTOR_SIZE - sz mod SECTOR_SIZE"
        by (auto simp: c_def split: if_splits)
      then have "sz + c = SECTOR_SIZE + SECTOR_SIZE * (sz div SECTOR_SIZE)"
        using x mod_mult_div_eq [of sz SECTOR_SIZE] by linarith
      then show ?thesis
        by simp
    qed
    let ?s1 = "written ?a fd c d s"
    have a1: "fd_inode (file_table ?s1 ! fd) = ?a"
      using Suc.prems(2) by simp
    have sz1: "unat (i_size (inodes ?s1 ?a)) = sz + c"
      using Suc.prems(6,7) c(2) by (simp add: unat_word_ariths unat_of_nat)
    have "\<exists>d'. write_chunks n fd blocks False (drop c src) (length (drop c src)) ?s1 =
        Ret () (written (fd_inode (file_table ?s1 ! fd)) fd (length (drop c src)) d' ?s1) \<and>
      wrote_at ?B (sz + c) (drop c src) (disk ?s1) d'"
    proof (rule Suc.IH)
      show "sectors_ok (disk ?s1)"
        using d(2) by (simp add: wrote_at_def)
      show "unat (i_size (inodes ?s1 (fd_inode (file_table ?s1 ! fd)))) = sz + c"
        unfolding a1 by (rule sz1)
      show "inj_on ?B (span (sz + c) (length (drop c src)))"
        using inj_on_subset [OF Suc.prems(5)] unfolding sp by simp
    qed (use Suc.prems c al sp in auto)
    then obtain d' where d': "write_chunks n fd blocks False (drop c src) (length (drop c src)) ?s1 =
        Ret () (written ?a fd (length (drop c src)) d' ?s1)" "wrote_at ?B (sz + c) (drop c src) d d'"
      unfolding a1 by auto
    have "wrote_at ?B sz (take c src @ drop c src) (disk s) d'"
      using wrote_at_append [OF d(2), of "drop c src" d'] d'(2) c al Suc.prems(5) False by (simp add: min_absorb2)
    then show ?thesis
      using d(1) d'(1) written_written [OF Suc.prems(2)] c(2) by (intro exI [of _ d']) simp
  qed
qed

subsection \<open>The blocks of a file\<close>

text \<open>The address of block \<open>j\<close>: from the inode for the first twelve, else from the indirect table on the disk.\<close>

definition bmap :: "fsys \<Rightarrow> inode \<Rightarrow> nat \<Rightarrow> u32" where
  "bmap s i j = (if j < 12 then i_sectors i ! j else word_at (disk s (unat (i_sectors i ! 12))) (4 * (j - 12)))"

abbreviation bsec :: "fsys \<Rightarrow> inode \<Rightarrow> nat \<Rightarrow> nat" where
  "bsec s i j \<equiv> unat (bmap s i j)"

text \<open>The first \<open>n\<close> blocks of an inode, and its indirect table when \<open>n\<close> is more than twelve, are distinct
  sectors of the data region with their bits set; the fields beyond them are zero.\<close>

definition blocks_ok :: "fsys \<Rightarrow> inode \<Rightarrow> nat \<Rightarrow> bool" where
  "blocks_ok s i n \<longleftrightarrow> length (i_sectors i) = 13 \<and> n \<le> 140 \<and> (\<forall>j < n. taken s (bsec s i j)) \<and> inj_on (bsec s i) {..<n} \<and>
     (if n \<le> 12 then i_sectors i ! 12 = 0
      else taken s (unat (i_sectors i ! 12)) \<and> unat (i_sectors i ! 12) \<notin> bsec s i ` {..<n}) \<and>
     (\<forall>j < 12. n \<le> j \<longrightarrow> i_sectors i ! j = 0)"

text \<open>The inode grows from \<open>has\<close> to \<open>will\<close> blocks with the free sectors \<open>N\<close>: the old blocks stay where they are
  and, but for \<open>N\<close> and the indirect table, so do their contents and every other sector outside the bitmaps. The
  bits of the new sectors are set in the bitmap on the disk, too; the one of a new indirect table need not be.\<close>

definition extends :: "fsys \<Rightarrow> inode \<Rightarrow> nat \<Rightarrow> nat \<Rightarrow> nat set \<Rightarrow> fsys \<Rightarrow> inode \<Rightarrow> bool" where
  "extends s i has will N s' i' \<longleftrightarrow> blocks_ok s' i' will \<and> fs_ok s' \<and> N \<subseteq> freesecs s \<and> freesecs s' = freesecs s - N \<and>
     (\<forall>l. taken s' l \<longleftrightarrow> taken s l \<or> l \<in> N) \<and> rest_same s s' \<and> (\<forall>j < has. bmap s' i' j = bmap s i j) \<and>
     (\<forall>j. has \<le> j \<and> j < will \<longrightarrow> bsec s' i' j \<in> N) \<and>
     (12 < will \<longrightarrow> unat (i_sectors i' ! 12) \<in> N \<or> 12 < has \<and> i_sectors i' ! 12 = i_sectors i ! 12) \<and>
     (\<forall>l \<ge> itab_start s. l \<notin> N \<longrightarrow> \<not> (12 < has \<and> l = unat (i_sectors i ! 12)) \<longrightarrow> disk s' l = disk s l) \<and>
     (\<forall>l. noted s l \<longrightarrow> noted s' l) \<and> (\<forall>l \<in> N. noted s' l \<or> 12 < will \<and> l = unat (i_sectors i' ! 12))"

lemma blocks_okD:
  assumes "blocks_ok s i n"
  shows "length (i_sectors i) = 13" "n \<le> 140" "\<And>j. j < n \<Longrightarrow> taken s (bsec s i j)" "inj_on (bsec s i) {..<n}"
    "n \<le> 12 \<Longrightarrow> i_sectors i ! 12 = 0" "12 < n \<Longrightarrow> taken s (unat (i_sectors i ! 12))"
    "12 < n \<Longrightarrow> unat (i_sectors i ! 12) \<notin> bsec s i ` {..<n}" "\<And>j. j < 12 \<Longrightarrow> n \<le> j \<Longrightarrow> i_sectors i ! j = 0"
  using assms by (simp_all add: blocks_ok_def)

lemma taken_lba: "taken s (unat lba) \<Longrightarrow> lba \<le> max_lba" "taken s (unat lba) \<Longrightarrow> lba \<noteq> 0"
  "fs_ok s \<Longrightarrow> taken s l \<Longrightarrow> itab_start s \<le> l"
  using layout_okD(3) [OF fs_okD(2)] by (auto simp: taken_def word_le_nat_alt) (meson add_leD1 le_trans less_imp_le)

text \<open>Old blocks are taken and new ones are free, so a map that is one-to-one on each is one-to-one.\<close>

lemma inj_extend:
  assumes ok: "fs_ok s" and b: "blocks_ok s i has" and N: "N \<subseteq> freesecs s" and le: "has \<le> will"
    and old: "\<And>j. j < has \<Longrightarrow> f j = bsec s i j" and new: "\<And>j. has \<le> j \<Longrightarrow> j < will \<Longrightarrow> f j \<in> N" and inj: "inj_on f {has..<will}"
  shows "inj_on f {..<will}"
proof -
  have "inj_on f {..<has}"
    using blocks_okD(4) [OF b] old by (auto simp: inj_on_def)
  moreover have "f j \<noteq> f k" if "j < has" "has \<le> k" "k < will" for j k
    using freesecsD(3) [OF ok] N new [of k] blocks_okD(3) [OF b, of j] old [of j] that by (metis subsetD)
  ultimately show ?thesis
    using inj unfolding inj_on_def by (metis atLeastLessThan_iff lessThan_iff not_le)
qed

text \<open>What \<open>write_blocks\<close> promises: the array has the addresses of the last old block and of the new ones.\<close>

definition collected :: "fsys \<Rightarrow> addr \<Rightarrow> nat \<Rightarrow> nat \<Rightarrow> u32 list \<Rightarrow> nat set \<Rightarrow> fsys \<Rightarrow> bool" where
  "collected s a has will blocks N s' \<longleftrightarrow> length blocks = 140 \<and>
     (\<exists>secs'. inodes s' = (inodes s)(a := (inodes s a)\<lparr>i_sectors := secs'\<rparr>)) \<and>
     extends s (inodes s a) has will N s' (inodes s' a) \<and> (\<forall>j. has - 1 \<le> j \<and> j < will \<longrightarrow> blocks ! j = bmap s' (inodes s' a) j)"

text \<open>Only direct blocks.\<close>

lemma write_blocks_direct:
  assumes ok: "fs_ok s" and b: "blocks_ok s (inodes s a) has" and h: "1 \<le> has" "has < will" "will \<le> 12"
    and free: "will - has \<le> card (freesecs s)"
  shows "\<exists>blocks s' N. write_blocks a has will (replicate 140 0) s = Ret (Some blocks) s' \<and> collected s a has will blocks N s'"
proof -
  let ?i = "inodes s a" and ?bl = "(replicate 140 0)[has - 1 := i_sectors (inodes s a) ! (has - 1)]"
  note bo = blocks_okD [OF b]
  have "has - 1 < 12"
    using h by linarith
  then have d1: "bmap s ?i (has - 1) = i_sectors ?i ! (has - 1)"
    by (simp only: bmap_def if_True)
  have nz: "i_sectors ?i ! (has - 1) \<noteq> 0"
    using bo(3) [of "has - 1"] h taken_lba(2) [of s "bmap s ?i (has - 1)"] d1 by simp
  have z: "i_sectors ?i ! j = 0" if "has \<le> j" "j < has + (will - has)" "j < 12" for j
    using that bo(8) by simp
  obtain blocks' s' secs' where g: "grow_blocks a has (will - has) ?bl s = Ret (Some blocks') s'"
    "takes s ((\<lambda>j. unat (blocks' ! j)) ` {has..<will}) s'" "length blocks' = 140"
    "\<forall>j. j < has \<or> will \<le> j \<longrightarrow> blocks' ! j = ?bl ! j" "inj_on (\<lambda>j. unat (blocks' ! j)) {has..<will}"
    "inodes s' = (inodes s)(a := ?i\<lparr>i_sectors := secs'\<rparr>)" "length secs' = 13"
    "\<forall>j < 13. secs' ! j = (if has \<le> j \<and> j < will \<and> j < 12 then blocks' ! j else i_sectors ?i ! j)"
    "\<forall>j \<in> {has..<will}. noted s' (unat (blocks' ! j))"
    using grow_blocks_ok [OF ok free, of has ?bl a] h bo(1) z by auto
  let ?N = "(\<lambda>j. unat (blocks' ! j)) ` {has..<will}" and ?i' = "?i\<lparr>i_sectors := secs'\<rparr>"
  note t = takesD [OF g(2)]
  have old: "bmap s' ?i' j = bmap s ?i j" if "j < has" for j
    using that h g(8) by (simp add: bmap_def)
  have new: "bmap s' ?i' j = blocks' ! j" if "has \<le> j" "j < will" for j
    using that h g(8) by (simp add: bmap_def)
  have inj: "inj_on (bsec s' ?i') {..<will}"
    by (rule inj_extend [OF ok b t(2)]) (use old new h g(5) in \<open>auto simp: inj_on_def\<close>)
  have tk: "taken s' (bsec s' ?i' j)" if "j < will" for j
    using that t(4) bo(3) [of j] old [of j] new [of j] by (cases "j < has") auto
  have "blocks_ok s' ?i' will"
    unfolding blocks_ok_def using inj tk h g(7,8) bo(5,8) by simp
  then have "extends s ?i has will ?N s' ?i'"
    unfolding extends_def using t old new h g(9) by auto
  moreover have "blocks' ! j = bmap s' ?i' j" if "has - 1 \<le> j" "j < will" for j
  proof (cases "j < has")
    case True
    then have "j = has - 1"
      using that by simp
    moreover have "blocks' ! (has - 1) = i_sectors ?i ! (has - 1)"
      using g(4) h by simp
    ultimately show ?thesis
      using d1 old [OF True] by simp
  qed (use new that in auto)
  moreover have "write_blocks a has will (replicate 140 0) s = Ret (Some blocks') s'"
    using g(1) h nz by (simp add: write_blocks_def)
  ultimately show ?thesis
    using g(3,6) unfolding collected_def by (intro exI [of _ blocks'] exI [of _ s'] exI [of _ ?N]) auto
qed

text \<open>With an indirect table: it is written last.\<close>

lemma write_table_run:
  assumes "length blocks = 140" "lba \<le> max_lba"
  shows "write_table lba blocks s = Ret () (s\<lparr>disk := (disk s)(unat lba := bytes_of (drop 12 blocks))\<rparr>)"
  unfolding write_table_def using assms by (intro ide_write_one) (simp_all add: SECTOR_SIZE_def)

lemma bmap_table:
  assumes "disk s (unat (i_sectors i ! 12)) = bytes_of (drop 12 blocks)" "length blocks = 140" "12 \<le> j" "j < 140"
  shows "bmap s i j = blocks ! j"
  using assms word_at_bytes_of [of "j - 12" "drop 12 blocks" "[]"] by (simp add: bmap_def)

lemma extends_table:
  assumes ok: "fs_ok s" and b: "blocks_ok s i has" and h: "has < will" "12 < will" "will \<le> 140"
    and t: "takes s N s1" and len: "length bl = 140" and new: "\<And>j. has \<le> j \<Longrightarrow> j < will \<Longrightarrow> unat (bl ! j) \<in> N"
    and inj: "inj_on (\<lambda>j. unat (bl ! j)) {has..<will}" and T: "unat tb \<in> N \<or> 12 < has \<and> tb = i_sectors i ! 12"
    and Tn: "\<And>j. has \<le> j \<Longrightarrow> j < will \<Longrightarrow> unat (bl ! j) \<noteq> unat tb"
    and secs: "length secs' = 13" "secs' ! 12 = tb" "\<And>j. j < 12 \<Longrightarrow> secs' ! j = (if has \<le> j \<and> j < will then bl ! j else i_sectors i ! j)"
    and old: "\<And>j. 12 \<le> j \<Longrightarrow> j < has \<Longrightarrow> bl ! j = bmap s i j"
    and nt: "\<And>l. l \<in> N \<Longrightarrow> noted s1 l \<or> l = unat tb"
  defines "s2 \<equiv> s1\<lparr>disk := (disk s1)(unat tb := bytes_of (drop 12 bl))\<rparr>" and "i' \<equiv> i\<lparr>i_sectors := secs'\<rparr>"
  shows "extends s i has will N s2 i'" "\<And>j. j < will \<Longrightarrow> 12 \<le> j \<or> has \<le> j \<Longrightarrow> bl ! j = bmap s2 i' j"
proof -
  note td = takesD [OF t] and bo = blocks_okD [OF b]
  have tab: "bmap s2 i' j = bl ! j" if "12 \<le> j" "j < 140" for j
    using that len secs(2) by (intro bmap_table) (simp_all add: s2_def i'_def)
  have dir: "bmap s2 i' j = secs' ! j" if "j < 12" for j
    using that by (simp add: bmap_def i'_def)
  show vals: "bl ! j = bmap s2 i' j" if "j < will" "12 \<le> j \<or> has \<le> j" for j
    using that tab [of j] dir [of j] secs(3) [of j] h by (cases "j < 12") auto
  have olds: "bmap s2 i' j = bmap s i j" if "j < has" for j
    using that tab [of j] dir [of j] secs(3) [of j] old [of j] h by (cases "j < 12") (auto simp: bmap_def)
  have lbl: "length (bytes_of (drop 12 bl)) = SECTOR_SIZE"
    using len by (simp add: SECTOR_SIZE_def)
  have ok2: "fs_ok s2"
    unfolding s2_def using fs_ok_cong [OF td(1)] sectors_ok_upd [OF fs_okD(1) [OF td(1)] lbl] by simp
  have same: "freesecs s2 = freesecs s1" "taken s2 = taken s1" "rest_same s1 s2"
    by (simp_all add: s2_def freesecs_def free_blocks_def taken_def fun_eq_iff rest_same_def)
  have inj': "inj_on (bsec s2 i') {..<will}"
    by (rule inj_extend [OF ok b td(2)]) (use olds vals new h inj in \<open>auto simp: inj_on_def\<close>)
  have tk: "taken s2 (bsec s2 i' j)" if "j < will" for j
    using that bo(3) [of j] olds [of j] vals [of j] new [of j] td(4) same(2) by (cases "j < has") auto
  have Tt: "taken s2 (unat tb)"
    using T bo(6) td(4) same(2) by auto
  have "unat tb \<noteq> bsec s2 i' j" if j: "j < will" for j
  proof (cases "has \<le> j")
    case True
    then show ?thesis
      using Tn [OF True j] vals [OF j] by simp
  next
    case False
    have "unat tb \<noteq> bsec s i j"
    proof (cases "unat tb \<in> N")
      case True
      then show ?thesis
        using td(2) freesecsD(3) [OF ok] bo(3) [of j] False by (metis not_le subsetD)
    next
      case nN: False
      then have "12 < has" "tb = i_sectors i ! 12"
        using T by auto
      then show ?thesis
        using bo(7) False by auto
    qed
    then show ?thesis
      using olds False by simp
  qed
  then have Tni: "unat tb \<notin> bsec s2 i' ` {..<will}"
    by auto
  have "blocks_ok s2 i' will"
    unfolding blocks_ok_def using inj' tk Tt Tni h secs bo(8) by (auto simp: i'_def)
  moreover have "disk s2 l = disk s l" if "itab_start s \<le> l" "l \<notin> N" "\<not> (12 < has \<and> l = unat (i_sectors i ! 12))" for l
    using that T td(5) [of l] by (auto simp: s2_def)
  moreover have "bsec s2 i' j \<in> N" if "has \<le> j" "j < will" for j
    using new [OF that] vals [of j] that by simp
  moreover have nt2: "noted s2 l" if "noted s1 l" for l
  proof (rule notedI [OF that td(1)])
    have "itab_start s2 \<le> unat tb"
      by (rule taken_lba(3) [OF ok2 Tt])
    then show "disk s2 x = disk s1 x" if "x < itab_start s1" for x
      using that by (auto simp: s2_def)
  qed (simp_all add: same(2), simp add: s2_def)
  moreover have "\<forall>l \<in> N. noted s2 l \<or> 12 < will \<and> l = unat (i_sectors i' ! 12)"
    using nt nt2 h secs(2) by (auto simp: i'_def)
  ultimately show "extends s i has will N s2 i'"
    unfolding extends_def using td(2,3,4,8) same ok2 rest_same_trans [OF td(6) same(3)] olds T secs(2) by (simp add: i'_def)
qed

lemma read_table_run: "lba \<le> max_lba \<Longrightarrow> read_table lba blocks s = Ret (take 12 blocks @ words_of (disk s (unat lba)) 128) s"
  using ide_read_one [of lba SECTOR_SIZE s] by (simp add: read_table_def)

lemma table_nth:
  assumes "12 \<le> j" "j < 140"
  shows "(take 12 (replicate 140 0) @ words_of (disk s (unat (i_sectors i ! 12))) 128) ! j = bmap s i j"
proof -
  have "\<not> j < 12" "j - 12 < 128"
    using assms by linarith+
  then show ?thesis
    by (simp add: nth_append bmap_def words_of_def)
qed

text \<open>No block is missing.\<close>

lemma write_blocks_none:
  assumes ok: "fs_ok s" and b: "blocks_ok s (inodes s a) has" and h: "1 \<le> has"
  shows "\<exists>blocks. write_blocks a has has (replicate 140 0) s = Ret (Some blocks) s \<and> collected s a has has blocks {} s"
proof -
  let ?i = "inodes s a"
  note bo = blocks_okD [OF b]
  have e: "extends s ?i has has {} s ?i"
    unfolding extends_def using ok b by auto
  have i: "\<exists>secs'. inodes s = (inodes s)(a := ?i\<lparr>i_sectors := secs'\<rparr>)"
    by (rule exI [of _ "i_sectors ?i"]) simp
  show ?thesis
  proof (cases "has \<le> 12")
    case True
    let ?bl = "(replicate 140 0)[has - 1 := i_sectors ?i ! (has - 1)]"
    have lt: "has - 1 < 12" "has - 1 < 140"
      using True h by linarith+
    have "write_blocks a has has (replicate 140 0) s = Ret (Some ?bl) s"
      using True lt by (simp add: write_blocks_def)
    moreover have "?bl ! j = bmap s ?i j" if "has - 1 \<le> j" "j < has" for j
    proof -
      have "j = has - 1"
        using that by linarith
      then show ?thesis
        using lt unfolding bmap_def by simp
    qed
    ultimately show ?thesis
      using e i unfolding collected_def by (intro exI [of _ ?bl]) simp
  next
    case False
    let ?bl = "take 12 (replicate 140 0) @ words_of (disk s (unat (i_sectors ?i ! 12))) 128"
    have T: "i_sectors ?i ! 12 \<noteq> 0" "i_sectors ?i ! 12 \<le> max_lba"
      using False bo(6) taken_lba(1,2) [of s "i_sectors ?i ! 12"] by auto
    have "write_blocks a has has (replicate 140 0) s = Ret (Some ?bl) s"
      using False T(1) read_table_run [OF T(2)] by (simp add: write_blocks_def)
    moreover have "?bl ! j = bmap s ?i j" if "has - 1 \<le> j" "j < has" for j
      using that False bo(2) by (intro table_nth) linarith+
    ultimately show ?thesis
      using e i unfolding collected_def by (intro exI [of _ ?bl]) simp
  qed
qed

text \<open>The table exists.\<close>

lemma write_blocks_indirect:
  assumes ok: "fs_ok s" and b: "blocks_ok s (inodes s a) has" and h: "12 < has" "has < will" "will \<le> 140"
    and free: "will - has \<le> card (freesecs s)"
  shows "\<exists>blocks s' N. write_blocks a has will (replicate 140 0) s = Ret (Some blocks) s' \<and> collected s a has will blocks N s'"
proof -
  let ?i = "inodes s a"
  let ?tb = "i_sectors ?i ! 12"
  let ?bl = "take 12 (replicate 140 0) @ words_of (disk s (unat ?tb)) 128"
  note bo = blocks_okD [OF b]
  have T: "?tb \<noteq> 0" "?tb \<le> max_lba"
    using h bo(6) taken_lba(1,2) [of s ?tb] by auto
  obtain bl s1 secs' where g: "grow_blocks a has (will - has) ?bl s = Ret (Some bl) s1"
    "takes s ((\<lambda>j. unat (bl ! j)) ` {has..<will}) s1" "length bl = 140"
    "\<forall>j. j < has \<or> will \<le> j \<longrightarrow> bl ! j = ?bl ! j" "inj_on (\<lambda>j. unat (bl ! j)) {has..<will}"
    "inodes s1 = (inodes s)(a := ?i\<lparr>i_sectors := secs'\<rparr>)" "length secs' = 13"
    "\<forall>j < 13. secs' ! j = (if has \<le> j \<and> j < will \<and> j < 12 then bl ! j else i_sectors ?i ! j)"
    "\<forall>j \<in> {has..<will}. noted s1 (unat (bl ! j))"
    using grow_blocks_ok [OF ok free, of has ?bl a] h bo(1) by auto
  let ?N = "(\<lambda>j. unat (bl ! j)) ` {has..<will}"
  let ?s2 = "s1\<lparr>disk := (disk s1)(unat ?tb := bytes_of (drop 12 bl))\<rparr>"
  have run: "write_blocks a has will (replicate 140 0) s = Ret (Some bl) ?s2"
    using h T(1) read_table_run [OF T(2)] g(1) write_table_run [OF g(3) T(2)] by (simp add: write_blocks_def)
  have secs: "secs' ! 12 = ?tb" "\<And>j. j < 12 \<Longrightarrow> secs' ! j = (if has \<le> j \<and> j < will then bl ! j else i_sectors ?i ! j)"
    using g(8) h by auto
  have nT: "unat (bl ! j) \<noteq> unat ?tb" if "has \<le> j" "j < will" for j
    using that takesD(2) [OF g(2)] freesecsD(3) [OF ok, of "unat (bl ! j)"] bo(6) h(1) by fastforce
  have old: "bl ! j = bmap s ?i j" if "12 \<le> j" "j < has" for j
    using g(4) that table_nth [of j s ?i] h by simp
  note et = extends_table [OF ok b h(2) _ h(3) g(2,3) _ g(5) _ nT g(7) secs old]
  have "extends s ?i has will ?N ?s2 (?i\<lparr>i_sectors := secs'\<rparr>)"
    by (rule et(1)) (use h g(9) in auto)
  moreover have "bl ! j = bmap ?s2 (?i\<lparr>i_sectors := secs'\<rparr>) j" if "has - 1 \<le> j" "j < will" for j
    by (rule et(2)) (use h that g(9) in auto)
  ultimately have "collected s a has will bl ?N ?s2"
    unfolding collected_def using g(3,6) by auto
  then show ?thesis
    using run by blast
qed

text \<open>The table is new.\<close>

lemma write_blocks_mixed:
  assumes ok: "fs_ok s" and b: "blocks_ok s (inodes s a) has" and h: "1 \<le> has" "has \<le> 12" "12 < will" "will \<le> 140"
    and free: "will - has + 1 \<le> card (freesecs s)"
  shows "\<exists>blocks s' N. write_blocks a has will (replicate 140 0) s = Ret (Some blocks) s' \<and> collected s a has will blocks N s'"
proof -
  let ?i = "inodes s a"
  let ?bl = "(replicate 140 0)[has - 1 := i_sectors ?i ! (has - 1)]"
  note bo = blocks_okD [OF b]
  have ne: "freesecs s \<noteq> {}"
    using free by auto
  obtain tb s1 where T: "block_bitmap_alloc s = Ret tb s1" "unat tb \<in> freesecs s" "tb \<noteq> - 1" "tb \<noteq> 0" "tb \<le> max_lba"
    "takes s {unat tb} s1" "inodes s1 = inodes s" "disk s1 = disk s"
    using alloc_sec [OF ok ne] by metis
  let ?f = "\<lambda>i. i\<lparr>i_sectors := (i_sectors i)[12 := tb]\<rparr>"
  define s2 where "s2 = set_inode a ?f s1"
  have t2: "takes s {unat tb} s2"
    using takes_trans [OF T(6) takes_set_inode [OF takesD(1) [OF T(6)]], of a ?f] by (simp add: s2_def)
  have i2: "inodes s2 = (inodes s)(a := ?i\<lparr>i_sectors := (i_sectors ?i)[12 := tb]\<rparr>)"
    using T(7) by (simp add: s2_def)
  have "card (freesecs s2) = card (freesecs s) - 1"
    unfolding takesD(3) [OF t2] using T(2) finite_freesecs by simp
  then have free2: "will - has \<le> card (freesecs s2)"
    using free by simp
  obtain bl s3 secs' where g: "grow_blocks a has (will - has) ?bl s2 = Ret (Some bl) s3"
    "takes s2 ((\<lambda>j. unat (bl ! j)) ` {has..<will}) s3" "length bl = 140"
    "\<forall>j. j < has \<or> will \<le> j \<longrightarrow> bl ! j = ?bl ! j" "inj_on (\<lambda>j. unat (bl ! j)) {has..<will}"
    "inodes s3 = (inodes s2)(a := (inodes s2 a)\<lparr>i_sectors := secs'\<rparr>)" "length secs' = 13"
    "\<forall>j < 13. secs' ! j = (if has \<le> j \<and> j < will \<and> j < 12 then bl ! j else i_sectors (inodes s2 a) ! j)"
    "\<forall>j \<in> {has..<will}. noted s3 (unat (bl ! j))"
    using grow_blocks_ok [OF takesD(1) [OF t2] free2, of has ?bl a] h bo(1,8) i2 by auto
  let ?N = "{unat tb} \<union> (\<lambda>j. unat (bl ! j)) ` {has..<will}"
  let ?s4 = "s3\<lparr>disk := (disk s3)(unat tb := bytes_of (drop 12 bl))\<rparr>"
  have i3: "inodes s3 = (inodes s)(a := ?i\<lparr>i_sectors := secs'\<rparr>)"
    using g(6) i2 by simp
  have lt: "has - 1 < 140"
    using h by linarith
  have run: "write_blocks a has will (replicate 140 0) s = Ret (Some bl) ?s4"
    using h T(1,3) bo(5) g(1) write_table_run [OF g(3) T(5)] lt by (simp add: write_blocks_def s2_def)
  note t = takes_trans [OF t2 g(2)]
  have secs: "secs' ! 12 = tb" "\<And>j. j < 12 \<Longrightarrow> secs' ! j = (if has \<le> j \<and> j < will then bl ! j else i_sectors ?i ! j)"
    using g(8) h bo(1) i2 by auto
  have nT: "unat (bl ! j) \<noteq> unat tb" if "has \<le> j" "j < will" for j
  proof -
    have "\<forall>k \<in> {has..<will}. unat (bl ! k) \<in> freesecs s - {unat tb}"
      using takesD(2) [OF g(2)] unfolding takesD(3) [OF t2] image_subset_iff .
    then show ?thesis
      using that by auto
  qed
  have hw: "has < will"
    using h by simp
  have old: "bl ! j = bmap s ?i j" if "12 \<le> j" "j < has" for j
    using that h by simp
  note et = extends_table [OF ok b hw h(3,4) t g(3) _ g(5) _ nT g(7) secs old]
  have "extends s ?i has will ?N ?s4 (?i\<lparr>i_sectors := secs'\<rparr>)"
    by (rule et(1)) (use g(9) in auto)
  moreover have "bl ! j = bmap ?s4 (?i\<lparr>i_sectors := secs'\<rparr>) j" if j: "has - 1 \<le> j" "j < will" for j
  proof (cases "j < has")
    case True
    then have jj: "j = has - 1" "j < 12"
      using j h by linarith+
    then have "bl ! j = i_sectors ?i ! j"
      using g(4) h by simp
    then show ?thesis
      using jj secs(2) [of j] True by (simp add: bmap_def)
  next
    case False
    show ?thesis
      by (rule et(2)) (use j False g(9) in auto)
  qed
  ultimately have "collected s a has will bl ?N ?s4"
    unfolding collected_def using g(3) i3 by auto
  then show ?thesis
    using run by blast
qed

lemma write_blocks_ok:
  assumes "fs_ok s" "blocks_ok s (inodes s a) has" "1 \<le> has" "has \<le> will" "will \<le> 140" "will - has + 1 \<le> card (freesecs s)"
  shows "\<exists>blocks s' N. write_blocks a has will (replicate 140 0) s = Ret (Some blocks) s' \<and> collected s a has will blocks N s'"
proof -
  have f: "will - has \<le> card (freesecs s)"
    using assms(6) by simp
  consider "has = will" | "has < will" "will \<le> 12" | "has \<le> 12" "12 < will" | "12 < has" "has < will"
    using assms(4) by linarith
  then show ?thesis
    using write_blocks_none [OF assms(1-3)] write_blocks_direct [OF assms(1-3) _ _ f] write_blocks_mixed [OF assms(1-3) _ _ assms(5,6)]
      write_blocks_indirect [OF assms(1,2) _ _ assms(5) f]
    by cases blast+
qed

subsection \<open>A file as a string of bytes\<close>

definition nblocks :: "inode \<Rightarrow> nat" where
  "nblocks i = (if i_sectors i ! 0 = 0 then 0 else unat (i_size i) div SECTOR_SIZE + 1)"

definition file_ok :: "fsys \<Rightarrow> inode \<Rightarrow> bool" where
  "file_ok s i \<longleftrightarrow> blocks_ok s i (nblocks i) \<and> (i_sectors i ! 0 = 0 \<longrightarrow> i_size i = 0)"

definition owned :: "fsys \<Rightarrow> inode \<Rightarrow> nat set" where
  "owned s i = bsec s i ` {..<nblocks i} \<union> (if 12 < nblocks i then {unat (i_sectors i ! 12)} else {})"

definition file_bytes :: "fsys \<Rightarrow> inode \<Rightarrow> u8 list" where
  "file_bytes s i = map (\<lambda>p. disk s (bsec s i (p div SECTOR_SIZE)) ! (p mod SECTOR_SIZE)) [0..<unat (i_size i)]"

lemma extends_refl: "fs_ok s \<Longrightarrow> blocks_ok s i n \<Longrightarrow> extends s i n n {} s i"
  unfolding extends_def by auto

lemma first_block_ok:
  assumes ok: "fs_ok s" and f: "file_ok s (inodes s a)" and ne: "freesecs s \<noteq> {}"
  shows "\<exists>s' N secs'. first_block a s = Ret True s' \<and> inodes s' = (inodes s)(a := (inodes s a)\<lparr>i_sectors := secs'\<rparr>) \<and>
    extends s (inodes s a) (nblocks (inodes s a)) (unat (i_size (inodes s a)) div SECTOR_SIZE + 1) N s' (inodes s' a) \<and>
    card (freesecs s) \<le> card (freesecs s') + 1"
proof (cases "i_sectors (inodes s a) ! 0 = 0")
  case False
  then have "first_block a s = Ret True s"
    by (simp add: first_block_def)
  moreover have "nblocks (inodes s a) = unat (i_size (inodes s a)) div SECTOR_SIZE + 1"
    using False by (simp add: nblocks_def)
  moreover have "inodes s = (inodes s)(a := (inodes s a)\<lparr>i_sectors := i_sectors (inodes s a)\<rparr>)"
    by simp
  ultimately show ?thesis
    using f extends_refl [OF ok] unfolding file_ok_def
    by (intro exI [of _ s] exI [of _ "{}"] exI [of _ "i_sectors (inodes s a)"]) auto
next
  case True
  let ?i = "inodes s a"
  have n: "nblocks ?i = 0" "i_size ?i = 0" "blocks_ok s ?i 0"
    using True f by (simp_all add: nblocks_def file_ok_def)
  note bo = blocks_okD [OF n(3)]
  obtain lba s1 where a1: "block_bitmap_alloc s = Ret lba s1" "unat lba \<in> freesecs s" "lba \<noteq> - 1" "lba \<noteq> 0" "lba \<le> max_lba"
    "takes s {unat lba} s1" "inodes s1 = inodes s" "disk s1 = disk s"
    using alloc_sec [OF ok ne] by metis
  define s2 where "s2 = set_inode a (\<lambda>i. i\<lparr>i_sectors := (i_sectors i)[0 := lba]\<rparr>) s1"
  have t2: "takes s {unat lba} s2"
    using takes_trans [OF a1(6) takes_set_inode [OF takesD(1) [OF a1(6)]], of a "\<lambda>i. i\<lparr>i_sectors := (i_sectors i)[0 := lba]\<rparr>"]
    by (simp add: s2_def)
  have "taken s2 (unat lba)"
    using takesD(4) [OF t2] by simp
  then obtain s3 where a3: "bitmap_sync (lba - data_start_lba (sb_of_fs s2)) BLOCK_BITMAP s2 = Ret () s3"
    "takes s2 {} s3" "inodes s3 = inodes s2" "noted s3 (unat lba)"
    using sync_sec [OF takesD(1) [OF t2]] by metis
  have "data_start s2 < unat lba"
    using \<open>taken s2 (unat lba)\<close> by (simp add: taken_def)
  then have "lba - data_start_lba (sb_of_fs s2) \<noteq> 0"
    by auto
  then have run: "first_block a s = Ret True s3"
    using True a1 a3(1) by (simp add: first_block_def s2_def)
  let ?secs = "(i_sectors ?i)[0 := lba]" and ?i' = "?i\<lparr>i_sectors := (i_sectors ?i)[0 := lba]\<rparr>"
  have i3: "inodes s3 = (inodes s)(a := ?i')"
    using a3(3) a1(7) by (simp add: s2_def)
  have t: "takes s {unat lba} s3"
    using takes_trans [OF t2 a3(2)] by simp
  note td = takesD [OF t]
  have b0: "bmap s3 ?i' 0 = lba"
    using bo(1) by (simp add: bmap_def)
  have "blocks_ok s3 ?i' 1"
    unfolding blocks_ok_def using bo(1,5,8) b0 td(4) by (simp add: lessThan_Suc)
  then have "extends s ?i 0 1 {unat lba} s3 ?i'"
    unfolding extends_def using td b0 a3(4) by auto
  moreover have "card (freesecs s) = card (freesecs s3) + 1"
    unfolding td(3) using card_Suc_Diff1 [OF finite_freesecs a1(2)] by simp
  ultimately show ?thesis
    using run i3 n by (intro exI [of _ s3] exI [of _ "{unat lba}"] exI [of _ ?secs]) simp
qed

lemma extends_trans:
  assumes ok: "fs_ok s" and b: "blocks_ok s i h" and e1: "extends s i h m N s1 i1" and e2: "extends s1 i1 m w M s2 i2" and le: "h \<le> m" "m \<le> w" and m: "h = m \<and> i1 = i \<or> m \<le> 12"
  shows "extends s i h w (N \<union> M) s2 i2"
proof -
  have r: "rest_same s s1" "rest_same s1 s2"
    using e1 e2 by (simp_all add: extends_def)
  have "bsec s2 i2 j \<in> N \<union> M" if "h \<le> j" "j < w" for j
    using that e1 e2 by (cases "j < m") (auto simp: extends_def)
  moreover have "disk s2 l = disk s l" if "itab_start s \<le> l" "l \<notin> N \<union> M" "\<not> (12 < h \<and> l = unat (i_sectors i ! 12))" for l
    using that e1 e2 m rest_same_sb [OF r(1)] unfolding extends_def by (metis UnI1 UnI2 not_le)
  moreover have "unat (i_sectors i2 ! 12) \<in> N \<union> M \<or> 12 < h \<and> i_sectors i2 ! 12 = i_sectors i ! 12" if "12 < w"
    using that e2 m unfolding extends_def by auto
  moreover have "noted s2 l \<or> 12 < w \<and> l = unat (i_sectors i2 ! 12)" if l: "l \<in> N \<union> M" for l
  proof (cases "l \<in> M")
    case True
    then show ?thesis
      using e2 by (simp add: extends_def)
  next
    case False
    have "\<not> (12 < m \<and> l = unat (i_sectors i1 ! 12))"
    proof
      assume x: "12 < m \<and> l = unat (i_sectors i1 ! 12)"
      then have "taken s l"
        using m blocks_okD(6) [OF b] by auto
      moreover have "l \<in> freesecs s"
        using l False e1 by (auto simp: extends_def)
      ultimately show False
        using freesecsD(3) [OF ok] by blast
    qed
    then have "noted s1 l"
      using e1 l False by (auto simp: extends_def)
    then show ?thesis
      using e2 by (auto simp: extends_def)
  qed
  ultimately show ?thesis
    using e1 e2 le rest_same_trans [OF r] unfolding extends_def by auto
qed

lemma bmap_cong:
  assumes "i_sectors i' = i_sectors i" "12 < n \<Longrightarrow> disk s' (unat (i_sectors i ! 12)) = disk s (unat (i_sectors i ! 12))" "j < n"
  shows "bmap s' i' j = bmap s i j"
  using assms by (auto simp: bmap_def)

lemma blocks_ok_cong:
  assumes "blocks_ok s i n" "i_sectors i' = i_sectors i" "\<And>l. taken s l \<Longrightarrow> taken s' l"
    and "12 < n \<Longrightarrow> disk s' (unat (i_sectors i ! 12)) = disk s (unat (i_sectors i ! 12))"
  shows "blocks_ok s' i' n"
proof -
  have b: "bmap s' i' j = bmap s i j" if "j < n" for j
    using that assms(2,4) by (rule bmap_cong [rotated 2])
  then have "inj_on (bsec s' i') {..<n} \<longleftrightarrow> inj_on (bsec s i) {..<n}" "bsec s' i' ` {..<n} = bsec s i ` {..<n}"
    by (auto intro!: inj_on_cong image_cong)
  then show ?thesis
    using assms(1-3) b unfolding blocks_ok_def by auto
qed

text \<open>Writing \<open>src\<close> behind the end of a file whose blocks have been extended.\<close>

lemma file_bytes_written:
  assumes ok: "fs_ok s" and f: "file_ok s i" and e: "extends s i (nblocks i) will N s2 i2"
    and will: "will = (unat (i_size i) + length src) div SECTOR_SIZE + 1"
    and w: "wrote_at (bsec s2 i2) (unat (i_size i)) src (disk s2) d"
    and d: "\<And>l. data_start s \<le> l \<Longrightarrow> disk s5 l = d l" and tk: "\<And>l. taken s5 l \<longleftrightarrow> taken s2 l"
    and i5: "i_sectors i5 = i_sectors i2" "unat (i_size i5) = unat (i_size i) + length src"
  shows "file_ok s5 i5" "file_bytes s5 i5 = file_bytes s i @ src" "owned s5 i5 \<subseteq> owned s i \<union> N"
    "\<And>l. taken s l \<Longrightarrow> l \<notin> owned s i \<Longrightarrow> disk s5 l = disk s l"
proof -
  let ?sz = "unat (i_size i)" and ?has = "nblocks i"
  have ex: "blocks_ok s2 i2 will" "N \<subseteq> freesecs s" "\<And>j. j < ?has \<Longrightarrow> bmap s2 i2 j = bmap s i j"
    "\<And>j. ?has \<le> j \<Longrightarrow> j < will \<Longrightarrow> bsec s2 i2 j \<in> N" "\<And>l. taken s2 l \<longleftrightarrow> taken s l \<or> l \<in> N"
    "\<And>l. itab_start s \<le> l \<Longrightarrow> l \<notin> N \<Longrightarrow> \<not> (12 < ?has \<and> l = unat (i_sectors i ! 12)) \<Longrightarrow> disk s2 l = disk s l"
    using e by (auto simp: extends_def)
  note b2 = blocks_okD [OF ex(1)]
  have bi: "blocks_ok s i ?has"
    using f by (simp add: file_ok_def)
  have data: "data_start s \<le> l" if "taken s2 l" for l
    using that ex(5) ex(2) freesecsD(1) [OF ok, of l] by (auto simp: taken_def)
  have sp: "j < will" if "j \<in> span ?sz (length src)" for j
    using that unfolding span_def will by (auto simp: less_Suc_eq_le intro: div_le_mono)
  have out: "d l = disk s2 l" if "l \<notin> bsec s2 i2 ` {..<will}" for l
  proof -
    have "l \<notin> bsec s2 i2 ` span ?sz (length src)"
      using that sp by blast
    then show ?thesis
      using w unfolding wrote_at_def by blast
  qed
  have tb: "disk s5 (unat (i_sectors i2 ! 12)) = disk s2 (unat (i_sectors i2 ! 12))" if "12 < will"
    using d [OF data [OF b2(6) [OF that]]] out [OF b2(7) [OF that]] by simp
  have bm: "bmap s5 i5 j = bmap s2 i2 j" if "j < will" for j
    using that i5(1) tb by (rule bmap_cong [rotated 2])
  have b5: "blocks_ok s5 i5 will"
    using blocks_ok_cong [OF ex(1) i5(1)] tk tb by blast
  have "0 < will"
    by (simp add: will)
  then have "i_sectors i5 ! 0 \<noteq> 0"
    using b2(3) [of 0] taken_lba(2) [of s2 "bmap s2 i2 0"] i5(1) by (simp add: bmap_def)
  then have n5: "nblocks i5 = will"
    using i5(2) by (simp add: nblocks_def will)
  then show "file_ok s5 i5"
    using b5 \<open>i_sectors i5 ! 0 \<noteq> 0\<close> by (simp add: file_ok_def)
  have has: "?has \<le> will"
    by (auto simp: nblocks_def will intro: div_le_mono)
  show "owned s5 i5 \<subseteq> owned s i \<union> N"
  proof -
    have "bsec s5 i5 j \<in> owned s i \<union> N" if "j < will" for j
      using that bm ex(3,4) by (cases "j < ?has") (auto simp: owned_def)
    moreover have "unat (i_sectors i5 ! 12) \<in> owned s i \<union> N" if "12 < will"
      using e i5(1) that by (auto simp: extends_def owned_def)
    ultimately show ?thesis
      unfolding owned_def [of s5] n5 by auto
  qed
  have old: "disk s2 l = disk s l" if l: "taken s l" "\<not> (12 < ?has \<and> l = unat (i_sectors i ! 12))" for l
    using ex(6) [OF taken_lba(3) [OF ok l(1)] _ l(2)] ex(2) freesecsD(3) [OF ok, of l] l(1) by blast
  show "disk s5 l = disk s l" if l: "taken s l" "l \<notin> owned s i" for l
  proof -
    have "l \<notin> N"
      using ex(2) freesecsD(3) [OF ok, of l] l(1) by blast
    then have "l \<noteq> bsec s2 i2 j" if "j < will" for j
      using that l(2) ex(3) [of j] ex(4) [of j] by (cases "j < ?has") (auto simp: owned_def)
    then have "l \<notin> bsec s2 i2 ` {..<will}"
      by blast
    then show ?thesis
      using d [OF data [of l]] out [of l] old [of l] ex(5) l by (auto simp: owned_def split: if_splits)
  qed
  show "file_bytes s5 i5 = file_bytes s i @ src"
  proof (rule nth_equalityI)
    show "length (file_bytes s5 i5) = length (file_bytes s i @ src)"
      using i5(2) by (simp add: file_bytes_def)
    fix p
    assume "p < length (file_bytes s5 i5)"
    then have p: "p < ?sz + length src"
      using i5(2) by (simp add: file_bytes_def)
    let ?j = "p div SECTOR_SIZE" and ?x = "p mod SECTOR_SIZE"
    have j: "?j < will"
      using p unfolding will by (auto simp: less_Suc_eq_le intro: div_le_mono)
    have "file_bytes s5 i5 ! p = d (bsec s2 i2 ?j) ! ?x"
      using p i5(2) bm [OF j] d [OF data [OF b2(3) [OF j]]] by (simp add: file_bytes_def)
    also have "\<dots> = (file_bytes s i @ src) ! p"
    proof (cases "p < ?sz")
      case False
      then show ?thesis
        using w p by (simp add: wrote_at_def nth_append file_bytes_def)
    next
      case True
      have jh: "?j < ?has"
      proof -
        have "i_size i \<noteq> 0"
          using True by auto
        then have "?has = ?sz div SECTOR_SIZE + 1"
          using f by (auto simp: nblocks_def file_ok_def)
        then show ?thesis
          using True by (auto simp: less_Suc_eq_le intro: div_le_mono)
      qed
      let ?l = "bsec s i ?j"
      have l: "bsec s2 i2 ?j = ?l" "taken s ?l" "\<not> (12 < ?has \<and> ?l = unat (i_sectors i ! 12))"
        using ex(3) [OF jh] blocks_okD(3) [OF bi jh] blocks_okD(7) [OF bi] jh by (simp_all, metis imageI lessThan_iff)
      have "d ?l ! ?x = disk s2 ?l ! ?x"
      proof (cases "?j \<in> span ?sz (length src)")
        case True
        then obtain q where "?sz \<le> q" "?j = q div SECTOR_SIZE"
          by (auto simp: span_def)
        then have "?sz div SECTOR_SIZE \<le> ?j"
          by (simp add: div_le_mono)
        moreover have "?j \<le> ?sz div SECTOR_SIZE"
          using \<open>p < ?sz\<close> by (simp add: div_le_mono)
        ultimately have e: "?j = ?sz div SECTOR_SIZE"
          by simp
        then have "?x < ?sz mod SECTOR_SIZE"
          using \<open>p < ?sz\<close> by (metis div_mult_mod_eq nat_add_left_cancel_less)
        then show ?thesis
          using w l(1) e unfolding wrote_at_def by metis
      next
        case False
        have "?l \<notin> bsec s2 i2 ` span ?sz (length src)"
        proof
          assume "?l \<in> bsec s2 i2 ` span ?sz (length src)"
          then obtain k where "k \<in> span ?sz (length src)" "bsec s2 i2 ?j = bsec s2 i2 k"
            using l(1) by auto
          then show False
            using inj_onD [OF b2(4)] sp [of k] j False by auto
        qed
        then show ?thesis
          using w by (simp add: wrote_at_def)
      qed
      then show ?thesis
        using old [OF l(2,3)] l(1) True by (simp add: nth_append file_bytes_def)
    qed
    finally show "file_bytes s5 i5 ! p = (file_bytes s i @ src) ! p" .
  qed
qed

subsection \<open>file_write\<close>

text \<open>None of the notions above looks at the heap or the positions of the open files.\<close>

lemma heap_same [simp]:
  "fs_ok (s\<lparr>grants := g\<rparr>) = fs_ok s" "taken (s\<lparr>grants := g\<rparr>) = taken s"
  "freesecs (s\<lparr>grants := g\<rparr>) = freesecs s" "bmap (s\<lparr>grants := g\<rparr>) = bmap s"
  "fs_ok (s\<lparr>live := v\<rparr>) = fs_ok s" "taken (s\<lparr>live := v\<rparr>) = taken s"
  "freesecs (s\<lparr>live := v\<rparr>) = freesecs s" "bmap (s\<lparr>live := v\<rparr>) = bmap s" "islot (s\<lparr>live := v\<rparr>) = islot s"
  "noted (s\<lparr>grants := g\<rparr>) = noted s" "noted (s\<lparr>live := v\<rparr>) = noted s"
  by (simp_all add: fs_ok_def taken_def noted_def freesecs_def free_blocks_def bmap_def islot_def itab_def fun_eq_iff)

lemma heap_same_blocks [simp]:
  "blocks_ok (s\<lparr>grants := g\<rparr>) = blocks_ok s" "blocks_ok (s\<lparr>live := v\<rparr>) = blocks_ok s"
  by ((rule ext)+, simp only: blocks_ok_def heap_same)+

lemma heap_same_file [simp]:
  "file_ok (s\<lparr>grants := g\<rparr>) = file_ok s" "file_ok (s\<lparr>live := v\<rparr>) = file_ok s"
  "owned (s\<lparr>grants := g\<rparr>) = owned s" "owned (s\<lparr>live := v\<rparr>) = owned s"
  "file_bytes (s\<lparr>grants := g\<rparr>) = file_bytes s" "file_bytes (s\<lparr>live := v\<rparr>) = file_bytes s"
  by (simp_all add: file_ok_def owned_def file_bytes_def fun_eq_iff)

lemma pos_same [simp]:
  "taken (set_file fd f s) = taken s" "bmap (set_file fd f s) = bmap s"
  by (simp_all add: taken_def bmap_def fun_eq_iff)

lemma wrote_at_cong:
  assumes "wrote_at B sz src d d'" "\<And>j. j \<in> span sz (length src) \<Longrightarrow> B j = B' j" "B (sz div SECTOR_SIZE) = B' (sz div SECTOR_SIZE)"
  shows "wrote_at B' sz src d d'"
proof -
  have "p div SECTOR_SIZE \<in> span sz (length src)" if "sz \<le> p" "p < sz + length src" for p
    using that by (auto simp: span_def)
  moreover have "B ` span sz (length src) = B' ` span sz (length src)"
    using assms(2) by (rule image_cong [OF refl])
  ultimately show ?thesis
    using assms unfolding wrote_at_def by simp
qed

lemma unat_limit: "unat (w0 :: u32) + n < 140 * SECTOR_SIZE \<Longrightarrow>
    unat (of_nat n :: u32) = n \<and> unat (w0 + of_nat n) = unat w0 + n \<and> unat (w0 div 512 + 1) = unat w0 div SECTOR_SIZE + 1 \<and>
    unat ((w0 + of_nat n) div 512 + 1) = (unat w0 + n) div SECTOR_SIZE + 1"
proof -
  assume lim: "unat w0 + n < 140 * SECTOR_SIZE"
  have n: "unat (of_nat n :: u32) = n"
    using lim by (simp only: unat_of_nat) (simp add: SECTOR_SIZE_def)
  then have a: "unat (w0 + of_nat n) = unat w0 + n"
    using lim by (simp add: unat_word_ariths SECTOR_SIZE_def)
  have "unat (w div 512 + 1) = unat w div SECTOR_SIZE + 1" if "unat w < 140 * SECTOR_SIZE" for w :: u32
  proof -
    have "unat (w div 512) = unat w div SECTOR_SIZE"
      by (simp add: unat_div_distrib SECTOR_SIZE_def)
    moreover have "unat w div SECTOR_SIZE < 140"
      using that by (simp add: less_mult_imp_div_less)
    ultimately show ?thesis
      by (simp add: unat_word_ariths)
  qed
  then show ?thesis
    using n a lim by simp
qed

text \<open>The contract of an append, for the file with inode \<open>i\<close> at address \<open>a\<close> in slot \<open>fd\<close>.\<close>

definition appended :: "fsys \<Rightarrow> nat \<Rightarrow> addr \<Rightarrow> u8 list \<Rightarrow> nat set \<Rightarrow> fsys \<Rightarrow> bool" where
  "appended s fd a src N s' \<longleftrightarrow> fs_ok s' \<and> file_ok s' (inodes s' a) \<and>
     file_bytes s' (inodes s' a) = file_bytes s (inodes s a) @ src \<and>
     N \<subseteq> freesecs s \<and> (\<forall>l. taken s' l \<longleftrightarrow> taken s l \<or> l \<in> N) \<and> owned s' (inodes s' a) \<subseteq> owned s (inodes s a) \<union> N \<and>
     (\<forall>l. taken s l \<longrightarrow> l \<notin> owned s (inodes s a) \<longrightarrow> disk s' l = disk s l) \<and> (\<forall>l. noted s l \<longrightarrow> noted s' l) \<and>
     (\<forall>l \<in> N. noted s' l \<or> 12 < nblocks (inodes s' a) \<and> l = unat (i_sectors (inodes s' a) ! 12)) \<and>
     islot s' (unat (i_no (inodes s a)) mod 256) = inode_bytes (inodes s' a) \<and>
     (\<forall>b. b \<noteq> a \<longrightarrow> inodes s' b = inodes s b) \<and> live s' = live s \<and> grants s' = drop 2 (grants s) \<and>
     fd_table s' = fd_table s \<and> in_kernel s' = in_kernel s \<and>
     file_table s' = (file_table s)[fd := (file_table s ! fd)\<lparr>fd_pos := i_size (inodes s' a) - 1\<rparr>]"

text \<open>What an append needs.\<close>

definition can_append :: "fsys \<Rightarrow> nat \<Rightarrow> nat \<Rightarrow> bool" where
  "can_append s fd n \<longleftrightarrow>
     (let i = inodes s (fd_inode (file_table s ! fd)); sz = unat (i_size i) in
      fs_ok s \<and> fd < MAX_FILE_OPEN \<and> file_ok s i \<and> sz + n < 140 * SECTOR_SIZE \<and>
      (sz + n) div SECTOR_SIZE - sz div SECTOR_SIZE + 2 \<le> card (freesecs s))"

lemma can_appendD:
  assumes "can_append s fd n" and "a = fd_inode (file_table s ! fd)"
  shows "fs_ok s" "fd < length (file_table s)" "file_ok s (inodes s a)" "unat (i_size (inodes s a)) + n < 140 * SECTOR_SIZE"
    "(unat (i_size (inodes s a)) + n) div SECTOR_SIZE - unat (i_size (inodes s a)) div SECTOR_SIZE + 2 \<le> card (freesecs s)"
  using assms fs_okD(4) [of s] by (auto simp: can_append_def Let_def)

lemma can_append_heap [simp]:
  "can_append (s\<lparr>grants := g\<rparr>) fd n = can_append s fd n" "can_append (s\<lparr>live := v\<rparr>) fd n = can_append s fd n"
  by (simp_all add: can_append_def)

text \<open>The blocks: after them the file has all it will use.\<close>

lemma append_blocks:
  fixes s :: fsys
  assumes c: "can_append s fd n" and a: "a = fd_inode (file_table s ! fd)"
  defines "sz \<equiv> unat (i_size (inodes s a))"
  defines "m \<equiv> sz div SECTOR_SIZE + 1" and "will \<equiv> (sz + n) div SECTOR_SIZE + 1"
  obtains s1 s2 bl N secs where "first_block a s = Ret True s1" "write_blocks a m will (replicate 140 0) s1 = Ret (Some bl) s2"
    "length bl = 140" "will \<le> 140" "\<And>j. m - 1 \<le> j \<Longrightarrow> j < will \<Longrightarrow> bl ! j = bmap s2 (inodes s2 a) j"
    "extends s (inodes s a) (nblocks (inodes s a)) will N s2 (inodes s2 a)"
    "inodes s2 = (inodes s)(a := (inodes s a)\<lparr>i_sectors := secs\<rparr>)"
proof -
  let ?i = "inodes s a"
  note ca = can_appendD [OF c a]
  have "freesecs s \<noteq> {}"
    using ca(5) by auto
  from first_block_ok [OF ca(1,3) this] obtain s1 N1 secs1 where a1: "first_block a s = Ret True s1"
    "inodes s1 = (inodes s)(a := ?i\<lparr>i_sectors := secs1\<rparr>)" "extends s ?i (nblocks ?i) m N1 s1 (inodes s1 a)"
    "card (freesecs s) \<le> card (freesecs s1) + 1"
    unfolding m_def sz_def by blast
  have le: "m \<le> will"
    by (simp add: m_def will_def div_le_mono)
  have "(sz + n) div SECTOR_SIZE < 140"
    using ca(4) unfolding sz_def by (rule less_mult_imp_div_less)
  then have w140: "will \<le> 140"
    by (simp add: will_def)
  have "will - m + 1 \<le> card (freesecs s1)"
    using ca(5) a1(4) by (simp add: will_def m_def sz_def)
  then obtain bl s2 N2 where a2: "write_blocks a m will (replicate 140 0) s1 = Ret (Some bl) s2" "collected s1 a m will bl N2 s2"
    using write_blocks_ok [of s1 a m will] a1(3) le w140 by (auto simp: extends_def m_def)
  have c2: "length bl = 140" "extends s1 (inodes s1 a) m will N2 s2 (inodes s2 a)"
    "\<And>j. m - 1 \<le> j \<Longrightarrow> j < will \<Longrightarrow> bl ! j = bmap s2 (inodes s2 a) j"
    using a2(2) by (simp_all add: collected_def)
  obtain secs where i2: "inodes s2 = (inodes s)(a := ?i\<lparr>i_sectors := secs\<rparr>)"
    using a2(2) a1(2) by (auto simp: collected_def)
  have "nblocks ?i = m \<and> inodes s1 a = ?i \<or> m \<le> 12"
  proof (cases "i_sectors ?i ! 0 = 0")
    case True
    then show ?thesis
      using ca(3) by (simp add: file_ok_def m_def sz_def)
  next
    case False
    then have "s1 = s"
      using a1(1) by (simp add: first_block_def)
    then show ?thesis
      using False by (simp add: nblocks_def m_def sz_def)
  qed
  then have "extends s ?i (nblocks ?i) will (N1 \<union> N2) s2 (inodes s2 a)"
    using extends_trans [OF ca(1) _ a1(3) c2(2) _ le] ca(3) by (simp add: file_ok_def nblocks_def m_def sz_def)
  then show ?thesis
    using that [OF a1(1) a2(1) c2(1) w140 c2(3) _ i2] by simp
qed

text \<open>The data: the loop writes them into these blocks.\<close>

lemma append_data:
  fixes s2 :: fsys
  assumes e: "extends s i (nblocks i) will N s2 (inodes s2 a)" and len: "length bl = 140" "will \<le> 140"
    and will: "will = (unat (i_size i) + length src) div SECTOR_SIZE + 1"
    and bl: "\<And>j. unat (i_size i) div SECTOR_SIZE \<le> j \<Longrightarrow> j < will \<Longrightarrow> bl ! j = bmap s2 (inodes s2 a) j"
    and sz: "i_size (inodes s2 a) = i_size i" "unat (i_size i) + length src < 140 * SECTOR_SIZE"
    and fd: "fd < length (file_table s2)" "fd_inode (file_table s2 ! fd) = a"
  defines "s3 \<equiv> set_file fd (\<lambda>f. f\<lparr>fd_pos := i_size i - 1\<rparr>) s2"
  obtains d where "write_chunks (length src) fd bl True src (length src) s3 = Ret () (written a fd (length src) d s3)"
    "wrote_at (bsec s2 (inodes s2 a)) (unat (i_size i)) src (disk s2) d"
proof -
  let ?sz = "unat (i_size i)" and ?n = "length src"
  have x: "fs_ok s2" "blocks_ok s2 (inodes s2 a) will"
    using e by (simp_all add: extends_def)
  note b = blocks_okD [OF x(2)]
  have s3: "fd_inode (file_table s3 ! fd) = a" "inodes s3 = inodes s2" "disk s3 = disk s2" "fd < length (file_table s3)"
    using fd by (simp_all add: s3_def)
  have sp: "?sz div SECTOR_SIZE \<le> j" "j < will" if "j \<in> span ?sz ?n" for j
    using that unfolding will by (auto simp: span_def less_Suc_eq_le intro: div_le_mono)
  have "\<exists>d. write_chunks ?n fd bl True src ?n s3 = Ret () (written (fd_inode (file_table s3 ! fd)) fd ?n d s3) \<and>
      wrote_at (\<lambda>j. unat (bl ! j)) ?sz src (disk s3) d"
  proof (rule write_chunks_ok)
    show "sectors_ok (disk s3)"
      using fs_okD(1) [OF x(1)] s3(3) by simp
    show "j < length bl \<and> bl ! j \<le> max_lba" if "j \<in> span ?sz ?n" for j
      using sp [OF that] len bl taken_lba(1) [OF b(3) [OF sp(2) [OF that]]] by simp
    show "inj_on (\<lambda>j. unat (bl ! j)) (span ?sz ?n)"
      using bl sp by (intro inj_onI) (metis inj_onD [OF b(4)] lessThan_iff)
    show "unat (i_size (inodes s3 (fd_inode (file_table s3 ! fd)))) = ?sz"
      unfolding s3(1,2) sz(1) ..
    show "?sz + ?n < 2 ^ 32"
      using sz(2) by (simp add: SECTOR_SIZE_def)
  qed (use s3 in auto)
  then obtain d where d: "write_chunks ?n fd bl True src ?n s3 = Ret () (written a fd ?n d s3)"
    "wrote_at (\<lambda>j. unat (bl ! j)) ?sz src (disk s2) d"
    unfolding s3(1,3) by blast
  have "wrote_at (bsec s2 (inodes s2 a)) ?sz src (disk s2) d"
    by (rule wrote_at_cong [OF d(2)]) (use bl sp will in \<open>auto simp: div_le_mono less_Suc_eq_le\<close>)
  then show ?thesis
    using that d(1) by blast
qed

text \<open>The state \<open>t\<close> when the data are written and the inode is about to be: \<open>N\<close> are the sectors taken.\<close>

definition data_written :: "fsys \<Rightarrow> nat \<Rightarrow> addr \<Rightarrow> u8 list \<Rightarrow> nat set \<Rightarrow> fsys \<Rightarrow> bool" where
  "data_written s fd a src N t \<longleftrightarrow> fs_ok t \<and> sb_of_fs t = sb_of_fs s \<and> N \<subseteq> freesecs s \<and> (\<forall>l. taken t l \<longleftrightarrow> taken s l \<or> l \<in> N) \<and>
     (\<forall>t'. (\<forall>l. data_start s \<le> l \<longrightarrow> disk t' l = disk t l) \<longrightarrow> cur_part t' = cur_part t \<longrightarrow>
        file_ok t' (inodes t a) \<and> file_bytes t' (inodes t a) = file_bytes s (inodes s a) @ src \<and>
        owned t' (inodes t a) \<subseteq> owned s (inodes s a) \<union> N \<and>
        (\<forall>l. taken s l \<longrightarrow> l \<notin> owned s (inodes s a) \<longrightarrow> disk t' l = disk s l)) \<and>
     (\<forall>l. noted s l \<longrightarrow> noted t l) \<and>
     (\<forall>l \<in> N. noted t l \<or> 12 < nblocks (inodes t a) \<and> l = unat (i_sectors (inodes t a) ! 12)) \<and>
     length (i_sectors (inodes t a)) = 13 \<and> i_no (inodes t a) = i_no (inodes s a) \<and>
     (\<forall>b. b \<noteq> a \<longrightarrow> inodes t b = inodes s b) \<and> fd_table t = fd_table s \<and> in_kernel t = in_kernel s \<and>
     file_table t = (file_table s)[fd := (file_table s ! fd)\<lparr>fd_pos := i_size (inodes t a) - 1\<rparr>]"

lemma heap_fields:
  "cur_part (s\<lparr>grants := g\<rparr>) = cur_part s" "disk (s\<lparr>grants := g\<rparr>) = disk s" "inodes (s\<lparr>grants := g\<rparr>) = inodes s"
  "fd_table (s\<lparr>grants := g\<rparr>) = fd_table s" "file_table (s\<lparr>grants := g\<rparr>) = file_table s" "in_kernel (s\<lparr>grants := g\<rparr>) = in_kernel s"
  "cur_part (s\<lparr>live := v\<rparr>) = cur_part s" "disk (s\<lparr>live := v\<rparr>) = disk s" "inodes (s\<lparr>live := v\<rparr>) = inodes s"
  "fd_table (s\<lparr>live := v\<rparr>) = fd_table s" "file_table (s\<lparr>live := v\<rparr>) = file_table s" "in_kernel (s\<lparr>live := v\<rparr>) = in_kernel s"
  by simp_all

lemma data_written_heap:
  "data_written (s\<lparr>grants := g\<rparr>) fd a src N t = data_written s fd a src N t"
  "data_written (s\<lparr>live := v\<rparr>) fd a src N t = data_written s fd a src N t"
  by (simp_all only: data_written_def heap_same heap_same_file heap_fields)

lemma data_writtenD:
  assumes "data_written s fd a src N t"
  shows "fs_ok t" "sb_of_fs t = sb_of_fs s" "N \<subseteq> freesecs s" "taken t l \<longleftrightarrow> taken s l \<or> l \<in> N"
    "length (i_sectors (inodes t a)) = 13" "i_no (inodes t a) = i_no (inodes s a)" "b \<noteq> a \<Longrightarrow> inodes t b = inodes s b"
    "fd_table t = fd_table s" "in_kernel t = in_kernel s"
    "file_table t = (file_table s)[fd := (file_table s ! fd)\<lparr>fd_pos := i_size (inodes t a) - 1\<rparr>]"
    "noted s l \<Longrightarrow> noted t l" "l \<in> N \<Longrightarrow> noted t l \<or> 12 < nblocks (inodes t a) \<and> l = unat (i_sectors (inodes t a) ! 12)"
  using assms unfolding data_written_def by blast+

lemma data_written_content:
  assumes "data_written s fd a src N t" "\<And>l. data_start s \<le> l \<Longrightarrow> disk t' l = disk t l" "cur_part t' = cur_part t"
  shows "file_ok t' (inodes t a)" "file_bytes t' (inodes t a) = file_bytes s (inodes s a) @ src"
    "owned t' (inodes t a) \<subseteq> owned s (inodes s a) \<union> N" "taken s l \<Longrightarrow> l \<notin> owned s (inodes s a) \<Longrightarrow> disk t' l = disk s l"
  using assms unfolding data_written_def by blast+

lemma append_written:
  fixes s :: fsys
  assumes c: "can_append s fd (length src)" and a: "a = fd_inode (file_table s ! fd)"
  obtains s1 s2 t bl N where "first_block a s = Ret True s1"
    "write_blocks a (unat (i_size (inodes s a)) div SECTOR_SIZE + 1) ((unat (i_size (inodes s a)) + length src) div SECTOR_SIZE + 1)
       (replicate 140 0) s1 = Ret (Some bl) s2"
    "(unat (i_size (inodes s a)) + length src) div SECTOR_SIZE + 1 \<le> 140"
    "write_chunks (length src) fd bl True src (length src) (set_file fd (\<lambda>f. f\<lparr>fd_pos := i_size (inodes s a) - 1\<rparr>) s2) = Ret () t"
    "data_written s fd a src N t" "grants t = grants s" "live t = live s"
proof -
  let ?i = "inodes s a" and ?n = "length src"
  let ?sz = "unat (i_size ?i)"
  let ?m = "?sz div SECTOR_SIZE + 1" and ?will = "(?sz + ?n) div SECTOR_SIZE + 1"
  note ca = can_appendD [OF c a] and u = unat_limit [OF can_appendD(4) [OF c a]]
  obtain s1 s2 bl N secs where b: "first_block a s = Ret True s1" "write_blocks a ?m ?will (replicate 140 0) s1 = Ret (Some bl) s2"
    "length bl = 140" "?will \<le> 140" "\<And>j. ?m - 1 \<le> j \<Longrightarrow> j < ?will \<Longrightarrow> bl ! j = bmap s2 (inodes s2 a) j"
    "extends s ?i (nblocks ?i) ?will N s2 (inodes s2 a)" "inodes s2 = (inodes s)(a := ?i\<lparr>i_sectors := secs\<rparr>)"
    by (rule append_blocks [OF c a]) blast
  let ?i2 = "inodes s2 a"
  have x: "fs_ok s2" "blocks_ok s2 ?i2 ?will" "rest_same s s2" "N \<subseteq> freesecs s" "\<And>l. taken s2 l \<longleftrightarrow> taken s l \<or> l \<in> N"
    "\<And>l. noted s l \<Longrightarrow> noted s2 l" "\<And>l. l \<in> N \<Longrightarrow> noted s2 l \<or> 12 < ?will \<and> l = unat (i_sectors ?i2 ! 12)"
    using b(6) by (auto simp: extends_def)
  have r: "file_table s2 = file_table s" "live s2 = live s" "in_kernel s2 = in_kernel s" "grants s2 = grants s" "fd_table s2 = fd_table s"
    using x(3) by (simp_all add: rest_same_def)
  have fd2: "fd < length (file_table s2)" "fd_inode (file_table s2 ! fd) = a"
    using ca(2) r(1) a by simp_all
  define s3 where "s3 = set_file fd (\<lambda>f. f\<lparr>fd_pos := i_size ?i - 1\<rparr>) s2"
  obtain d where d: "write_chunks ?n fd bl True src ?n s3 = Ret () (written a fd ?n d s3)" "wrote_at (bsec s2 ?i2) ?sz src (disk s2) d"
    unfolding s3_def by (rule append_data [OF b(6,3,4) refl b(5) _ ca(4) fd2]) (use b(7) in auto)
  define t where "t = written a fd ?n d s3"
  have t: "cur_part t = cur_part s2" "disk t = d" "i_sectors (inodes t a) = i_sectors ?i2" "i_size (inodes t a) = i_size ?i + of_nat ?n"
    "i_no (inodes t a) = i_no ?i" "\<And>b. b \<noteq> a \<Longrightarrow> inodes t b = inodes s b"
    "file_table t = (file_table s)[fd := (file_table s ! fd)\<lparr>fd_pos := i_size ?i + of_nat ?n - 1\<rparr>]"
    using r b(7) fd2 by (simp_all add: t_def s3_def algebra_simps)
  have tk: "taken t' l \<longleftrightarrow> taken s2 l" if "cur_part t' = cur_part t" for t' :: fsys and l
    using that t(1) by (simp add: taken_def)
  have nt: "noted t l" if "noted s2 l" for l
  proof (rule notedI [OF that x(1)])
    have "disk t y = disk s2 y" if y: "y < itab_start s2" for y
    proof -
      have "y \<noteq> bsec s2 ?i2 j" if "j \<in> span ?sz ?n" for j
      proof -
        have "j < ?will"
          using that by (auto simp: span_def less_Suc_eq_le intro: div_le_mono)
        then show ?thesis
          using taken_lba(3) [OF x(1) blocks_okD(3) [OF x(2), of j]] y by auto
      qed
      then have "y \<notin> bsec s2 ?i2 ` span ?sz ?n"
        by blast
      then show ?thesis
        using d(2) t(2) unfolding wrote_at_def by simp
    qed
    then show "disk t y = disk s2 y" if "y < itab_start s2" for y
      using that by blast
  qed (use t(1) in \<open>simp_all add: taken_def\<close>)
  have nb: "nblocks (inodes t a) = ?will"
  proof -
    have "i_sectors ?i2 ! 0 \<noteq> 0"
      using blocks_okD(3) [OF x(2), of 0] taken_lba(2) [of s2 "bmap s2 ?i2 0"] by (simp add: bmap_def)
    then show ?thesis
      using t(3,4) u by (simp add: nblocks_def)
  qed
  have nt2: "\<forall>l \<in> N. noted t l \<or> 12 < nblocks (inodes t a) \<and> l = unat (i_sectors (inodes t a) ! 12)"
    unfolding nb t(3) using x(7) nt by blast
  have nt1: "\<forall>l. noted s l \<longrightarrow> noted t l"
    using x(6) nt by blast
  have "fs_ok t"
    using fs_ok_cong [OF x(1), of t] d(2) t(1,2) by (simp add: t_def s3_def wrote_at_def)
  moreover have "file_ok t' (inodes t a) \<and> file_bytes t' (inodes t a) = file_bytes s ?i @ src \<and> owned t' (inodes t a) \<subseteq> owned s ?i \<union> N \<and>
      (\<forall>l. taken s l \<longrightarrow> l \<notin> owned s ?i \<longrightarrow> disk t' l = disk s l)"
    if t': "\<forall>l. data_start s \<le> l \<longrightarrow> disk t' l = disk t l" "cur_part t' = cur_part t" for t' :: fsys
  proof -
    have d': "disk t' l = d l" if "data_start s \<le> l" for l
      using that t'(1) t(2) by simp
    have sz: "unat (i_size (inodes t a)) = ?sz + ?n"
      using t(4) u by simp
    show ?thesis
      using file_bytes_written [OF ca(1,3) b(6) refl d(2) d' tk [OF t'(2)] t(3) sz] by blast
  qed
  moreover have "sb_of_fs t = sb_of_fs s" "length (i_sectors (inodes t a)) = 13" "fd_table t = fd_table s" "in_kernel t = in_kernel s"
      "file_table t = (file_table s)[fd := (file_table s ! fd)\<lparr>fd_pos := i_size (inodes t a) - 1\<rparr>]"
    using t(1,3,4,7) blocks_okD(1) [OF x(2)] rest_same_sb [OF x(3)] r by (simp_all add: t_def s3_def)
  moreover have "\<forall>l. taken t l \<longleftrightarrow> taken s l \<or> l \<in> N"
    using x(5) tk [of t] by simp
  ultimately have "data_written s fd a src N t"
    unfolding data_written_def using x(4) t(5,6) nt1 nt2 by blast
  then show ?thesis
    using that [OF b(1,2,4) d(1) [folded t_def, unfolded s3_def]] r by (simp add: t_def s3_def)
qed

text \<open>So \<open>file_write\<close> is the write of the inode and the two calls of \<^verbatim>\<open>sys_free\<close>, in the state reached then.\<close>

lemma file_write_upto_sync:
  fixes s :: fsys
  assumes c: "can_append s fd (length src)" and a: "a = fd_inode (file_table s ! fd)"
    and g: "grants s = p # q # gs" "p \<noteq> NULL" "q \<noteq> NULL"
  obtains t N where "file_write fd src (of_nat (length src)) s =
      thenK (inode_sync (inodes t a) 512) (thenK (heap_free q) (thenK (heap_free p) (retK (of_nat (length src))))) t"
    "data_written s fd a src N t" "grants t = gs" "live t = (q, in_kernel s) # (p, in_kernel s) # live s"
proof -
  let ?i = "inodes s a" and ?n = "length src"
  define s0 where "s0 = s\<lparr>grants := gs, live := (q, in_kernel s) # (p, in_kernel s) # live s\<rparr>"
  have s0: "can_append s0 fd ?n" "a = fd_inode (file_table s0 ! fd)" "inodes s0 = inodes s"
    using c a by (simp_all add: s0_def)
  note u = unat_limit [OF can_appendD(4) [OF c a]]
  obtain s1 s2 t bl N where w: "first_block a s0 = Ret True s1"
    "write_blocks a (unat (i_size ?i) div SECTOR_SIZE + 1) ((unat (i_size ?i) + ?n) div SECTOR_SIZE + 1) (replicate 140 0) s1 = Ret (Some bl) s2"
    "(unat (i_size ?i) + ?n) div SECTOR_SIZE + 1 \<le> 140"
    "write_chunks ?n fd bl True src ?n (set_file fd (\<lambda>f. f\<lparr>fd_pos := i_size ?i - 1\<rparr>) s2) = Ret () t"
    "data_written s0 fd a src N t" "grants t = grants s0" "live t = live s0"
    by (rule append_written [OF s0(1,2), unfolded s0(3)]) blast
  have small: "\<not> i_size ?i + of_nat ?n > of_nat SECTOR_SIZE * 140"
    using u can_appendD(4) [OF c a] by (simp add: word_less_nat_alt SECTOR_SIZE_def)
  have h1: "heap_alloc s = Ret p (s\<lparr>grants := q # gs, live := (p, in_kernel s) # live s\<rparr>)"
    using g by (simp add: heap_alloc_def)
  have h2: "heap_alloc (s\<lparr>grants := q # gs, live := (p, in_kernel s) # live s\<rparr>) = Ret q s0"
    using g by (simp add: heap_alloc_def s0_def)
  have "file_write fd src (of_nat ?n) s =
      thenK (inode_sync (inodes t a) 512) (thenK (heap_free q) (thenK (heap_free p) (retK (of_nat ?n)))) t"
    unfolding file_write_def Let_def using a [symmetric] small h1 h2 g(2,3) w(1-4) u by simp
  moreover have "data_written s fd a src N t"
    using w(5) unfolding s0_def data_written_heap .
  ultimately show ?thesis
    using that w(6,7) by (simp add: s0_def)
qed

lemma file_write_run:
  fixes s :: fsys
  assumes c: "can_append s fd (length src)" and a: "a = fd_inode (file_table s ! fd)"
    and g: "grants s = p # q # gs" "p \<noteq> NULL" "q \<noteq> NULL" and slot: "slot_cnt (unat (i_no (inodes s a)) mod 256) = 1"
  shows "\<exists>s' N. file_write fd src (of_nat (length src)) s = Ret (of_nat (length src)) s' \<and> appended s fd a src N s'"
proof -
  let ?no = "unat (i_no (inodes s a)) mod 256"
  obtain t N where t: "file_write fd src (of_nat (length src)) s =
      thenK (inode_sync (inodes t a) 512) (thenK (heap_free q) (thenK (heap_free p) (retK (of_nat (length src))))) t"
    "data_written s fd a src N t" "grants t = gs" "live t = (q, in_kernel s) # (p, in_kernel s) # live s"
    by (rule file_write_upto_sync [OF c a g]) blast
  note dw = data_writtenD [OF t(2)]
  have sync: "?no = unat (i_no (inodes t a)) mod 256" "slot_cnt ?no * SECTOR_SIZE \<le> 512"
    using dw(6) slot by (simp_all add: SECTOR_SIZE_def)
  obtain d where d: "inode_sync (inodes t a) 512 t = Ret () (t\<lparr>disk := d\<rparr>)" "sectors_ok d"
    "\<And>l. l < itab_start t \<or> itab_start t + IT_SECTS \<le> l \<Longrightarrow> d l = disk t l" "islot (t\<lparr>disk := d\<rparr>) ?no = inode_bytes (inodes t a)"
    by (rule inode_sync_ok [OF dw(1,5) sync]) blast
  define s' where "s' = t\<lparr>disk := d, live := live s\<rparr>"
  have run: "file_write fd src (of_nat (length src)) s = Ret (of_nat (length src)) s'"
    using t(1,4) d(1) g(2,3) dw(9) by (simp add: heap_free_def s'_def)
  have s': "fs_ok s'" "islot s' ?no = inode_bytes (inodes s' a)" "\<And>l. taken s' l \<longleftrightarrow> taken t l" "inodes s' = inodes t" "live s' = live s"
    "grants s' = gs" "file_table s' = file_table t" "fd_table s' = fd_table t" "in_kernel s' = in_kernel t" "cur_part s' = cur_part t"
    using fs_ok_cong [OF dw(1), of s'] d(2,4) t(3) by (simp_all add: s'_def islot_def itab_def taken_def)
  have "disk s' l = disk t l" if "data_start s \<le> l" for l
    using that layout_okD(3) [OF fs_okD(2) [OF dw(1)]] d(3) dw(2) by (simp add: s'_def)
  note content = data_written_content [OF t(2) this s'(10)]
  have nt: "noted s' l" if "noted t l" for l
    by (rule notedI [OF that dw(1)]) (use s'(3,10) d(3) in \<open>simp_all add: s'_def\<close>)
  have "\<forall>l. noted s l \<longrightarrow> noted s' l"
    "\<forall>l \<in> N. noted s' l \<or> 12 < nblocks (inodes t a) \<and> l = unat (i_sectors (inodes t a) ! 12)"
    using nt dw(11,12) by blast+
  moreover have "drop 2 (grants s) = gs" "islot s' ?no = inode_bytes (inodes t a)"
    using g(1) s'(2,4) by simp_all
  ultimately have "appended s fd a src N s'"
    unfolding appended_def s'(3-9) using s'(1) content dw by blast
  then show ?thesis
    using run by blast
qed

subsection \<open>file_read\<close>

lemma read_blocks_ok:
  assumes ok: "fs_ok s" and b: "blocks_ok s i n" and idx: "x \<le> y" "y < n"
  shows "\<exists>blocks. read_blocks i x y (replicate 140 0) s = Ret blocks s \<and> length blocks = 140 \<and>
    (\<forall>j. x \<le> j \<and> j \<le> y \<longrightarrow> blocks ! j = bmap s i j)"
proof -
  note bo = blocks_okD [OF b]
  let ?direct = "\<lambda>m k. take m (replicate 140 0) @ take (k - m) (drop m (i_sectors i)) @ drop k (replicate 140 0)"
  let ?T = "i_sectors i ! 12"
  have dir: "length (?direct m k) = 140 \<and> (m \<le> j \<longrightarrow> j < k \<longrightarrow> ?direct m k ! j = i_sectors i ! j)" if "m < k" "k \<le> 12" for m k j
  proof (cases "m \<le> j \<and> j < k")
    case True
    then have "j - m < k - m" "\<not> j < m"
      by linarith+
    then show ?thesis
      using that True bo(1) by (simp add: nth_append)
  qed (use that bo(1) in auto)
  have T: "?T \<noteq> 0" "?T \<le> max_lba" if "12 \<le> y"
    using bo(6) idx that taken_lba(1,2) [of s ?T] by auto
  have tab: "(take 12 bl @ words_of (disk s (unat ?T)) 128) ! j = (if j < 12 then bl ! j else bmap s i j)"
    if "j < 140" "length bl = 140" for bl j
  proof (cases "j < 12")
    case False
    then have "j - 12 < 128"
      using that(1) by linarith
    then show ?thesis
      using False that by (simp add: nth_append bmap_def words_of_def)
  qed (use that in \<open>simp add: nth_append\<close>)
  have y: "y < 140"
    using idx bo(2) by simp
  consider "y < 12" | "x < 12" "12 \<le> y" | "12 \<le> x"
    by linarith
  then show ?thesis
  proof cases
    case 1
    then have "read_blocks i x y (replicate 140 0) s = Ret (?direct x (y + 1)) s"
      using idx by (auto simp: read_blocks_def Let_def)
    then show ?thesis
      using dir [of x "y + 1"] 1 idx by (intro exI [of _ "?direct x (y + 1)"]) (auto simp: bmap_def)
  next
    case 2
    let ?bl = "take 12 (?direct x 12) @ words_of (disk s (unat ?T)) 128"
    have "read_blocks i x y (replicate 140 0) s = Ret ?bl s"
      using 2 T read_table_run [of ?T] by (simp add: read_blocks_def Let_def)
    then show ?thesis
      using tab [of _ "?direct x 12"] dir [of x 12] 2 y by (intro exI [of _ ?bl]) (auto simp: bmap_def)
  next
    case 3
    let ?bl = "take 12 (replicate 140 0) @ words_of (disk s (unat ?T)) 128"
    have "read_blocks i x y (replicate 140 0) s = Ret ?bl s"
      using 3 idx T read_table_run [of ?T] by (simp add: read_blocks_def Let_def)
    then show ?thesis
      using tab [of _ "replicate 140 0"] 3 y by (intro exI [of _ ?bl]) auto
  qed
qed

text \<open>The bytes \<open>pos\<close> to \<open>pos + n - 1\<close> through the block map \<open>B\<close>.\<close>

definition bytes_via :: "(nat \<Rightarrow> nat) \<Rightarrow> (nat \<Rightarrow> u8 list) \<Rightarrow> nat \<Rightarrow> nat \<Rightarrow> u8 list" where
  "bytes_via B d pos n = map (\<lambda>p. d (B (p div SECTOR_SIZE)) ! (p mod SECTOR_SIZE)) [pos..<pos + n]"

lemma bytes_via_chunk:
  assumes "sectors_ok d" "pos mod SECTOR_SIZE + c \<le> SECTOR_SIZE"
  shows "take c (drop (pos mod SECTOR_SIZE) (d (B (pos div SECTOR_SIZE)))) = bytes_via B d pos c"
proof (rule nth_equalityI)
  have len: "length (d (B (pos div SECTOR_SIZE))) = SECTOR_SIZE"
    using assms(1) by (simp add: sectors_ok_def)
  then show "length (take c (drop (pos mod SECTOR_SIZE) (d (B (pos div SECTOR_SIZE))))) = length (bytes_via B d pos c)"
    using assms(2) by (simp add: bytes_via_def)
  fix k
  assume "k < length (take c (drop (pos mod SECTOR_SIZE) (d (B (pos div SECTOR_SIZE)))))"
  then have k: "k < c" "pos mod SECTOR_SIZE + k < SECTOR_SIZE"
    using len by auto
  have "pos + k = pos mod SECTOR_SIZE + k + SECTOR_SIZE * (pos div SECTOR_SIZE)"
    by simp
  then have "(pos + k) div SECTOR_SIZE = pos div SECTOR_SIZE" "(pos + k) mod SECTOR_SIZE = pos mod SECTOR_SIZE + k"
    using k(2) by (simp_all only: div_mult_self2 mod_mult_self2) simp_all
  then show "take c (drop (pos mod SECTOR_SIZE) (d (B (pos div SECTOR_SIZE)))) ! k = bytes_via B d pos c ! k"
    using k len by (simp add: bytes_via_def)
qed

lemma bytes_via_append: "bytes_via B d pos m @ bytes_via B d (pos + m) n = bytes_via B d pos (m + n)"
proof -
  have "[pos..<pos + (m + n)] = [pos..<pos + m] @ [pos + m..<pos + m + n]"
    using upt_add_eq_append [of pos "pos + m" n] by (simp only: add.assoc le_add1)
  then show ?thesis
    by (simp only: bytes_via_def map_append)
qed

lemma read_chunks_ok:
  assumes "sectors_ok (disk s)" "fd < length (file_table s)" "unat (fd_pos (file_table s ! fd)) = pos" "pos + n < 2 ^ 32"
    and "\<And>j. j \<in> span pos n \<Longrightarrow> j < length blocks \<and> blocks ! j \<le> max_lba" "n \<le> fuel"
  shows "read_chunks fuel fd blocks n s = Ret (bytes_via (\<lambda>j. unat (blocks ! j)) (disk s) pos n)
    (set_file fd (\<lambda>f. f\<lparr>fd_pos := of_nat (pos + n)\<rparr>) s)"
  using assms
proof (induction fuel arbitrary: s n pos)
  case 0
  moreover have "set_file fd (\<lambda>f. f\<lparr>fd_pos := of_nat pos\<rparr>) s = s"
    using 0(3) by (auto simp: set_file_def)
  ultimately show ?case
    by (simp add: read_chunks.simps bytes_via_def)
next
  case (Suc fuel)
  let ?B = "\<lambda>j. unat (blocks ! j)" and ?x = "pos mod SECTOR_SIZE" and ?j = "pos div SECTOR_SIZE"
  show ?case
  proof (cases "n = 0")
    case True
    moreover have "set_file fd (\<lambda>f. f\<lparr>fd_pos := of_nat pos\<rparr>) s = s"
      using Suc.prems(3) by (auto simp: set_file_def)
    ultimately show ?thesis
      by (simp add: read_chunks.simps bytes_via_def)
  next
    case False
    define c where "c = (if n < SECTOR_SIZE - ?x then n else SECTOR_SIZE - ?x)"
    have x: "?x < SECTOR_SIZE"
      by (simp add: SECTOR_SIZE_def)
    have c: "0 < c" "c \<le> n" "?x + c \<le> SECTOR_SIZE"
      using x False by (auto simp: c_def)
    have "?j \<in> span pos n"
      using False by (auto simp: span_def)
    note blk = Suc.prems(5) [OF this]
    let ?s1 = "set_file fd (\<lambda>f. f\<lparr>fd_pos := fd_pos f + of_nat c\<rparr>) s"
    have p1: "unat (fd_pos (file_table ?s1 ! fd)) = pos + c"
      using Suc.prems(2,3,4) c(2) by (simp add: unat_word_ariths unat_of_nat)
    have sp: "span pos n = span pos c \<union> span (pos + c) (n - c)"
      using span_append [of pos c "n - c"] c(2) by simp
    have "read_chunks fuel fd blocks (n - c) ?s1 = Ret (bytes_via ?B (disk ?s1) (pos + c) (n - c))
        (set_file fd (\<lambda>f. f\<lparr>fd_pos := of_nat (pos + c + (n - c))\<rparr>) ?s1)"
      by (rule Suc.IH) (use Suc.prems c p1 sp in auto)
    then have rest: "read_chunks fuel fd blocks (n - c) ?s1 = Ret (bytes_via ?B (disk s) (pos + c) (n - c))
        (set_file fd (\<lambda>f. f\<lparr>fd_pos := of_nat (pos + n)\<rparr>) s)"
      using c(2) Suc.prems(2) by (simp add: set_file_def)
    have rd: "ide_read (blocks ! ?j) SECTOR_SIZE 1 s = Ret (disk s (?B ?j)) s"
      using blk by (simp add: ide_read_one del: One_nat_def)
    have "read_chunks (Suc fuel) fd blocks n s =
        Ret (take c (drop ?x (disk s (?B ?j))) @ bytes_via ?B (disk s) (pos + c) (n - c)) (set_file fd (\<lambda>f. f\<lparr>fd_pos := of_nat (pos + n)\<rparr>) s)"
      apply (subst read_chunks.simps)
      using False Suc.prems(3) rd blk rest
      apply (simp add: c_def [symmetric] Let_def)
      done
    then show ?thesis
      using bytes_via_chunk [OF Suc.prems(1) c(3), of ?B] bytes_via_append [of ?B "disk s" pos c "n - c"] c(2) by simp
  qed
qed

lemma file_read_run:
  fixes s :: fsys
  assumes ok: "fs_ok s" and fd: "fd < MAX_FILE_OPEN" and i: "i = inodes s (fd_inode (file_table s ! fd))"
    and f: "file_ok s i" and pos: "pos = unat (fd_pos (file_table s ! fd))" "pos < unat (i_size i)" "pos + unat count < 2 ^ 32"
    and n: "n = min (unat count) (unat (i_size i) - pos)" "0 < unat count" "(pos + n) div SECTOR_SIZE < 139"
    and g: "grants s = p # q # gs" "p \<noteq> NULL" "q \<noteq> NULL"
  shows "file_read fd count s = Ret (of_nat n, take n (drop pos (file_bytes s i)))
    (s\<lparr>grants := gs, file_table := (file_table s)[fd := (file_table s ! fd)\<lparr>fd_pos := of_nat (pos + n)\<rparr>]\<rparr>)"
proof -
  let ?f = "file_table s ! fd" and ?sz = "unat (i_size i)"
  define size where "size = (if fd_pos ?f + count > i_size i then i_size i - fd_pos ?f else count)"
  have sum: "unat (fd_pos ?f + count) = pos + unat count"
    using pos(1,3) by (simp add: unat_word_ariths)
  have size: "unat size = n"
  proof (cases "fd_pos ?f + count > i_size i")
    case True
    then have "?sz < pos + unat count"
      using sum by (simp add: word_less_nat_alt)
    moreover have "unat (i_size i - fd_pos ?f) = ?sz - pos"
      using pos(1,2) by (simp add: unat_sub word_le_nat_alt)
    ultimately show ?thesis
      using True n(1) by (simp add: size_def)
  next
    case False
    then have "pos + unat count \<le> ?sz"
      using sum by (simp add: word_less_nat_alt)
    then show ?thesis
      using False n(1) by (simp add: size_def)
  qed
  have n0: "0 < n" "pos + n \<le> ?sz"
    using n pos(2) by auto
  then have nz: "size \<noteq> 0" "of_nat n = size"
    using size by auto
  define s0 where "s0 = s\<lparr>grants := gs, live := (q, in_kernel s) # (p, in_kernel s) # live s\<rparr>"
  have so: "sectors_ok (disk s0)" "fs_ok s0"
    using ok by (simp_all add: s0_def fs_okD)
  have nb: "nblocks i = ?sz div SECTOR_SIZE + 1" "blocks_ok s0 i (nblocks i)"
    using f pos(2) by (auto simp: file_ok_def nblocks_def s0_def)
  have st: "unat (fd_pos ?f div 512) = pos div SECTOR_SIZE" "unat ((fd_pos ?f + size) div 512) = (pos + n) div SECTOR_SIZE"
    using pos(1,3) n(1) size by (simp_all add: unat_div_distrib SECTOR_SIZE_def unat_word_ariths)
  let ?x = "pos div SECTOR_SIZE" and ?y = "(pos + n) div SECTOR_SIZE"
  have xy: "?x \<le> ?y" "?y < nblocks i"
    using n0 nb(1) by (simp_all add: div_le_mono less_Suc_eq_le)
  then have x139: "?x < 139"
    using n(3) by simp
  obtain bl where bl: "read_blocks i ?x ?y (replicate 140 0) s0 = Ret bl s0" "length bl = 140"
    "\<And>j. ?x \<le> j \<Longrightarrow> j \<le> ?y \<Longrightarrow> bl ! j = bmap s i j"
    using read_blocks_ok [OF so(2) nb(2) xy(1,2)] by (auto simp: s0_def)
  have sp: "?x \<le> j" "j \<le> ?y" if "j \<in> span pos n" for j
    using that by (auto simp: span_def intro: div_le_mono)
  have rc: "read_chunks n fd bl n s0 = Ret (bytes_via (\<lambda>j. unat (bl ! j)) (disk s0) pos n) (set_file fd (\<lambda>f. f\<lparr>fd_pos := of_nat (pos + n)\<rparr>) s0)"
  proof (rule read_chunks_ok [OF so(1)])
    show "fd < length (file_table s0)"
      using fd fs_okD(4) [OF ok] by (simp add: s0_def)
    show "unat (fd_pos (file_table s0 ! fd)) = pos"
      using pos(1) by (simp add: s0_def)
    show "j < length bl \<and> bl ! j \<le> max_lba" if "j \<in> span pos n" for j
      using bl(2,3) sp [OF that] xy(2) blocks_okD(2) [OF nb(2)] taken_lba(1) [of s "bmap s i j"] blocks_okD(3) [OF nb(2), of j]
      by (simp add: s0_def)
  qed (use n pos in auto)
  have "bytes_via (\<lambda>j. unat (bl ! j)) (disk s0) pos n = bytes_via (bsec s i) (disk s) pos n"
    unfolding bytes_via_def using bl(3) by (auto simp: s0_def div_le_mono)
  also have "\<dots> = take n (drop pos (file_bytes s i))"
    unfolding bytes_via_def file_bytes_def using n0(2) by (simp add: drop_map take_map drop_upt take_upt)
  finally have bytes: "bytes_via (\<lambda>j. unat (bl ! j)) (disk s0) pos n = take n (drop pos (file_bytes s i))" .
  let ?s1 = "set_file fd (\<lambda>f. f\<lparr>fd_pos := of_nat (pos + n)\<rparr>) s0"
  have frees: "thenK (heap_free q) (thenK (heap_free p) (retK v)) ?s1 =
      Ret v (s\<lparr>grants := gs, file_table := (file_table s)[fd := ?f\<lparr>fd_pos := of_nat (pos + n)\<rparr>]\<rparr>)" for v :: "u32 \<times> u8 list"
    using g by (simp add: heap_free_def s0_def set_file_def)
  have h1: "heap_alloc s = Ret p (s\<lparr>grants := q # gs, live := (p, in_kernel s) # live s\<rparr>)"
    using g by (simp add: heap_alloc_def)
  have h2: "heap_alloc (s\<lparr>grants := q # gs, live := (p, in_kernel s) # live s\<rparr>) = Ret q s0"
    using g by (simp add: heap_alloc_def s0_def)
  show ?thesis
    unfolding file_read_def Let_def
    using i [symmetric] nz h1 h2 g(2,3) bl(1) rc bytes frees st n(3) x139 size
    by (simp add: size_def [symmetric] derefK_def)
qed

subsection \<open>Properties\<close>

text \<open>A file that shares no sector with the one that is written is not touched.\<close>

lemma other_file:
  assumes ap: "appended s fd a src N s'" and ok: "fs_ok s" and j: "file_ok s j" and dis: "owned s j \<inter> owned s (inodes s a) = {}"
  shows "file_ok s' j" "file_bytes s' j = file_bytes s j" "owned s' j \<inter> owned s' (inodes s' a) = {}"
proof -
  have b: "blocks_ok s j (nblocks j)"
    using j by (simp add: file_ok_def)
  have tk: "taken s l" if "l \<in> owned s j" for l
    using that blocks_okD(3,6) [OF b] by (auto simp: owned_def split: if_splits)
  have same: "disk s' l = disk s l" if "l \<in> owned s j" for l
  proof -
    have "l \<notin> owned s (inodes s a)"
      using that dis by blast
    then show ?thesis
      using ap tk [OF that] unfolding appended_def by blast
  qed
  have tb: "disk s' (unat (i_sectors j ! 12)) = disk s (unat (i_sectors j ! 12))" if "12 < nblocks j"
    using that by (intro same) (simp add: owned_def)
  have bm: "bmap s' j k = bmap s j k" if "k < nblocks j" for k
    using that tb by (intro bmap_cong [of j j "nblocks j"]) auto
  have "blocks_ok s' j (nblocks j)"
    using ap tb by (intro blocks_ok_cong [OF b]) (auto simp: appended_def)
  then show "file_ok s' j"
    using j by (simp add: file_ok_def)
  have ow: "owned s' j = owned s j"
    using bm unfolding owned_def by auto
  have "owned s j \<inter> N = {}"
    using tk ap freesecsD(3) [OF ok] by (auto simp: appended_def)
  then show "owned s' j \<inter> owned s' (inodes s' a) = {}"
    using dis ap unfolding ow by (auto simp: appended_def)
  have "disk s' (bsec s' j (p div SECTOR_SIZE)) = disk s (bsec s j (p div SECTOR_SIZE))" if "p < unat (i_size j)" for p
  proof -
    have "i_size j \<noteq> 0"
      using that by auto
    then have "nblocks j = unat (i_size j) div SECTOR_SIZE + 1"
      using j by (auto simp: nblocks_def file_ok_def)
    then have k: "p div SECTOR_SIZE < nblocks j"
      using that by (simp add: less_Suc_eq_le div_le_mono)
    then show ?thesis
      using bm [OF k] same [of "bsec s j (p div SECTOR_SIZE)"] by (simp add: owned_def)
  qed
  then show "file_bytes s' j = file_bytes s j"
    by (simp add: file_bytes_def)
qed

lemma demo_file_ok: "file_ok demo_fs (inodes demo_fs 0x1000)" "3 \<le> card (freesecs demo_fs)"
proof -
  show "file_ok demo_fs (inodes demo_fs 0x1000)"
    by (simp add: file_ok_def demo_fs_def inode_init_def nblocks_def blocks_ok_def)
  have "{1, 2, 3} \<subseteq> free_blocks demo_fs"
    by (simp add: free_blocks_def demo_fs_def demo_bit) (simp add: demo_bits_def)
  then have "(+) (data_start demo_fs) ` {1, 2, 3} \<subseteq> freesecs demo_fs"
    unfolding freesecs_def by (rule image_mono)
  from card_mono [OF finite_freesecs this] show "3 \<le> card (freesecs demo_fs)"
    by simp
qed

lemma demo_can_append: "can_append demo_fs 3 (length src)" if "length src < 512"
  using that demo_fs_ok demo_file_ok
  by (simp add: can_append_def Let_def) (simp add: demo_fs_def inode_init_def MAX_FILE_OPEN_def SECTOR_SIZE_def)



text \<open>C29: The same write to a file whose inode lies across two sectors of the inode table overruns the buffer: the
  buffer for the last step, writing the inode, has one sector and two are read into it.\<close>

theorem file_write_overruns_buffer:
  assumes c: "can_append s fd (length src)" and a: "a = fd_inode (file_table s ! fd)"
    and g: "grants s = p # q # gs" "p \<noteq> NULL" "q \<noteq> NULL" and slot: "slot_cnt (unat (i_no (inodes s a)) mod 256) = 2"
  shows "file_write fd src (of_nat (length src)) s = Flt Out_Of_Bounds"
proof -
  obtain t N where t: "file_write fd src (of_nat (length src)) s =
      thenK (inode_sync (inodes t a) 512) (thenK (heap_free q) (thenK (heap_free p) (retK (of_nat (length src))))) t"
    "data_written s fd a src N t"
    by (rule file_write_upto_sync [OF c a g]) blast
  have "inode_sync (inodes t a) 512 t = Flt Out_Of_Bounds"
    using data_writtenD(6) [OF t(2)] slot by (intro inode_sync_short [OF data_writtenD(1) [OF t(2)]]) (simp add: SECTOR_SIZE_def)
  then show ?thesis
    unfolding t(1) by (simp add: thenK_def bindK_def)
qed

theorem file_write_overruns_buffer_witness:
  "file_write 3 [104, 105] 2 (demo_fs\<lparr>inodes := (\<lambda>_. inode_init 6)\<rparr>) = Flt Out_Of_Bounds"
proof -
  let ?s = "demo_fs\<lparr>inodes := (\<lambda>_. inode_init 6)\<rparr>"
  have f: "fs_ok ?s" "freesecs ?s = freesecs demo_fs"
    using demo_fs_ok by (simp_all add: fs_ok_def freesecs_def free_blocks_def)
  have "file_ok ?s (inodes ?s 0x1000)"
    by (simp add: file_ok_def inode_init_def nblocks_def blocks_ok_def)
  then have c: "can_append ?s 3 (length [104, 105 :: u8])"
    using f demo_file_ok(2)
    by (simp add: can_append_def Let_def) (simp add: demo_fs_def inode_init_def MAX_FILE_OPEN_def SECTOR_SIZE_def)
  have d: "fd_inode (file_table ?s ! 3) = 0x1000" "grants ?s = [0x2000, 0x3000, 0x4000, 0x5000]" "i_no (inodes ?s 0x1000) = 6" "slot_cnt 6 = 2"
    by (simp_all add: demo_fs_def inode_init_def slot_cnt_def slot_off_def sizeof_inode_def SECTOR_SIZE_def)
  show ?thesis
    using file_write_overruns_buffer [OF c d(1) [symmetric] d(2)] d(3,4) by simp
qed

end
