(* ===== verification/Dir.thy ===== *)
theory Dir
  imports File
begin

section \<open>Directories (fs/dir.c)\<close>

text \<open>
  A directory is a file whose blocks hold directory entries of 24 bytes, 21 to a sector. A name compared
  by \<^verbatim>\<open>strcmp\<close> is looked at byte by byte in the buffer that holds it, so a name without a terminating zero
  is read on into what follows it.
\<close>

subsection \<open>Directory entries\<close>

record dir_entry =
  filename :: "u8 list"
  de_i_no :: u32
  f_type :: u32

definition FT_UNKNOWN :: u32 where "FT_UNKNOWN = 0"
definition FT_REGULAR :: u32 where "FT_REGULAR = 1"
definition FT_DIRECTORY :: u32 where "FT_DIRECTORY = 2"

definition entry_bytes :: "dir_entry \<Rightarrow> u8 list" where
  "entry_bytes e = filename e @ le32 (de_i_no e) @ le32 (f_type e)"

text \<open>The entry with index \<open>k\<close> of a sector.\<close>

definition entry_at :: "u8 list \<Rightarrow> nat \<Rightarrow> dir_entry" where
  "entry_at b k =
     \<lparr>filename = take MAX_FILE_NAME_LEN (drop (k * sizeof_dir_entry) b),
      de_i_no = word_at b (k * sizeof_dir_entry + MAX_FILE_NAME_LEN),
      f_type = word_at b (k * sizeof_dir_entry + MAX_FILE_NAME_LEN + 4)\<rparr>"

text \<open>\<^verbatim>\<open>strcmp\<close> for equality, on buffers.\<close>

fun streq :: "u8 list \<Rightarrow> u8 list \<Rightarrow> bool res" where
  "streq (a # as) (b # bs) = (if a \<noteq> 0 \<and> a = b then streq as bs else Inr (a = b))"
| "streq _ _ = Inl Out_Of_Bounds"

definition dot :: "u8 list" where "dot = [46, 0]"
definition dotdot :: "u8 list" where "dotdot = [46, 46, 0]"

subsection \<open>Operations\<close>

definition open_root_dir :: "(fsys, unit) kop" where
  "open_root_dir =
     bindK (getK (\<lambda>s. root_inode_no (sb (cur_part s)))) (\<lambda>no.
     bindK (inode_open no) (\<lambda>a.
     modK (\<lambda>s. set_dir (root_dir s) (\<lambda>d. d\<lparr>dir_inode := a, dir_pos := 0\<rparr>) s)))"

definition dir_open :: "u32 \<Rightarrow> (fsys, addr) kop" where
  "dir_open no =
     bindK heap_alloc (\<lambda>pdir.
     bindK (inode_open no) (\<lambda>a.
     thenK (derefK pdir)
    (thenK (modK (set_dir pdir (\<lambda>d. d\<lparr>dir_inode := a, dir_pos := 0\<rparr>)))
           (retK pdir))))"

text \<open>The search in one sector: entries \<open>k\<close> to \<open>k + n - 1\<close>.\<close>

fun find_entry :: "u8 list \<Rightarrow> u8 list \<Rightarrow> nat \<Rightarrow> nat \<Rightarrow> nat option res" where
  "find_entry b name k 0 = Inr None"
| "find_entry b name k (Suc n) =
     bindR (streq (drop (k * sizeof_dir_entry) b) name) (\<lambda>e.
     if e then Inr (Some k) else find_entry b name (k + 1) n)"

fun search_blocks :: "addr \<Rightarrow> u8 list \<Rightarrow> nat \<Rightarrow> u32 list \<Rightarrow> (fsys, dir_entry option) kop" where
  "search_blocks p name n [] = retK None"
| "search_blocks p name n (lba # blocks) =
     (if lba = 0 then search_blocks p name n blocks
      else
        thenK (derefK p)
       (bindK (ide_read lba SECTOR_SIZE 1) (\<lambda>b.
        bindK (liftR (find_entry b name 0 n)) (\<lambda>r.
        case r of Some k \<Rightarrow> retK (Some (entry_at b k))
        | None \<Rightarrow> search_blocks p name n blocks))))"

text \<open>The entries of one sector: \<^verbatim>\<open>SECTOR_SIZE / dir_entry_size\<close>.\<close>

definition entrys_per_sec :: "fsys \<Rightarrow> nat" where
  "entrys_per_sec s = SECTOR_SIZE div unat (dir_entry_size (sb (cur_part s)))"

definition search_dir_entry :: "addr \<Rightarrow> u8 list \<Rightarrow> (fsys, dir_entry option) kop" where
  "search_dir_entry pdir name =
     bindK heap_alloc (\<lambda>blocks_buf.
     if blocks_buf = NULL then retK None
     else
       bindK (getK (\<lambda>s. inodes s (dir_inode (dirs s pdir)))) (\<lambda>i.
       bindK (all_blocks i) (\<lambda>blocks.
       bindK heap_alloc (\<lambda>buf.
       bindK (getK entrys_per_sec) (\<lambda>dir_entry_cnt.
       bindK (search_blocks buf name dir_entry_cnt blocks) (\<lambda>r.
       thenK (heap_free buf)
      (thenK (heap_free blocks_buf)
             (retK r))))))))"

definition dir_close :: "addr \<Rightarrow> (fsys, unit) kop" where
  "dir_close d s =
     (if d = root_dir s then Ret () s
      else thenK (inode_close (dir_inode (dirs s d))) (heap_free d) s)"

text \<open>\<open>name\<close> is the string without its terminating zero; the entry was cleared by the caller.\<close>

definition create_dir_entry :: "u8 list \<Rightarrow> u32 \<Rightarrow> u32 \<Rightarrow> dir_entry res" where
  "create_dir_entry name no ftype =
     bindR (ASSERT (length name \<le> MAX_FILE_NAME_LEN)) (\<lambda>_.
     Inr \<lparr>filename = name @ replicate (MAX_FILE_NAME_LEN - length name) 0, de_i_no = no, f_type = ftype\<rparr>)"

text \<open>The first free entry of a sector from \<open>k\<close> on.\<close>

fun free_entry :: "u8 list \<Rightarrow> nat \<Rightarrow> nat \<Rightarrow> nat option" where
  "free_entry b k 0 = None"
| "free_entry b k (Suc n) = (if f_type (entry_at b k) = FT_UNKNOWN then Some k else free_entry b (k + 1) n)"

text \<open>A block of the directory that does not exist yet: allocated, entered in the inode or in the indirect
  table, and written with the new entry.\<close>

definition append_block :: "addr \<Rightarrow> dir_entry \<Rightarrow> nat \<Rightarrow> u32 list \<Rightarrow> (fsys, bool) kop" where
  "append_block a e block_idx blocks =
     bindK block_bitmap_alloc (\<lambda>block_lba.
     if block_lba = - 1 then retK False
     else bindK (getK (\<lambda>s. data_start_lba (sb (cur_part s)))) (\<lambda>data_start.
       thenK (assertK (\<lambda>_. block_lba - data_start \<noteq> - 1))
      (thenK (bitmap_sync (block_lba - data_start) BLOCK_BITMAP)
      (bindK
        (if block_idx < 12 then
           thenK (modK (set_inode a (\<lambda>i. i\<lparr>i_sectors := (i_sectors i)[block_idx := block_lba]\<rparr>)))
                 (retK (Some (blocks[block_idx := block_lba])))
         else if block_idx = 12 then
           thenK (modK (set_inode a (\<lambda>i. i\<lparr>i_sectors := (i_sectors i)[12 := block_lba]\<rparr>)))
          (bindK block_bitmap_alloc (\<lambda>block_lba2.
           if block_lba2 = - 1 then
             thenK (set_block_bit (unat (block_lba - data_start)) 0)
            (thenK (modK (set_inode a (\<lambda>i. i\<lparr>i_sectors := (i_sectors i)[12 := 0]\<rparr>)))
                   (retK None))
           else
             thenK (assertK (\<lambda>_. block_lba2 - data_start \<noteq> - 1))
            (thenK (bitmap_sync (block_lba2 - data_start) BLOCK_BITMAP)
            (thenK (write_table block_lba (blocks[12 := block_lba2]))
                   (retK (Some (blocks[12 := block_lba2])))))))
         else
           bindK (getK (\<lambda>s. i_sectors (inodes s a) ! 12)) (\<lambda>table.
           thenK (write_table table (blocks[block_idx := block_lba]))
                 (retK (Some (blocks[block_idx := block_lba]))))) (\<lambda>r.
       case r of None \<Rightarrow> retK False
       | Some blocks \<Rightarrow>
           bindK (getK (\<lambda>s. dir_entry_size (sb (cur_part s)))) (\<lambda>des.
           bindK (liftR (memcpy_at (replicate SECTOR_SIZE 0) 0 (entry_bytes e) (unat des))) (\<lambda>io_buf.
           thenK (ide_write (blocks ! block_idx) io_buf 1)
          (thenK (modK (set_inode a (\<lambda>i. i\<lparr>i_size := i_size i + des\<rparr>)))
                 (retK True)))))))))"

fun sync_blocks :: "addr \<Rightarrow> dir_entry \<Rightarrow> nat \<Rightarrow> nat \<Rightarrow> u32 list \<Rightarrow> (fsys, bool) kop" where
  "sync_blocks a e block_idx 0 blocks = retK False"
| "sync_blocks a e block_idx (Suc n) blocks =
     (if blocks ! block_idx = 0 then append_block a e block_idx blocks
      else
        bindK (ide_read (blocks ! block_idx) SECTOR_SIZE 1) (\<lambda>b.
        bindK (getK entrys_per_sec) (\<lambda>cnt.
        case free_entry b 0 cnt of
          Some k \<Rightarrow>
            bindK (getK (\<lambda>s. dir_entry_size (sb (cur_part s)))) (\<lambda>des.
            bindK (liftR (memcpy_at b (k * sizeof_dir_entry) (entry_bytes e) (unat des))) (\<lambda>b.
            thenK (ide_write (blocks ! block_idx) b 1)
           (thenK (modK (set_inode a (\<lambda>i. i\<lparr>i_size := i_size i + des\<rparr>)))
                  (retK True))))
        | None \<Rightarrow> sync_blocks a e (block_idx + 1) n blocks)))"

text \<open>The array starts with the direct blocks only; the indirect table is not read.\<close>

definition sync_dir_entry :: "addr \<Rightarrow> dir_entry \<Rightarrow> (fsys, bool) kop" where
  "sync_dir_entry parent_dir e =
     bindK (getK (\<lambda>s. dir_inode (dirs s parent_dir))) (\<lambda>a.
     bindK (getK (\<lambda>s. inodes s a)) (\<lambda>i.
     thenK (assertK (\<lambda>s. i_size i mod dir_entry_size (sb (cur_part s)) = 0))
           (sync_blocks a e 0 140 (take 12 (i_sectors i) @ replicate 128 0))))"

text \<open>The pass over one sector in \<^verbatim>\<open>delete_dir_entry\<close>: the entry found, the number of entries that are not
  \<^verbatim>\<open>.\<close> or \<^verbatim>\<open>..\<close>, and whether the sector holds \<^verbatim>\<open>.\<close> and so is the first of the directory.\<close>

fun count_entries :: "u8 list \<Rightarrow> u32 \<Rightarrow> nat \<Rightarrow> nat \<Rightarrow> nat option \<times> nat \<times> bool \<Rightarrow> (nat option \<times> nat \<times> bool) res" where
  "count_entries b no k 0 acc = Inr acc"
| "count_entries b no k (Suc n) (found, cnt, first) =
     (if f_type (entry_at b k) \<noteq> FT_UNKNOWN then
        bindR (streq (drop (k * sizeof_dir_entry) b) dot) (\<lambda>is_dot.
        if is_dot then count_entries b no (k + 1) n (found, cnt, True)
        else bindR (streq (drop (k * sizeof_dir_entry) b) dotdot) (\<lambda>is_dotdot.
          if is_dotdot then count_entries b no (k + 1) n (found, cnt, first)
          else if de_i_no (entry_at b k) = no then
            bindR (ASSERT (found = None)) (\<lambda>_. count_entries b no (k + 1) n (Some k, cnt + 1, first))
          else count_entries b no (k + 1) n (found, cnt + 1, first)))
      else count_entries b no (k + 1) n (found, cnt, first))"

text \<open>When the entry is the only one of an indirect block, the loop that counts the indirect blocks never
  changes its counter; what follows it in the source is never reached.\<close>

fun delete_blocks :: "addr \<Rightarrow> u32 \<Rightarrow> nat \<Rightarrow> nat \<Rightarrow> u32 list \<Rightarrow> (fsys, bool) kop" where
  "delete_blocks a no io_buf block_idx [] = retK False"
| "delete_blocks a no io_buf block_idx (lba # blocks) =
     (if lba = 0 then delete_blocks a no io_buf (block_idx + 1) blocks
      else
        bindK (ide_read lba io_buf 1) (\<lambda>b.
        bindK (getK entrys_per_sec) (\<lambda>n.
        bindK (liftR (count_entries b no 0 n (None, 0, False))) (\<lambda>(found, dir_entry_cnt, is_dir_first_block).
        case found of
          None \<Rightarrow> delete_blocks a no io_buf (block_idx + 1) blocks
        | Some k \<Rightarrow>
            thenK (assertK (\<lambda>_. dir_entry_cnt \<ge> 1))
           (bindK (getK (\<lambda>s. dir_entry_size (sb (cur_part s)))) (\<lambda>des.
            thenK
             (if dir_entry_cnt = 1 \<and> \<not> is_dir_first_block then
                bindK (getK (\<lambda>s. lba - data_start_lba (sb (cur_part s)))) (\<lambda>block_bitmap_idx.
                thenK (set_block_bit (unat block_bitmap_idx) 0)
               (thenK (bitmap_sync block_bitmap_idx BLOCK_BITMAP)
               (if block_idx < 12 then
                  modK (set_inode a (\<lambda>i. i\<lparr>i_sectors := (i_sectors i)[block_idx := 0]\<rparr>))
                else fltK Diverges)))
              else
                bindK (liftR (memcpy_at b (k * sizeof_dir_entry) (replicate (unat des) 0) (unat des))) (\<lambda>b.
                ide_write lba b 1))
           (thenK (assertK (\<lambda>s. i_size (inodes s a) \<ge> des))
           (thenK (modK (set_inode a (\<lambda>i. i\<lparr>i_size := i_size i - des\<rparr>)))
           (bindK (getK (\<lambda>s. inodes s a)) (\<lambda>i.
            thenK (inode_sync i io_buf)
                  (retK True)))))))))))"

text \<open>The sizes of the buffers at the two callers, \<^verbatim>\<open>sys_unlink\<close> and \<^verbatim>\<open>dir_remove\<close>, are two sectors.\<close>

definition delete_dir_entry :: "addr \<Rightarrow> u32 \<Rightarrow> nat \<Rightarrow> (fsys, bool) kop" where
  "delete_dir_entry pdir no io_buf =
     bindK (getK (\<lambda>s. dir_inode (dirs s pdir))) (\<lambda>a.
     bindK (getK (\<lambda>s. inodes s a)) (\<lambda>i.
     bindK (all_blocks i) (\<lambda>blocks.
     delete_blocks a no io_buf 0 blocks)))"

text \<open>The pass over one sector in \<^verbatim>\<open>dir_read\<close>: the entry to return, or the position reached.\<close>

fun next_entry :: "u8 list \<Rightarrow> u32 \<Rightarrow> u32 \<Rightarrow> nat \<Rightarrow> nat \<Rightarrow> u32 \<Rightarrow> (u32 + dir_entry) res" where
  "next_entry b des pos k 0 cur = Inr (Inl cur)"
| "next_entry b des pos k (Suc n) cur =
     (if f_type (entry_at b k) \<noteq> FT_UNKNOWN then
        if cur < pos then next_entry b des pos (k + 1) n (cur + des)
        else bindR (ASSERT (cur = pos)) (\<lambda>_. Inr (Inr (entry_at b k)))
      else next_entry b des pos (k + 1) n cur)"

fun read_dir_blocks :: "addr \<Rightarrow> u32 list \<Rightarrow> u32 \<Rightarrow> (fsys, dir_entry option) kop" where
  "read_dir_blocks d [] cur = retK None"
| "read_dir_blocks d (lba # blocks) cur =
     bindK (getK (\<lambda>s. (dir_pos (dirs s d), i_size (inodes s (dir_inode (dirs s d)))))) (\<lambda>(pos, size).
     if pos \<ge> size then retK None
     else if lba = 0 then read_dir_blocks d blocks cur
     else
       bindK (ide_read lba SECTOR_SIZE 1) (\<lambda>b.
       bindK (getK (\<lambda>s. (entrys_per_sec s, dir_entry_size (sb (cur_part s))))) (\<lambda>(n, des).
       bindK (liftR (next_entry b des pos 0 n cur)) (\<lambda>r.
       case r of
         Inl cur \<Rightarrow> read_dir_blocks d blocks cur
       | Inr e \<Rightarrow> thenK (modK (set_dir d (\<lambda>d. d\<lparr>dir_pos := dir_pos d + des\<rparr>))) (retK (Some e))))))"

definition dir_read :: "addr \<Rightarrow> (fsys, dir_entry option) kop" where
  "dir_read d =
     bindK (getK (\<lambda>s. inodes s (dir_inode (dirs s d)))) (\<lambda>i.
     bindK (all_blocks i) (\<lambda>blocks.
     read_dir_blocks d (if i_sectors i ! 12 \<noteq> 0 then blocks else take 12 blocks) 0))"

definition dir_is_empty :: "addr \<Rightarrow> (fsys, bool) kop" where
  "dir_is_empty d =
     getK (\<lambda>s. i_size (inodes s (dir_inode (dirs s d))) = dir_entry_size (sb (cur_part s)) * 2)"

definition dir_remove :: "addr \<Rightarrow> addr \<Rightarrow> (fsys, int) kop" where
  "dir_remove parent_dir child_dir =
     bindK (getK (\<lambda>s. inodes s (dir_inode (dirs s child_dir)))) (\<lambda>child.
     thenK (assertK (\<lambda>_. \<forall>k \<in> set [1..<13]. i_sectors child ! k = 0))
    (bindK heap_alloc (\<lambda>io_buf.
     if io_buf = NULL then retK (- 1)
     else
       bindK (delete_dir_entry parent_dir (i_no child) 1024) (\<lambda>_.
       bindK (getK (\<lambda>s. i_no (inodes s (dir_inode (dirs s child_dir))))) (\<lambda>no.
       thenK (inode_release no)
      (thenK (heap_free io_buf)
             (retK 0)))))))"

end
