(* ===== verification/Fs.thy ===== *)
theory Fs
  imports Dir Path
begin

section \<open>System calls of the file system (fs/fs.c, file_create of fs/file.c, descriptors of shell/pipe.c)\<close>

text \<open>
  A path is the list of its bytes without the terminating zero. Return values are those of the source as
  integers or as 32-bit words, -1 for failure. Messages are not modelled.
\<close>

subsection \<open>Walking a path\<close>

record path_search_record =
  searched_path :: "u8 list"
  parent_dir :: addr
  file_type :: u32

text \<open>\<^verbatim>\<open>strcat\<close> of a slash and of the name in the array onto \<^verbatim>\<open>searched_path\<close>: the name must end inside its array,
  the result with its zero must fit.\<close>

definition append_name :: "u8 list \<Rightarrow> u8 list \<Rightarrow> u8 list res" where
  "append_name path name =
     (let n = takeWhile (\<lambda>c. c \<noteq> 0) name; p = path @ [SLASH] @ n in
      if length n < length name \<and> length p < MAX_PATH_LEN then Inr p else Inl Out_Of_Bounds)"

definition is_root_path :: "u8 list \<Rightarrow> bool" where
  "is_root_path p \<longleftrightarrow> p = [SLASH] \<or> p = [SLASH, 46] \<or> p = [SLASH, 46, 46]"

text \<open>The loop of \<^verbatim>\<open>search_file\<close>. \<open>dir_e\<close> is \<open>None\<close> until an entry has been found: the variable is not
  initialised. Every turn but the last two consumes a byte of the path, so \<open>fuel\<close> is its length plus two.\<close>

fun search_loop :: "nat \<Rightarrow> u8 list option \<Rightarrow> u8 list \<Rightarrow> u32 \<Rightarrow> dir_entry option \<Rightarrow> path_search_record \<Rightarrow>
    (fsys, u32 \<times> path_search_record) kop" where
  "search_loop fuel sub_path name parent_inode_no dir_e r =
     (if name ! 0 = 0 then
        thenK (dir_close (parent_dir r))
       (bindK (dir_open parent_inode_no) (\<lambda>d.
        case dir_e of None \<Rightarrow> fltK Out_Of_Bounds
        | Some e \<Rightarrow> retK (de_i_no e, r\<lparr>parent_dir := d, file_type := FT_DIRECTORY\<rparr>)))
      else case fuel of
        0 \<Rightarrow> fltK Diverges
      | Suc n \<Rightarrow>
          thenK (assertK (\<lambda>_. length (searched_path r) < 512))
         (bindK (liftR (append_name (searched_path r) name)) (\<lambda>path.
          let r = r\<lparr>searched_path := path\<rparr> in
          bindK (search_dir_entry (parent_dir r) name) (\<lambda>found.
          case found of
            None \<Rightarrow> retK (- 1, r)
          | Some e \<Rightarrow>
              bindK (liftR (case sub_path of
                  None \<Rightarrow> Inr (None, replicate MAX_FILE_NAME_LEN 0)
                | Some q \<Rightarrow> bindR (path_parse q) (\<lambda>(nm, q'). bindR (store_name nm) (\<lambda>a. Inr (q', a))))) (\<lambda>(sub_path, name).
              if f_type e = FT_DIRECTORY then
                bindK (getK (\<lambda>s. i_no (inodes s (dir_inode (dirs s (parent_dir r)))))) (\<lambda>no.
                thenK (dir_close (parent_dir r))
               (bindK (dir_open (de_i_no e)) (\<lambda>d.
                search_loop n sub_path name no (Some e) (r\<lparr>parent_dir := d\<rparr>))))
              else if f_type e = FT_REGULAR then retK (de_i_no e, r\<lparr>file_type := FT_REGULAR\<rparr>)
              else search_loop n sub_path name parent_inode_no (Some e) r)))))"

declare search_loop.simps [simp del]

definition search_file :: "u8 list \<Rightarrow> (fsys, u32 \<times> path_search_record) kop" where
  "search_file pathname =
     bindK (getK root_dir) (\<lambda>root.
     if is_root_path pathname then
       retK (0, \<lparr>searched_path = [], parent_dir = root, file_type = FT_DIRECTORY\<rparr>)
     else
       thenK (assertK (\<lambda>_. pathname \<noteq> [] \<and> pathname ! 0 = SLASH \<and> length pathname > 1 \<and> length pathname < MAX_PATH_LEN))
      (bindK (liftR (bindR (path_parse (cstr pathname)) (\<lambda>(n, p). bindR (store_name n) (\<lambda>a. Inr (p, a))))) (\<lambda>(sub_path, name).
       search_loop (length pathname + 2) sub_path name 0 None
         \<lparr>searched_path = [], parent_dir = root, file_type = FT_UNKNOWN\<rparr>)))"

subsection \<open>Creating and opening files\<close>

text \<open>The rollback of \<^verbatim>\<open>file_create\<close>, entered at one of its three labels.\<close>

definition create_rollback :: "nat \<Rightarrow> nat \<Rightarrow> addr \<Rightarrow> u32 \<Rightarrow> addr \<Rightarrow> (fsys, int) kop" where
  "create_rollback rollback_step fd_idx new_file_inode inode_no io_buf =
     thenK (whenK (rollback_step \<ge> 3) (modK (set_file fd_idx (\<lambda>_. \<lparr>fd_pos = 0, fd_flag = 0, fd_inode = NULL\<rparr>))))
    (thenK (whenK (rollback_step \<ge> 2) (heap_free new_file_inode))
    (thenK (set_inode_bit (unat inode_no) 0)
    (thenK (heap_free io_buf)
           (retK (- 1)))))"

definition file_create :: "addr \<Rightarrow> u8 list \<Rightarrow> u32 \<Rightarrow> (fsys, int) kop" where
  "file_create parent name flag =
     bindK heap_alloc (\<lambda>io_buf.
     if io_buf = NULL then retK (- 1)
     else bindK inode_bitmap_alloc (\<lambda>inode_no.
     if inode_no = - 1 then retK (- 1)
     else bindK heap_alloc (\<lambda>new_file_inode.
     if new_file_inode = NULL then create_rollback 1 0 new_file_inode inode_no io_buf
     else
       thenK (modK (set_inode new_file_inode (\<lambda>_. inode_init inode_no)))
      (bindK get_free_slot_in_global (\<lambda>fd_idx.
       if fd_idx = - 1 then create_rollback 2 0 new_file_inode inode_no io_buf
       else
         thenK (modK (set_file (nat fd_idx) (\<lambda>_. \<lparr>fd_pos = 0, fd_flag = flag, fd_inode = new_file_inode\<rparr>)))
        (thenK (modK (set_inode new_file_inode (\<lambda>i. i\<lparr>write_deny := False\<rparr>)))
        (bindK (liftR (create_dir_entry name inode_no FT_REGULAR)) (\<lambda>new_dir_entry.
         bindK (sync_dir_entry parent new_dir_entry) (\<lambda>ok.
         if \<not> ok then create_rollback 3 (nat fd_idx) new_file_inode inode_no io_buf
         else
           bindK (getK (\<lambda>s. inodes s (dir_inode (dirs s parent)))) (\<lambda>i.
           thenK (inode_sync i 1024)
          (bindK (getK (\<lambda>s. inodes s new_file_inode)) (\<lambda>i.
           thenK (inode_sync i 1024)
          (thenK (bitmap_sync inode_no INODE_BITMAP)
          (thenK (modK (set_part (\<lambda>p. p\<lparr>open_inodes := new_file_inode # open_inodes p\<rparr>)))
          (thenK (modK (set_inode new_file_inode (\<lambda>i. i\<lparr>i_open_cnts := 1\<rparr>)))
          (thenK (heap_free io_buf)
                 (pcb_fd_install fd_idx)))))))))))))))))"

text \<open>\<^verbatim>\<open>strrchr(path, '/') + 1\<close>.\<close>

definition base_name :: "u8 list \<Rightarrow> u8 list" where
  "base_name p = rev (takeWhile (\<lambda>c. c \<noteq> SLASH) (rev p))"

definition sys_open :: "u8 list \<Rightarrow> u32 \<Rightarrow> (fsys, int) kop" where
  "sys_open pathname flags =
     (if pathname = [] then fltK Out_Of_Bounds
      else if last pathname = SLASH then retK (- 1)
      else
        thenK (assertK (\<lambda>_. flags \<le> 7))
       (bindK (liftR (path_depth_cnt (cstr pathname))) (\<lambda>pathname_depth.
        bindK (search_file pathname) (\<lambda>(inode_no, r).
        let found = (inode_no \<noteq> - 1) in
        if file_type r = FT_DIRECTORY then thenK (dir_close (parent_dir r)) (retK (- 1))
        else
          bindK (liftR (path_depth_cnt (cstr (searched_path r)))) (\<lambda>path_searched_depth.
          if pathname_depth \<noteq> path_searched_depth then thenK (dir_close (parent_dir r)) (retK (- 1))
          else if \<not> found \<and> flags AND O_CREAT = 0 then thenK (dir_close (parent_dir r)) (retK (- 1))
          else if found \<and> flags AND O_CREAT \<noteq> 0 then thenK (dir_close (parent_dir r)) (retK (- 1))
          else if flags AND O_CREAT \<noteq> 0 then
            bindK (file_create (parent_dir r) (base_name pathname) flags) (\<lambda>fd.
            thenK (dir_close (parent_dir r)) (retK fd))
          else file_open inode_no flags)))))"

subsection \<open>Descriptors\<close>

definition fd_local2global :: "nat \<Rightarrow> (fsys, nat) kop" where
  "fd_local2global local_fd =
     bindK (\<lambda>s. liftR (rd (fd_table s) local_fd) s) (\<lambda>global_fd.
     thenK (assertK (\<lambda>_. global_fd \<ge> 0 \<and> global_fd < int MAX_FILE_OPEN))
           (retK (nat global_fd)))"

definition PIPE_FLAG :: u32 where "PIPE_FLAG = 0xFFFF"

definition is_pipe :: "nat \<Rightarrow> (fsys, bool) kop" where
  "is_pipe local_fd =
     bindK (fd_local2global local_fd) (\<lambda>global_fd.
     getK (\<lambda>s. fd_flag (file_table s ! global_fd) = PIPE_FLAG))"

text \<open>The queue that \<open>sys_pipe\<close> initialises in the new page is the one of the theory of ring buffers.\<close>

definition sys_pipe :: "(fsys, int \<times> int \<times> int) kop" where
  "sys_pipe =
     bindK get_free_slot_in_global (\<lambda>global_fd.
     if global_fd = - 1 then fltK Out_Of_Bounds
     else
       bindK (getK in_kernel) (\<lambda>k.
       thenK (modK (\<lambda>s. s\<lparr>in_kernel := True\<rparr>))
      (bindK heap_alloc (\<lambda>page.
       thenK (modK (\<lambda>s. s\<lparr>in_kernel := k\<rparr>))
      (thenK (modK (set_file (nat global_fd) (\<lambda>f. f\<lparr>fd_inode := page\<rparr>)))
      (thenK (derefK page)
      (thenK (modK (set_file (nat global_fd) (\<lambda>f. f\<lparr>fd_flag := PIPE_FLAG, fd_pos := 2\<rparr>)))
      (bindK (pcb_fd_install global_fd) (\<lambda>fd0.
       bindK (pcb_fd_install global_fd) (\<lambda>fd1.
       retK (0, fd0, fd1)))))))))))"

definition sys_fd_redirect :: "nat \<Rightarrow> nat \<Rightarrow> (fsys, unit) kop" where
  "sys_fd_redirect old_local_fd new_local_fd =
     bindK (if new_local_fd < 3 then retK (int new_local_fd) else (\<lambda>s. liftR (rd (fd_table s) new_local_fd) s)) (\<lambda>g.
     bindK (\<lambda>s. liftR (wr (fd_table s) old_local_fd g) s) (\<lambda>t.
     modK (\<lambda>s. s\<lparr>fd_table := t\<rparr>)))"

definition sys_close :: "int \<Rightarrow> (fsys, int) kop" where
  "sys_close fd =
     (if fd > 2 then
        bindK (fd_local2global (nat fd)) (\<lambda>global_fd.
        bindK (is_pipe (nat fd)) (\<lambda>p.
        bindK
         (if p then
            thenK (modK (set_file global_fd (\<lambda>f. f\<lparr>fd_pos := fd_pos f - 1\<rparr>)))
           (thenK (\<lambda>s. whenK (fd_pos (file_table s ! global_fd) = 0)
              (thenK (modK (\<lambda>s. s\<lparr>live := remove1 (fd_inode (file_table s ! global_fd), True) (live s)\<rparr>))
                     (modK (set_file global_fd (\<lambda>f. f\<lparr>fd_inode := NULL\<rparr>)))) s)
              (retK 0))
          else file_close global_fd) (\<lambda>ret.
        bindK (\<lambda>s. liftR (wr (fd_table s) (nat fd) (- 1)) s) (\<lambda>t.
        thenK (modK (\<lambda>s. s\<lparr>fd_table := t\<rparr>)) (retK ret)))))
      else retK (- 1))"

text \<open>\<open>offset\<close> and the positions are 32-bit values read as signed.\<close>

definition sys_lseek :: "int \<Rightarrow> u32 \<Rightarrow> nat \<Rightarrow> (fsys, u32) kop" where
  "sys_lseek fd offset whence =
     (if fd < 0 then retK (- 1)
      else
        thenK (assertK (\<lambda>_. whence > 0 \<and> whence < 4))
       (bindK (fd_local2global (nat fd)) (\<lambda>g.
        bindK (getK (\<lambda>s. file_table s ! g)) (\<lambda>pf.
        bindK (getK (\<lambda>s. i_size (inodes s (fd_inode pf)))) (\<lambda>file_size.
        let new_pos = (if whence = 1 then offset else if whence = 2 then fd_pos pf + offset else file_size + offset) in
        if sint new_pos < 0 \<or> sint new_pos > sint (file_size - 1) then retK (- 1)
        else thenK (modK (set_file g (\<lambda>f. f\<lparr>fd_pos := new_pos\<rparr>))) (retK new_pos))))))"

subsection \<open>Removing files, directories\<close>

definition sys_unlink :: "u8 list \<Rightarrow> (fsys, int) kop" where
  "sys_unlink pathname =
     thenK (assertK (\<lambda>_. length pathname < MAX_PATH_LEN))
    (bindK (search_file pathname) (\<lambda>(inode_no, r).
     thenK (assertK (\<lambda>_. inode_no \<noteq> 0))
    (if inode_no = - 1 then thenK (dir_close (parent_dir r)) (retK (- 1))
     else if file_type r = FT_DIRECTORY then thenK (dir_close (parent_dir r)) (retK (- 1))
     else
       bindK (getK (\<lambda>s. \<exists>f \<in> set (file_table s). fd_inode f \<noteq> NULL \<and> i_no (inodes s (fd_inode f)) = inode_no)) (\<lambda>in_use.
       if in_use then thenK (dir_close (parent_dir r)) (retK (- 1))
       else bindK heap_alloc (\<lambda>io_buf.
         if io_buf = NULL then thenK (dir_close (parent_dir r)) (retK (- 1))
         else
           bindK (delete_dir_entry (parent_dir r) inode_no 1024) (\<lambda>_.
           thenK (inode_release inode_no)
          (thenK (heap_free io_buf)
          (thenK (dir_close (parent_dir r))
                 (retK 0)))))))))"

text \<open>The two entries of a new directory at the start of a cleared buffer.\<close>

definition dot_entries :: "u32 \<Rightarrow> u32 \<Rightarrow> u8 list" where
  "dot_entries self parent =
     entry_bytes \<lparr>filename = 46 # replicate 15 0, de_i_no = self, f_type = FT_DIRECTORY\<rparr> @
     entry_bytes \<lparr>filename = 46 # 46 # replicate 14 0, de_i_no = parent, f_type = FT_DIRECTORY\<rparr>"

text \<open>The rollback of \<^verbatim>\<open>sys_mkdir\<close>: from label 2 on the inode number is given back.\<close>

definition mkdir_rollback :: "nat \<Rightarrow> u32 \<Rightarrow> path_search_record \<Rightarrow> addr \<Rightarrow> (fsys, int) kop" where
  "mkdir_rollback rollback_step inode_no r io_buf =
     thenK (whenK (rollback_step \<ge> 2) (set_inode_bit (unat inode_no) 0))
    (thenK (dir_close (parent_dir r))
    (thenK (heap_free io_buf)
           (retK (- 1))))"

definition sys_mkdir :: "u8 list \<Rightarrow> (fsys, int) kop" where
  "sys_mkdir pathname =
     bindK heap_alloc (\<lambda>io_buf.
     if io_buf = NULL then retK (- 1)
     else bindK (search_file pathname) (\<lambda>(inode_no, r).
     if inode_no \<noteq> - 1 then mkdir_rollback 1 inode_no r io_buf
     else
       bindK (liftR (path_depth_cnt (cstr pathname))) (\<lambda>pathname_depth.
       bindK (liftR (path_depth_cnt (cstr (searched_path r)))) (\<lambda>path_searched_depth.
       if pathname_depth \<noteq> path_searched_depth then mkdir_rollback 1 inode_no r io_buf
       else bindK inode_bitmap_alloc (\<lambda>inode_no.
       if inode_no = - 1 then mkdir_rollback 1 inode_no r io_buf
       else bindK block_bitmap_alloc (\<lambda>block_lba.
       if block_lba = - 1 then mkdir_rollback 2 inode_no r io_buf
       else bindK (getK (\<lambda>s. sb (cur_part s))) (\<lambda>b.
         thenK (assertK (\<lambda>_. block_lba - data_start_lba b \<noteq> 0))
        (thenK (bitmap_sync (block_lba - data_start_lba b) BLOCK_BITMAP)
        (bindK (getK (\<lambda>s. i_no (inodes s (dir_inode (dirs s (parent_dir r)))))) (\<lambda>parent_no.
         thenK (ide_write block_lba (dot_entries inode_no parent_no @ replicate (1024 - 2 * sizeof_dir_entry) 0) 1)
        (let new_dir_inode = (inode_init inode_no)\<lparr>i_sectors := (replicate 13 0)[0 := block_lba], i_size := 2 * dir_entry_size b\<rparr> in
         bindK (liftR (create_dir_entry (base_name (searched_path r)) inode_no FT_DIRECTORY)) (\<lambda>new_dir_entry.
         bindK (sync_dir_entry (parent_dir r) new_dir_entry) (\<lambda>ok.
         if \<not> ok then mkdir_rollback 2 inode_no r io_buf
         else bindK (getK (\<lambda>s. inodes s (dir_inode (dirs s (parent_dir r))))) (\<lambda>i.
           thenK (inode_sync i 1024)
          (thenK (inode_sync new_dir_inode 1024)
          (thenK (bitmap_sync inode_no INODE_BITMAP)
          (thenK (heap_free io_buf)
          (thenK (dir_close (parent_dir r))
                 (retK 0)))))))))))))))))))"

text \<open>\<^verbatim>\<open>name[0] == '/' && (name[1] == 0 || name[0] == '.')\<close>: only \<^verbatim>\<open>/\<close> itself passes.\<close>

definition sys_opendir :: "u8 list \<Rightarrow> (fsys, addr) kop" where
  "sys_opendir name =
     thenK (assertK (\<lambda>_. length name < MAX_PATH_LEN))
    (if name = [SLASH] then getK root_dir
     else
       bindK (search_file name) (\<lambda>(inode_no, r).
       bindK (if inode_no \<noteq> - 1 \<and> file_type r = FT_DIRECTORY then dir_open inode_no else retK NULL) (\<lambda>ret.
       thenK (dir_close (parent_dir r)) (retK ret))))"

definition sys_closedir :: "addr \<Rightarrow> (fsys, int) kop" where
  "sys_closedir d = (if d \<noteq> NULL then thenK (dir_close d) (retK 0) else retK (- 1))"

definition sys_readdir :: "addr \<Rightarrow> (fsys, dir_entry option) kop" where
  "sys_readdir d = thenK (assertK (\<lambda>_. d \<noteq> NULL)) (dir_read d)"

definition sys_rewinddir :: "addr \<Rightarrow> (fsys, unit) kop" where
  "sys_rewinddir d = modK (set_dir d (\<lambda>d. d\<lparr>dir_pos := 0\<rparr>))"

definition sys_rmdir :: "u8 list \<Rightarrow> (fsys, int) kop" where
  "sys_rmdir pathname =
     bindK (search_file pathname) (\<lambda>(inode_no, r).
     thenK (assertK (\<lambda>_. inode_no \<noteq> 0))
    (bindK
      (if inode_no = - 1 then retK (- 1)
       else if file_type r = FT_REGULAR then retK (- 1)
       else
         bindK (dir_open inode_no) (\<lambda>d.
         bindK (dir_is_empty d) (\<lambda>empty.
         bindK
          (if \<not> empty then retK (- 1)
           else bindK (dir_remove (parent_dir r) d) (\<lambda>v. retK (if v = 0 then 0 else - 1))) (\<lambda>retval.
         thenK (dir_close d) (retK retval))))) (\<lambda>retval.
     thenK (dir_close (parent_dir r)) (retK retval))))"

subsection \<open>The working directory\<close>

definition get_parent_dir_inode_nr :: "u32 \<Rightarrow> (fsys, u32) kop" where
  "get_parent_dir_inode_nr child_inode_nr =
     bindK (inode_open child_inode_nr) (\<lambda>a.
     bindK (getK (\<lambda>s. i_sectors (inodes s a) ! 0)) (\<lambda>block_lba.
     thenK (assertK (\<lambda>s. block_lba \<ge> data_start_lba (sb (cur_part s))))
    (thenK (inode_close a)
    (bindK (ide_read block_lba SECTOR_SIZE 1) (\<lambda>b.
     thenK (assertK (\<lambda>_. de_i_no (entry_at b 1) < 4096 \<and> f_type (entry_at b 1) = FT_DIRECTORY))
           (retK (de_i_no (entry_at b 1))))))))"

text \<open>The name of the entry with the given inode number in one sector, and in the blocks of a directory.\<close>

fun name_of_inode :: "u8 list \<Rightarrow> u32 \<Rightarrow> nat \<Rightarrow> nat \<Rightarrow> u8 list option" where
  "name_of_inode b no k 0 = None"
| "name_of_inode b no k (Suc n) =
     (if de_i_no (entry_at b k) = no then Some (drop (k * sizeof_dir_entry) b) else name_of_inode b no (k + 1) n)"

fun child_name_blocks :: "u32 \<Rightarrow> u32 list \<Rightarrow> (fsys, u8 list option) kop" where
  "child_name_blocks no [] = retK None"
| "child_name_blocks no (lba # blocks) =
     (if lba = 0 then child_name_blocks no blocks
      else bindK (ide_read lba SECTOR_SIZE 1) (\<lambda>b.
        bindK (getK entrys_per_sec) (\<lambda>n.
        case name_of_inode b no 0 n of Some nm \<Rightarrow> retK (Some nm) | None \<Rightarrow> child_name_blocks no blocks)))"

definition get_child_dir_name :: "u32 \<Rightarrow> u32 \<Rightarrow> u8 list \<Rightarrow> (fsys, u8 list option) kop" where
  "get_child_dir_name p_inode_nr c_inode_nr path =
     bindK (inode_open p_inode_nr) (\<lambda>a.
     bindK (getK (\<lambda>s. inodes s a)) (\<lambda>i.
     bindK (all_blocks i) (\<lambda>blocks.
     thenK (inode_close a)
    (bindK (child_name_blocks c_inode_nr (if i_sectors i ! 12 \<noteq> 0 then blocks else take 12 blocks)) (\<lambda>r.
     case r of None \<Rightarrow> retK None
     | Some nm \<Rightarrow> bindK (liftR (append_name path nm)) (\<lambda>p. retK (Some p)))))))"

text \<open>The way up to the root, child names first. Every turn makes the path longer by at least one byte and
  the path must fit 512 bytes, so 512 turns are enough.\<close>

fun cwd_loop :: "nat \<Rightarrow> u32 \<Rightarrow> u8 list \<Rightarrow> (fsys, u8 list option) kop" where
  "cwd_loop fuel child path =
     (if child = 0 then retK (Some path)
      else case fuel of 0 \<Rightarrow> fltK Diverges
      | Suc n \<Rightarrow>
          bindK (get_parent_dir_inode_nr child) (\<lambda>parent.
          bindK (get_child_dir_name parent child path) (\<lambda>r.
          case r of None \<Rightarrow> retK None | Some path \<Rightarrow> cwd_loop n parent path)))"

declare cwd_loop.simps [simp del]

text \<open>The loop that turns \<^verbatim>\<open>/c/b/a\<close> into \<^verbatim>\<open>/a/b/c\<close>: from the last slash on, again and again.\<close>

function reverse_path :: "u8 list \<Rightarrow> u8 list" where
  "reverse_path p =
     (if SLASH \<in> set p then SLASH # base_name p @ reverse_path (take (length p - length (base_name p) - 1) p) else [])"
  by pat_completeness auto
termination
  by (relation "measure length") (auto dest: length_pos_if_in_set)

declare reverse_path.simps [simp del]

text \<open>\<open>buf_size\<close> is the size of the caller's buffer; \<open>None\<close> is \<^verbatim>\<open>NULL\<close>, the value else is the string in the buffer.\<close>

definition sys_getcwd :: "nat \<Rightarrow> (fsys, u8 list option) kop" where
  "sys_getcwd buf_size =
     bindK heap_alloc (\<lambda>io_buf.
     if io_buf = NULL then retK None
     else
       bindK (getK cwd_inode_nr) (\<lambda>child.
       thenK (assertK (\<lambda>_. child < 4096))
      (if child = 0 then
         if buf_size < 2 then fltK Out_Of_Bounds else thenK (heap_free io_buf) (retK (Some [SLASH]))
       else
         bindK (cwd_loop MAX_PATH_LEN child []) (\<lambda>r.
         case r of
           None \<Rightarrow> thenK (heap_free io_buf) (retK None)
         | Some path \<Rightarrow>
             thenK (assertK (\<lambda>_. length path \<le> buf_size))
            (if length path = buf_size then fltK Out_Of_Bounds
             else thenK (heap_free io_buf) (retK (Some (reverse_path path))))))))"

definition sys_chdir :: "u8 list \<Rightarrow> (fsys, int) kop" where
  "sys_chdir path =
     bindK (search_file path) (\<lambda>(inode_no, r).
     bindK
      (if inode_no \<noteq> - 1 \<and> file_type r = FT_DIRECTORY then
         thenK (modK (\<lambda>s. s\<lparr>cwd_inode_nr := inode_no\<rparr>)) (retK 0)
       else retK (- 1)) (\<lambda>ret.
     thenK (dir_close (parent_dir r)) (retK ret)))"

record stat =
  st_ino :: u32
  st_size :: u32
  st_filetype :: u32

definition sys_stat :: "u8 list \<Rightarrow> (fsys, stat option) kop" where
  "sys_stat path =
     (if is_root_path path then
        getK (\<lambda>s. Some \<lparr>st_ino = 0, st_size = i_size (inodes s (dir_inode (dirs s (root_dir s)))), st_filetype = FT_DIRECTORY\<rparr>)
      else
        bindK (search_file path) (\<lambda>(inode_no, r).
        bindK
         (if inode_no \<noteq> - 1 then
            bindK (inode_open inode_no) (\<lambda>a.
            bindK (getK (\<lambda>s. i_size (inodes s a))) (\<lambda>size.
            thenK (inode_close a)
                  (retK (Some \<lparr>st_ino = inode_no, st_size = size, st_filetype = file_type r\<rparr>))))
          else retK None) (\<lambda>ret.
        thenK (dir_close (parent_dir r)) (retK ret))))"

subsection \<open>Properties\<close>

lemma fd_local2global_run:
  assumes "fs_ok s" "l < MAX_FILES_OPEN_PER_PROC" "fd_table s ! l = int fd" "fd < MAX_FILE_OPEN"
  shows "fd_local2global l s = Ret fd s"
  using assms fs_okD(5) [OF assms(1)] by (simp add: fd_local2global_def rd_def)

lemma sint_small: "sint (w :: u32) = int (unat w)" if "unat w < 2 ^ 31"
proof -
  have "int (unat w) < int (2 ^ 31)"
    using that by (simp only: of_nat_less_iff)
  then have "uint w < 2 ^ 31"
    by simp
  moreover have "- (2 ^ 31) \<le> uint w"
    by (rule order_trans [of _ 0]) simp_all
  ultimately have "signed_take_bit 31 (uint w) = uint w"
    by (intro signed_take_bit_int_eq_self)
  then show ?thesis
    by (simp add: sint_uint)
qed

lemma sys_lseek_set:
  assumes ok: "fs_ok s" and fd: "l < MAX_FILES_OPEN_PER_PROC" "fd_table s ! l = int fd" "fd < MAX_FILE_OPEN"
    and pos: "unat pos < unat (i_size (inodes s (fd_inode (file_table s ! fd))))"
    and lim: "unat (i_size (inodes s (fd_inode (file_table s ! fd)))) < 2 ^ 31"
  shows "sys_lseek (int l) pos 1 s = Ret pos (set_file fd (\<lambda>f. f\<lparr>fd_pos := pos\<rparr>) s)"
proof -
  let ?z = "i_size (inodes s (fd_inode (file_table s ! fd)))"
  have "unat (?z - 1) = unat ?z - 1"
    using pos by (intro unat_minus_one) auto
  then have "sint pos = int (unat pos)" "sint (?z - 1) = int (unat ?z) - 1"
    using pos lim by (auto simp: sint_small of_nat_diff)
  then have "\<not> sint pos < 0" "\<not> sint pos > sint (?z - 1)"
    using pos by linarith+
  then show ?thesis
    using fd_local2global_run [OF ok fd] by (simp add: sys_lseek_def Let_def)
qed

text \<open>C7: What is written to a file is read back: after a write, a seek to the old end of the file and a read of as many
  bytes give exactly the bytes written, also across the border between direct and indirect blocks.\<close>

theorem write_seek_read:
  assumes c: "can_append s fd (length src)" and a: "a = fd_inode (file_table s ! fd)"
    and fd: "l < MAX_FILES_OPEN_PER_PROC" "fd_table s ! l = int fd"
    and src: "src \<noteq> []" and lim: "(unat (i_size (inodes s a)) + length src) div SECTOR_SIZE < 139"
    and g: "grants s = p1 # p2 # p3 # p4 # gs" "NULL \<notin> {p1, p2, p3, p4}"
    and slot: "slot_cnt (unat (i_no (inodes s a)) mod 256) = 1"
  shows "\<exists>s'. bindK (file_write fd src (of_nat (length src))) (\<lambda>_.
      bindK (sys_lseek (int l) (i_size (inodes s a)) 1) (\<lambda>_. file_read fd (of_nat (length src)))) s =
    Ret (of_nat (length src), src) s'"
proof -
  let ?sz = "unat (i_size (inodes s a))" and ?n = "length src"
  note ca = can_appendD [OF c a] and u = unat_limit [OF can_appendD(4) [OF c a]]
  obtain s1 N where w: "file_write fd src (of_nat ?n) s = Ret (of_nat ?n) s1" "appended s fd a src N s1"
    using file_write_run [OF c a g(1)] g(2) slot by auto
  have s1: "fs_ok s1" "file_ok s1 (inodes s1 a)" "file_bytes s1 (inodes s1 a) = file_bytes s (inodes s a) @ src" "grants s1 = p3 # p4 # gs"
    "fd_table s1 = fd_table s" "file_table s1 = (file_table s)[fd := (file_table s ! fd)\<lparr>fd_pos := i_size (inodes s1 a) - 1\<rparr>]"
    using w(2) g(1) by (simp_all add: appended_def)
  have fi: "fd_inode (file_table s1 ! fd) = a" "fd < MAX_FILE_OPEN" "fd < length (file_table s1)"
    using s1(6) ca(2) a fs_okD(4) [OF ca(1)] by simp_all
  have "length (file_bytes s1 (inodes s1 a)) = ?sz + ?n"
    using s1(3) by (simp add: file_bytes_def)
  then have sz: "unat (i_size (inodes s1 a)) = ?sz + ?n"
    by (simp add: file_bytes_def)
  define s2 where "s2 = set_file fd (\<lambda>f. f\<lparr>fd_pos := i_size (inodes s a)\<rparr>) s1"
  have "sys_lseek (int l) (i_size (inodes s a)) 1 s1 = Ret (i_size (inodes s a)) s2"
    unfolding s2_def using fd s1(5) fi sz src ca(4)
    by (intro sys_lseek_set [OF s1(1)]) (simp_all add: SECTOR_SIZE_def)
  moreover have "file_read fd (of_nat ?n) s2 = Ret (of_nat ?n, take ?n (drop ?sz (file_bytes s2 (inodes s2 a))))
      (s2\<lparr>grants := gs, file_table := (file_table s2)[fd := (file_table s2 ! fd)\<lparr>fd_pos := of_nat (?sz + ?n)\<rparr>]\<rparr>)"
  proof (rule file_read_run)
    show "fs_ok s2"
      using fs_ok_cong [OF s1(1), of s2] fs_okD(1) [OF s1(1)] by (simp add: s2_def)
    show "file_ok s2 (inodes s2 a)"
      using s1(2) by (simp add: s2_def file_ok_def blocks_ok_def)
  qed (use fi s1(4) g(2) sz src u lim ca(4) in \<open>auto simp: s2_def SECTOR_SIZE_def\<close>)
  moreover have "file_bytes s2 (inodes s2 a) = file_bytes s (inodes s a) @ src"
    using s1(3) by (simp add: s2_def file_bytes_def)
  ultimately show ?thesis
    using w(1) by (simp add: file_bytes_def)
qed

theorem write_seek_read_witness:
  "\<exists>s'. bindK (file_write 3 [104, 105] 2) (\<lambda>_. bindK (sys_lseek 3 0 1) (\<lambda>_. file_read 3 2)) demo_fs = Ret (2, [104, 105]) s'"
proof -
  have d: "fd_inode (file_table demo_fs ! 3) = 0x1000" "grants demo_fs = [0x2000, 0x3000, 0x4000, 0x5000]" "i_no (inodes demo_fs 0x1000) = 1"
    "i_size (inodes demo_fs 0x1000) = 0" "slot_cnt 1 = 1" "fd_table demo_fs ! 3 = int 3" "3 < MAX_FILES_OPEN_PER_PROC"
    by (simp_all add: demo_fs_def inode_init_def slot_cnt_def slot_off_def sizeof_inode_def SECTOR_SIZE_def MAX_FILES_OPEN_PER_PROC_def)
  have c: "can_append demo_fs 3 (length [104, 105 :: u8])"
    by (rule demo_can_append) simp
  show ?thesis
    using write_seek_read [OF c d(1) [symmetric] d(7,6) _ _ d(2)] d(3-5) by (simp add: SECTOR_SIZE_def)
qed

end
