(* ===== verification/Mount.thy ===== *)
theory Mount
  imports Fs
begin

section \<open>Formatting and mounting a partition (partition_format, mount_partition, filesys_init of fs/fs.c)\<close>

text \<open>
  The machine has two disks on one channel, as the repository's configuration of the emulator has, and the
  disk with the partitions is the second one.
\<close>

subsection \<open>Operations\<close>

text \<open>The 52 bytes of a super block that carry data; the pad is not initialised by the source.\<close>

definition sb_bytes :: "super_block \<Rightarrow> u8 list" where
  "sb_bytes b = bytes_of [magic b, sb_sec_cnt b, inode_cnt b, part_lba_base b, block_bitmap_lba b, block_bitmap_sects b,
     inode_bitmap_lba b, inode_bitmap_sects b, inode_table_lba b, inode_table_sects b, data_start_lba b, root_inode_no b,
     dir_entry_size b]"

definition sb_of :: "u8 list \<Rightarrow> super_block" where
  "sb_of bs =
     (let w = (\<lambda>i. word_at bs (4 * i)) in
      \<lparr>magic = w 0, sb_sec_cnt = w 1, inode_cnt = w 2, part_lba_base = w 3, block_bitmap_lba = w 4,
       block_bitmap_sects = w 5, inode_bitmap_lba = w 6, inode_bitmap_sects = w 7, inode_table_lba = w 8,
       inode_table_sects = w 9, data_start_lba = w 10, root_inode_no = w 11, dir_entry_size = w 12\<rparr>)"

definition SUPER_MAGIC :: u32 where "SUPER_MAGIC = 0x19590318"

definition div_round_up32 :: "u32 \<Rightarrow> u32 \<Rightarrow> u32" where
  "div_round_up32 x step = (x + step - 1) div step"

text \<open>The layout \<^verbatim>\<open>partition_format\<close> computes: the super block and the number of bits of the block bitmap.\<close>

definition format_layout :: "u32 \<Rightarrow> u32 \<Rightarrow> super_block \<times> u32" where
  "format_layout start cnt =
     (let inode_bitmap_sects = div_round_up32 4096 4096;
          inode_table_sects = div_round_up32 (of_nat sizeof_inode * 4096) 512;
          used_sects = 1 + 1 + inode_bitmap_sects + inode_table_sects;
          free_sects = cnt - used_sects;
          block_bitmap_bit_len = free_sects - div_round_up32 free_sects 4096;
          block_bitmap_sects = div_round_up32 block_bitmap_bit_len 4096
      in (\<lparr>magic = SUPER_MAGIC, sb_sec_cnt = cnt, inode_cnt = 4096, part_lba_base = start,
           block_bitmap_lba = start + 2, block_bitmap_sects = block_bitmap_sects,
           inode_bitmap_lba = start + 2 + block_bitmap_sects, inode_bitmap_sects = inode_bitmap_sects,
           inode_table_lba = start + 2 + block_bitmap_sects + inode_bitmap_sects, inode_table_sects = inode_table_sects,
           data_start_lba = start + 2 + block_bitmap_sects + inode_bitmap_sects + inode_table_sects,
           root_inode_no = 0, dir_entry_size = of_nat sizeof_dir_entry\<rparr>, block_bitmap_bit_len))"

text \<open>The loop that clears the bits \<open>bit_idx\<close> to \<open>last\<close> of a byte.\<close>

fun clear_bits :: "u8 \<Rightarrow> nat \<Rightarrow> nat \<Rightarrow> u8" where
  "clear_bits v bit_idx 0 = v"
| "clear_bits v bit_idx (Suc n) = clear_bits (v AND NOT (push_bit bit_idx 1)) (bit_idx + 1) n"

text \<open>The block bitmap as it is written: bit 0 for the root directory, the rest of the last sector taken. The loop
  runs while \<^verbatim>\<open>bit_idx <= block_bitmap_last_bit\<close>.\<close>

definition format_block_bitmap :: "nat \<Rightarrow> nat \<Rightarrow> u8 list res" where
  "format_block_bitmap buf_size bit_len =
     bindR (wr (replicate buf_size (0 :: u8)) 0 1) (\<lambda>buf.
     let last_byte = bit_len div 8;
         last_bit = bit_len mod 8;
         last_size = SECTOR_SIZE - last_byte mod SECTOR_SIZE
     in
     bindR (memcpy_at buf last_byte (replicate last_size 0xff) last_size) (\<lambda>buf.
     bindR (rd buf last_byte) (\<lambda>v.
     wr buf last_byte (clear_bits v 0 (last_bit + 1)))))"

definition partition_format :: "u8 list \<Rightarrow> u32 \<Rightarrow> u32 \<Rightarrow> (fsys, unit) kop" where
  "partition_format pad start cnt =
     (let (b, bit_len) = format_layout start cnt;
          sects = max (max (unat (block_bitmap_sects b)) (unat (inode_bitmap_sects b))) (unat (inode_table_sects b));
          buf_size = sects * SECTOR_SIZE;
          root = \<lparr>i_no = 0, i_size = dir_entry_size b * 2, i_open_cnts = 0, write_deny = False,
                  i_sectors = data_start_lba b # replicate 12 0\<rparr>
      in
      thenK (ide_write (start + 1) (sb_bytes b @ pad) 1)
     (bindK heap_alloc (\<lambda>buf.
      thenK (derefK buf)
     (bindK (liftR (format_block_bitmap buf_size (unat bit_len))) (\<lambda>bs.
      thenK (ide_write (block_bitmap_lba b) bs (unat (block_bitmap_sects b)))
     (thenK (ide_write (inode_bitmap_lba b) (1 # replicate (buf_size - 1) 0) (unat (inode_bitmap_sects b)))
     (thenK (ide_write (inode_table_lba b) (inode_bytes root @ replicate (buf_size - sizeof_inode) 0) (unat (inode_table_sects b)))
     (thenK (ide_write (data_start_lba b) (dot_entries 0 0 @ replicate (buf_size - 2 * sizeof_dir_entry) 0) 1)
            (heap_free buf)))))))))"

text \<open>A partition of the list: its name in an array of eight bytes, its first sector and its size. The callback
  returns true when the name is the wanted one; \<open>sb_buf\<close> is not given back.\<close>

definition mount_partition :: "u8 list \<times> u32 \<times> u32 \<Rightarrow> u8 list \<Rightarrow> (fsys, bool) kop" where
  "mount_partition part part_name =
     (case part of (name, start, cnt) \<Rightarrow>
      bindK (liftR (streq name (cstr part_name))) (\<lambda>same.
      if \<not> same then retK False
      else
        bindK heap_alloc (\<lambda>sb_buf.
        bindK heap_alloc (\<lambda>sb_mem.
        thenK (assertK (\<lambda>_. sb_mem \<noteq> NULL))
       (thenK (derefK sb_buf)
       (bindK (ide_read (start + 1) SECTOR_SIZE 1) (\<lambda>bs.
        let b = sb_of bs in
        bindK heap_alloc (\<lambda>block_bits.
        thenK (assertK (\<lambda>_. block_bits \<noteq> NULL))
       (bindK (ide_read (block_bitmap_lba b) (unat (block_bitmap_sects b) * SECTOR_SIZE) (unat (block_bitmap_sects b))) (\<lambda>bb.
        bindK heap_alloc (\<lambda>inode_bits.
        thenK (assertK (\<lambda>_. inode_bits \<noteq> NULL))
       (bindK (ide_read (inode_bitmap_lba b) (unat (inode_bitmap_sects b) * SECTOR_SIZE) (unat (inode_bitmap_sects b))) (\<lambda>ib.
        thenK (modK (\<lambda>s. s\<lparr>cur_part :=
          \<lparr>start_lba = start, sec_cnt = cnt, sb = b,
           block_bitmap = \<lparr>btmp_bytes_len = unat (block_bitmap_sects b) * SECTOR_SIZE, bits = bb\<rparr>,
           inode_bitmap = \<lparr>btmp_bytes_len = unat (inode_bitmap_sects b) * SECTOR_SIZE, bits = ib\<rparr>,
           open_inodes = []\<rparr>\<rparr>))
         (retK True))))))))))))))"

text \<open>\<^verbatim>\<open>list_traversal\<close> with that callback.\<close>

fun mount_list :: "(u8 list \<times> u32 \<times> u32) list \<Rightarrow> u8 list \<Rightarrow> (fsys, unit) kop" where
  "mount_list [] part_name = retK ()"
| "mount_list (p # ps) part_name =
     bindK (mount_partition p part_name) (\<lambda>hit. if hit then retK () else mount_list ps part_name)"

text \<open>The loop over the partitions of the disk: one without a file system is formatted.\<close>

fun format_parts :: "u8 list \<Rightarrow> (u8 list \<times> u32 \<times> u32) list \<Rightarrow> (fsys, unit) kop" where
  "format_parts pad [] = retK ()"
| "format_parts pad ((name, start, cnt) # ps) =
     thenK (whenK (cnt \<noteq> 0)
       (bindK (ide_read (start + 1) SECTOR_SIZE 1) (\<lambda>b.
        if magic (sb_of b) = SUPER_MAGIC then retK () else partition_format pad start cnt)))
    (format_parts pad ps)"

definition filesys_init :: "u8 list \<Rightarrow> (u8 list \<times> u32 \<times> u32) list \<Rightarrow> (u8 list \<times> u32 \<times> u32) list \<Rightarrow> (fsys, unit) kop" where
  "filesys_init pad slots partition_list =
     bindK heap_alloc (\<lambda>sb_buf.
     thenK (assertK (\<lambda>_. sb_buf \<noteq> NULL))
    (thenK (format_parts pad slots)
    (thenK (heap_free sb_buf)
    (thenK (mount_list partition_list [115, 100, 98, 49])
    (thenK open_root_dir
           (modK (\<lambda>s. s\<lparr>file_table := map (\<lambda>f. f\<lparr>fd_inode := NULL\<rparr>) (file_table s)\<rparr>)))))))"

subsection \<open>The layout\<close>

lemma unat_div_round_up: "unat (div_round_up32 x 4096) = (unat x + 4095) div 4096" if "unat x < 2 ^ 31"
proof -
  have "unat (x + 4095) = unat x + 4095"
    using that by (simp add: unat_word_ariths)
  moreover have "x + 4096 - 1 = x + 4095"
    by simp
  ultimately show ?thesis
    unfolding div_round_up32_def by (simp only: unat_div_distrib) simp
qed

text \<open>The number of data blocks of a partition of \<open>c\<close> sectors, and the number of sectors of the block bitmap.\<close>

definition data_blocks :: "nat \<Rightarrow> nat" where
  "data_blocks c = (c - 611) - (c - 611 + 4095) div 4096"

definition map_sects :: "nat \<Rightarrow> nat" where
  "map_sects c = (data_blocks c + 4095) div 4096"

lemma data_blocks_bounds:
  assumes "620 \<le> c"
  shows "8 \<le> data_blocks c" "1 \<le> map_sects c" "611 + map_sects c + data_blocks c \<le> c" "data_blocks c \<le> 4096 * map_sects c"
    "4096 * map_sects c < data_blocks c + 4096"
proof -
  have "9 \<le> f \<Longrightarrow> 8 \<le> f - (f + 4095) div 4096" for f :: nat
    by linarith
  then show "8 \<le> data_blocks c"
    using assms by (simp add: data_blocks_def)
  then show "1 \<le> map_sects c"
    by (simp add: map_sects_def)
  have "data_blocks c + 4095 \<le> c - 611 + 4095"
    by (simp add: data_blocks_def)
  then have "map_sects c \<le> (c - 611 + 4095) div 4096"
    unfolding map_sects_def by (rule div_le_mono)
  then show "611 + map_sects c + data_blocks c \<le> c"
    using assms unfolding data_blocks_def by linarith
  show "data_blocks c \<le> 4096 * map_sects c" "4096 * map_sects c < data_blocks c + 4096"
    unfolding map_sects_def by linarith+
qed

text \<open>What \<^verbatim>\<open>partition_format\<close> needs of the place of the partition on the disk.\<close>

definition can_format :: "u32 \<Rightarrow> u32 \<Rightarrow> bool" where
  "can_format start cnt \<longleftrightarrow> 620 \<le> unat cnt \<and> unat start + unat cnt \<le> unat max_lba"

lemma format_layout_eq:
  assumes "can_format start cnt"
  defines "b \<equiv> fst (format_layout start cnt)" and "c \<equiv> unat cnt"
  shows "unat (snd (format_layout start cnt)) = data_blocks c" "unat (block_bitmap_sects b) = map_sects c"
    "unat (block_bitmap_lba b) = unat start + 2" "unat (inode_bitmap_lba b) = unat start + 2 + map_sects c"
    "inode_bitmap_sects b = 1" "unat (inode_table_lba b) = unat start + 3 + map_sects c" "inode_table_sects b = 608"
    "unat (data_start_lba b) = unat start + 611 + map_sects c" "dir_entry_size b = of_nat sizeof_dir_entry" "root_inode_no b = 0"
proof -
  have cf: "620 \<le> c" "unat start + c \<le> 163839"
    using assms(1) by (simp_all add: can_format_def c_def unat_max_lba)
  note db = data_blocks_bounds [OF cf(1)]
  have used: "unat (cnt - 611) = c - 611"
    using cf(1) unfolding c_def by (simp add: unat_sub word_le_nat_alt)
  have r1: "unat (div_round_up32 (cnt - 611) 4096) = (c - 611 + 4095) div 4096"
    using used cf by (simp add: unat_div_round_up)
  have "(c - 611 + 4095) div 4096 \<le> c - 611"
    using cf(1) by linarith
  then have n: "unat (cnt - 611 - div_round_up32 (cnt - 611) 4096) = data_blocks c"
    using r1 used by (simp add: unat_sub word_le_nat_alt data_blocks_def)
  have m: "unat (div_round_up32 (cnt - 611 - div_round_up32 (cnt - 611) 4096) 4096) = map_sects c"
    using n db(3) cf by (simp add: unat_div_round_up map_sects_def)
  have ib: "div_round_up32 4096 4096 = 1" "div_round_up32 (of_nat sizeof_inode * 4096) 512 = 608"
    by (simp_all add: div_round_up32_def sizeof_inode_def)
  have add: "unat (x + y) = unat x + unat y" if "unat x + unat y < 2 ^ 32" for x y :: u32
    using that by (simp add: unat_word_ariths)
  note l = format_layout_def Let_def ib
  show "unat (snd (format_layout start cnt)) = data_blocks c"
    using n by (simp add: l)
  show ms: "unat (block_bitmap_sects b) = map_sects c"
    using m by (simp add: b_def l)
  have u2: "unat (start + 2) = unat start + 2"
    using cf by (subst add) auto
  then show "unat (block_bitmap_lba b) = unat start + 2"
    by (simp add: b_def l)
  have u3: "unat (start + 2 + block_bitmap_sects b) = unat start + 2 + map_sects c"
    using u2 ms cf db(3) by (subst add) auto
  then show "unat (inode_bitmap_lba b) = unat start + 2 + map_sects c"
    by (simp add: b_def l)
  have u4: "unat (start + 2 + block_bitmap_sects b + 1) = unat start + 3 + map_sects c"
    using u3 cf db(3) by (subst add) auto
  then show "unat (inode_table_lba b) = unat start + 3 + map_sects c"
    by (simp add: b_def l)
  have "unat (start + 2 + block_bitmap_sects b + 1 + 608) = unat start + 611 + map_sects c"
    using u4 cf db(3) by (subst add) auto
  then show "unat (data_start_lba b) = unat start + 611 + map_sects c"
    by (simp add: b_def l)
  show "inode_bitmap_sects b = 1" "inode_table_sects b = 608" "dir_entry_size b = of_nat sizeof_dir_entry" "root_inode_no b = 0"
    by (simp_all add: b_def l)
qed

subsection \<open>The block bitmap\<close>

lemma bit_clear_bits: "bit (clear_bits v i n) k \<longleftrightarrow> bit v k \<and> \<not> (i \<le> k \<and> k < i + n)" if "k < 8"
  using that
proof (induction n arbitrary: v i)
  case (Suc n)
  then show ?case
    by (auto simp: bit_and_iff bit_not_iff bit_exp_iff)
qed simp

text \<open>The bits of the map as it is written: those from 1 to \<open>n\<close> are clear, \<open>n\<close> being the number of blocks.\<close>

lemma format_block_bitmap_ok:
  assumes n: "8 \<le> n" "n \<le> 4096 * m" "4096 * m < n + 4096" and size: "m * SECTOR_SIZE + SECTOR_SIZE \<le> buf_size"
  obtains bs where "format_block_bitmap buf_size n = Inr bs" "length bs = buf_size"
    "\<And>k. k < 4096 * m \<Longrightarrow> bit (bs ! (k div 8)) (k mod 8) \<longleftrightarrow> k = 0 \<or> n < k"
proof -
  let ?lb = "n div 8" and ?ls = "SECTOR_SIZE - n div 8 mod SECTOR_SIZE"
  let ?b0 = "1 # replicate (buf_size - 1) (0 :: u8)"
  define v :: u8 where "v = clear_bits 0xff 0 (n mod 8 + 1)"
  have ones: "bit (0xff :: u8) j" if "j < 8" for j
    using that by (simp add: bit_iff_odd less_Suc_eq numeral_eq_Suc) auto
  have v: "bit v j \<longleftrightarrow> n mod 8 < j" if "j < 8" for j
    unfolding v_def bit_clear_bits [OF that] using ones [OF that] by auto
  define b1 where "b1 = take ?lb ?b0 @ replicate ?ls 0xff @ drop (?lb + ?ls) ?b0"
  have sz: "m * 512 + 512 \<le> buf_size"
    using size by (simp add: SECTOR_SIZE_def)
  then have b0: "(replicate buf_size (0 :: u8))[0 := 1] = ?b0" "0 < buf_size"
    by (cases buf_size; simp)+
  have ls: "?ls = 512 - ?lb mod 512" "0 < ?ls"
    by (simp_all add: SECTOR_SIZE_def)
  have "?lb + (512 - ?lb mod 512) \<le> m * 512 + 512"
    using n(2) by linarith
  then have fit: "?lb + ?ls \<le> buf_size" "?lb < buf_size"
    using sz ls by linarith+
  have l1: "length b1 = buf_size"
    using fit b0(2) by (simp add: b1_def)
  have m1: "memcpy_at ?b0 ?lb (replicate ?ls 0xff) ?ls = Inr b1"
    using fit b0(2) by (simp add: memcpy_at_def b1_def)
  have v1: "b1 ! ?lb = 0xff"
    using fit ls(2) by (simp add: b1_def nth_append)
  have run: "format_block_bitmap buf_size n = Inr (b1[?lb := v])"
    using b0 m1 v1 l1 fit(2) by (simp add: format_block_bitmap_def Let_def wr_def rd_def v_def)
  have "bit (b1[?lb := v] ! (k div 8)) (k mod 8) \<longleftrightarrow> k = 0 \<or> n < k" if k: "k < 4096 * m" for k
  proof -
    have kb: "k div 8 < buf_size"
      using k sz by linarith
    consider "k div 8 = 0" | "0 < k div 8" "k div 8 < ?lb" | "k div 8 = ?lb" "k div 8 \<noteq> 0" | "?lb < k div 8"
      by linarith
    then show ?thesis
    proof cases
      case 1
      then have "b1[?lb := v] ! (k div 8) = 1" "k mod 8 = k" "\<not> n < k"
        using n(1) by (auto simp: b1_def nth_append)
      then show ?thesis
        by (simp add: bit_1_iff)
    next
      case 2
      then have "b1[?lb := v] ! (k div 8) = 0" "\<not> n < k" "k \<noteq> 0"
        using kb by (auto simp: b1_def nth_append)
      then show ?thesis
        by simp
    next
      case 3
      then have "b1[?lb := v] ! (k div 8) = v"
        using l1 fit(2) by simp
      moreover have "n mod 8 < k mod 8 \<longleftrightarrow> n < k" "k \<noteq> 0"
        using 3 by (metis div_mult_mod_eq nat_add_left_cancel_less, auto)
      ultimately show ?thesis
        by (simp add: v)
    next
      case 4
      have "512 * m < ?lb + 513"
        using n(3) by linarith
      then have "m \<le> ?lb div 512 + 1"
        by linarith
      moreover have "k div 8 < 512 * m"
        using k by linarith
      moreover have "512 * (?lb div 512) + ?lb mod 512 = ?lb" "?lb mod 512 < 512"
        by simp_all
      ultimately have "k div 8 < ?lb + (512 - ?lb mod 512)"
        by linarith
      then have "k div 8 - ?lb < ?ls"
        using 4 ls(1) by linarith
      then have "b1[?lb := v] ! (k div 8) = 0xff"
        using 4 ls fit by (simp add: b1_def nth_append)
      then show ?thesis
        using 4 ones [of "k mod 8"] by auto
    qed
  qed
  then show ?thesis
    using that run l1 by simp
qed

subsection \<open>A formatted partition\<close>

lemma sb_of_bytes: "sb_of (sb_bytes b @ pad) = b"
proof -
  let ?ws = "[magic b, sb_sec_cnt b, inode_cnt b, part_lba_base b, block_bitmap_lba b, block_bitmap_sects b,
     inode_bitmap_lba b, inode_bitmap_sects b, inode_table_lba b, inode_table_sects b, data_start_lba b, root_inode_no b,
     dir_entry_size b]"
  have w: "word_at (sb_bytes b @ pad) (4 * i) = ?ws ! i" if "i < length ?ws" for i
    unfolding sb_bytes_def by (rule word_at_bytes_of [OF that])
  show ?thesis
    unfolding sb_of_def Let_def using w [of 0] w [of 1] w [of 2] w [of 3] w [of 4] w [of 5] w [of 6] w [of 7] w [of 8] w [of 9]
      w [of 10] w [of 11] w [of 12] by (simp del: mult_numeral_1_right)
qed

definition root_inode :: "super_block \<Rightarrow> inode" where
  "root_inode b = (inode_init 0)\<lparr>i_size := dir_entry_size b * 2, i_sectors := data_start_lba b # replicate 12 0\<rparr>"

text \<open>The disk \<open>d\<close> has an empty file system on the partition: the super block, the two bitmaps, the inode of the root
  directory and its first block.\<close>

definition formatted :: "u32 \<Rightarrow> u32 \<Rightarrow> (nat \<Rightarrow> u8 list) \<Rightarrow> bool" where
  "formatted start cnt d \<longleftrightarrow>
     (let b = fst (format_layout start cnt); m = map_sects (unat cnt) in
      sectors_ok d \<and> sb_of (d (unat start + 1)) = b \<and>
      (\<forall>k < 4096 * m. bit (rd_secs d (unat start + 2) m ! (k div 8)) (k mod 8) \<longleftrightarrow> k = 0 \<or> data_blocks (unat cnt) < k) \<and>
      d (unat start + 2 + m) = 1 # replicate 511 0 \<and>
      rd_secs d (unat start + 3 + m) 608 = inode_bytes (root_inode b) @ replicate (608 * 512 - 76) 0 \<and>
      d (unat start + 611 + m) = dot_entries 0 0 @ replicate 464 0)"

lemma partition_format_run:
  fixes s :: fsys
  assumes cf: "can_format start cnt" and pad: "length pad = 460" and so: "sectors_ok (disk s)" and g: "grants s = p # gs" "p \<noteq> NULL"
  obtains d where "partition_format pad start cnt s = Ret () (s\<lparr>disk := d, grants := gs\<rparr>)" "formatted start cnt d"
    "\<And>l. l \<le> unat start \<or> unat start + unat cnt \<le> l \<Longrightarrow> d l = disk s l"
proof -
  define b where "b = fst (format_layout start cnt)"
  define n where "n = snd (format_layout start cnt)"
  define m where "m = map_sects (unat cnt)"
  define st where "st = unat start"
  note lay = format_layout_eq [OF cf, folded b_def n_def m_def st_def]
  have cf': "620 \<le> unat cnt" "st + unat cnt \<le> unat max_lba"
    using cf by (simp_all add: can_format_def st_def)
  note db = data_blocks_bounds [OF cf'(1), folded m_def]
  have m40: "m \<le> 41"
    using db cf'(2) unfolding unat_max_lba by linarith
  obtain bs where bs: "format_block_bitmap 311296 (unat n) = Inr bs" "length bs = 311296"
    "\<And>k. k < 4096 * m \<Longrightarrow> bit (bs ! (k div 8)) (k mod 8) \<longleftrightarrow> k = 0 \<or> data_blocks (unat cnt) < k"
    by (rule format_block_bitmap_ok [of "data_blocks (unat cnt)" m 311296]) (use db m40 lay(1) in \<open>auto simp: SECTOR_SIZE_def\<close>)
  have s1: "unat (start + 1) = st + 1"
    using cf' unfolding st_def unat_max_lba by (simp add: unat_word_ariths)
  have le: "start + 1 \<le> max_lba" "block_bitmap_lba b \<le> max_lba" "inode_bitmap_lba b \<le> max_lba" "inode_table_lba b \<le> max_lba"
    "data_start_lba b \<le> max_lba"
    unfolding word_le_nat_alt lay s1 using db(3) cf' by linarith+
  let ?r = "inode_bytes (root_inode b) @ replicate (311296 - 76) 0" and ?e = "dot_entries 0 0 @ replicate (311296 - 48) 0"
  let ?ib = "1 # replicate 311295 (0 :: u8)"
  have len: "length (sb_bytes b @ pad) = 512" "length (inode_bytes (root_inode b)) = 76" "length (dot_entries 0 0) = 48"
    using pad by (simp_all add: sb_bytes_def inode_bytes_def root_inode_def inode_init_def dot_entries_def entry_bytes_def)
  let ?d1 = "wr_secs (disk s) (st + 1) (sb_bytes b @ pad) 1"
  let ?d2 = "wr_secs ?d1 (st + 2) bs m"
  let ?d3 = "wr_secs ?d2 (st + 2 + m) ?ib 1"
  let ?d4 = "wr_secs ?d3 (st + 3 + m) ?r 608"
  define d where "d = wr_secs ?d4 (st + 611 + m) ?e 1"
  have w: "ide_write (start + 1) (sb_bytes b @ pad) 1 t = Ret () (t\<lparr>disk := wr_secs (disk t) (st + 1) (sb_bytes b @ pad) 1\<rparr>)"
    "ide_write (block_bitmap_lba b) bs m t = Ret () (t\<lparr>disk := wr_secs (disk t) (st + 2) bs m\<rparr>)"
    "ide_write (inode_bitmap_lba b) ?ib 1 t = Ret () (t\<lparr>disk := wr_secs (disk t) (st + 2 + m) ?ib 1\<rparr>)"
    "ide_write (inode_table_lba b) ?r 608 t = Ret () (t\<lparr>disk := wr_secs (disk t) (st + 3 + m) ?r 608\<rparr>)"
    "ide_write (data_start_lba b) ?e 1 t = Ret () (t\<lparr>disk := wr_secs (disk t) (st + 611 + m) ?e 1\<rparr>)" for t
    using le lay(3,4,6,8) s1 len bs(2) m40 db(2) by (simp_all add: ide_write_def SECTOR_SIZE_def del: wr_secs.simps One_nat_def)
  have fl: "format_layout start cnt = (b, n)"
    by (simp add: b_def n_def)
  have us: "unat (block_bitmap_sects b) = m" "unat (inode_bitmap_sects b) = 1" "unat (inode_table_sects b) = 608"
    using lay(2,5,7) by simp_all
  have size: "max (max m 1) 608 * SECTOR_SIZE = 311296"
    using m40 by (simp add: SECTOR_SIZE_def)
  have root: "\<lparr>i_no = 0, i_size = dir_entry_size b * 2, i_open_cnts = 0, write_deny = False, i_sectors = data_start_lba b # replicate 12 0\<rparr> = root_inode b"
    by (simp add: root_inode_def inode_init_def)
  have run: "partition_format pad start cnt s = Ret () (s\<lparr>disk := d, grants := gs\<rparr>)"
    unfolding partition_format_def Let_def fl prod.case us size root
    using w bs(1) g by (simp add: heap_alloc_def heap_free_def derefK_def d_def sizeof_inode_def sizeof_dir_entry_def del: wr_secs.simps One_nat_def)
  have so1: "sectors_ok ?d1"
    using len(1) by (intro sectors_ok_wr [OF so]) (simp add: SECTOR_SIZE_def)
  have so2: "sectors_ok ?d2"
    using bs(2) m40 by (intro sectors_ok_wr [OF so1]) (simp add: SECTOR_SIZE_def)
  have so3: "sectors_ok ?d3"
    by (intro sectors_ok_wr [OF so2]) (simp add: SECTOR_SIZE_def)
  have so4: "sectors_ok ?d4"
    using len(2) by (intro sectors_ok_wr [OF so3]) (simp add: SECTOR_SIZE_def)
  have so5: "sectors_ok d"
    unfolding d_def using len(3) by (intro sectors_ok_wr [OF so4]) (simp add: SECTOR_SIZE_def)
  have one: "wr_secs e l x 1 = e(l := take 512 x)" for e l x
    by (simp add: SECTOR_SIZE_def)
  have at: "d (st + 1) = sb_bytes b @ pad" "d (st + 2 + m) = 1 # replicate 511 0" "d (st + 611 + m) = dot_entries 0 0 @ replicate 464 0"
    unfolding d_def one using len db(2) by (simp_all add: wr_secs_outside)
  have "rd_secs d (st + 2) m = rd_secs ?d2 (st + 2) m"
    unfolding d_def one by (rule rd_secs_cong) (simp add: wr_secs_outside)
  then have map: "rd_secs d (st + 2) m = take (m * SECTOR_SIZE) bs"
    using rd_wr_secs [of m bs ?d1 "st + 2"] bs(2) m40 by (simp add: SECTOR_SIZE_def)
  have "rd_secs d (st + 3 + m) 608 = rd_secs ?d4 (st + 3 + m) 608"
    unfolding d_def one by (rule rd_secs_cong) simp
  then have tab: "rd_secs d (st + 3 + m) 608 = inode_bytes (root_inode b) @ replicate (608 * 512 - 76) 0"
    using rd_wr_secs [of 608 ?r ?d3 "st + 3 + m"] len(2) by (simp add: SECTOR_SIZE_def)
  have "take (m * SECTOR_SIZE) bs ! (k div 8) = bs ! (k div 8)" if "k < 4096 * m" for k
    using that by (intro nth_take) (simp add: SECTOR_SIZE_def less_mult_imp_div_less)
  then have "formatted start cnt d"
    unfolding formatted_def Let_def st_def [symmetric] m_def [symmetric] b_def [symmetric] map
    using so5 at tab bs(3) by (simp add: sb_of_bytes)
  moreover have "d l = disk s l" if "l \<le> unat start \<or> unat start + unat cnt \<le> l" for l
  proof -
    have "l < st + 1 \<or> st + 611 + m < l"
      using that db(1,3) unfolding st_def by linarith
    then show ?thesis
      unfolding d_def one by (auto simp: wr_secs_outside)
  qed
  ultimately show ?thesis
    using that run by blast
qed

subsection \<open>Mounting it\<close>

lemma mount_partition_run:
  fixes s :: fsys
  assumes f: "formatted start cnt (disk s)" and cf: "can_format start cnt" and name: "streq name (cstr nm) = Inr True"
    and g: "grants s = p1 # p2 # p3 # p4 # gs" "NULL \<notin> {p1, p2, p3, p4}"
  defines "b \<equiv> fst (format_layout start cnt)" and "m \<equiv> map_sects (unat cnt)" and "k \<equiv> in_kernel s"
  shows "mount_partition (name, start, cnt) nm s = Ret True (s\<lparr>grants := gs, live := (p4, k) # (p3, k) # (p2, k) # (p1, k) # live s,
    cur_part := \<lparr>start_lba = start, sec_cnt = cnt, sb = b,
      block_bitmap = \<lparr>btmp_bytes_len = m * SECTOR_SIZE, bits = rd_secs (disk s) (unat start + 2) m\<rparr>,
      inode_bitmap = \<lparr>btmp_bytes_len = SECTOR_SIZE, bits = disk s (unat start + 2 + m)\<rparr>, open_inodes = []\<rparr>\<rparr>)"
proof -
  note lay = format_layout_eq [OF cf, folded b_def m_def]
  have cf': "620 \<le> unat cnt" "unat start + unat cnt \<le> unat max_lba"
    using cf by (simp_all add: can_format_def)
  note db = data_blocks_bounds [OF cf'(1), folded m_def]
  have s1: "unat (start + 1) = unat start + 1"
    using cf' unfolding unat_max_lba by (simp add: unat_word_ariths)
  have le: "start + 1 \<le> max_lba" "block_bitmap_lba b \<le> max_lba" "inode_bitmap_lba b \<le> max_lba"
    unfolding word_le_nat_alt lay s1 using db(3) cf' by linarith+
  have r: "ide_read (start + 1) SECTOR_SIZE 1 t = Ret (disk t (unat start + 1)) t"
    "ide_read (block_bitmap_lba b) (m * SECTOR_SIZE) m t = Ret (rd_secs (disk t) (unat start + 2) m) t"
    "ide_read (inode_bitmap_lba b) SECTOR_SIZE 1 t = Ret (disk t (unat start + 2 + m)) t" for t
    using le s1 lay(3,4) db(2) by (simp_all add: ide_read_def)
  have sb: "sb_of (disk s (unat start + 1)) = b"
    using f by (simp add: formatted_def Let_def b_def)
  have us: "unat (block_bitmap_sects b) = m" "unat (inode_bitmap_sects b) * SECTOR_SIZE = SECTOR_SIZE" "unat (inode_bitmap_sects b) = 1"
    using lay(2,5) by simp_all
  show ?thesis
    using g by (simp add: mount_partition_def name heap_alloc_def derefK_def r sb us Let_def k_def del: One_nat_def)
qed

text \<open>C8: A partition that is formatted and then mounted is a well-formed file system, wherever it lies on the disk: the
  regions follow each other, both bitmaps fit their sectors, only the blocks 1 to \<open>n\<close> are free, \<open>n\<close> being the
  number of data blocks, and the inode of the root directory names block 0, which holds its two entries. Nothing
  outside the partition is written. Since block 0 is the root directory's, the last of these free blocks is one too
  many: it lies behind the data blocks, and it is the first sector behind the partition unless the block bitmap
  became smaller in the second estimate.\<close>

theorem format_then_mount:
  fixes s :: fsys
  assumes cf: "can_format start cnt" and pad: "length pad = 460" and so: "sectors_ok (disk s)"
    and name: "streq name (cstr nm) = Inr True"
    and g: "grants s = p # p1 # p2 # p3 # p4 # gs" "NULL \<notin> {p, p1, p2, p3, p4}"
    and ft: "length (file_table s) = MAX_FILE_OPEN" "length (fd_table s) = MAX_FILES_OPEN_PER_PROC"
  defines "n \<equiv> data_blocks (unat cnt)" and "m \<equiv> map_sects (unat cnt)"
  shows "\<exists>s'. thenK (partition_format pad start cnt) (mount_partition (name, start, cnt) nm) s = Ret True s' \<and> fs_ok s' \<and>
    sb (cur_part s') = fst (format_layout start cnt) \<and>
    free_blocks s' = {k. 1 \<le> k \<and> k \<le> n \<and> k < 4096 * m} \<and>
    data_start s' + n + (unat cnt - 611 + 4095) div 4096 = unat start + unat cnt + m \<and>
    inode_of (islot s' 0) = root_inode (sb (cur_part s')) \<and>
    disk s' (data_start s') = dot_entries 0 0 @ replicate 464 0 \<and>
    (\<forall>l. l \<le> unat start \<or> unat start + unat cnt \<le> l \<longrightarrow> disk s' l = disk s l)"
proof -
  note lay = format_layout_eq [OF cf, folded m_def n_def]
  have cf': "620 \<le> unat cnt" "unat start + unat cnt \<le> unat max_lba"
    using cf by (simp_all add: can_format_def)
  note db = data_blocks_bounds [OF cf'(1), folded m_def n_def]
  obtain d where d: "partition_format pad start cnt s = Ret () (s\<lparr>disk := d, grants := p1 # p2 # p3 # p4 # gs\<rparr>)" "formatted start cnt d"
    "\<And>l. l \<le> unat start \<or> unat start + unat cnt \<le> l \<Longrightarrow> d l = disk s l"
    by (rule partition_format_run [OF cf pad so g(1)]) (use g(2) in auto)
  note fd = d(2) [unfolded formatted_def Let_def, folded m_def n_def]
  let ?t = "s\<lparr>disk := d, grants := p1 # p2 # p3 # p4 # gs\<rparr>"
  from mount_partition_run [of start cnt ?t name nm p1 p2 p3 p4 gs] d(2) cf name g(2)
  obtain s' where m: "mount_partition (name, start, cnt) nm ?t = Ret True s'" "disk s' = d" "file_table s' = file_table s"
    "fd_table s' = fd_table s" "start_lba (cur_part s') = start" "sec_cnt (cur_part s') = cnt"
    "sb (cur_part s') = fst (format_layout start cnt)"
    "block_bitmap (cur_part s') = \<lparr>btmp_bytes_len = m * SECTOR_SIZE, bits = rd_secs d (unat start + 2) m\<rparr>"
    "inode_bitmap (cur_part s') = \<lparr>btmp_bytes_len = SECTOR_SIZE, bits = d (unat start + 2 + m)\<rparr>"
    by (simp add: m_def)
  have bit: "bitmap_bit (block_bitmap (cur_part s')) k \<longleftrightarrow> k = 0 \<or> n < k" if "k < 4096 * m" for k
    using fd that by (simp add: bitmap_bit_def m(8))
  have len: "8 * (m * SECTOR_SIZE) = 4096 * m"
    by (simp add: SECTOR_SIZE_def)
  have "layout_ok (cur_part s')"
    unfolding layout_ok_def m(5-7) word_le_nat_alt lay using cf' db(3) by (simp add: IT_SECTS_def unat_max_lba)
  moreover have "bitmaps_ok (cur_part s')"
    using bit db cf' fd unfolding bitmaps_ok_def m(7,8,9) lay by (auto simp: len) (simp add: SECTOR_SIZE_def)
  ultimately have "fs_ok s'"
    using fd ft m(2-4) by (simp add: fs_ok_def)
  moreover have "free_blocks s' = {k. 1 \<le> k \<and> k \<le> n \<and> k < 4096 * m}"
    using bit unfolding free_blocks_def m(8) by (auto simp: len)
  moreover have "data_start s' + n + (unat cnt - 611 + 4095) div 4096 = unat start + unat cnt + m"
    unfolding m(7) lay(8) using cf'(1) unfolding n_def data_blocks_def by linarith
  moreover have "inode_of (islot s' 0) = root_inode (sb (cur_part s'))"
  proof -
    let ?r = "root_inode (sb (cur_part s'))"
    have len: "length (i_sectors ?r) = 13" "?r\<lparr>i_open_cnts := 0, write_deny := False\<rparr> = ?r"
      by (simp_all add: root_inode_def inode_init_def)
    have "islot s' 0 = inode_bytes ?r"
      using fd length_inode_bytes [OF len(1)] by (simp add: islot_def itab_def m(2,7) lay IT_SECTS_def sizeof_inode_def)
    then show ?thesis
      using inode_of_bytes [OF len(1)] len(2) by simp
  qed
  ultimately show ?thesis
    using d m fd by (intro exI [of _ s']) (simp add: lay)
qed

theorem format_then_mount_witness:
  "\<exists>s'. thenK (partition_format (replicate 460 0) 63 5000) (mount_partition ([115, 100, 98, 49, 0, 0, 0, 0], 63, 5000) [115, 100, 98, 49])
      (demo_fs\<lparr>grants := [0x2000, 0x3000, 0x4000, 0x5000, 0x6000]\<rparr>) = Ret True s' \<and> fs_ok s' \<and>
    free_blocks s' = {k. 1 \<le> k \<and> k \<le> 4387 \<and> k < 8192} \<and> data_start s' + 4387 = 63 + 5000"
proof -
  let ?s = "demo_fs\<lparr>grants := [0x2000, 0x3000, 0x4000, 0x5000, 0x6000]\<rparr>"
  have s: "sectors_ok (disk ?s)" "length (file_table ?s) = MAX_FILE_OPEN" "length (fd_table ?s) = MAX_FILES_OPEN_PER_PROC"
    using demo_fs_ok by (simp_all add: fs_ok_def)
  have c: "can_format 63 5000"
    by (simp add: can_format_def unat_max_lba)
  have n: "streq [115, 100, 98, 49, 0, 0, 0, 0] (cstr [115, 100, 98, 49]) = Inr True"
    by simp
  have b: "data_blocks (unat (5000 :: u32)) = 4387" "map_sects (unat (5000 :: u32)) = 2"
    by (simp_all add: map_sects_def data_blocks_def)
  have h: "length (replicate 460 (0 :: u8)) = 460" "grants ?s = [0x2000, 0x3000, 0x4000, 0x5000, 0x6000]"
    "NULL \<notin> {0x2000, 0x3000, 0x4000, 0x5000, 0x6000}"
    by simp_all
  have "(unat (5000 :: u32) - 611 + 4095) div 4096 = 2" "unat (63 :: u32) = 63" "unat (5000 :: u32) = 5000" "4096 * 2 = (8192 :: nat)"
    by simp_all
  then show ?thesis
    using format_then_mount [OF c h(1) s(1) n h(2,3) s(2,3), unfolded b] by auto
qed

end
