(* ===== verification/Shell.thy ===== *)
theory Shell
  imports Fs
begin

section \<open>The shell (shell/buildin_cmd.c, shell/shell.c)\<close>

text \<open>
  The paths and the command line the shell computes with, the built-in commands that call the file system,
  and reading a line from the keyboard. Strings are lists of bytes, with the terminating zero where the code
  walks over it; the buffers \<^verbatim>\<open>final_path\<close>, \<^verbatim>\<open>abs_path\<close> and \<^verbatim>\<open>cmd_line\<close> have 512 bytes. The shell runs as a user
  process, its system calls are the routines of theory \<^verbatim>\<open>Fs\<close>. A failed \<^verbatim>\<open>assert\<close> is \<open>Panic\<close>. What is printed is
  left out, except for the listing of \<^verbatim>\<open>ls\<close>.
\<close>

subsection \<open>Absolute paths\<close>

definition DOT :: "u8 list" where "DOT = [46]"
definition DOTDOT :: "u8 list" where "DOTDOT = [46, 46]"

text \<open>\<^verbatim>\<open>strcat\<close> onto a buffer of 512 bytes.\<close>

definition cat_path :: "u8 list \<Rightarrow> u8 list \<Rightarrow> u8 list res" where
  "cat_path p q = (if length p + length q < MAX_PATH_LEN then Inr (p @ q) else Inl Out_Of_Bounds)"

text \<open>The string in the array \<^verbatim>\<open>name\<close>. One that fills the array has no terminating zero; as it is neither \<^verbatim>\<open>.\<close> nor
  \<^verbatim>\<open>..\<close> it is always appended, and read past its end.\<close>

definition name_string :: "u8 list \<Rightarrow> u8 list res" where
  "name_string name = (if 0 \<in> set name then Inr (takeWhile (\<lambda>c. c \<noteq> 0) name) else Inl Out_Of_Bounds)"

text \<open>The branch for \<^verbatim>\<open>..\<close>: cutting off the last component.\<close>

definition cut_last :: "u8 list \<Rightarrow> u8 list res" where
  "cut_last p =
     (if SLASH \<notin> set p then Inl Page_Fault
      else let slash_ptr = length p - length (base_name p) - 1
           in Inr (if slash_ptr \<noteq> 0 then take slash_ptr p else take (slash_ptr + 1) p))"

text \<open>One turn of the loop for the component \<open>n\<close>.\<close>

definition wash_name :: "u8 list \<Rightarrow> u8 list \<Rightarrow> u8 list res" where
  "wash_name n new_abs_path =
     (if n = DOTDOT then cut_last new_abs_path
      else if n \<noteq> DOT then
        bindR (if new_abs_path \<noteq> [SLASH] then cat_path new_abs_path [SLASH] else Inr new_abs_path) (\<lambda>p. cat_path p n)
      else Inr new_abs_path)"

function wash_loop :: "u8 list option \<Rightarrow> u8 list \<Rightarrow> u8 list \<Rightarrow> u8 list res" where
  "wash_loop sub_path name new_abs_path =
     (if name ! 0 = 0 then Inr new_abs_path
      else bindR (name_string name) (\<lambda>n. bindR (wash_name n new_abs_path) (\<lambda>new_abs_path.
        case sub_path of
          None \<Rightarrow> wash_loop None (replicate MAX_FILE_NAME_LEN 0) new_abs_path
        | Some q \<Rightarrow>
            bindR (path_parse q) (\<lambda>(n, r).
            bindR (store_name n) (\<lambda>name. wash_loop r name new_abs_path)))))"
  by pat_completeness auto
termination
proof (relation "measures [\<lambda>(p, name, w). case p of None \<Rightarrow> 0 | Some q \<Rightarrow> Suc (length q),
    \<lambda>(p, name, w). if name ! 0 = 0 then 0 else 1]", goal_cases)
  case (3 sub_path name new_abs_path x xa q xb n r xc)
  then show ?case
    using path_parse_shorter [of q n] by (cases r) auto
qed (auto simp: MAX_FILE_NAME_LEN_def)

declare wash_loop.simps [simp del]

definition wash_path :: "u8 list \<Rightarrow> u8 list res" where
  "wash_path old_abs_path =
     bindR (rd old_abs_path 0) (\<lambda>c. bindR (ASSERT (c = SLASH)) (\<lambda>_.
     bindR (path_parse old_abs_path) (\<lambda>(n, sub_path). bindR (store_name n) (\<lambda>name.
     if name ! 0 = 0 then Inr [SLASH] else wash_loop sub_path name [SLASH]))))"

definition make_clear_abs_path :: "u8 list \<Rightarrow> (fsys, u8 list) kop" where
  "make_clear_abs_path path =
     bindK
      (if path = [] \<or> path ! 0 \<noteq> SLASH then
         bindK (sys_getcwd MAX_PATH_LEN) (\<lambda>r.
         case r of None \<Rightarrow> retK []
         | Some abs_path \<Rightarrow> if abs_path \<noteq> [SLASH] then liftR (cat_path abs_path [SLASH]) else retK abs_path)
       else retK []) (\<lambda>abs_path.
     bindK (liftR (cat_path abs_path path)) (\<lambda>abs_path.
     liftR (wash_path (cstr abs_path))))"

subsection \<open>Built-in commands\<close>

text \<open>The arguments are the words of the command line, the command itself first. The value of \<^verbatim>\<open>buildin_cd\<close> is
  \<open>None\<close> for \<^verbatim>\<open>NULL\<close>, else the string in \<^verbatim>\<open>final_path\<close>.\<close>

definition buildin_pwd :: "u8 list list \<Rightarrow> (fsys, u8 list option) kop" where
  "buildin_pwd argv = (if length argv \<noteq> 1 then retK None else sys_getcwd MAX_PATH_LEN)"

definition buildin_cd :: "u8 list list \<Rightarrow> (fsys, u8 list option) kop" where
  "buildin_cd argv =
     (if length argv > 2 then retK None
      else
        bindK (if length argv = 1 then retK [SLASH] else make_clear_abs_path (argv ! 1)) (\<lambda>final_path.
        bindK (sys_chdir final_path) (\<lambda>v. retK (if v = - 1 then None else Some final_path))))"

text \<open>The common shape of \<^verbatim>\<open>mkdir\<close>, \<^verbatim>\<open>rmdir\<close> and \<^verbatim>\<open>rm\<close>.\<close>

definition path_command :: "(u8 list \<Rightarrow> (fsys, int) kop) \<Rightarrow> u8 list list \<Rightarrow> (fsys, int) kop" where
  "path_command call argv =
     (if length argv \<noteq> 2 then retK (- 1)
      else
        bindK (make_clear_abs_path (argv ! 1)) (\<lambda>final_path.
        if final_path \<noteq> [SLASH] then bindK (call final_path) (\<lambda>v. retK (if v = 0 then 0 else - 1)) else retK (- 1)))"

definition buildin_mkdir :: "u8 list list \<Rightarrow> (fsys, int) kop" where
  "buildin_mkdir = path_command sys_mkdir"

definition buildin_rmdir :: "u8 list list \<Rightarrow> (fsys, int) kop" where
  "buildin_rmdir = path_command sys_rmdir"

definition buildin_rm :: "u8 list list \<Rightarrow> (fsys, int) kop" where
  "buildin_rm = path_command sys_unlink"

text \<open>What \<^verbatim>\<open>ls\<close> prints: a message, the entries of a directory (with their sizes for \<^verbatim>\<open>-l\<close>), or one file.\<close>

datatype listing = Ls_Message | Ls_Entries "(dir_entry \<times> u32 option) list" | Ls_File stat

text \<open>The loop over the arguments: \<open>None\<close> is an early return, else the option and the path.\<close>

fun ls_args :: "u8 list list \<Rightarrow> bool \<Rightarrow> u8 list option \<Rightarrow> (bool \<times> u8 list option) option" where
  "ls_args [] long_info pathname = Some (long_info, pathname)"
| "ls_args (a # as) long_info pathname =
     (if a \<noteq> [] \<and> a ! 0 = 45 then
        if a = [45, 108] then ls_args as True pathname else None
      else if pathname = None then ls_args as long_info (Some a)
      else None)"

text \<open>The loop over the entries. Every turn moves the position by 24 bytes up to the size of the directory, so its size
  is enough \<open>fuel\<close>. A file that cannot be looked at ends \<^verbatim>\<open>ls\<close> without closing the directory (\<open>None\<close>).\<close>

fun ls_entries :: "nat \<Rightarrow> addr \<Rightarrow> bool \<Rightarrow> u8 list \<Rightarrow> (dir_entry \<times> u32 option) list \<Rightarrow>
    (fsys, (dir_entry \<times> u32 option) list option) kop" where
  "ls_entries fuel d long_info sub_pathname acc =
     bindK (sys_readdir d) (\<lambda>e.
     case e of None \<Rightarrow> retK (Some acc)
     | Some e \<Rightarrow>
         (case fuel of 0 \<Rightarrow> fltK Diverges
          | Suc n \<Rightarrow>
              if long_info then
                bindK (liftR (bindR (name_string (filename e)) (cat_path sub_pathname))) (\<lambda>p.
                bindK (sys_stat p) (\<lambda>st.
                case st of None \<Rightarrow> retK None
                | Some st \<Rightarrow> ls_entries n d long_info sub_pathname (acc @ [(e, Some (st_size st))])))
              else ls_entries n d long_info sub_pathname (acc @ [(e, None)])))"

declare ls_entries.simps [simp del]

definition ls_directory :: "bool \<Rightarrow> u8 list \<Rightarrow> (fsys, listing) kop" where
  "ls_directory long_info pathname =
     bindK (sys_opendir pathname) (\<lambda>d.
     bindK (liftR (if pathname = [] then Inl Out_Of_Bounds
       else if last pathname \<noteq> SLASH then cat_path pathname [SLASH] else Inr pathname)) (\<lambda>sub_pathname.
     thenK (sys_rewinddir d)
    (bindK (getK (\<lambda>s. unat (i_size (inodes s (dir_inode (dirs s d)))))) (\<lambda>fuel.
     bindK (ls_entries fuel d long_info sub_pathname []) (\<lambda>r.
     case r of None \<Rightarrow> retK Ls_Message
     | Some es \<Rightarrow> bindK (sys_closedir d) (\<lambda>_. retK (Ls_Entries es)))))))"

definition buildin_ls :: "u8 list list \<Rightarrow> (fsys, listing) kop" where
  "buildin_ls argv =
     (case ls_args (tl argv) False None of
        None \<Rightarrow> retK Ls_Message
      | Some (long_info, path) \<Rightarrow>
          bindK (case path of None \<Rightarrow> sys_getcwd MAX_PATH_LEN
                 | Some p \<Rightarrow> bindK (make_clear_abs_path p) (\<lambda>p. retK (Some p))) (\<lambda>r.
          case r of None \<Rightarrow> retK Ls_Message
          | Some pathname \<Rightarrow>
              bindK (sys_stat pathname) (\<lambda>st.
              case st of None \<Rightarrow> retK Ls_Message
              | Some st \<Rightarrow>
                  if st_filetype st = FT_DIRECTORY then ls_directory long_info pathname else retK (Ls_File st))))"

subsection \<open>The command line\<close>

definition MAX_ARG_NR :: nat where "MAX_ARG_NR = 16"

text \<open>The two inner loops of \<^verbatim>\<open>cmd_parse\<close>, on the index of the next character.\<close>

function skip_token :: "u8 list \<Rightarrow> u8 \<Rightarrow> nat \<Rightarrow> nat res" where
  "skip_token s token i = (if i < length s then if s ! i = token then skip_token s token (i + 1) else Inr i else Inl Out_Of_Bounds)"
  by pat_completeness auto
termination
  by (relation "measure (\<lambda>(s, token, i). length s - i)") auto

function skip_word :: "u8 list \<Rightarrow> u8 \<Rightarrow> nat \<Rightarrow> nat res" where
  "skip_word s token i =
     (if i < length s then if s ! i \<noteq> 0 \<and> s ! i \<noteq> token then skip_word s token (i + 1) else Inr i else Inl Out_Of_Bounds)"
  by pat_completeness auto
termination
  by (relation "measure (\<lambda>(s, token, i). length s - i)") auto

declare skip_token.simps [simp del] skip_word.simps [simp del]

text \<open>The outer loop: the string, the array of pointers (as indices into the string) and \<^verbatim>\<open>argc\<close>. Every turn but
  the last moves at least one character on, so the length of the string is enough \<open>fuel\<close>.\<close>

fun parse_loop :: "nat \<Rightarrow> u8 \<Rightarrow> u8 list \<Rightarrow> nat \<Rightarrow> nat option list \<Rightarrow> nat \<Rightarrow> (u8 list \<times> nat option list \<times> int) res" where
  "parse_loop fuel token s i argv argc =
     bindR (rd s i) (\<lambda>c.
     if c = 0 then Inr (s, argv, int argc)
     else case fuel of 0 \<Rightarrow> Inl Diverges
     | Suc n \<Rightarrow>
         bindR (skip_token s token i) (\<lambda>i.
         if s ! i = 0 then Inr (s, argv, int argc)
         else
           bindR (wr argv argc (Some i)) (\<lambda>argv.
           bindR (skip_word s token i) (\<lambda>j.
           let (s, j) = (if s ! j \<noteq> 0 then (s[j := 0], j + 1) else (s, j)) in
           if argc > MAX_ARG_NR then Inr (s, argv, - 1) else parse_loop n token s j argv (argc + 1)))))"

declare parse_loop.simps [simp del]

definition cmd_parse :: "u8 list \<Rightarrow> u8 \<Rightarrow> (u8 list \<times> nat option list \<times> int) res" where
  "cmd_parse cmd_str token = parse_loop (length cmd_str) token cmd_str 0 (replicate MAX_ARG_NR None) 0"

text \<open>\<^verbatim>\<open>readline\<close> on the characters the keyboard delivers, in a buffer that is cleared before. \<open>pos\<close> is the index of
  the next character; the character is stored before the test that it fits. The outcome is the buffer at the
  end of the line; \<open>None\<close> means that the loop still waits for a character.\<close>

fun readline :: "u8 list \<Rightarrow> nat \<Rightarrow> u8 list \<Rightarrow> u8 list option res" where
  "readline cmd_line pos [] = Inr None"
| "readline cmd_line pos (c # cs) =
     bindR (wr cmd_line pos c) (\<lambda>b.
     if c = 10 \<or> c = 13 then Inr (Some (b[pos := 0]))
     else if c = 8 then
       if b ! 0 \<noteq> 8 then (if pos = 0 then Inl Out_Of_Bounds else readline b (pos - 1) cs) else readline b pos cs
     else if c = 11 then readline (b[pos := 0]) pos cs
     else if c = 20 then readline (map (\<lambda>k. if 0 < k \<and> k \<le> pos then 0 else b ! k) [0..<length b]) 0 cs
     else readline b (pos + 1) cs)"

subsection \<open>Normal forms of paths\<close>

text \<open>The reference: the components of a path, from left to right, as steps from the root; \<^verbatim>\<open>..\<close> goes one step back and
  stays at the root, \<^verbatim>\<open>.\<close> goes nowhere.\<close>

definition walk :: "u8 list list \<Rightarrow> u8 list \<Rightarrow> u8 list list" where
  "walk st c = (if c = DOTDOT then butlast st else if c = DOT then st else st @ [c])"

definition normalise :: "u8 list list \<Rightarrow> u8 list list" where
  "normalise cs = foldl walk [] cs"

definition render :: "u8 list list \<Rightarrow> u8 list" where
  "render st = (if st = [] then [SLASH] else concat (map (\<lambda>c. SLASH # c) st))"

definition names_ok :: "u8 list list \<Rightarrow> bool" where
  "names_ok st \<longleftrightarrow> (\<forall>c \<in> set st. c \<noteq> [] \<and> SLASH \<notin> set c)"

lemma names_ok_simps [simp]:
  "names_ok []" "names_ok (c # cs) \<longleftrightarrow> c \<noteq> [] \<and> SLASH \<notin> set c \<and> names_ok cs" "names_ok (cs @ ds) \<longleftrightarrow> names_ok cs \<and> names_ok ds"
  by (auto simp: names_ok_def)

lemma names_ok_butlast: "names_ok st \<Longrightarrow> names_ok (butlast st)"
  by (auto simp: names_ok_def dest: in_set_butlastD)

lemma names_ok_walk: "names_ok st \<Longrightarrow> names_ok [c] \<Longrightarrow> names_ok (walk st c)"
  by (simp add: walk_def names_ok_butlast)

lemma render_snoc: "render (st @ [c]) = (if st = [] then [] else render st) @ SLASH # c"
  by (simp add: render_def)

lemma render_root: "names_ok st \<Longrightarrow> render st = [SLASH] \<longleftrightarrow> st = []"
  by (cases st) (auto simp: render_def)

lemma base_name_snoc: "SLASH \<notin> set c \<Longrightarrow> base_name (p @ SLASH # c) = c"
proof -
  assume "SLASH \<notin> set c"
  then have "takeWhile (\<lambda>c. c \<noteq> SLASH) (rev c @ SLASH # rev p) = rev c"
    by (subst takeWhile_append2) auto
  then show ?thesis
    by (simp add: base_name_def)
qed

lemma cut_last_render: "names_ok st \<Longrightarrow> cut_last (render st) = Inr (render (butlast st))"
proof (cases st rule: rev_cases)
  case Nil
  then show ?thesis
    using base_name_snoc [of "[]" "[]"] by (simp add: cut_last_def render_def)
next
  case (snoc ys c)
  assume "names_ok st"
  then have "base_name (render st) = c"
    using snoc base_name_snoc by (simp add: render_snoc)
  moreover have "SLASH \<in> set (render st)"
    by (simp add: snoc render_snoc)
  moreover have "render ys \<noteq> []"
    by (cases ys) (simp_all add: render_def)
  ultimately show ?thesis
    by (simp add: cut_last_def snoc render_snoc) (simp add: render_def)
qed

lemma wash_name_render:
  assumes "names_ok st" "names_ok [c]" "length (render st) + length c + 1 < MAX_PATH_LEN"
  shows "wash_name c (render st) = Inr (render (walk st c))"
  using assms render_root [OF assms(1)]
  by (auto simp: wash_name_def walk_def cut_last_render cat_path_def render_snoc)

lemma name_string_store: "0 \<notin> set n \<Longrightarrow> length n < MAX_FILE_NAME_LEN \<Longrightarrow>
    name_string (n @ replicate (MAX_FILE_NAME_LEN - length n) 0) = Inr n"
  by (auto simp: name_string_def takeWhile_append MAX_FILE_NAME_LEN_def)

lemma length_walk: "length (render (walk st c)) \<le> length (render st) + length c + 1"
proof -
  have "length (render (st @ [c])) \<le> length (render st) + length c + 1"
    by (simp add: render_snoc)
  moreover have "length (render (butlast st)) \<le> length (render st)"
    by (cases st rule: rev_cases) (auto simp: render_snoc, simp add: render_def)
  ultimately show ?thesis
    by (simp add: walk_def)
qed

lemma first_name_no_slash: "SLASH \<notin> set (first_name p)"
  unfolding first_field_def by (auto dest: set_takeWhileD)

lemma rest_path_slash: "rest_path p = [] \<or> rest_path p ! 0 = SLASH"
  using dropWhile_shape [of "\<lambda>c. c \<noteq> SLASH" "dropWhile (\<lambda>c. c = SLASH) p"] unfolding rest_fields_def by auto

lemma first_rest_length: "p \<noteq> [] \<Longrightarrow> p ! 0 = SLASH \<Longrightarrow> length (first_name p) + 1 + length (rest_path p) \<le> length p"
proof -
  assume "p \<noteq> []" "p ! 0 = SLASH"
  then obtain q where "p = SLASH # q"
    by (cases p) auto
  moreover have "length (first_name p) + length (rest_path p) = length (dropWhile (\<lambda>c. c = SLASH) p)"
    unfolding first_field_def rest_fields_def by (metis length_append takeWhile_dropWhile_id)
  ultimately show ?thesis
    using length_dropWhile_le [of "\<lambda>c. c = SLASH" q] by simp
qed

lemma wash_loop_step:
  assumes "n \<noteq> []" "0 \<notin> set n" "length n < MAX_FILE_NAME_LEN" "wash_name n p = Inr p'"
  defines "name \<equiv> n @ replicate (MAX_FILE_NAME_LEN - length n) 0"
  shows "wash_loop None name p = Inr p'"
    and "path_parse q = Inr (m, r) \<Longrightarrow> store_name m = Inr a \<Longrightarrow> wash_loop (Some q) name p = wash_loop r a p'"
proof -
  have n: "name ! 0 \<noteq> 0" "name_string name = Inr n"
    using assms name_string_store [of n] by (cases n; simp)+
  have "wash_loop None (replicate MAX_FILE_NAME_LEN 0) p' = Inr p'"
    by (subst wash_loop.simps) (simp add: MAX_FILE_NAME_LEN_def)
  then show "wash_loop None name p = Inr p'"
    using n assms(4) by (subst wash_loop.simps) simp
  show "wash_loop (Some q) name p = wash_loop r a p'" if "path_parse q = Inr (m, r)" "store_name m = Inr a"
    using n assms(4) that by (subst wash_loop.simps) simp
qed

text \<open>What is left to do never needs more room than what is left of the path.\<close>

lemma wash_loop_cstr:
  assumes "0 \<notin> set p" "\<forall>c \<in> set (components p). length c < MAX_FILE_NAME_LEN" "names_ok st"
    and "n \<noteq> []" "0 \<notin> set n" "SLASH \<notin> set n" "length n < MAX_FILE_NAME_LEN"
    and "length (render st) + length n + 1 + length p < MAX_PATH_LEN" "p = [] \<or> p ! 0 = SLASH"
  shows "wash_loop (if p = [] then None else Some (cstr p)) (n @ replicate (MAX_FILE_NAME_LEN - length n) 0) (render st) =
    Inr (render (foldl walk (walk st n) (components p)))"
  using assms
proof (induction p arbitrary: n st rule: measure_induct_rule [of length])
  case (less p)
  have w: "wash_name n (render st) = Inr (render (walk st n))"
    using less.prems by (intro wash_name_render) auto
  note step = wash_loop_step [OF less.prems(4,5,7) w]
  show ?case
  proof (cases "p = []")
    case True
    then show ?thesis
      using step(1) by (simp add: split_by_def)
  next
    case False
    let ?m = "first_name p" and ?r = "rest_path p"
    have len: "length ?m \<le> MAX_FILE_NAME_LEN"
      using less.prems(2) components_step [of p] by (cases "?m = []") auto
    have s: "wash_loop (Some (cstr p)) (n @ replicate (MAX_FILE_NAME_LEN - length n) 0) (render st) =
        wash_loop (if ?r = [] then None else Some (cstr ?r)) (?m @ replicate (MAX_FILE_NAME_LEN - length ?m) 0) (render (walk st n))"
      by (rule step(2) [OF path_parse_cstr [OF less.prems(1)] store_name_Inr [OF len]])
    show ?thesis
    proof (cases "?m = []")
      case True
      then show ?thesis
        using s False components_step [of p] by (subst (asm) (2) wash_loop.simps) (simp add: MAX_FILE_NAME_LEN_def)
    next
      case m: False
      have c: "components p = ?m # components ?r"
        using m components_step [of p] by simp
      have sh: "length ?m + 1 + length ?r \<le> length p"
        using False less.prems(9) first_rest_length by blast
      have "wash_loop (if ?r = [] then None else Some (cstr ?r)) (?m @ replicate (MAX_FILE_NAME_LEN - length ?m) 0) (render (walk st n)) =
          Inr (render (foldl walk (walk (walk st n) ?m) (components ?r)))"
        using less.prems c m sh length_walk [of st n] rest_path_shorter [OF m] zero_free_parts(2) first_name_zero
          names_ok_walk [of st n] first_name_no_slash rest_path_slash
        by (intro less.IH) auto
      then show ?thesis
        using s False c by simp
    qed
  qed
qed

text \<open>C12: \<^verbatim>\<open>wash_path\<close> computes the normal form of every absolute path of at most 510 bytes whose components have fewer
  than 16: walking the components from the root with \<^verbatim>\<open>.\<close> staying and \<^verbatim>\<open>..\<close> going back (at the root: staying), and
  writing the result with single slashes.\<close>

theorem wash_path_normalises:
  assumes p: "0 \<notin> set p" "p \<noteq> []" "p ! 0 = SLASH" "length p + 1 < MAX_PATH_LEN"
    and c: "\<forall>c \<in> set (components p). length c < MAX_FILE_NAME_LEN"
  shows "wash_path (cstr p) = Inr (render (normalise (components p)))"
proof -
  let ?n = "first_name p" and ?r = "rest_path p"
  have len: "length ?n \<le> MAX_FILE_NAME_LEN"
    using c components_step [of p] by (cases "?n = []") auto
  have start: "wash_path (cstr p) =
      (if ?n = [] then Inr [SLASH]
       else wash_loop (if ?r = [] then None else Some (cstr ?r)) (?n @ replicate (MAX_FILE_NAME_LEN - length ?n) 0) [SLASH])"
    using p path_parse_cstr [OF p(1)] store_name_Inr [OF len] first_name_zero [OF p(1)]
    by (cases ?n) (auto simp: wash_path_def nth_append MAX_FILE_NAME_LEN_def)
  show ?thesis
  proof (cases "?n = []")
    case True
    then show ?thesis
      using start components_step [of p] by (simp add: normalise_def render_def)
  next
    case False
    have "wash_loop (if ?r = [] then None else Some (cstr ?r)) (?n @ replicate (MAX_FILE_NAME_LEN - length ?n) 0) (render []) =
        Inr (render (foldl walk (walk [] ?n) (components ?r)))"
      using p c False components_step [of p] first_rest_length [OF p(2,3)] zero_free_parts(2) first_name_zero
        first_name_no_slash rest_path_slash
      by (intro wash_loop_cstr) (auto simp: render_def)
    then show ?thesis
      using start False components_step [of p] by (simp add: normalise_def render_def)
  qed
qed

theorem wash_path_normalises_witness:
  "wash_path (cstr [47, 97, 47, 46, 47, 47, 98, 47, 46, 46, 47, 99]) = Inr [47, 97, 47, 99]"
proof -
  have c: "components [47, 97, 47, 46, 47, 47, 98, 47, 46, 46, 47, 99] = [[97], [46], [98], [46, 46], [99]]"
    by (simp add: split_by_def SLASH_def)
  show ?thesis
    using wash_path_normalises [of "[47, 97, 47, 46, 47, 47, 98, 47, 46, 46, 47, 99]"] unfolding c
    by (simp add: MAX_FILE_NAME_LEN_def MAX_PATH_LEN_def SLASH_def normalise_def walk_def DOT_def DOTDOT_def render_def)
qed

subsection \<open>The words of a command line\<close>

lemma skip_token_run: "t \<noteq> 0 \<Longrightarrow> skip_token (pre @ cstr r) t (length pre) = Inr (length pre + length (takeWhile (\<lambda>c. c = t) r))"
proof (induction r arbitrary: pre)
  case Nil
  then show ?case
    by (subst skip_token.simps) (simp add: nth_append)
next
  case (Cons c r)
  have "skip_token ((pre @ [c]) @ cstr r) t (length (pre @ [c])) = Inr (length (pre @ [c]) + length (takeWhile (\<lambda>c. c = t) r))"
    by (rule Cons.IH [OF Cons.prems])
  then show ?case
    by (subst skip_token.simps) (auto simp: nth_append)
qed

lemma skip_word_run: "0 \<notin> set r \<Longrightarrow>
    skip_word (pre @ cstr r) t (length pre) = Inr (length pre + length (takeWhile (\<lambda>c. c \<noteq> t) r))"
proof (induction r arbitrary: pre)
  case Nil
  then show ?case
    by (subst skip_word.simps) (simp add: nth_append)
next
  case (Cons c r)
  have "skip_word ((pre @ [c]) @ cstr r) t (length (pre @ [c])) = Inr (length (pre @ [c]) + length (takeWhile (\<lambda>c. c \<noteq> t) r))"
    using Cons by (intro Cons.IH) simp
  then show ?case
    using Cons.prems by (subst skip_word.simps) (simp add: nth_append)
qed

text \<open>The pointers \<open>argv\<close> from index \<open>n\<close> on lead to the words \<open>ws\<close> in the string \<open>s\<close>, the others are those of \<open>argv0\<close>.\<close>

definition points_to :: "u8 list \<Rightarrow> nat option list \<Rightarrow> nat option list \<Rightarrow> nat \<Rightarrow> u8 list list \<Rightarrow> bool" where
  "points_to s argv0 argv n ws \<longleftrightarrow> length argv = length argv0 \<and>
     (\<forall>k < length ws. \<exists>i. argv ! (n + k) = Some i \<and> takeWhile (\<lambda>c. c \<noteq> 0) (drop i s) = ws ! k) \<and>
     (\<forall>k < length argv0. k < n \<or> n + length ws \<le> k \<longrightarrow> argv ! k = argv0 ! k)"

lemma points_to_Cons:
  assumes p: "points_to s (argv0[n := Some i]) argv (n + 1) ws" and n: "n < length argv0" and w: "takeWhile (\<lambda>c. c \<noteq> 0) (drop i s) = w"
  shows "points_to s argv0 argv n (w # ws)"
proof -
  have len: "length argv = length argv0"
    and a: "\<And>k. k < length ws \<Longrightarrow> \<exists>i. argv ! (n + 1 + k) = Some i \<and> takeWhile (\<lambda>c. c \<noteq> 0) (drop i s) = ws ! k"
    and b: "\<And>k. k < length argv0 \<Longrightarrow> k < n + 1 \<or> n + 1 + length ws \<le> k \<Longrightarrow> argv ! k = argv0[n := Some i] ! k"
    using p unfolding points_to_def by auto
  have "\<exists>i. argv ! (n + k) = Some i \<and> takeWhile (\<lambda>c. c \<noteq> 0) (drop i s) = (w # ws) ! k" if "k < length (w # ws)" for k
  proof (cases k)
    case 0
    then show ?thesis
      using b [of n] n w by simp
  next
    case (Suc j)
    then show ?thesis
      using a [of j] that by simp
  qed
  moreover have "argv ! k = argv0 ! k" if "k < length argv0" "k < n \<or> n + length (w # ws) \<le> k" for k
    using b [of k] that by auto
  ultimately show ?thesis
    using len unfolding points_to_def by blast
qed

text \<open>One turn of the loop: the word is cut off by a zero, and the rest of the string is what follows it.\<close>

lemma parse_loop_turn:
  fixes pre :: "u8 list"
  assumes r: "0 \<notin> set r" "t \<noteq> 0" and w: "first_field t r \<noteq> []" and argc: "argc \<le> MAX_ARG_NR"
  defines "i \<equiv> length pre + length (takeWhile (\<lambda>c. c = t) r)" and "sp \<equiv> takeWhile (\<lambda>c. c = t) r"
  obtains pre' r' where "parse_loop (Suc n) t (pre @ cstr r) (length pre) argv argc =
      (if argc < length argv then parse_loop n t (pre' @ cstr r') (length pre') (argv[argc := Some i]) (argc + 1) else Inl Out_Of_Bounds)"
    "length pre' + length r' = length pre + length r" "length r' < length r" "0 \<notin> set r'" "split_by t r' = split_by t (rest_fields t r)"
    "pre' = pre @ sp @ first_field t r \<and> r' = [] \<or> pre' = pre @ sp @ first_field t r @ [0]"
proof -
  let ?s = "pre @ cstr r" and ?q = "dropWhile (\<lambda>c. c = t) r" and ?w = "first_field t r" and ?r = "rest_fields t r"
  have q: "?q = ?w @ ?r" "r = sp @ ?q" "0 \<notin> set ?q" "0 \<notin> set ?w" "0 \<notin> set ?r" "i = length (pre @ sp)"
    using r(1) unfolding first_field_def rest_fields_def sp_def i_def by (auto dest: set_dropWhileD set_takeWhileD)
  have s: "?s = (pre @ sp) @ cstr ?q"
    by (subst q(2)) simp
  have c: "?s ! length pre \<noteq> 0" "length pre < length ?s" "?s ! i \<noteq> 0"
  proof -
    show "?s ! length pre \<noteq> 0" "length pre < length ?s"
      using w r(1) by (cases r; auto simp: nth_append first_field_def)+
    have "?q \<noteq> []"
      using w q(1) by auto
    moreover from this have "?s ! i = ?q ! 0"
      unfolding q(6) by (subst s) (cases ?q; simp add: nth_append)
    ultimately show "?s ! i \<noteq> 0"
      using q(3) nth_mem [of 0 ?q] by (metis length_greater_0_conv)
  qed
  have sk: "skip_token ?s t (length pre) = Inr i"
    using skip_token_run [OF r(2)] by (simp add: i_def)
  have wd: "skip_word ?s t i = Inr (i + length ?w)"
    unfolding s q(6) using skip_word_run [OF q(3), of "pre @ sp" t] by (simp only: first_field_def)
  have step: "parse_loop (Suc n) t ?s (length pre) argv argc =
      (if argc < length argv then
         let (s, j) = (if ?s ! (i + length ?w) \<noteq> 0 then (?s[i + length ?w := 0], i + length ?w + 1) else (?s, i + length ?w))
         in parse_loop n t s j (argv[argc := Some i]) (argc + 1)
       else Inl Out_Of_Bounds)"
    using c sk wd argc by (subst parse_loop.simps) (auto simp: rd_def wr_def Let_def)
  have len: "0 < length ?w"
    using w by simp
  consider "?r = []" | z where "?r = t # z"
    using dropWhile_shape [of "\<lambda>c. c \<noteq> t" ?q] unfolding rest_fields_def by blast
  then show ?thesis
  proof cases
    case 1
    then have e: "?s = (pre @ sp @ ?w) @ cstr []" "length r = length sp + length ?w"
      using s q(1,2) by (simp, metis append_Nil2 length_append)
    have z: "?s ! (i + length ?w) = 0" and l: "i + length ?w = length (pre @ sp @ ?w)"
      unfolding e(1) q(6) by (simp_all add: nth_append)
    have res: "parse_loop (Suc n) t ?s (length pre) argv argc =
        (if argc < length argv then parse_loop n t ((pre @ sp @ ?w) @ cstr []) (length (pre @ sp @ ?w)) (argv[argc := Some i]) (argc + 1)
         else Inl Out_Of_Bounds)"
      unfolding step z l [symmetric] e(1) [symmetric] by simp
    show ?thesis
      by (rule that [OF res]) (use e(2) len 1 in \<open>simp_all add: split_by_def\<close>)
  next
    case 2
    then have e: "?s = (pre @ sp @ ?w) @ t # cstr z" "length r = length sp + length ?w + 1 + length z"
      using s q(1,2) by (simp, metis (no_types, lifting) add.assoc add.commute length_append length_Cons plus_1_eq_Suc)
    have z: "?s ! (i + length ?w) = t" "?s[i + length ?w := 0] = (pre @ sp @ ?w @ [0]) @ cstr z"
      and l: "i + length ?w + 1 = length (pre @ sp @ ?w @ [0])"
      unfolding e(1) q(6) by (simp_all add: nth_append list_update_append)
    have "parse_loop (Suc n) t ?s (length pre) argv argc =
        (if argc < length argv then parse_loop n t ((pre @ sp @ ?w @ [0]) @ cstr z) (length (pre @ sp @ ?w @ [0])) (argv[argc := Some i]) (argc + 1)
         else Inl Out_Of_Bounds)"
      unfolding step z l [symmetric] using r(2) by simp
    moreover have "split_by t z = split_by t ?r"
      unfolding 2 by (simp add: split_by_def)
    ultimately show ?thesis
      by (intro that [of "pre @ sp @ ?w @ [0]" z]) (use e(2) q(5) 2 in simp_all)
  qed
qed

lemma parse_loop_words:
  assumes "0 \<notin> set r" "t \<noteq> 0" "length r \<le> fuel" "length argv = MAX_ARG_NR" "argc \<le> MAX_ARG_NR"
  shows "if argc + length (split_by t r) \<le> MAX_ARG_NR then
      \<exists>s' argv'. parse_loop fuel t (pre @ cstr r) (length pre) argv argc = Inr (s', argv', int (argc + length (split_by t r))) \<and>
        take (length pre) s' = pre \<and> length s' = length pre + length r + 1 \<and> last s' = 0 \<and> points_to s' argv argv' argc (split_by t r)
    else parse_loop fuel t (pre @ cstr r) (length pre) argv argc = Inl Out_Of_Bounds"
  using assms
proof (induction r arbitrary: pre fuel argv argc rule: measure_induct_rule [of length])
  case (less r)
  let ?s = "pre @ cstr r" and ?w = "first_field t r"
  show ?case
  proof (cases "?w = []")
    case True
    have "parse_loop fuel t ?s (length pre) argv argc = Inr (?s, argv, int argc)"
    proof (cases r)
      case Nil
      then show ?thesis
        by (subst parse_loop.simps) (simp add: rd_def nth_append)
    next
      case (Cons c r')
      then obtain n where "fuel = Suc n"
        using less.prems(3) by (cases fuel) auto
      moreover have "dropWhile (\<lambda>c. c = t) r = []"
        using True dropWhile_shape [of "\<lambda>c. c = t" r] by (auto simp: first_field_def)
      then have "takeWhile (\<lambda>c. c = t) r = r"
        by (metis append_Nil2 takeWhile_dropWhile_id)
      ultimately show ?thesis
        using Cons less.prems(1) skip_token_run [OF less.prems(2), of pre r]
        by (subst parse_loop.simps) (auto simp: rd_def nth_append)
    qed
    then show ?thesis
      using True less.prems(5) split_by_step [of t r] by (auto simp: points_to_def)
  next
    case w: False
    then obtain n where n: "fuel = Suc n"
      using less.prems(3) by (cases fuel) (auto simp: first_field_def)
    have ws: "split_by t r = ?w # split_by t (rest_fields t r)"
      using w split_by_step [of t r] by simp
    define i where "i = length pre + length (takeWhile (\<lambda>c. c = t) r)"
    obtain pre' r' where p: "parse_loop (Suc n) t ?s (length pre) argv argc =
        (if argc < length argv then parse_loop n t (pre' @ cstr r') (length pre') (argv[argc := Some i]) (argc + 1) else Inl Out_Of_Bounds)"
      "length pre' + length r' = length pre + length r" "length r' < length r" "0 \<notin> set r'" "split_by t r' = split_by t (rest_fields t r)"
      "pre' = pre @ takeWhile (\<lambda>c. c = t) r @ ?w \<and> r' = [] \<or> pre' = pre @ takeWhile (\<lambda>c. c = t) r @ ?w @ [0]"
      unfolding i_def by (rule parse_loop_turn [OF less.prems(1,2) w less.prems(5)]) blast
    show ?thesis
    proof (cases "argc < MAX_ARG_NR")
      case False
      then show ?thesis
        using p(1) n ws less.prems(4,5) by simp
    next
      case True
      have IH: "if argc + 1 + length (split_by t r') \<le> MAX_ARG_NR then
          \<exists>s' argv'. parse_loop n t (pre' @ cstr r') (length pre') (argv[argc := Some i]) (argc + 1) = Inr (s', argv', int (argc + 1 + length (split_by t r'))) \<and>
            take (length pre') s' = pre' \<and> length s' = length pre' + length r' + 1 \<and> last s' = 0 \<and>
            points_to s' (argv[argc := Some i]) argv' (argc + 1) (split_by t r')
        else parse_loop n t (pre' @ cstr r') (length pre') (argv[argc := Some i]) (argc + 1) = Inl Out_Of_Bounds"
        using less.prems p(3,4) n True by (intro less.IH) auto
      show ?thesis
      proof (cases "argc + length (split_by t r) \<le> MAX_ARG_NR")
        case False
        then show ?thesis
          using IH p(1,5) n ws True less.prems(4) by simp
      next
        case le: True
        then obtain s' argv' where s': "parse_loop n t (pre' @ cstr r') (length pre') (argv[argc := Some i]) (argc + 1) =
            Inr (s', argv', int (argc + length (split_by t r)))"
          "take (length pre') s' = pre'" "length s' = length pre' + length r' + 1" "last s' = 0"
          "points_to s' (argv[argc := Some i]) argv' (argc + 1) (split_by t (rest_fields t r))"
          using IH p(5) ws by auto
        have shape: "\<exists>z. s' = pre @ takeWhile (\<lambda>c. c = t) r @ ?w @ 0 # z"
        proof (cases "pre' = pre @ takeWhile (\<lambda>c. c = t) r @ ?w @ [0]")
          case True
          then show ?thesis
            using s'(2) by (metis append.assoc append_Cons append_Nil append_take_drop_id)
        next
          case False
          then have "pre' = pre @ takeWhile (\<lambda>c. c = t) r @ ?w" "length s' = length pre' + 1"
            using p(6) s'(3) by auto
          moreover from this have "s' = take (length pre') s' @ [last s']"
            by (metis add_diff_cancel_right' append_butlast_last_id butlast_conv_take length_0_conv add_is_0 one_neq_zero)
          ultimately show ?thesis
            using s'(2,4) by auto
        qed
        have first: "takeWhile (\<lambda>c. c \<noteq> 0) (drop i s') = ?w"
        proof -
          have "0 \<notin> set ?w"
            using less.prems(1) unfolding first_field_def by (auto dest: set_dropWhileD set_takeWhileD)
          then have "takeWhile (\<lambda>c. c \<noteq> 0) (?w @ 0 # z) = ?w" for z
            by (subst takeWhile_append2) auto
          then show ?thesis
            using shape by (auto simp: i_def)
        qed
        have "points_to s' argv argv' argc (split_by t r)"
          unfolding ws using points_to_Cons [OF s'(5) _ first] True less.prems(4) by simp
        then show ?thesis
          using shape s' p(1,2) n True le less.prems(4) by auto
      qed
    qed
  qed
qed

text \<open>C13: \<^verbatim>\<open>cmd_parse\<close> ends on every command line and finds exactly its words, the non-empty pieces between separators: with
  up to 16 of them it returns their number, \<^verbatim>\<open>argv[k]\<close> points to the \<open>k\<close>-th word as a terminated string, and the
  entries behind stay \<^verbatim>\<open>NULL\<close>. With a seventeenth word it writes behind the array, before it comes to the test
  that is there to refuse the line.\<close>

theorem cmd_parse_splits:
  assumes "0 \<notin> set p" "t \<noteq> 0"
  shows "if length (split_by t p) \<le> MAX_ARG_NR then
      \<exists>s argv. cmd_parse (cstr p) t = Inr (s, argv, int (length (split_by t p))) \<and>
        points_to s (replicate MAX_ARG_NR None) argv 0 (split_by t p)
    else cmd_parse (cstr p) t = Inl Out_Of_Bounds"
  using parse_loop_words [OF assms, of "length (cstr p)" "replicate MAX_ARG_NR None" 0 "[]"] by (auto simp: cmd_parse_def)

theorem cmd_parse_splits_witness:
  "(\<exists>s argv. cmd_parse (cstr [108, 115, 32, 32, 97]) 32 = Inr (s, argv, 2) \<and>
     points_to s (replicate MAX_ARG_NR None) argv 0 [[108, 115], [97]]) \<and>
   cmd_parse (cstr (concat (replicate 17 [97, 32]))) 32 = Inl Out_Of_Bounds"
proof
  have "split_by 32 [108, 115, 32, 32, 97] = [[108, 115], [97]]"
    by (simp add: split_by_def)
  then show "\<exists>s argv. cmd_parse (cstr [108, 115, 32, 32, 97]) 32 = Inr (s, argv, 2) \<and>
      points_to s (replicate MAX_ARG_NR None) argv 0 [[108, 115], [97]]"
    using cmd_parse_splits [of "[108, 115, 32, 32, 97]" 32] by (simp add: MAX_ARG_NR_def)
  have "split_by 32 (concat (replicate n [97, 32])) = replicate n [97]" for n
    by (induction n) (simp_all add: split_by_def)
  then show "cmd_parse (cstr (concat (replicate 17 [97, 32]))) 32 = Inl Out_Of_Bounds"
    using cmd_parse_splits [of "concat (replicate 17 [97, 32])" 32] by (simp add: MAX_ARG_NR_def set_concat)
qed

end
