(* ===== verification/Keyboard.thy ===== *)
theory Keyboard
  imports Ioqueue
begin

section \<open>The keyboard (device/keyboard.c)\<close>

text \<open>
  The handler of the keyboard interrupt: scan codes in, characters into the ring buffer out. The byte the
  controller has at port \<^verbatim>\<open>0x60\<close> is the argument. \<open>kbd_buf\<close> is the address of the global queue; the flags are
  the static variables. The message for a code that is not handled is left out.
\<close>

subsection \<open>Operations\<close>

record kbd = io +
  kbd_buf :: addr
  ctrl_status :: bool
  shift_status :: bool
  alt_status :: bool
  caps_lock_status :: bool
  ext_scancode :: bool

text \<open>The characters of the make codes \<^verbatim>\<open>0x00\<close> to \<^verbatim>\<open>0x3a\<close>, without and with shift; 0 for keys that have none.\<close>

definition keymap :: "(u8 \<times> u8) list" where
  "keymap =
    [(0, 0), (27, 27), (49, 33), (50, 64), (51, 35), (52, 36), (53, 37), (54, 94), (55, 38), (56, 42), (57, 40),
     (48, 41), (45, 95), (61, 43), (8, 8), (9, 9), (113, 81), (119, 87), (101, 69), (114, 82), (116, 84), (121,
     89), (117, 85), (105, 73), (111, 79), (112, 80), (91, 123), (93, 125), (13, 13), (0, 0), (97, 65), (115, 83),
     (100, 68), (102, 70), (103, 71), (104, 72), (106, 74), (107, 75), (108, 76), (59, 58), (39, 34), (96, 126),
     (0, 0), (92, 124), (122, 90), (120, 88), (99, 67), (118, 86), (98, 66), (110, 78), (109, 77), (44, 60), (46,
     62), (47, 63), (0, 0), (42, 42), (0, 0), (32, 32), (0, 0)]"

definition shift_l_make :: u16 where "shift_l_make = 0x2a"
definition shift_r_make :: u16 where "shift_r_make = 0x36"
definition alt_l_make :: u16 where "alt_l_make = 0x38"
definition alt_r_make :: u16 where "alt_r_make = 0xe038"
definition ctrl_l_make :: u16 where "ctrl_l_make = 0x1d"
definition ctrl_r_make :: u16 where "ctrl_r_make = 0xe01d"
definition caps_lock_make :: u16 where "caps_lock_make = 0x3a"

text \<open>A key was released: the break code without its bit 7.\<close>

definition key_released :: "u16 \<Rightarrow> 'a kbd_scheme \<Rightarrow> 'a kbd_scheme" where
  "key_released make_code s =
     (if make_code = ctrl_l_make \<or> make_code = ctrl_r_make then s\<lparr>ctrl_status := False\<rparr>
      else if make_code = shift_l_make \<or> make_code = shift_r_make then s\<lparr>shift_status := False\<rparr>
      else if make_code = alt_l_make \<or> make_code = alt_r_make then s\<lparr>alt_status := False\<rparr>
      else s)"

text \<open>A control key was pressed; the code has lost its high byte, so the right keys count as the left ones.\<close>

definition control_pressed :: "u16 \<Rightarrow> 'a kbd_scheme \<Rightarrow> 'a kbd_scheme" where
  "control_pressed scancode s =
     (if scancode = ctrl_l_make \<or> scancode = ctrl_r_make then s\<lparr>ctrl_status := True\<rparr>
      else if scancode = shift_l_make \<or> scancode = shift_r_make then s\<lparr>shift_status := True\<rparr>
      else if scancode = alt_l_make \<or> scancode = alt_r_make then s\<lparr>alt_status := True\<rparr>
      else if scancode = caps_lock_make then s\<lparr>caps_lock_status := \<not> caps_lock_status s\<rparr>
      else s)"

text \<open>The keys with two symbols; the others are taken for letters.\<close>

definition two_symbols :: "u16 \<Rightarrow> bool" where
  "two_symbols scancode \<longleftrightarrow> scancode < 0x0e \<or> scancode \<in> {0x29, 0x1a, 0x1b, 0x2b, 0x27, 0x28, 0x33, 0x34, 0x35}"

definition shift_column :: "u16 \<Rightarrow> bool \<Rightarrow> bool \<Rightarrow> bool" where
  "shift_column scancode shift_down_last caps_lock_last =
     (if two_symbols scancode then shift_down_last
      else if shift_down_last \<and> caps_lock_last then False
      else shift_down_last \<or> caps_lock_last)"

definition key_pressed :: "u16 \<Rightarrow> ('a kbd_scheme, unit) kop" where
  "key_pressed scancode s =
     (let shift = shift_column scancode (shift_status s) (caps_lock_status s);
          ctrl_down_last = ctrl_status s;
          scancode = scancode AND 0x00ff
      in bindK (liftR (rd keymap (unat scancode))) (\<lambda>(plain, shifted).
         let cur_char = (if shift then shifted else plain) in
         if cur_char \<noteq> 0 then
           let cur_char = (if ctrl_down_last \<and> cur_char = 108 \<or> ctrl_down_last \<and> cur_char = 117 then cur_char - 97 else cur_char) in
           bindK (ioq_full (kbd_buf s)) (\<lambda>full. whenK (\<not> full) (ioq_putchar (kbd_buf s) cur_char))
         else modK (control_pressed scancode)) s)"

definition intr_keyboard_handler :: "u8 \<Rightarrow> ('a kbd_scheme, unit) kop" where
  "intr_keyboard_handler data s =
     (let scancode = ucast data :: u16 in
      if scancode = 0xe0 then Ret () (s\<lparr>ext_scancode := True\<rparr>)
      else
        let (scancode, s) = (if ext_scancode s then (0xe000 OR scancode, s\<lparr>ext_scancode := False\<rparr>) else (scancode, s)) in
        if scancode AND 0x0080 \<noteq> 0 then Ret () (key_released (scancode AND 0xff7f) s)
        else if scancode > 0 \<and> scancode < 0x3b \<or> scancode = alt_r_make \<or> scancode = ctrl_r_make then key_pressed scancode s
        else Ret () s)"

definition keyboard_init :: "addr \<Rightarrow> 'a kbd_scheme \<Rightarrow> 'a kbd_scheme res" where
  "keyboard_init handler s = register_handler 0x21 handler (ioqueue_init (kbd_buf s) s)"

subsection \<open>Typing\<close>

text \<open>
  The reference: where the characters are on a keyboard with the US layout, and how one is typed. The keys of a row have
  consecutive make codes (set 1 of scan codes); a row is given by its first make code, the lower and the upper
  symbols. The reference does not use the table of the driver.
\<close>

definition us_row :: "nat \<Rightarrow> string \<Rightarrow> string \<Rightarrow> (nat \<times> u8 \<times> u8) list" where
  "us_row k lower upper = zip [k..<k + length lower] (zip (map of_char lower) (map of_char upper))"

definition us_layout :: "(nat \<times> u8 \<times> u8) list" where
  "us_layout =
     us_row 0x02 ''1234567890-='' ''!@#$%^&*()_+'' @
     us_row 0x10 ''qwertyuiop[]'' ''QWERTYUIOP{}'' @
     us_row 0x1e (''asdfghjkl;'' @ [CHR 0x27, CHR 0x60]) (''ASDFGHJKL:'' @ [CHR 0x22, CHR 0x7e]) @
     us_row 0x2b (CHR 0x5c # ''zxcvbnm,./'') (CHR 0x7c # ''ZXCVBNM<>?'') @
     [(0x01, 27, 27), (0x0e, 8, 8), (0x0f, 9, 9), (0x1c, 13, 13), (0x39, 32, 32)]"

definition key_of :: "u8 \<Rightarrow> nat option" where
  "key_of c = map_option fst (find (\<lambda>(k, lower, upper). lower = c \<or> upper = c) us_layout)"

text \<open>The left shift key is held when a letter is wanted in the case the caps lock does not give, or the upper symbol
  of another key.\<close>

definition needs_shift :: "bool \<Rightarrow> u8 \<Rightarrow> bool" where
  "needs_shift caps c =
     (if 97 \<le> c \<and> c \<le> 122 then caps else if 65 \<le> c \<and> c \<le> 90 then \<not> caps
      else c \<notin> set (map (fst \<circ> snd) us_layout))"

definition strokes :: "bool \<Rightarrow> u8 \<Rightarrow> u8 list" where
  "strokes caps c =
     (case key_of c of None \<Rightarrow> []
      | Some k \<Rightarrow>
          let key = [of_nat k, of_nat k OR 0x80]
          in if needs_shift caps c then [0x2a] @ key @ [0xaa] else key)"

text \<open>The layout with the codes of its characters, for evaluation.\<close>

lemma us_layout_codes [code]:
  "us_layout = [
    (2, 49, 33), (3, 50, 64), (4, 51, 35), (5, 52, 36), (6, 53, 37), (7, 54, 94), (8, 55, 38), (9, 56,
     42), (10, 57, 40), (11, 48, 41), (12, 45, 95), (13, 61, 43), (16, 113, 81), (17, 119, 87), (18, 101,
     69), (19, 114, 82), (20, 116, 84), (21, 121, 89), (22, 117, 85), (23, 105, 73), (24, 111, 79), (25,
     112, 80), (26, 91, 123), (27, 93, 125), (30, 97, 65), (31, 115, 83), (32, 100, 68), (33, 102, 70),
     (34, 103, 71), (35, 104, 72), (36, 106, 74), (37, 107, 75), (38, 108, 76), (39, 59, 58), (40, 39,
     34), (41, 96, 126), (43, 92, 124), (44, 122, 90), (45, 120, 88), (46, 99, 67), (47, 118, 86), (48,
     98, 66), (49, 110, 78), (50, 109, 77), (51, 44, 60), (52, 46, 62), (53, 47, 63), (1, 27, 27), (14,
     8, 8), (15, 9, 9), (28, 13, 13), (57, 32, 32)]"
  by code_simp

text \<open>The table of the driver, with its rule for the column, agrees with the layout.\<close>

lemma keymap_layout:
  "list_all (\<lambda>(k, lower, upper). 1 \<le> k \<and> k < 59 \<and> list_all (\<lambda>caps. list_all (\<lambda>c. c \<noteq> 0 \<and>
     (if shift_column (of_nat k) (needs_shift caps c) caps then snd (keymap ! k) else fst (keymap ! k)) = c)
     [lower, upper]) [False, True]) us_layout"
  by code_simp

lemma make_codes:
  "list_all (\<lambda>k. (ucast (of_nat k :: u8) :: u16) = of_nat k \<and> of_nat k \<noteq> (0xe0 :: u16) \<and> of_nat k AND 0x80 = (0 :: u16) \<and>
     (0 :: u16) < of_nat k \<and> of_nat k < (0x3b :: u16) \<and> of_nat k AND 0xff = (of_nat k :: u16) \<and> unat (of_nat k :: u16) = k) [1..<59]"
  by code_simp

lemma break_codes:
  "list_all (\<lambda>k. (ucast (of_nat k OR 0x80 :: u8) :: u16) \<noteq> 0xe0 \<and> (ucast (of_nat k OR 0x80 :: u8) :: u16) AND 0x80 \<noteq> 0 \<and>
     (ucast (of_nat k OR 0x80 :: u8) :: u16) AND 0xff7f = of_nat k \<and>
     (fst (keymap ! k) \<noteq> 0 \<or> snd (keymap ! k) \<noteq> 0 \<longrightarrow> of_nat k \<notin> {ctrl_l_make, ctrl_r_make, shift_l_make, shift_r_make, alt_l_make, alt_r_make}))
   [1..<59]"
  by code_simp

text \<open>The state of the keys, which the ring buffer does not touch.\<close>

definition key_state :: "'a kbd_scheme \<Rightarrow> addr \<times> bool \<times> bool \<times> bool \<times> bool \<times> bool" where
  "key_state s = (kbd_buf s, ctrl_status s, shift_status s, alt_status s, caps_lock_status s, ext_scancode s)"

lemma key_state_rest: "same_rest s s' \<Longrightarrow> key_state s' = key_state s"
  by (cases s; cases s'; simp add: same_rest_def key_state_def)

lemma key_state_set [simp]: "key_state (set_ioq q f s) = key_state s"
  by (simp add: set_ioq_def key_state_def)

lemma ioq_putchar_keys:
  assumes "ioq_putchar q b s = Ret u s'"
  shows "key_state s' = key_state s"
  using assms
  by (auto simp: ioq_putchar_def ioq_full_def ioq_wait_def wakeup_def kop_iffs Let_def whenK_def
    dest!: key_state_rest [OF thread_unblock_rest] split: if_splits outcome.splits)

definition keys_up :: "'a kbd_scheme \<Rightarrow> bool" where
  "keys_up s \<longleftrightarrow> \<not> ctrl_status s \<and> \<not> shift_status s \<and> \<not> ext_scancode s"

abbreviation typed :: "'a kbd_scheme \<Rightarrow> u8 list" where
  "typed s \<equiv> ioq_contents (ioqs s (kbd_buf s))"

lemma ioq_ready_shift [simp]: "ioq_ready q (s\<lparr>shift_status := b\<rparr>) = ioq_ready q s"
proof -
  have "queues (s\<lparr>shift_status := b\<rparr>) = queues s"
    by (rule sched_parts; simp)
  then show ?thesis
    by (simp add: ioq_ready_def waiter_ok_def)
qed

lemma shift_press: "\<not> ext_scancode s \<Longrightarrow> intr_keyboard_handler 0x2a s = Ret () (s\<lparr>shift_status := True\<rparr>)"
  by (simp add: intr_keyboard_handler_def key_pressed_def keymap_def rd_def control_pressed_def
    shift_l_make_def ctrl_l_make_def ctrl_r_make_def)

lemma shift_release: "\<not> ext_scancode s \<Longrightarrow> intr_keyboard_handler 0xaa s = Ret () (s\<lparr>shift_status := False\<rparr>)"
  by (simp add: intr_keyboard_handler_def key_released_def shift_l_make_def ctrl_l_make_def ctrl_r_make_def)

lemma key_release:
  assumes "1 \<le> k" "k < 59" "c \<noteq> 0" "c \<in> {fst (keymap ! k), snd (keymap ! k)}" "\<not> ext_scancode s"
  shows "intr_keyboard_handler (of_nat k OR 0x80) s = Ret () s"
proof -
  have "k \<in> set [1..<59]"
    using assms by simp
  note b = break_codes [unfolded list_all_iff, rule_format, OF this]
  have "fst (keymap ! k) \<noteq> 0 \<or> snd (keymap ! k) \<noteq> 0"
    using assms(3,4) by auto
  then have "of_nat k \<notin> {ctrl_l_make, ctrl_r_make, shift_l_make, shift_r_make, alt_l_make, alt_r_make}"
    using b by blast
  then show ?thesis
    using b assms(5) by (simp add: intr_keyboard_handler_def key_released_def Let_def)
qed

lemma key_press:
  assumes k: "1 \<le> k" "k < 59" and c: "c \<noteq> 0" "c = (if shift_column (of_nat k) (shift_status s) (caps_lock_status s) then snd (keymap ! k) else fst (keymap ! k))"
    and s: "\<not> ext_scancode s" "\<not> ctrl_status s" "ioq_ready (kbd_buf s) s" "length (typed s) < bufsize - 1"
  shows "\<exists>s'. intr_keyboard_handler (of_nat k) s = Ret () s' \<and> key_state s' = key_state s \<and> ioq_ready (kbd_buf s) s' \<and>
    ioq_contents (ioqs s' (kbd_buf s)) = typed s @ [c]"
proof -
  have m: "(ucast (of_nat k :: u8) :: u16) = of_nat k" "of_nat k \<noteq> (0xe0 :: u16)" "of_nat k AND 0x80 = (0 :: u16)"
     "(0 :: u16) < of_nat k" "of_nat k < (0x3b :: u16)" "of_nat k AND 0xff = (of_nat k :: u16)" "unat (of_nat k :: u16) = k"
    using make_codes k by (auto simp: list_all_iff)
  have l: "length keymap = 59"
    by (simp add: keymap_def)
  have f: "\<not> iflag s" "next_pos (ioq_head (ioqs s (kbd_buf s))) \<noteq> ioq_tail (ioqs s (kbd_buf s))"
    using s(3,4) full_iff [of "ioqs s (kbd_buf s)"] by (auto simp: ioq_ready_def)
  have "intr_keyboard_handler (of_nat k) s = key_pressed (of_nat k) s"
    using m(1-5) s(1) by (simp add: intr_keyboard_handler_def)
  also have "\<dots> = ioq_putchar (kbd_buf s) c s"
    using c(1) l k(2) f s(2) unfolding c(2)
    by (cases "keymap ! k") (auto simp: key_pressed_def m(6,7) rd_def ioq_full_def off_iff Let_def split: if_splits)
  finally show ?thesis
    using ioq_putchar_ok [OF s(3,4), of c] ioq_putchar_keys by metis
qed

lemma find_SomeD: "find P xs = Some x \<Longrightarrow> x \<in> set xs \<and> P x"
  by (induction xs) (auto split: if_splits)

lemma key_of_props:
  assumes "key_of c = Some k"
  shows "1 \<le> k" "k < 59" "c \<noteq> 0"
    "(if shift_column (of_nat k) (needs_shift caps c) caps then snd (keymap ! k) else fst (keymap ! k)) = c"
    "c \<in> {fst (keymap ! k), snd (keymap ! k)}"
proof -
  obtain lower upper where l: "(k, lower, upper) \<in> set us_layout" "c = lower \<or> c = upper"
    using assms by (auto simp: key_of_def dest!: find_SomeD)
  have k: "1 \<le> k \<and> k < 59 \<and> list_all (\<lambda>caps. list_all (\<lambda>c. c \<noteq> 0 \<and>
     (if shift_column (of_nat k) (needs_shift caps c) caps then snd (keymap ! k) else fst (keymap ! k)) = c)
     [lower, upper]) [False, True]"
    using keymap_layout l(1) unfolding list_all_iff by blast
  then show "1 \<le> k" "k < 59"
    by simp_all
  have "c \<noteq> 0 \<and> (if shift_column (of_nat k) (needs_shift caps c) caps then snd (keymap ! k) else fst (keymap ! k)) = c" for caps
    using k l(2) by (cases caps) auto
  then show "c \<noteq> 0"
    "(if shift_column (of_nat k) (needs_shift caps c) caps then snd (keymap ! k) else fst (keymap ! k)) = c"
    "c \<in> {fst (keymap ! k), snd (keymap ! k)}"
    by (blast, blast, metis insertCI)
qed

lemma type_char:
  assumes c: "key_of c \<noteq> None" and s: "keys_up s" "ioq_ready (kbd_buf s) s" "length (typed s) < bufsize - 1"
  shows "\<exists>s'. eachK intr_keyboard_handler (strokes (caps_lock_status s) c) s = Ret () s' \<and> key_state s' = key_state s \<and>
    ioq_ready (kbd_buf s) s' \<and> ioq_contents (ioqs s' (kbd_buf s)) = typed s @ [c]"
proof -
  obtain k where "key_of c = Some k"
    using c by blast
  note k = this key_of_props(1-3,5) [OF this]
  let ?n = "needs_shift (caps_lock_status s) c"
  let ?s = "s\<lparr>shift_status := ?n\<rparr>"
  have "c = (if shift_column (of_nat k) ?n (caps_lock_status s) then snd (keymap ! k) else fst (keymap ! k))"
    using key_of_props(4) [OF k(1)] by simp
  then obtain s1 where s1: "intr_keyboard_handler (of_nat k) ?s = Ret () s1" "key_state s1 = key_state ?s"
      "ioq_ready (kbd_buf s) s1" "ioq_contents (ioqs s1 (kbd_buf s)) = typed s @ [c]"
    using key_press [OF k(2-4), of ?s] s by (auto simp: keys_up_def)
  then have x: "\<not> ext_scancode s1" "shift_status s1 = ?n"
    using s(1) by (simp_all add: key_state_def keys_up_def)
  have r: "intr_keyboard_handler (of_nat k OR 0x80) s1 = Ret () s1"
    by (rule key_release [OF k(2-5) x(1)])
  show ?thesis
  proof (cases ?n)
    case True
    let ?s2 = "s1\<lparr>shift_status := False\<rparr>"
    have "strokes (caps_lock_status s) c = [0x2a, of_nat k, of_nat k OR 0x80, 0xaa]"
      using k(1) True by (simp add: strokes_def Let_def)
    moreover have "intr_keyboard_handler 0x2a s = Ret () ?s"
      using shift_press [of s] s(1) True by (simp add: keys_up_def)
    ultimately have "eachK intr_keyboard_handler (strokes (caps_lock_status s) c) s = Ret () ?s2"
      using s1(1) r shift_release [OF x(1)] by simp
    moreover have "key_state ?s2 = key_state s"
      using s1(2) s(1) by (simp add: key_state_def keys_up_def)
    ultimately show ?thesis
      using s1(3,4) by (intro exI [of _ ?s2]) simp
  next
    case False
    then have "?s = s"
      using s(1) by (simp add: keys_up_def)
    moreover have "strokes (caps_lock_status s) c = [of_nat k, of_nat k OR 0x80]"
      using k(1) False by (simp add: strokes_def Let_def)
    ultimately show ?thesis
      using s1 r by (intro exI [of _ s1]) simp
  qed
qed

lemma key_state_eqs:
  assumes "key_state s' = key_state s"
  shows "kbd_buf s' = kbd_buf s" "caps_lock_status s' = caps_lock_status s" "keys_up s' = keys_up s"
  using assms by (simp_all add: key_state_def keys_up_def)

text \<open>A machine as in the demonstration of the ring buffer, whose queue at \<^verbatim>\<open>0x6000\<close> is the keyboard's.\<close>

definition demo_kbd :: kbd where
  "demo_kbd = io.extend demo_io (kbd.fields 0x6000 False False False False False)"

lemma demo_kbd_ok: "keys_up demo_kbd" "ioq_ready (kbd_buf demo_kbd) demo_kbd" "typed demo_kbd = []"
proof -
  have f: "kbd_buf demo_kbd = 0x6000" "ioqs demo_kbd = ioqs demo_io" "tasks demo_kbd = tasks demo_io"
    "thread_ready_list demo_kbd = thread_ready_list demo_io" "thread_all_list demo_kbd = thread_all_list demo_io"
    "idle_thread demo_kbd = idle_thread demo_io" "esp demo_kbd = esp demo_io" "cr3 demo_kbd = cr3 demo_io" "iflag demo_kbd = iflag demo_io"
    "pmem demo_kbd = pmem demo_io"
    by (simp_all add: demo_kbd_def io.defs kbd.defs)
  have "queues demo_kbd = queues demo_io"
    by (rule sched_parts; simp add: f)
  then show "ioq_ready (kbd_buf demo_kbd) demo_kbd"
    using demo_io_ok sched_invD(1) [OF demo_io_ok(1)]
    by (simp add: ioq_ready_def wf_ioq_def bufsize_def waiter_ok_def f)
  show "typed demo_kbd = []"
    by (simp add: f demo_io_ok ioq_contents_def ioq_length_def)
  show "keys_up demo_kbd"
    by (simp add: demo_kbd_def io.defs kbd.defs keys_up_def)
qed

text \<open>C14: Typing arrives as text. Type a text on the main block of a keyboard with the US layout: press and
  release the key the layout has for each character, with the left shift key held where the caps lock state does not
  already give the wanted symbol. The interrupt handler, run on the scan codes one after the other, appends exactly
  that text to the keyboard's ring buffer, as long as it has room, whether the caps lock is on or off, and the
  state of the modifier keys is afterwards what it was.\<close>

theorem typing_arrives:
  assumes "\<forall>c \<in> set cs. key_of c \<noteq> None" "keys_up s" "ioq_ready (kbd_buf s) s"
    "length (typed s) + length cs \<le> bufsize - 1"
  shows "\<exists>s'. eachK intr_keyboard_handler (concat (map (strokes (caps_lock_status s)) cs)) s = Ret () s' \<and>
    typed s' = typed s @ cs \<and> key_state s' = key_state s \<and> ioq_ready (kbd_buf s) s'"
  using assms
proof (induction cs arbitrary: s)
  case (Cons c cs)
  let ?caps = "caps_lock_status s"
  have "key_of c \<noteq> None" "length (typed s) < bufsize - 1"
    using Cons.prems by auto
  then obtain s1 where s1: "eachK intr_keyboard_handler (strokes ?caps c) s = Ret () s1" "key_state s1 = key_state s"
      "ioq_ready (kbd_buf s) s1" "ioq_contents (ioqs s1 (kbd_buf s)) = typed s @ [c]"
    using type_char Cons.prems(2,3) by blast
  note e = key_state_eqs [OF s1(2)]
  obtain s2 where "eachK intr_keyboard_handler (concat (map (strokes ?caps) cs)) s1 = Ret () s2"
      "typed s2 = typed s1 @ cs" "key_state s2 = key_state s1" "ioq_ready (kbd_buf s) s2"
    using Cons.IH [of s1] Cons.prems s1(3,4) by (auto simp: e)
  then show ?case
    using s1 e by (intro exI [of _ s2]) (simp add: eachK_append)
qed auto

theorem typing_arrives_witness:
  "\<exists>s'. eachK intr_keyboard_handler [0x26, 0xa6, 0x2a, 0x1f, 0x9f, 0xaa] demo_kbd = Ret () s' \<and> typed s' = [108, 83]"
proof -
  have k: "key_of 108 = Some 0x26" "key_of 83 = Some 0x1f" "needs_shift False 108 = False" "needs_shift False 83"
    by code_simp+
  have "concat (map (strokes (caps_lock_status demo_kbd)) [108, 83]) = [0x26, 0xa6, 0x2a, 0x1f, 0x9f, 0xaa]"
    using k by (simp add: strokes_def demo_kbd_def io.defs kbd.defs)
  moreover have "\<forall>c \<in> set [108, 83]. key_of c \<noteq> None" "length (typed demo_kbd) + length [108, 83 :: u8] \<le> bufsize - 1"
    using k demo_kbd_ok(3) by (simp_all add: bufsize_def)
  ultimately show ?thesis
    using typing_arrives [OF _ demo_kbd_ok(1,2), of "[108, 83]"] demo_kbd_ok(3) by (metis append_Nil)
qed

end
