(* ===== verification/Ide.thy ===== *)
theory Ide
  imports Disk
begin

section \<open>The driver of the disks (device/ide.c)\<close>

text \<open>
  The driver programs a controller through its ports. The controller is no code of the kernel: what it does at
  each access of a port is the parameter \<open>A\<close> of every definition, on a state of its own kept in \<open>hw\<close>.
  A disk is named by the indices of its channel and of itself among the devices of the channel. A channel's lock is
  whether it is held, the semaphore \<^verbatim>\<open>disk_done\<close> is its value: a thread that waits for it sleeps until the interrupt
  handler has run, and the other threads that run meanwhile do not touch a channel whose lock they do not hold.
  The buffers the heap hands to \<^verbatim>\<open>partition_scan\<close> are counted in \<open>bs_live\<close>; the request is taken to be answered.
  Output to the screen is left out.
\<close>

subsection \<open>The controller and the structures of the driver\<close>

text \<open>A byte to and from a port, a block of bytes from and to a port (\<^verbatim>\<open>insw\<close>, \<^verbatim>\<open>outsw\<close>), the state in which the
  controller raises the interrupt of a vector (\<open>None\<close>: it never does), and the passing of 10 milliseconds.\<close>

record 'c ata =
  ata_out :: "'c \<Rightarrow> u16 \<Rightarrow> u8 \<Rightarrow> 'c"
  ata_in :: "'c \<Rightarrow> u16 \<Rightarrow> u8 \<times> 'c"
  ata_insw :: "'c \<Rightarrow> u16 \<Rightarrow> nat \<Rightarrow> u8 list \<times> 'c"
  ata_outsw :: "'c \<Rightarrow> u16 \<Rightarrow> u8 list \<Rightarrow> 'c"
  ata_intr :: "'c \<Rightarrow> u8 \<Rightarrow> 'c option"
  ata_sleep :: "'c \<Rightarrow> 'c"

record disk_part =
  dp_start_lba :: u32
  dp_sec_cnt :: u32
  dp_my_disk :: "nat \<times> nat"
  dp_name :: "u8 list"

record hard_disk =
  hd_name :: "u8 list"
  my_channel :: nat
  dev_no :: u8
  prim_parts :: "disk_part list"
  logic_parts :: "disk_part list"

record ide_channel =
  ch_name :: "u8 list"
  port_base :: u16
  irq_no :: u8
  ch_lock :: bool
  expecting_intr :: bool
  disk_done :: u8
  devices :: "hard_disk list"

text \<open>An element of the list of partitions: the disk, whether it is a primary partition, and its index.\<close>

record 'c ide =
  hw :: 'c
  channel_cnt :: u8
  channels :: "ide_channel list"
  ext_lba_base :: u32
  p_no :: u8
  l_no :: u8
  partition_list :: "((nat \<times> nat) \<times> bool \<times> nat) list"
  bs_live :: nat
  hd_vectors :: "u8 list"

definition BIT_STAT_BSY :: u8 where "BIT_STAT_BSY = 0x80"
definition BIT_STAT_DRQ :: u8 where "BIT_STAT_DRQ = 0x8"
definition BIT_DEV_MBS :: u8 where "BIT_DEV_MBS = 0xa0"
definition BIT_DEV_LBA :: u8 where "BIT_DEV_LBA = 0x40"
definition BIT_DEV_DEV :: u8 where "BIT_DEV_DEV = 0x10"
definition CMD_IDENTIFY :: u8 where "CMD_IDENTIFY = 0xec"
definition CMD_READ_SECTOR :: u8 where "CMD_READ_SECTOR = 0x20"
definition CMD_WRITE_SECTOR :: u8 where "CMD_WRITE_SECTOR = 0x30"

definition reg_data :: "ide_channel \<Rightarrow> u16" where "reg_data channel = port_base channel + 0"
definition reg_sect_cnt :: "ide_channel \<Rightarrow> u16" where "reg_sect_cnt channel = port_base channel + 2"
definition reg_lba_l :: "ide_channel \<Rightarrow> u16" where "reg_lba_l channel = port_base channel + 3"
definition reg_lba_m :: "ide_channel \<Rightarrow> u16" where "reg_lba_m channel = port_base channel + 4"
definition reg_lba_h :: "ide_channel \<Rightarrow> u16" where "reg_lba_h channel = port_base channel + 5"
definition reg_dev :: "ide_channel \<Rightarrow> u16" where "reg_dev channel = port_base channel + 6"
definition reg_status :: "ide_channel \<Rightarrow> u16" where "reg_status channel = port_base channel + 7"
definition reg_cmd :: "ide_channel \<Rightarrow> u16" where "reg_cmd channel = reg_status channel"

definition hd_at :: "nat \<times> nat \<Rightarrow> 'c ide \<Rightarrow> hard_disk" where
  "hd_at h s = devices (channels s ! fst h) ! snd h"

abbreviation chan :: "nat \<times> nat \<Rightarrow> 'c ide \<Rightarrow> ide_channel" where
  "chan h s \<equiv> channels s ! my_channel (hd_at h s)"

definition set_ch :: "nat \<Rightarrow> (ide_channel \<Rightarrow> ide_channel) \<Rightarrow> 'c ide \<Rightarrow> 'c ide" where
  "set_ch i f s = s\<lparr>channels := (channels s)[i := f (channels s ! i)]\<rparr>"

definition set_hd :: "nat \<times> nat \<Rightarrow> (hard_disk \<Rightarrow> hard_disk) \<Rightarrow> 'c ide \<Rightarrow> 'c ide" where
  "set_hd h f s = set_ch (fst h) (\<lambda>c. c\<lparr>devices := (devices c)[snd h := f (devices c ! snd h)]\<rparr>) s"

definition port_out :: "'c ata \<Rightarrow> u16 \<Rightarrow> u8 \<Rightarrow> 'c ide \<Rightarrow> 'c ide" where
  "port_out A port data s = s\<lparr>hw := ata_out A (hw s) port data\<rparr>"

definition port_in :: "'c ata \<Rightarrow> u16 \<Rightarrow> ('c ide, u8) kop" where
  "port_in A port s = (let (v, c) = ata_in A (hw s) port in Ret v (s\<lparr>hw := c\<rparr>))"

subsection \<open>Commands\<close>

definition select_disk :: "'c ata \<Rightarrow> nat \<times> nat \<Rightarrow> ('c ide, unit) kop" where
  "select_disk A h s =
     (let reg_device = BIT_DEV_MBS OR BIT_DEV_LBA;
          reg_device = (if dev_no (hd_at h s) = 1 then reg_device OR BIT_DEV_DEV else reg_device)
      in Ret () (port_out A (reg_dev (chan h s)) reg_device s))"

definition select_sector :: "'c ata \<Rightarrow> nat \<times> nat \<Rightarrow> u32 \<Rightarrow> u8 \<Rightarrow> ('c ide, unit) kop" where
  "select_sector A h lba cnt s =
     (if \<not> lba \<le> max_lba then Flt Panic
      else
        let channel = chan h s;
            dev = dev_no (hd_at h s);
            s = port_out A (reg_sect_cnt channel) cnt s;
            s = port_out A (reg_lba_l channel) (ucast lba) s;
            s = port_out A (reg_lba_m channel) (ucast (drop_bit 8 lba)) s;
            s = port_out A (reg_lba_h channel) (ucast (drop_bit 16 lba)) s
        in Ret () (port_out A (reg_dev channel)
             (BIT_DEV_MBS OR BIT_DEV_LBA OR (if dev = 1 then BIT_DEV_DEV else 0) OR ucast (drop_bit 24 lba)) s))"

definition cmd_out :: "'c ata \<Rightarrow> nat \<Rightarrow> u8 \<Rightarrow> ('c ide, unit) kop" where
  "cmd_out A channel cmd s =
     (let s = set_ch channel (\<lambda>c. c\<lparr>expecting_intr := True\<rparr>) s
      in Ret () (port_out A (reg_cmd (channels s ! channel)) cmd s))"

definition size_in_byte :: "u8 \<Rightarrow> nat" where
  "size_in_byte cnt = (if cnt = 0 then 256 * 512 else unat cnt * 512)"

definition read_from_sector :: "'c ata \<Rightarrow> nat \<times> nat \<Rightarrow> u8 \<Rightarrow> ('c ide, u8 list) kop" where
  "read_from_sector A h cnt s =
     (let (bs, c) = ata_insw A (hw s) (reg_data (chan h s)) (size_in_byte cnt div 2) in Ret bs (s\<lparr>hw := c\<rparr>))"

definition write2sector :: "'c ata \<Rightarrow> nat \<times> nat \<Rightarrow> u8 list \<Rightarrow> u8 \<Rightarrow> ('c ide, unit) kop" where
  "write2sector A h buf cnt s =
     (if length buf < size_in_byte cnt then Flt Out_Of_Bounds
      else Ret () (s\<lparr>hw := ata_outsw A (hw s) (reg_data (chan h s)) (take (size_in_byte cnt) buf)\<rparr>))"

text \<open>
  The wait for the controller. In the condition \<^verbatim>\<open>time_limit -= 10 >= 0\<close> the comparison binds tighter: the
  limit goes down by one, and the loop ends when it has reached 0. The argument is the limit after the subtraction.
\<close>

fun busy_loop :: "'c ata \<Rightarrow> nat \<times> nat \<Rightarrow> nat \<Rightarrow> ('c ide, bool) kop" where
  "busy_loop A h 0 s = Ret False s"
| "busy_loop A h (Suc time_limit) s =
     bindK (port_in A (reg_status (chan h s))) (\<lambda>v s.
       if v AND BIT_STAT_BSY = 0 then
         bindK (port_in A (reg_status (chan h s))) (\<lambda>v. retK (v AND BIT_STAT_DRQ \<noteq> 0)) s
       else busy_loop A h time_limit (s\<lparr>hw := ata_sleep A (hw s)\<rparr>)) s"

definition busy_wait :: "'c ata \<Rightarrow> nat \<times> nat \<Rightarrow> ('c ide, bool) kop" where
  "busy_wait A h = busy_loop A h (30 * 1000 - 1)"

definition intr_hd_handler :: "'c ata \<Rightarrow> u8 \<Rightarrow> ('c ide, unit) kop" where
  "intr_hd_handler A irq s =
     (let ch_no = unat (irq - 0x2e) in
      thenK (assertK (\<lambda>_. irq = 0x2e \<or> irq = 0x2f))
     (thenK (assertK (\<lambda>s. irq_no (channels s ! ch_no) = irq))
     (\<lambda>s. if expecting_intr (channels s ! ch_no) then
            thenK (modK (set_ch ch_no (\<lambda>c. c\<lparr>expecting_intr := False\<rparr>)))
           (thenK (assertK (\<lambda>s. disk_done (channels s ! ch_no) = 0))
           (thenK (modK (set_ch ch_no (\<lambda>c. c\<lparr>disk_done := disk_done c + 1\<rparr>)))
           (thenK (port_in A (reg_status (channels s ! ch_no))) (retK ())))) s
          else Ret () s)) s)"

text \<open>\<^verbatim>\<open>sema_down(&disk_done)\<close>: the thread sleeps until the handler has raised the semaphore. It sleeps for ever
  when the interrupt does not come or is not expected.\<close>

definition take_done :: "nat \<Rightarrow> ('c ide, unit) kop" where
  "take_done ch s =
     (if disk_done (channels s ! ch) = 0 then Blk s
      else
        let s = set_ch ch (\<lambda>c. c\<lparr>disk_done := disk_done c - 1\<rparr>) s
        in if disk_done (channels s ! ch) = 0 then Ret () s else Flt Panic)"

definition wait_done :: "'c ata \<Rightarrow> nat \<Rightarrow> ('c ide, unit) kop" where
  "wait_done A ch s =
     (if disk_done (channels s ! ch) \<noteq> 0 then take_done ch s
      else
        case ata_intr A (hw s) (irq_no (channels s ! ch)) of
          None \<Rightarrow> Blk s
        | Some c \<Rightarrow> thenK (intr_hd_handler A (irq_no (channels s ! ch))) (take_done ch) (s\<lparr>hw := c\<rparr>))"

subsection \<open>Reading and writing\<close>

definition ch_lock_acquire :: "nat \<Rightarrow> ('c ide, unit) kop" where
  "ch_lock_acquire ch s =
     (if ch_lock (channels s ! ch) then Blk s else Ret () (set_ch ch (\<lambda>c. c\<lparr>ch_lock := True\<rparr>) s))"

definition ch_lock_release :: "nat \<Rightarrow> ('c ide, unit) kop" where
  "ch_lock_release ch s =
     (if ch_lock (channels s ! ch) then Ret () (set_ch ch (\<lambda>c. c\<lparr>ch_lock := False\<rparr>) s) else Flt Panic)"

text \<open>
  The loops. The number of sectors of one command is 256, or what is left. \<open>secs_done\<close> is a natural number: the
  sums of the source stay far below \<open>2 ^ 32\<close>, as \<^verbatim>\<open>select_sector\<close> asserts that each command starts on the disk.
\<close>

definition secs_op :: "nat \<Rightarrow> nat \<Rightarrow> nat" where
  "secs_op cnt secs_done = (if secs_done + 256 \<le> cnt then 256 else cnt - secs_done)"

function read_loop :: "'c ata \<Rightarrow> nat \<times> nat \<Rightarrow> u32 \<Rightarrow> nat \<Rightarrow> nat \<Rightarrow> nat \<Rightarrow> ('c ide, u8 list) kop" where
  "read_loop A h lba room cnt secs_done =
     (if secs_done < cnt then
        let n = secs_op cnt secs_done in
        bindK (getK (\<lambda>s. my_channel (hd_at h s))) (\<lambda>ch.
        thenK (select_sector A h (lba + of_nat secs_done) (of_nat n))
       (thenK (cmd_out A ch CMD_READ_SECTOR)
       (thenK (wait_done A ch)
       (bindK (busy_wait A h) (\<lambda>ready.
        if \<not> ready then fltK Panic
        else if room < secs_done * 512 + size_in_byte (of_nat n) then fltK Out_Of_Bounds
        else
          bindK (read_from_sector A h (of_nat n)) (\<lambda>bs.
          bindK (read_loop A h lba room cnt (secs_done + n)) (\<lambda>rest.
          retK (bs @ rest))))))))
      else retK [])"
  by pat_completeness auto
termination
  by (relation "measure (\<lambda>(A, h, lba, room, cnt, secs_done). cnt - secs_done)") (auto simp: secs_op_def)

function write_loop :: "'c ata \<Rightarrow> nat \<times> nat \<Rightarrow> u32 \<Rightarrow> u8 list \<Rightarrow> nat \<Rightarrow> nat \<Rightarrow> ('c ide, unit) kop" where
  "write_loop A h lba buf cnt secs_done =
     (if secs_done < cnt then
        let n = secs_op cnt secs_done in
        bindK (getK (\<lambda>s. my_channel (hd_at h s))) (\<lambda>ch.
        thenK (select_sector A h (lba + of_nat secs_done) (of_nat n))
       (thenK (cmd_out A ch CMD_WRITE_SECTOR)
       (bindK (busy_wait A h) (\<lambda>ready.
        if \<not> ready then fltK Panic
        else
          thenK (write2sector A h (drop (secs_done * 512) buf) (of_nat n))
         (thenK (wait_done A ch)
                (write_loop A h lba buf cnt (secs_done + n)))))))
      else retK ())"
  by pat_completeness auto
termination
  by (relation "measure (\<lambda>(A, h, lba, buf, cnt, secs_done). cnt - secs_done)") (auto simp: secs_op_def)

declare read_loop.simps [simp del] write_loop.simps [simp del]

text \<open>\<open>room\<close> is the size of the buffer, the value what the buffer holds then.\<close>

definition ide_read_hd :: "'c ata \<Rightarrow> nat \<times> nat \<Rightarrow> u32 \<Rightarrow> nat \<Rightarrow> u32 \<Rightarrow> ('c ide, u8 list) kop" where
  "ide_read_hd A h lba room cnt =
     thenK (assertK (\<lambda>_. lba \<le> max_lba))
    (thenK (assertK (\<lambda>_. cnt > 0))
    (bindK (getK (\<lambda>s. my_channel (hd_at h s))) (\<lambda>ch.
     thenK (ch_lock_acquire ch)
    (thenK (select_disk A h)
    (bindK (read_loop A h lba room (unat cnt) 0) (\<lambda>bs.
     thenK (ch_lock_release ch) (retK bs)))))))"

definition ide_write_hd :: "'c ata \<Rightarrow> nat \<times> nat \<Rightarrow> u32 \<Rightarrow> u8 list \<Rightarrow> u32 \<Rightarrow> ('c ide, unit) kop" where
  "ide_write_hd A h lba buf cnt =
     thenK (assertK (\<lambda>_. lba \<le> max_lba))
    (thenK (assertK (\<lambda>_. cnt > 0))
    (bindK (getK (\<lambda>s. my_channel (hd_at h s))) (\<lambda>ch.
     thenK (ch_lock_acquire ch)
    (thenK (select_disk A h)
    (thenK (write_loop A h lba buf (unat cnt) 0)
           (ch_lock_release ch))))))"

subsection \<open>Identifying a disk\<close>

text \<open>Neighbouring bytes change places. The index has 8 bits: from a length of 255 on the loop would not end.\<close>

fun swap_loop :: "u8 list \<Rightarrow> u8 list" where
  "swap_loop (a # b # rest) = b # a # swap_loop rest"
| "swap_loop rest = []"

definition swap_pairs_bytes :: "u8 list \<Rightarrow> nat \<Rightarrow> u8 list res" where
  "swap_pairs_bytes dst len =
     (if len > 254 then Inl Diverges
      else
        let n = 2 * ((len + 1) div 2)
        in if length dst < n then Inl Out_Of_Bounds else Inr (swap_loop (take n dst) @ [0]))"

text \<open>The value is what is printed: the serial number, the model and the number of sectors.\<close>

definition identify_disk :: "'c ata \<Rightarrow> nat \<times> nat \<Rightarrow> ('c ide, u8 list \<times> u8 list \<times> u32) kop" where
  "identify_disk A h =
     bindK (getK (\<lambda>s. my_channel (hd_at h s))) (\<lambda>ch.
     thenK (select_disk A h)
    (thenK (cmd_out A ch CMD_IDENTIFY)
    (thenK (wait_done A ch)
    (bindK (busy_wait A h) (\<lambda>ready.
     if \<not> ready then fltK Panic
     else
       bindK (read_from_sector A h 1) (\<lambda>id_info.
       bindK (liftR (swap_pairs_bytes (drop (10 * 2) id_info) 20)) (\<lambda>sn.
       bindK (liftR (swap_pairs_bytes (drop (27 * 2) id_info) 40)) (\<lambda>md.
       retK (sn, md, word_at id_info (60 * 2))))))))))"

subsection \<open>What the driver relies on\<close>

text \<open>
  The side of the ATA standard the driver uses (transfers by programmed I/O), as the controller's own state seen at
  one channel: the registers, the sectors of its two disks (false: the master), what it tells about them, the transfer
  it waits for, and whether an interrupt is due, which is raised when the controller is not busy any more. A command is
  executed with the registers as they are then, and ends an interrupt that is still due. The sectors are moved one by
  one: a reading command announces every sector by an interrupt, a writing command has one after every sector.
\<close>

datatype ata_phase = Idle | Data_In "u8 list list" | Data_Out bool nat nat

record ata_view =
  regs :: "u16 \<Rightarrow> u8"
  media :: "bool \<Rightarrow> nat \<Rightarrow> u8 list"
  ident :: "bool \<Rightarrow> u8 list"
  phase :: ata_phase
  irq :: bool

definition ata_dev :: "ata_view \<Rightarrow> bool" where
  "ata_dev w \<longleftrightarrow> bit (regs w 6) 4"

definition ata_lba :: "ata_view \<Rightarrow> nat" where
  "ata_lba w = unat (of_le32 [regs w 3, regs w 4, regs w 5, regs w 6 AND 0xf])"

definition ata_count :: "ata_view \<Rightarrow> nat" where
  "ata_count w = (if regs w 2 = 0 then 256 else unat (regs w 2))"

definition ata_command :: "u8 \<Rightarrow> ata_view \<Rightarrow> ata_view" where
  "ata_command cmd w =
     (if cmd = CMD_READ_SECTOR then
        w\<lparr>phase := Data_In (map (\<lambda>k. media w (ata_dev w) (ata_lba w + k)) [0..<ata_count w]), irq := True\<rparr>
      else if cmd = CMD_WRITE_SECTOR then w\<lparr>phase := Data_Out (ata_dev w) (ata_lba w) (ata_count w), irq := False\<rparr>
      else if cmd = CMD_IDENTIFY then w\<lparr>phase := Data_In [ident w (ata_dev w)], irq := True\<rparr>
      else w)"

definition ata_port_out :: "u16 \<Rightarrow> u8 \<Rightarrow> ata_view \<Rightarrow> ata_view" where
  "ata_port_out off v w = (if off = 7 then ata_command v w else w\<lparr>regs := (regs w)(off := v)\<rparr>)"

text \<open>A sector was read, \<open>xs\<close> are left; and \<open>bs\<close> was written to sector \<open>lba\<close>, \<open>n\<close> more are to come.\<close>

definition sector_read :: "u8 list list \<Rightarrow> ata_view \<Rightarrow> ata_view" where
  "sector_read xs w = w\<lparr>phase := if xs = [] then Idle else Data_In xs, irq := irq w \<or> xs \<noteq> []\<rparr>"

definition sector_written :: "bool \<Rightarrow> nat \<Rightarrow> nat \<Rightarrow> u8 list \<Rightarrow> ata_view \<Rightarrow> ata_view" where
  "sector_written dev lba n bs w = w\<lparr>phase := if n = 0 then Idle else Data_Out dev (lba + 1) n, irq := True,
     media := (media w)(dev := (media w dev)(lba := bs))\<rparr>"

text \<open>The two channels: the base of the ports and the vector of the interrupt.\<close>

definition ata_ports :: "(u16 \<times> u8) set" where
  "ata_ports = {(0x1f0, 0x2e), (0x170, 0x2f)}"

text \<open>The controller waits for a command: it is not busy, and there is no transfer under way.\<close>

definition ready :: "('c \<Rightarrow> u16 \<Rightarrow> ata_view) \<Rightarrow> ('c \<Rightarrow> u16 \<Rightarrow> nat) \<Rightarrow> u16 \<Rightarrow> 'c \<Rightarrow> bool" where
  "ready view lag b c \<longleftrightarrow> lag c b = 0 \<and> phase (view c b) = Idle"

text \<open>
  A controller that keeps the standard. \<open>view\<close> reads its state at the two channels, \<open>lag\<close> tells for how many more
  times 10 milliseconds it will be busy, which is less than the driver waits. Nothing is said about what an access does
  that the standard does not allow: registers may be written only when the controller is ready, and a sector moved only when
  it is not busy. The last two lines are about the instructions \<^verbatim>\<open>rep insw\<close> and \<^verbatim>\<open>rep outsw\<close>: moving several sectors is moving
  the first and then the rest.
\<close>

definition ata_documented :: "'c ata \<Rightarrow> ('c \<Rightarrow> u16 \<Rightarrow> ata_view) \<Rightarrow> ('c \<Rightarrow> u16 \<Rightarrow> nat) \<Rightarrow> bool" where
  "ata_documented A view lag \<longleftrightarrow> (\<forall>(b, v) \<in> ata_ports. \<forall>c.
     (\<forall>off \<in> {2, 3, 4, 5, 6, 7}. \<forall>d. ready view lag b c \<longrightarrow>
        view (ata_out A c (b + off) d) = (view c)(b := ata_port_out off d (view c b)) \<and>
        (off \<noteq> 7 \<longrightarrow> lag (ata_out A c (b + off) d) b = 0)) \<and>
     (lag c b = 0 \<longrightarrow> (let (st, c') = ata_in A c (b + 7) in
        view c' = (view c)(b := (view c b)\<lparr>irq := False\<rparr>) \<and> lag c' b = 0 \<and>
        st AND BIT_STAT_BSY = 0 \<and> (st AND BIT_STAT_DRQ \<noteq> 0 \<longleftrightarrow> phase (view c b) \<noteq> Idle))) \<and>
     (lag c b > 0 \<longrightarrow> (let (st, c') = ata_in A c (b + 7) in
        view c' = view c \<and> lag (ata_sleep A c') b < lag c b \<and> st AND BIT_STAT_BSY \<noteq> 0)) \<and>
     view (ata_sleep A c) = view c \<and>
     lag c b < 29999 \<and>
     (irq (view c b) \<longrightarrow> (\<exists>c'. ata_intr A c v = Some c' \<and> view c' = view c \<and> lag c' b = 0)) \<and>
     (\<forall>x xs. lag c b = 0 \<longrightarrow> phase (view c b) = Data_In (x # xs) \<longrightarrow> length x = SECTOR_SIZE \<longrightarrow>
       (\<exists>c'. ata_insw A c b 256 = (x, c') \<and> view c' = (view c)(b := sector_read xs (view c b)) \<and>
         (xs = [] \<longrightarrow> lag c' b = 0))) \<and>
     (\<forall>dev lba n bs. lag c b = 0 \<longrightarrow> phase (view c b) = Data_Out dev lba (Suc n) \<longrightarrow> length bs = SECTOR_SIZE \<longrightarrow>
       view (ata_outsw A c b bs) = (view c)(b := sector_written dev lba n bs (view c b))) \<and>
     (\<forall>n. ata_insw A c b (256 * Suc n) =
       (let (x, c') = ata_insw A c b 256; (y, c'') = ata_insw A c' b (256 * n) in (x @ y, c''))) \<and>
     (\<forall>x y. length x = SECTOR_SIZE \<longrightarrow> ata_outsw A c b (x @ y) = ata_outsw A (ata_outsw A c b x) b y))"

text \<open>
  The driver moves all sectors of a command in one go, while by the standard the controller may be busy between two
  of them. With more than one sector it relies on a controller that has the next sector ready at once, as those
  of emulators are.
\<close>

definition keeps_up :: "'c ata \<Rightarrow> ('c \<Rightarrow> u16 \<Rightarrow> ata_view) \<Rightarrow> ('c \<Rightarrow> u16 \<Rightarrow> nat) \<Rightarrow> bool" where
  "keeps_up A view lag \<longleftrightarrow> (\<forall>(b, v) \<in> ata_ports. \<forall>c. lag c b = 0 \<longrightarrow>
     (\<forall>x xs. phase (view c b) = Data_In (x # xs) \<longrightarrow> lag (snd (ata_insw A c b 256)) b = 0) \<and>
     (\<forall>dev lba n bs. phase (view c b) = Data_Out dev lba (Suc n) \<longrightarrow> length bs = SECTOR_SIZE \<longrightarrow>
       lag (ata_outsw A c b bs) b = 0))"

lemma ata_documentedD:
  assumes "ata_documented A view lag" "(b, v) \<in> ata_ports"
  shows "off \<in> {2, 3, 4, 5, 6, 7} \<Longrightarrow> ready view lag b c \<Longrightarrow>
      view (ata_out A c (b + off) d) = (view c)(b := ata_port_out off d (view c b))"
    "off \<in> {2, 3, 4, 5, 6} \<Longrightarrow> ready view lag b c \<Longrightarrow> lag (ata_out A c (b + off) d) b = 0"
    "lag c b = 0 \<Longrightarrow> view (snd (ata_in A c (b + 7))) = (view c)(b := (view c b)\<lparr>irq := False\<rparr>) \<and>
      lag (snd (ata_in A c (b + 7))) b = 0 \<and> fst (ata_in A c (b + 7)) AND BIT_STAT_BSY = 0 \<and>
      (fst (ata_in A c (b + 7)) AND BIT_STAT_DRQ \<noteq> 0 \<longleftrightarrow> phase (view c b) \<noteq> Idle)"
    "lag c b > 0 \<Longrightarrow> view (snd (ata_in A c (b + 7))) = view c \<and> lag (ata_sleep A (snd (ata_in A c (b + 7)))) b < lag c b \<and>
      fst (ata_in A c (b + 7)) AND BIT_STAT_BSY \<noteq> 0"
    "view (ata_sleep A c) = view c"
    "lag c b < 29999"
    "irq (view c b) \<Longrightarrow> \<exists>c'. ata_intr A c v = Some c' \<and> view c' = view c \<and> lag c' b = 0"
    "lag c b = 0 \<Longrightarrow> phase (view c b) = Data_In (x # xs) \<Longrightarrow> length x = SECTOR_SIZE \<Longrightarrow>
      \<exists>c'. ata_insw A c b 256 = (x, c') \<and> view c' = (view c)(b := sector_read xs (view c b)) \<and> (xs = [] \<longrightarrow> lag c' b = 0)"
    "lag c b = 0 \<Longrightarrow> phase (view c b) = Data_Out dev lba (Suc n) \<Longrightarrow> length bs = SECTOR_SIZE \<Longrightarrow>
      view (ata_outsw A c b bs) = (view c)(b := sector_written dev lba n bs (view c b))"
    "ata_insw A c b (256 * Suc n) = (let (x, c') = ata_insw A c b 256; (y, c'') = ata_insw A c' b (256 * n) in (x @ y, c''))"
    "length x = SECTOR_SIZE \<Longrightarrow> ata_outsw A c b (x @ y) = ata_outsw A (ata_outsw A c b x) b y"
proof -
  note D = bspec [OF assms(1) [unfolded ata_documented_def] assms(2), unfolded case_prod_conv, rule_format]
  note E = D [THEN conjunct1] D [THEN conjunct2, THEN conjunct1] D [THEN conjunct2, THEN conjunct2, THEN conjunct1]
  show "lag c b = 0 \<Longrightarrow> view (snd (ata_in A c (b + 7))) = (view c)(b := (view c b)\<lparr>irq := False\<rparr>) \<and>
      lag (snd (ata_in A c (b + 7))) b = 0 \<and> fst (ata_in A c (b + 7)) AND BIT_STAT_BSY = 0 \<and>
      (fst (ata_in A c (b + 7)) AND BIT_STAT_DRQ \<noteq> 0 \<longleftrightarrow> phase (view c b) \<noteq> Idle)"
    using E(2) [of c] by (simp add: case_prod_beta)
  show "lag c b > 0 \<Longrightarrow> view (snd (ata_in A c (b + 7))) = view c \<and> lag (ata_sleep A (snd (ata_in A c (b + 7)))) b < lag c b \<and>
      fst (ata_in A c (b + 7)) AND BIT_STAT_BSY \<noteq> 0"
    using E(3) [of c] by (simp add: case_prod_beta)
  show "off \<in> {2, 3, 4, 5, 6} \<Longrightarrow> ready view lag b c \<Longrightarrow> lag (ata_out A c (b + off) d) b = 0"
    using E(1) [of c] by fastforce
qed (use bspec [OF assms(1) [unfolded ata_documented_def] assms(2), unfolded case_prod_conv, rule_format, of c] in blast)+

lemma keeps_upD:
  assumes "keeps_up A view lag" "(b, v) \<in> ata_ports" "lag c b = 0"
  shows "phase (view c b) = Data_In (x # xs) \<Longrightarrow> lag (snd (ata_insw A c b 256)) b = 0"
    "phase (view c b) = Data_Out dev lba (Suc n) \<Longrightarrow> length bs = SECTOR_SIZE \<Longrightarrow> lag (ata_outsw A c b bs) b = 0"
  using assms unfolding keeps_up_def by blast+

text \<open>Moving all sectors of a command.\<close>

lemma insw_blocks:
  assumes d: "ata_documented A view lag" and p: "(b, v) \<in> ata_ports"
  shows "phase (view c b) = Data_In xs \<Longrightarrow> xs \<noteq> [] \<Longrightarrow> list_all (\<lambda>x. length x = SECTOR_SIZE) xs \<Longrightarrow> lag c b = 0 \<Longrightarrow>
    length xs = 1 \<or> keeps_up A view lag \<Longrightarrow>
    \<exists>c' q. ata_insw A c b (256 * length xs) = (concat xs, c') \<and> view c' = (view c)(b := (view c b)\<lparr>phase := Idle, irq := q\<rparr>) \<and>
      lag c' b = 0"
proof (induction xs arbitrary: c)
  case (Cons x xs)
  note D = ata_documentedD [OF d p]
  obtain c1 where c1: "ata_insw A c b 256 = (x, c1)" "view c1 = (view c)(b := sector_read xs (view c b))" "xs = [] \<longrightarrow> lag c1 b = 0"
    using D(8) [OF Cons.prems(4,1)] Cons.prems(3) by auto
  show ?case
  proof (cases "xs = []")
    case True
    then show ?thesis
      using c1 by (intro exI [of _ c1] exI [of _ "irq (view c b)"]) (simp add: sector_read_def)
  next
    case False
    then have k: "keeps_up A view lag"
      using Cons.prems(5) by simp
    have l1: "lag c1 b = 0"
      using keeps_upD(1) [OF k p Cons.prems(4,1)] c1(1) by simp
    have v1: "view c1 b = (view c b)\<lparr>phase := Data_In xs, irq := True\<rparr>"
      using c1(2) False by (simp add: sector_read_def)
    then have "phase (view c1 b) = Data_In xs" "list_all (\<lambda>x. length x = SECTOR_SIZE) xs"
      using Cons.prems(3) by simp_all
    then obtain c2 q where c2: "ata_insw A c1 b (256 * length xs) = (concat xs, c2)"
        "view c2 = (view c1)(b := (view c1 b)\<lparr>phase := Idle, irq := q\<rparr>)" "lag c2 b = 0"
      using Cons.IH [OF _ False _ l1] k by blast
    have "ata_insw A c b (256 * length (x # xs)) = (concat (x # xs), c2)"
      using D(10) [of c "length xs"] c1(1) c2(1) by simp
    moreover have "view c2 = (view c)(b := (view c b)\<lparr>phase := Idle, irq := q\<rparr>)"
      using c2(2) v1 c1(2) by simp
    ultimately show ?thesis
      using c2(3) by blast
  qed
qed simp

lemma outsw_blocks:
  assumes d: "ata_documented A view lag" and p: "(b, v) \<in> ata_ports"
  shows "phase (view c b) = Data_Out dev lba n \<Longrightarrow> 0 < n \<Longrightarrow> length bs = n * SECTOR_SIZE \<Longrightarrow> lag c b = 0 \<Longrightarrow>
    n = 1 \<or> keeps_up A view lag \<Longrightarrow>
    view (ata_outsw A c b bs) = (view c)(b := (view c b)\<lparr>phase := Idle, irq := True,
      media := (media (view c b))(dev := wr_secs (media (view c b) dev) lba bs n)\<rparr>)"
proof (induction n arbitrary: c lba bs)
  case (Suc n)
  note D = ata_documentedD [OF d p]
  let ?x = "take SECTOR_SIZE bs" and ?y = "drop SECTOR_SIZE bs" and ?M = "media (view c b)"
  let ?c1 = "ata_outsw A c b ?x"
  have x: "length ?x = SECTOR_SIZE" "length ?y = n * SECTOR_SIZE"
    using Suc.prems(3) by simp_all
  have v1: "view ?c1 = (view c)(b := sector_written dev lba n ?x (view c b))"
    by (rule D(9) [OF Suc.prems(4,1) x(1)])
  show ?case
  proof (cases "n = 0")
    case True
    then have "?x = bs" "wr_secs (?M dev) lba bs (Suc n) = (?M dev)(lba := bs)"
      using Suc.prems(3) by simp_all
    then show ?thesis
      using v1 True unfolding sector_written_def by (simp only: refl if_True)
  next
    case False
    then have k: "keeps_up A view lag"
      using Suc.prems(5) by simp
    have w1: "view ?c1 b = (view c b)\<lparr>phase := Data_Out dev (lba + 1) n, irq := True, media := ?M(dev := (?M dev)(lba := ?x))\<rparr>"
      using v1 False by (simp add: sector_written_def)
    have "view (ata_outsw A ?c1 b ?y) = (view ?c1)(b := (view ?c1 b)\<lparr>phase := Idle, irq := True,
        media := (media (view ?c1 b))(dev := wr_secs (media (view ?c1 b) dev) (lba + 1) ?y n)\<rparr>)"
      by (rule Suc.IH) (use w1 False x(2) k keeps_upD(2) [OF k p Suc.prems(4,1) x(1)] in simp_all)
    moreover have "ata_outsw A c b bs = ata_outsw A ?c1 b ?y"
      using D(11) [OF x(1), of c ?y] by simp
    moreover have "(view ?c1)(b := w) = (view c)(b := w)" for w
      unfolding v1 by (rule fun_upd_upd)
    moreover have "media (view ?c1 b) dev = (?M dev)(lba := ?x)"
      "(view ?c1 b)\<lparr>phase := Idle, irq := True, media := (media (view ?c1 b))(dev := m)\<rparr> =
        (view c b)\<lparr>phase := Idle, irq := True, media := ?M(dev := m)\<rparr>" for m
      unfolding w1 by simp_all
    ultimately show ?thesis
      by (simp only: wr_secs.simps Suc_eq_plus1 [symmetric])
  qed
qed simp

lemma concat_secs: "concat (map (\<lambda>k. d (l + k)) [0..<n]) = rd_secs d l n"
proof (induction n arbitrary: l)
  case (Suc n)
  have "map (\<lambda>k. d (l + k)) [0..<Suc n] = d l # map (\<lambda>k. d (Suc l + k)) [0..<n]"
    by (subst map_upt_Suc) simp
  then show ?case
    using Suc.IH [of "Suc l"] by simp
qed simp

subsection \<open>Steps of one command\<close>

text \<open>The disk is wired to a channel of the controller.\<close>

definition wired :: "nat \<times> nat \<Rightarrow> u16 \<Rightarrow> 'c ide \<Rightarrow> bool" where
  "wired h b s \<longleftrightarrow> my_channel (hd_at h s) < length (channels s) \<and> port_base (chan h s) = b \<and>
     (b, irq_no (chan h s)) \<in> ata_ports \<and> unat (irq_no (chan h s) - 0x2e) = my_channel (hd_at h s) \<and> dev_no (hd_at h s) \<le> 1"

definition slave :: "nat \<times> nat \<Rightarrow> 'c ide \<Rightarrow> bool" where
  "slave h s \<longleftrightarrow> dev_no (hd_at h s) = 1"

lemma hd_at_set_ch: "(\<And>c. devices (f c) = devices c) \<Longrightarrow> hd_at h (set_ch i f s) = hd_at h s"
  by (cases "i < length (channels s)"; cases "i = fst h") (simp_all add: hd_at_def set_ch_def list_update_beyond)

lemma ch_state_simps [simp]:
  "hd_at h (s\<lparr>hw := c\<rparr>) = hd_at h s"
  "hd_at h (set_ch i (\<lambda>c. c\<lparr>expecting_intr := e\<rparr>) s) = hd_at h s"
  "hd_at h (set_ch i (\<lambda>c. c\<lparr>ch_lock := e\<rparr>) s) = hd_at h s"
  "i < length (channels s) \<Longrightarrow> channels (set_ch i f s) ! i = f (channels s ! i)"
  "length (channels (set_ch i f s)) = length (channels s)"
  "hw (set_ch i f s) = hw s"
  "(set_ch i f s)\<lparr>hw := c\<rparr> = set_ch i f (s\<lparr>hw := c\<rparr>)"
  by (simp_all add: hd_at_def [of _ "s\<lparr>hw := c\<rparr>"] hd_at_def [of _ s] hd_at_set_ch) (simp_all add: set_ch_def hd_at_set_ch)

lemma wired_simps [simp]:
  "wired h b (s\<lparr>hw := c\<rparr>) = wired h b s"
  "wired h b (set_ch (my_channel (hd_at h s)) (\<lambda>c. c\<lparr>expecting_intr := e\<rparr>) s) = wired h b s"
  "wired h b (set_ch (my_channel (hd_at h s)) (\<lambda>c. c\<lparr>ch_lock := e\<rparr>) s) = wired h b s"
  by (auto simp: wired_def)

lemma register_write:
  assumes d: "ata_documented A view lag" and p: "(b, v) \<in> ata_ports" and r: "ready view lag b c" and off: "off \<in> {2, 3, 4, 5, 6}"
  shows "ready view lag b (ata_out A c (b + off) x)"
    "view (ata_out A c (b + off) x) = (view c)(b := (view c b)\<lparr>regs := (regs (view c b))(off := x)\<rparr>)"
proof -
  have "off \<in> {2, 3, 4, 5, 6, 7}" "off \<noteq> 7"
    using off by auto
  then show v: "view (ata_out A c (b + off) x) = (view c)(b := (view c b)\<lparr>regs := (regs (view c b))(off := x)\<rparr>)"
    using ata_documentedD(1) [OF d p _ r] by (simp add: ata_port_out_def)
  show "ready view lag b (ata_out A c (b + off) x)"
    using v r ata_documentedD(2) [OF d p off r] by (simp add: ready_def)
qed

lemma select_disk_run:
  assumes d: "ata_documented A view lag" and w: "wired h b s" and r: "ready view lag b (hw s)"
  shows "\<exists>c. select_disk A h s = Ret () (s\<lparr>hw := c\<rparr>) \<and>
    (\<exists>r. view c = (view (hw s))(b := (view (hw s) b)\<lparr>regs := r\<rparr>)) \<and> ready view lag b c"
proof -
  have p: "(b, irq_no (chan h s)) \<in> ata_ports" "port_base (chan h s) = b"
    using w by (simp_all add: wired_def)
  obtain v where v: "select_disk A h s = Ret () (s\<lparr>hw := ata_out A (hw s) (b + 6) v\<rparr>)"
    using p(2) by (simp add: select_disk_def Let_def port_out_def reg_dev_def)
  have "view (ata_out A (hw s) (b + 6) v) = (view (hw s))(b := (view (hw s) b)\<lparr>regs := (regs (view (hw s) b))(6 := v)\<rparr>)"
    using ata_documentedD(1) [OF d p(1) _ r, of 6 v] by (simp add: ata_port_out_def)
  moreover have "ready view lag b (ata_out A (hw s) (b + 6) v)"
    using register_write [OF d p(1) r, of 6 v] by simp
  ultimately show ?thesis
    using v by blast
qed

lemma small_lba:
  assumes "lba \<le> max_lba"
  shows "drop_bit 24 lba = 0" "of_le32 [ucast lba, ucast (drop_bit 8 lba), ucast (drop_bit 16 lba), 0] = lba"
proof -
  have "unat lba < 2 ^ 24"
    using assms by (simp add: max_lba_def word_le_nat_alt)
  then show z: "drop_bit 24 lba = 0"
    using unat_drop_bit_eq [of 24 lba] drop_bit_eq_div [of 24 "unat lba"] by (metis div_less unat_eq_zero)
  show "of_le32 [ucast lba, ucast (drop_bit 8 lba), ucast (drop_bit 16 lba), 0] = lba"
    using le32_inverse [of lba] z by (simp add: le32_def)
qed

lemma select_sector_run:
  assumes d: "ata_documented A view lag" and w: "wired h b s" and r: "ready view lag b (hw s)"
    and l: "lba \<le> max_lba" and n: "0 < n" "n \<le> 256"
  shows "\<exists>c r. select_sector A h lba (of_nat n) s = Ret () (s\<lparr>hw := c\<rparr>) \<and>
    view c = (view (hw s))(b := (view (hw s) b)\<lparr>regs := r\<rparr>) \<and> ready view lag b c \<and>
    (let w = (view (hw s) b)\<lparr>regs := r\<rparr> in ata_dev w = slave h s \<and> ata_lba w = unat lba \<and> ata_count w = n)"
proof -
  have p: "(b, irq_no (chan h s)) \<in> ata_ports" "port_base (chan h s) = b"
    using w by (simp_all add: wired_def)
  note o = register_write [OF d p(1)]
  let ?dev = "if slave h s then BIT_DEV_DEV else 0"
  let ?r = "(regs (view (hw s) b))(2 := of_nat n, 3 := ucast lba, 4 := ucast (drop_bit 8 lba), 5 := ucast (drop_bit 16 lba),
    6 := BIT_DEV_MBS OR BIT_DEV_LBA OR ?dev)"
  let ?w = "(view (hw s) b)\<lparr>regs := ?r\<rparr>"
  have c: "ata_count ?w = n"
  proof (cases "n = 256")
    case False
    then have "unat (of_nat n :: u8) = n"
      using n by (simp add: unat_of_nat)
    then show ?thesis
      using n by (auto simp: ata_count_def)
  qed (simp add: ata_count_def)
  have "ata_dev ?w = slave h s" "?r 6 AND 0xf = 0"
    by (simp_all add: ata_dev_def BIT_DEV_MBS_def BIT_DEV_LBA_def BIT_DEV_DEV_def)
  moreover have "ata_lba ?w = unat lba"
    using small_lba(2) [OF l] calculation(2) by (simp add: ata_lba_def)
  moreover let ?c1 = "ata_out A (hw s) (b + 2) (of_nat n)"
  let ?c2 = "ata_out A ?c1 (b + 3) (ucast lba)"
  let ?c3 = "ata_out A ?c2 (b + 4) (ucast (drop_bit 8 lba))"
  let ?c4 = "ata_out A ?c3 (b + 5) (ucast (drop_bit 16 lba))"
  let ?c = "ata_out A ?c4 (b + 6) (BIT_DEV_MBS OR BIT_DEV_LBA OR ?dev)"
  have "select_sector A h lba (of_nat n) s = Ret () (s\<lparr>hw := ?c\<rparr>)"
    using l p(2) small_lba(1) [OF l] by (simp add: select_sector_def Let_def port_out_def reg_sect_cnt_def reg_lba_l_def
      reg_lba_m_def reg_lba_h_def reg_dev_def slave_def)
  moreover have r1: "ready view lag b ?c1"
    by (rule o(1) [OF r]) simp
  have r2: "ready view lag b ?c2"
    by (rule o(1) [OF r1]) simp
  have r3: "ready view lag b ?c3"
    by (rule o(1) [OF r2]) simp
  have r4: "ready view lag b ?c4"
    by (rule o(1) [OF r3]) simp
  have "ready view lag b ?c"
    by (rule o(1) [OF r4]) simp
  moreover have "view ?c = (view (hw s))(b := ?w)"
    using o(2) [OF r] o(2) [OF r1] o(2) [OF r2] o(2) [OF r3] o(2) [OF r4] by simp
  ultimately show ?thesis
    unfolding Let_def using c by blast
qed

lemma wiredD:
  assumes "wired h b s"
  shows "(b, irq_no (chan h s)) \<in> ata_ports" "port_base (chan h s) = b" "my_channel (hd_at h s) < length (channels s)"
    "unat (irq_no (chan h s) - 0x2e) = my_channel (hd_at h s)" "irq_no (chan h s) = 0x2e \<or> irq_no (chan h s) = 0x2f"
  using assms by (auto simp: wired_def ata_ports_def)

lemma cmd_out_run:
  assumes d: "ata_documented A view lag" and w: "wired h b s" and r: "ready view lag b (hw s)"
  shows "\<exists>c. cmd_out A (my_channel (hd_at h s)) cmd s =
      Ret () (set_ch (my_channel (hd_at h s)) (\<lambda>c. c\<lparr>expecting_intr := True\<rparr>) (s\<lparr>hw := c\<rparr>)) \<and>
    view c = (view (hw s))(b := ata_command cmd (view (hw s) b))"
proof -
  have "cmd_out A (my_channel (hd_at h s)) cmd s =
      Ret () (set_ch (my_channel (hd_at h s)) (\<lambda>c. c\<lparr>expecting_intr := True\<rparr>) (s\<lparr>hw := ata_out A (hw s) (b + 7) cmd\<rparr>))"
    using wiredD(2,3) [OF w] by (simp add: cmd_out_def Let_def port_out_def reg_cmd_def reg_status_def)
  moreover have "view (ata_out A (hw s) (b + 7) cmd) = (view (hw s))(b := ata_command cmd (view (hw s) b))"
    using ata_documentedD(1) [OF d wiredD(1) [OF w] _ r, of 7 cmd] by (simp add: ata_port_out_def)
  ultimately show ?thesis
    by blast
qed

lemma busy_loop_run:
  assumes d: "ata_documented A view lag"
  shows "wired h b s \<Longrightarrow> lag (hw s) b < n \<Longrightarrow>
    \<exists>c. busy_loop A h n s = Ret (phase (view (hw s) b) \<noteq> Idle) (s\<lparr>hw := c\<rparr>) \<and>
      view c = (view (hw s))(b := (view (hw s) b)\<lparr>irq := False\<rparr>) \<and> lag c b = 0"
proof (induction n arbitrary: s)
  case (Suc n)
  note D = ata_documentedD [OF d wiredD(1) [OF Suc.prems(1)]] and p = wiredD(2) [OF Suc.prems(1)]
  let ?i = "\<lambda>c. ata_in A c (b + 7)"
  show ?case
  proof (cases "lag (hw s) b = 0")
    case True
    let ?c1 = "snd (?i (hw s))"
    let ?c2 = "snd (?i ?c1)"
    note a = D(3) [OF True]
    then have l1: "lag ?c1 b = 0"
      by simp
    note b = D(3) [OF l1]
    have "busy_loop A h (Suc n) s = Ret (fst (?i ?c1) AND BIT_STAT_DRQ \<noteq> 0) (s\<lparr>hw := ?c2\<rparr>)"
      using a p by (simp add: port_in_def reg_status_def case_prod_beta)
    then show ?thesis
      using a b by (intro exI [of _ ?c2]) simp
  next
    case False
    let ?s = "s\<lparr>hw := ata_sleep A (snd (?i (hw s)))\<rparr>"
    note a = D(4) [of "hw s"]
    have "busy_loop A h (Suc n) s = busy_loop A h n ?s"
      using False a p by (simp add: port_in_def reg_status_def case_prod_beta)
    moreover have v: "wired h b ?s" "view (hw ?s) = view (hw s)" "lag (hw ?s) b < n"
      using a D(5) False Suc.prems by simp_all
    moreover obtain c where "busy_loop A h n ?s = Ret (phase (view (hw ?s) b) \<noteq> Idle) (?s\<lparr>hw := c\<rparr>)"
        "view c = (view (hw ?s))(b := (view (hw ?s) b)\<lparr>irq := False\<rparr>)" "lag c b = 0"
      using Suc.IH [OF v(1,3)] by blast
    ultimately show ?thesis
      by (intro exI [of _ c]) (simp del: busy_loop.simps)
  qed
qed simp

lemma busy_wait_run:
  assumes d: "ata_documented A view lag" and w: "wired h b s"
  shows "\<exists>c. busy_wait A h s = Ret (phase (view (hw s) b) \<noteq> Idle) (s\<lparr>hw := c\<rparr>) \<and>
    view c = (view (hw s))(b := (view (hw s) b)\<lparr>irq := False\<rparr>) \<and> lag c b = 0"
  unfolding busy_wait_def
  by (rule busy_loop_run [OF d w]) (use ata_documentedD(6) [OF d wiredD(1) [OF w], of "hw s"] in simp)

text \<open>An interrupt that is not expected changes nothing: those of the second and the further sectors of a command come while
  the thread moves the sectors.\<close>

lemma unexpected_interrupt:
  assumes "wired h b s" "\<not> expecting_intr (chan h s)"
  shows "intr_hd_handler A (irq_no (chan h s)) s = Ret () s"
  using wiredD [OF assms(1)] assms(2) by (simp add: intr_hd_handler_def Let_def)

lemma wait_done_run:
  assumes d: "ata_documented A view lag" and w: "wired h b s" and i: "irq (view (hw s) b)"
    and c: "expecting_intr (chan h s)" "disk_done (chan h s) = 0"
  shows "\<exists>c. wait_done A (my_channel (hd_at h s)) s =
      Ret () (set_ch (my_channel (hd_at h s)) (\<lambda>c. c\<lparr>expecting_intr := False\<rparr>) (s\<lparr>hw := c\<rparr>)) \<and>
    view c = (view (hw s))(b := (view (hw s) b)\<lparr>irq := False\<rparr>) \<and> lag c b = 0"
proof -
  note D = ata_documentedD [OF d wiredD(1) [OF w]] and p = wiredD [OF w]
  obtain c1 where c1: "ata_intr A (hw s) (irq_no (chan h s)) = Some c1" "view c1 = view (hw s)" "lag c1 b = 0"
    using D(7) [OF i] by blast
  let ?c = "snd (ata_in A c1 (b + 7))" and ?i = "my_channel (hd_at h s)"
  let ?s = "set_ch ?i (\<lambda>c. c\<lparr>disk_done := disk_done c + 1\<rparr>) (set_ch ?i (\<lambda>c. c\<lparr>expecting_intr := False\<rparr>) (s\<lparr>hw := ?c\<rparr>))"
  have same_done: "(chan h s)\<lparr>expecting_intr := False, disk_done := 0\<rparr> = (chan h s)\<lparr>expecting_intr := False\<rparr>"
    using c(2) by (cases "chan h s") simp
  have "intr_hd_handler A (irq_no (chan h s)) (s\<lparr>hw := c1\<rparr>) = Ret () ?s"
    using p c by (simp add: intr_hd_handler_def Let_def port_in_def reg_status_def case_prod_beta thenK_def bindK_def)
  moreover have "take_done ?i ?s = Ret () (set_ch ?i (\<lambda>c. c\<lparr>expecting_intr := False\<rparr>) (s\<lparr>hw := ?c\<rparr>))"
    using p(3) c by (simp add: take_done_def Let_def) (simp add: set_ch_def same_done)
  ultimately have "wait_done A ?i s = Ret () (set_ch ?i (\<lambda>c. c\<lparr>expecting_intr := False\<rparr>) (s\<lparr>hw := ?c\<rparr>))"
    using c(2) c1(1) by (simp add: wait_done_def)
  then show ?thesis
    using D(3) [OF c1(3)] c1(2) by auto
qed

lemma size_of_count: "0 < n \<Longrightarrow> n \<le> 256 \<Longrightarrow> size_in_byte (of_nat n) = n * 512"
  by (cases "n = 256") (auto simp: size_in_byte_def unat_of_nat unat_eq_0 [symmetric] simp del: unat_eq_0)

text \<open>The controller after an operation on the disks at \<open>b\<close>, whose sectors are now \<open>M\<close>.\<close>

definition moved :: "('c \<Rightarrow> u16 \<Rightarrow> ata_view) \<Rightarrow> u16 \<Rightarrow> 'c \<Rightarrow> 'c \<Rightarrow> (bool \<Rightarrow> nat \<Rightarrow> u8 list) \<Rightarrow> bool" where
  "moved view b c c' M \<longleftrightarrow> media (view c' b) = M \<and> ident (view c' b) = ident (view c b) \<and> (\<forall>b'. b' \<noteq> b \<longrightarrow> view c' b' = view c b')"

lemma moved_trans: "moved view b c c' M \<Longrightarrow> moved view b c' c'' M' \<Longrightarrow> moved view b c c'' M'"
  by (simp add: moved_def)

text \<open>The channel of the disk waits for no interrupt.\<close>

definition settled :: "nat \<times> nat \<Rightarrow> 'c ide \<Rightarrow> bool" where
  "settled h s \<longleftrightarrow> \<not> expecting_intr (chan h s) \<and> disk_done (chan h s) = 0"

lemma settled_hw [simp]: "settled h (s\<lparr>hw := c\<rparr>) = settled h s" "slave h (s\<lparr>hw := c\<rparr>) = slave h s"
  by (simp_all add: settled_def slave_def)

lemma expecting_back:
  assumes "settled h s" "i = my_channel (hd_at h s)"
  shows "set_ch i (\<lambda>c. c\<lparr>expecting_intr := False\<rparr>) (set_ch i (\<lambda>c. c\<lparr>expecting_intr := True\<rparr>) s) = s"
proof -
  have "(chan h s)\<lparr>expecting_intr := False\<rparr> = chan h s"
    using assms(1) by (cases "chan h s") (simp add: settled_def)
  then show ?thesis
    using assms(2) by (cases s; cases "i < length (channels s)") (simp_all add: set_ch_def list_update_beyond)
qed

text \<open>The steps from a state that differs from \<open>s\<close> in the controller only.\<close>

lemma cmd_out_at:
  assumes "ata_documented A view lag" "wired h b s" "ready view lag b c"
  shows "\<exists>c'. cmd_out A (my_channel (hd_at h s)) cmd (s\<lparr>hw := c\<rparr>) =
      Ret () (set_ch (my_channel (hd_at h s)) (\<lambda>c. c\<lparr>expecting_intr := True\<rparr>) (s\<lparr>hw := c'\<rparr>)) \<and>
    view c' = (view c)(b := ata_command cmd (view c b))"
  using cmd_out_run [OF assms(1), of h b "s\<lparr>hw := c\<rparr>"] assms(2,3) by simp

lemma busy_wait_at:
  assumes "ata_documented A view lag" "wired h b s"
  shows "\<exists>c'. busy_wait A h (s\<lparr>hw := c\<rparr>) = Ret (phase (view c b) \<noteq> Idle) (s\<lparr>hw := c'\<rparr>) \<and>
    view c' = (view c)(b := (view c b)\<lparr>irq := False\<rparr>) \<and> lag c' b = 0"
  using busy_wait_run [OF assms(1), of h b "s\<lparr>hw := c\<rparr>"] assms(2) by simp

lemma busy_wait_expecting_at:
  assumes "ata_documented A view lag" "wired h b s"
  shows "\<exists>c'. busy_wait A h (set_ch (my_channel (hd_at h s)) (\<lambda>c. c\<lparr>expecting_intr := True\<rparr>) (s\<lparr>hw := c\<rparr>)) =
      Ret (phase (view c b) \<noteq> Idle) (set_ch (my_channel (hd_at h s)) (\<lambda>c. c\<lparr>expecting_intr := True\<rparr>) (s\<lparr>hw := c'\<rparr>)) \<and>
    view c' = (view c)(b := (view c b)\<lparr>irq := False\<rparr>) \<and> lag c' b = 0"
  using busy_wait_run [OF assms(1), of h b "set_ch (my_channel (hd_at h s)) (\<lambda>c. c\<lparr>expecting_intr := True\<rparr>) (s\<lparr>hw := c\<rparr>)"]
    assms(2) wired_simps(2) [of h b "s\<lparr>hw := c\<rparr>" True] by simp

lemma wait_done_at:
  assumes d: "ata_documented A view lag" and w: "wired h b s" "settled h s" and i: "irq (view c b)"
  shows "\<exists>c'. wait_done A (my_channel (hd_at h s)) (set_ch (my_channel (hd_at h s)) (\<lambda>c. c\<lparr>expecting_intr := True\<rparr>) (s\<lparr>hw := c\<rparr>)) =
      Ret () (s\<lparr>hw := c'\<rparr>) \<and> view c' = (view c)(b := (view c b)\<lparr>irq := False\<rparr>) \<and> lag c' b = 0"
proof -
  let ?i = "my_channel (hd_at h s)"
  let ?t = "set_ch ?i (\<lambda>c. c\<lparr>expecting_intr := True\<rparr>) (s\<lparr>hw := c\<rparr>)"
  have "wired h b ?t" "expecting_intr (chan h ?t)" "disk_done (chan h ?t) = 0" "irq (view (hw ?t) b)"
    using w wired_simps(2) [of h b "s\<lparr>hw := c\<rparr>" True] i wiredD(3) [OF w(1)] by (simp_all add: settled_def)
  from wait_done_run [OF d this(1,4,2,3)] show ?thesis
    using expecting_back [of h "s\<lparr>hw := c\<rparr>" ?i for c] w(2) by simp
qed

lemma read_chunk:
  assumes d: "ata_documented A view lag" and w: "wired h b s" "settled h s" and r: "ready view lag b (hw s)"
    and l: "lba \<le> max_lba" and n: "0 < n" "n \<le> 256" "n = 1 \<or> keeps_up A view lag"
    and ok: "sectors_ok (media (view (hw s) b) (slave h s))"
  defines "bs \<equiv> rd_secs (media (view (hw s) b) (slave h s)) (unat lba) n"
  shows "\<exists>c c'. (\<forall>F. thenK (select_sector A h lba (of_nat n)) (thenK (cmd_out A (my_channel (hd_at h s)) CMD_READ_SECTOR)
      (thenK (wait_done A (my_channel (hd_at h s))) (bindK (busy_wait A h) F))) s = F True (s\<lparr>hw := c\<rparr>)) \<and>
    read_from_sector A h (of_nat n) (s\<lparr>hw := c\<rparr>) = Ret bs (s\<lparr>hw := c'\<rparr>) \<and> moved view b (hw s) c' (media (view (hw s) b)) \<and>
    ready view lag b c'"
proof -
  let ?i = "my_channel (hd_at h s)" and ?M = "media (view (hw s) b) (slave h s)"
  let ?x = "set_ch ?i (\<lambda>c. c\<lparr>expecting_intr := True\<rparr>)" and ?xs = "map (\<lambda>k. ?M (unat lba + k)) [0..<n]"
  obtain c1 r where c1: "select_sector A h lba (of_nat n) s = Ret () (s\<lparr>hw := c1\<rparr>)"
    "view c1 = (view (hw s))(b := (view (hw s) b)\<lparr>regs := r\<rparr>)" "ready view lag b c1"
    "ata_dev (view c1 b) = slave h s" "ata_lba (view c1 b) = unat lba" "ata_count (view c1 b) = n"
    using select_sector_run [OF d w(1) r l n(1,2)] by (auto simp: Let_def)
  obtain c2 where c2: "cmd_out A ?i CMD_READ_SECTOR (s\<lparr>hw := c1\<rparr>) = Ret () (?x (s\<lparr>hw := c2\<rparr>))"
    "view c2 = (view c1)(b := ata_command CMD_READ_SECTOR (view c1 b))"
    using cmd_out_at [OF d w(1) c1(3)] by blast
  have v2: "view c2 b = (view c1 b)\<lparr>phase := Data_In ?xs, irq := True\<rparr>"
    using c1(2,4-) c2(2) by (simp add: ata_command_def)
  then have "irq (view c2 b)"
    by simp
  then obtain c3 where c3: "wait_done A ?i (?x (s\<lparr>hw := c2\<rparr>)) = Ret () (s\<lparr>hw := c3\<rparr>)"
    "view c3 = (view c2)(b := (view c2 b)\<lparr>irq := False\<rparr>)"
    using wait_done_at [OF d w] by blast
  obtain c4 where c4: "busy_wait A h (s\<lparr>hw := c3\<rparr>) = Ret (phase (view c3 b) \<noteq> Idle) (s\<lparr>hw := c4\<rparr>)"
    "view c4 = (view c3)(b := (view c3 b)\<lparr>irq := False\<rparr>)" "lag c4 b = 0"
    using busy_wait_at [OF d w(1)] by blast
  have xs: "phase (view c4 b) = Data_In ?xs" "?xs \<noteq> []" "list_all (\<lambda>x. length x = SECTOR_SIZE) ?xs" "length ?xs = n"
    using c4(2) c3(2) v2 n(1) ok by (simp_all add: sectors_ok_def list_all_iff)
  obtain c5 q where c5: "ata_insw A c4 b (256 * n) = (bs, c5)" "view c5 = (view c4)(b := (view c4 b)\<lparr>phase := Idle, irq := q\<rparr>)"
    "lag c5 b = 0"
    using insw_blocks [OF d wiredD(1) [OF w(1)] xs(1-3) c4(3)] n(3) unfolding xs(4) concat_secs bs_def by blast
  have "read_from_sector A h (of_nat n) (s\<lparr>hw := c4\<rparr>) = Ret bs (s\<lparr>hw := c5\<rparr>)"
    using c5(1) size_of_count [OF n(1,2)] wiredD(2) [OF w(1)] by (simp add: read_from_sector_def reg_data_def mult.commute)
  moreover have "moved view b (hw s) c5 (media (view (hw s) b))" "ready view lag b c5"
    using c1(2) c2(2) v2 c3(2) c4(2) c5(2,3) by (simp_all add: moved_def ready_def)
  ultimately show ?thesis
    using c1(1) c2(1) c3 c4(1) v2 by (intro exI [of _ c4] exI [of _ c5]) simp
qed

lemma write_chunk:
  assumes d: "ata_documented A view lag" and w: "wired h b s" "settled h s" and r: "ready view lag b (hw s)"
    and l: "lba \<le> max_lba" and n: "0 < n" "n \<le> 256" "n = 1 \<or> keeps_up A view lag"
    and len: "n * 512 \<le> length bs"
  defines "M \<equiv> media (view (hw s) b)"
  shows "\<exists>c. (\<forall>F. thenK (select_sector A h lba (of_nat n)) (thenK (cmd_out A (my_channel (hd_at h s)) CMD_WRITE_SECTOR)
      (bindK (busy_wait A h) (\<lambda>ready. if \<not> ready then fltK Panic else thenK (write2sector A h bs (of_nat n))
      (thenK (wait_done A (my_channel (hd_at h s))) F)))) s = F (s\<lparr>hw := c\<rparr>)) \<and>
    moved view b (hw s) c (M(slave h s := wr_secs (M (slave h s)) (unat lba) (take (n * 512) bs) n)) \<and> ready view lag b c"
proof -
  let ?i = "my_channel (hd_at h s)"
  let ?x = "set_ch ?i (\<lambda>c. c\<lparr>expecting_intr := True\<rparr>)"
  obtain c1 r where c1: "select_sector A h lba (of_nat n) s = Ret () (s\<lparr>hw := c1\<rparr>)"
    "view c1 = (view (hw s))(b := (view (hw s) b)\<lparr>regs := r\<rparr>)" "ready view lag b c1"
    "ata_dev (view c1 b) = slave h s" "ata_lba (view c1 b) = unat lba" "ata_count (view c1 b) = n"
    using select_sector_run [OF d w(1) r l n(1,2)] by (auto simp: Let_def)
  obtain c2 where c2: "cmd_out A ?i CMD_WRITE_SECTOR (s\<lparr>hw := c1\<rparr>) = Ret () (?x (s\<lparr>hw := c2\<rparr>))"
    "view c2 = (view c1)(b := ata_command CMD_WRITE_SECTOR (view c1 b))"
    using cmd_out_at [OF d w(1) c1(3)] by blast
  have v2: "view c2 b = (view c1 b)\<lparr>phase := Data_Out (slave h s) (unat lba) n, irq := False\<rparr>"
    using c1(4-) c2(2) by (simp add: ata_command_def CMD_WRITE_SECTOR_def CMD_READ_SECTOR_def)
  obtain c3 where c3: "busy_wait A h (?x (s\<lparr>hw := c2\<rparr>)) = Ret (phase (view c2 b) \<noteq> Idle) (?x (s\<lparr>hw := c3\<rparr>))"
    "view c3 = (view c2)(b := (view c2 b)\<lparr>irq := False\<rparr>)" "lag c3 b = 0"
    using busy_wait_expecting_at [OF d w(1)] by blast
  let ?c4 = "ata_outsw A c3 b (take (n * 512) bs)"
  have v3: "phase (view c3 b) = Data_Out (slave h s) (unat lba) n" "media (view c3 b) = M"
    using c3(2) v2 c1(2) by (simp_all add: M_def)
  have "length (take (n * 512) bs) = n * SECTOR_SIZE"
    using len by (simp add: SECTOR_SIZE_def)
  note v4 = outsw_blocks [OF d wiredD(1) [OF w(1)] v3(1) n(1) this c3(3) n(3), unfolded v3(2)]
  have wr: "write2sector A h bs (of_nat n) (?x (s\<lparr>hw := c3\<rparr>)) = Ret () (?x (s\<lparr>hw := ?c4\<rparr>))"
    using len size_of_count [OF n(1,2)] wiredD(2,3) [OF w(1)] by (simp add: write2sector_def reg_data_def)
  have "irq (view ?c4 b)"
    by (simp add: v4)
  then obtain c5 where c5: "wait_done A ?i (?x (s\<lparr>hw := ?c4\<rparr>)) = Ret () (s\<lparr>hw := c5\<rparr>)"
    "view c5 = (view ?c4)(b := (view ?c4 b)\<lparr>irq := False\<rparr>)" "lag c5 b = 0"
    using wait_done_at [OF d w] by blast
  have "moved view b (hw s) c5 (M(slave h s := wr_secs (M (slave h s)) (unat lba) (take (n * 512) bs) n))" "ready view lag b c5"
    using c1(2) c2(2) v2 c3(2) v4 c5(2,3) by (simp_all add: moved_def ready_def)
  then show ?thesis
    using c1(1) c2(1) c3(1) v2 wr c5(1) by (intro exI [of _ c5]) simp
qed

subsection \<open>The loops over the commands\<close>

lemma secs_op_le: "secs_done < cnt \<Longrightarrow> 0 < secs_op cnt secs_done \<and> secs_op cnt secs_done \<le> 256 \<and> secs_done + secs_op cnt secs_done \<le> cnt"
  by (auto simp: secs_op_def)

lemma lba_sum:
  assumes "unat lba + n \<le> unat max_lba + 1" "k < n"
  shows "unat (lba + of_nat k) = unat lba + k" "lba + of_nat k \<le> max_lba"
proof -
  have m: "unat max_lba = 163839"
    by (simp add: max_lba_def)
  have "unat (of_nat k :: u32) = k"
    using assms m by (simp add: unat_of_nat)
  then show "unat (lba + of_nat k) = unat lba + k"
    using assms m by (simp add: unat_word_ariths)
  then show "lba + of_nat k \<le> max_lba"
    using assms by (simp add: word_le_nat_alt)
qed

lemma read_loop_run:
  fixes s :: "'c ide"
  assumes d: "ata_documented A view lag" and l: "unat lba + cnt \<le> unat max_lba + 1" and room: "cnt * 512 \<le> room"
    and q: "cnt = 1 \<or> keeps_up A view lag"
  shows "wired h b s \<Longrightarrow> settled h s \<Longrightarrow> ready view lag b (hw s) \<Longrightarrow> sectors_ok (media (view (hw s) b) (slave h s)) \<Longrightarrow> secs_done \<le> cnt \<Longrightarrow>
    \<exists>c. read_loop A h lba room cnt secs_done s =
        Ret (rd_secs (media (view (hw s) b) (slave h s)) (unat lba + secs_done) (cnt - secs_done)) (s\<lparr>hw := c\<rparr>) \<and>
      moved view b (hw s) c (media (view (hw s) b)) \<and> ready view lag b c"
proof (induction "cnt - secs_done" arbitrary: s secs_done rule: less_induct)
  case less
  show ?case
  proof (cases "secs_done < cnt")
    case True
    define n where "n = secs_op cnt secs_done"
    have n: "0 < n" "n \<le> 256" "secs_done + n \<le> cnt"
      using secs_op_le [OF True] by (simp_all add: n_def)
    have n1: "n = 1 \<or> keeps_up A view lag"
      using q n by linarith
    let ?M = "media (view (hw s) b) (slave h s)" and ?l = "lba + of_nat secs_done"
    note la = lba_sum [OF l True]
    obtain c c' where c: "thenK (select_sector A h ?l (of_nat n)) (thenK (cmd_out A (my_channel (hd_at h s)) CMD_READ_SECTOR)
        (thenK (wait_done A (my_channel (hd_at h s))) (bindK (busy_wait A h) F))) s = F True (s\<lparr>hw := c\<rparr>)"
      "read_from_sector A h (of_nat n) (s\<lparr>hw := c\<rparr>) = Ret (rd_secs ?M (unat lba + secs_done) n) (s\<lparr>hw := c'\<rparr>)"
      "moved view b (hw s) c' (media (view (hw s) b))" "ready view lag b c'" for F :: "bool \<Rightarrow> ('c ide, u8 list) kop"
      using read_chunk [OF d less.prems(1,2,3) la(2) n(1,2) n1 less.prems(4), unfolded la(1)] by blast
    have m: "media (view c' b) = media (view (hw s) b)" and dec: "cnt - (secs_done + n) < cnt - secs_done"
      using c(3) n True by (simp_all add: moved_def)
    obtain c'' where c'': "read_loop A h lba room cnt (secs_done + n) (s\<lparr>hw := c'\<rparr>) =
        Ret (rd_secs ?M (unat lba + (secs_done + n)) (cnt - (secs_done + n))) (s\<lparr>hw := c''\<rparr>)"
      "moved view b c' c'' (media (view (hw s) b))" "ready view lag b c''"
      using less.hyps [OF dec, of "s\<lparr>hw := c'\<rparr>"] less.prems n(3) m c(4) by auto
    have "rd_secs ?M (unat lba + secs_done) (cnt - secs_done) =
        rd_secs ?M (unat lba + secs_done) n @ rd_secs ?M (unat lba + (secs_done + n)) (cnt - (secs_done + n))"
      using rd_secs_add [of ?M "unat lba + secs_done" n "cnt - (secs_done + n)"] n(3) by (simp add: add.assoc)
    moreover have "\<not> room < secs_done * 512 + size_in_byte (of_nat n)"
      using room n size_of_count [OF n(1,2)] by simp
    ultimately show ?thesis
      using True c(1,2) c''(1,3) moved_trans [OF c(3) c''(2)] read_loop.simps [of A h lba room cnt secs_done]
      by (intro exI [of _ c'']) (simp add: n_def [symmetric] Let_def)
  next
    case False
    then show ?thesis
      using less.prems by (intro exI [of _ "hw s"]) (simp add: read_loop.simps moved_def)
  qed
qed

lemma wr_secs_add: "wr_secs d l bs (m + n) = wr_secs (wr_secs d l bs m) (l + m) (drop (m * SECTOR_SIZE) bs) n"
  by (induction m arbitrary: d l bs) (simp_all add: add.commute)

lemma wr_secs_take: "n * SECTOR_SIZE \<le> k \<Longrightarrow> wr_secs d l (take k bs) n = wr_secs d l bs n"
  by (induction n arbitrary: d l bs k) (simp_all add: drop_take min_def)

lemma write_loop_run:
  fixes s :: "'c ide"
  assumes d: "ata_documented A view lag" and l: "unat lba + cnt \<le> unat max_lba + 1" and len: "cnt * 512 \<le> length buf"
    and q: "cnt = 1 \<or> keeps_up A view lag"
  shows "wired h b s \<Longrightarrow> settled h s \<Longrightarrow> ready view lag b (hw s) \<Longrightarrow> secs_done \<le> cnt \<Longrightarrow>
    \<exists>c. write_loop A h lba buf cnt secs_done s = Ret () (s\<lparr>hw := c\<rparr>) \<and>
      moved view b (hw s) c ((media (view (hw s) b))(slave h s :=
        wr_secs (media (view (hw s) b) (slave h s)) (unat lba + secs_done) (drop (secs_done * 512) buf) (cnt - secs_done))) \<and>
      ready view lag b c"
proof (induction "cnt - secs_done" arbitrary: s secs_done rule: less_induct)
  case less
  show ?case
  proof (cases "secs_done < cnt")
    case True
    define n where "n = secs_op cnt secs_done"
    have n: "0 < n" "n \<le> 256" "secs_done + n \<le> cnt"
      using secs_op_le [OF True] by (simp_all add: n_def)
    have n1: "n = 1 \<or> keeps_up A view lag"
      using q n by linarith
    let ?M = "media (view (hw s) b)" and ?l = "lba + of_nat secs_done" and ?bs = "drop (secs_done * 512) buf"
    let ?M1 = "wr_secs (?M (slave h s)) (unat lba + secs_done) ?bs n"
    note la = lba_sum [OF l True]
    have "n * 512 \<le> length ?bs" and t: "wr_secs e k (take (n * 512) ?bs) n = wr_secs e k ?bs n" for e k
      using len n(3) by (simp_all add: wr_secs_take SECTOR_SIZE_def)
    then obtain c where c: "thenK (select_sector A h ?l (of_nat n)) (thenK (cmd_out A (my_channel (hd_at h s)) CMD_WRITE_SECTOR)
        (bindK (busy_wait A h) (\<lambda>ready. if \<not> ready then fltK Panic else thenK (write2sector A h ?bs (of_nat n))
        (thenK (wait_done A (my_channel (hd_at h s))) F)))) s = F (s\<lparr>hw := c\<rparr>)"
      "moved view b (hw s) c (?M(slave h s := ?M1))" "ready view lag b c" for F :: "('c ide, unit) kop"
      using write_chunk [OF d less.prems(1,2,3) la(2) n(1,2) n1, of ?bs, unfolded la(1) t] by blast
    have m: "media (view c b) = ?M(slave h s := ?M1)" and dec: "cnt - (secs_done + n) < cnt - secs_done"
      using c(2) n True by (simp_all add: moved_def)
    obtain c'' where c'': "write_loop A h lba buf cnt (secs_done + n) (s\<lparr>hw := c\<rparr>) = Ret () (s\<lparr>hw := c''\<rparr>)"
      "moved view b c c'' (?M(slave h s := wr_secs ?M1 (unat lba + (secs_done + n)) (drop ((secs_done + n) * 512) buf) (cnt - (secs_done + n))))"
      "ready view lag b c''"
      using less.hyps [OF dec, of "s\<lparr>hw := c\<rparr>"] less.prems n(3) m c(3) by auto
    have "wr_secs (?M (slave h s)) (unat lba + secs_done) ?bs (cnt - secs_done) =
        wr_secs ?M1 (unat lba + (secs_done + n)) (drop ((secs_done + n) * 512) buf) (cnt - (secs_done + n))"
      using wr_secs_add [of "?M (slave h s)" "unat lba + secs_done" ?bs n "cnt - (secs_done + n)"] n(3)
      by (simp add: add.assoc SECTOR_SIZE_def add_mult_distrib add.commute [of "n * 512"])
    then show ?thesis
      using True c(1) c''(1,3) moved_trans [OF c(2) c''(2)] write_loop.simps [of A h lba buf cnt secs_done]
      by (intro exI [of _ c'']) (simp add: n_def [symmetric] Let_def)
  next
    case False
    then show ?thesis
      using less.prems by (intro exI [of _ "hw s"]) (simp add: write_loop.simps moved_def)
  qed
qed

subsection \<open>Properties\<close>

definition channel_free :: "nat \<times> nat \<Rightarrow> u16 \<Rightarrow> 'c ide \<Rightarrow> bool" where
  "channel_free h b s \<longleftrightarrow> wired h b s \<and> settled h s \<and> \<not> ch_lock (chan h s)"

lemma lock_back:
  assumes "channel_free h b s"
  shows "set_ch (my_channel (hd_at h s)) (\<lambda>c. c\<lparr>ch_lock := False\<rparr>) (set_ch (my_channel (hd_at h s)) (\<lambda>c. c\<lparr>ch_lock := True\<rparr>) (s\<lparr>hw := c\<rparr>)) = s\<lparr>hw := c\<rparr>"
proof -
  have "(chan h s)\<lparr>ch_lock := False\<rparr> = chan h s"
    using assms by (cases "chan h s") (simp add: channel_free_def)
  then show ?thesis
    by (cases "my_channel (hd_at h s) < length (channels s)") (simp_all add: set_ch_def list_update_beyond)
qed

text \<open>Taking the lock and selecting the disk, and giving the lock back.\<close>

lemma locked_run:
  assumes d: "ata_documented A view lag" and f: "channel_free h b s" and r: "ready view lag b (hw s)"
  defines "i \<equiv> my_channel (hd_at h s)"
  shows "\<exists>c. (\<forall>F. thenK (ch_lock_acquire i) (thenK (select_disk A h) F) s = F (set_ch i (\<lambda>c. c\<lparr>ch_lock := True\<rparr>) (s\<lparr>hw := c\<rparr>))) \<and>
    wired h b (set_ch i (\<lambda>c. c\<lparr>ch_lock := True\<rparr>) (s\<lparr>hw := c\<rparr>)) \<and> settled h (set_ch i (\<lambda>c. c\<lparr>ch_lock := True\<rparr>) (s\<lparr>hw := c\<rparr>)) \<and>
    slave h (set_ch i (\<lambda>c. c\<lparr>ch_lock := True\<rparr>) (s\<lparr>hw := c\<rparr>)) = slave h s \<and> moved view b (hw s) c (media (view (hw s) b)) \<and> ready view lag b c \<and>
    (\<forall>c'. ch_lock_release i (set_ch i (\<lambda>c. c\<lparr>ch_lock := True\<rparr>) (s\<lparr>hw := c'\<rparr>)) = Ret () (s\<lparr>hw := c'\<rparr>))"
proof -
  let ?t = "\<lambda>c. set_ch i (\<lambda>c. c\<lparr>ch_lock := True\<rparr>) (s\<lparr>hw := c\<rparr>)"
  have w: "wired h b s" "settled h s" "\<not> ch_lock (chan h s)"
    using f by (simp_all add: channel_free_def)
  note p = wiredD(3) [OF w(1)]
  have t: "wired h b (?t c)" "settled h (?t c)" "slave h (?t c) = slave h s" for c
    using w wired_simps(3) [of h b "s\<lparr>hw := c\<rparr>" True] p by (simp_all add: i_def settled_def slave_def)
  obtain c r where c: "select_disk A h (?t (hw s)) = Ret () (?t c)" "view c = (view (hw s))(b := (view (hw s) b)\<lparr>regs := r\<rparr>)"
    "ready view lag b c"
    using select_disk_run [OF d t(1) [of "hw s"]] r by auto
  have a: "ch_lock_acquire i s = Ret () (?t (hw s))"
    using w(3) by (simp add: ch_lock_acquire_def i_def)
  have "ch_lock_release i (?t c') = Ret () (s\<lparr>hw := c'\<rparr>)" for c'
    using p lock_back [OF f, of c'] by (simp add: ch_lock_release_def i_def)
  moreover have "moved view b (hw s) c (media (view (hw s) b))"
    using c(2) by (simp add: moved_def)
  ultimately show ?thesis
    using a c(1,3) t by (intro exI [of _ c]) simp
qed

lemma ide_read_hd_run:
  fixes s :: "'c ide"
  assumes d: "ata_documented A view lag" and q: "cnt = 1 \<or> keeps_up A view lag"
    and f: "channel_free h b s" "ready view lag b (hw s)" and n: "0 < cnt" and l: "unat lba + unat cnt \<le> unat max_lba + 1"
    and ok: "sectors_ok (media (view (hw s) b) (slave h s))" and room: "unat cnt * 512 \<le> room"
  shows "\<exists>c. ide_read_hd A h lba room cnt s = Ret (rd_secs (media (view (hw s) b) (slave h s)) (unat lba) (unat cnt)) (s\<lparr>hw := c\<rparr>) \<and>
    moved view b (hw s) c (media (view (hw s) b)) \<and> ready view lag b c"
proof -
  let ?i = "my_channel (hd_at h s)"
  let ?t = "\<lambda>c. set_ch ?i (\<lambda>c. c\<lparr>ch_lock := True\<rparr>) (s\<lparr>hw := c\<rparr>)"
  obtain c where c: "thenK (ch_lock_acquire ?i) (thenK (select_disk A h) F) s = F (?t c)" "wired h b (?t c)" "settled h (?t c)"
      "slave h (?t c) = slave h s" "moved view b (hw s) c (media (view (hw s) b))" "ready view lag b c"
      "ch_lock_release ?i (?t c') = Ret () (s\<lparr>hw := c'\<rparr>)" for F :: "('c ide, u8 list) kop" and c'
    using locked_run [OF d f] by blast
  have q': "unat cnt = 1 \<or> keeps_up A view lag"
    using q by auto
  have m: "media (view c b) = media (view (hw s) b)"
    using c(5) by (simp add: moved_def)
  obtain c' where c': "read_loop A h lba room (unat cnt) 0 (?t c) =
      Ret (rd_secs (media (view (hw s) b) (slave h s)) (unat lba) (unat cnt)) (?t c')" "moved view b c c' (media (view (hw s) b))"
    "ready view lag b c'"
    using read_loop_run [OF d l room q' c(2,3), of 0] ok c(4,6) m by auto
  have "0 < unat cnt"
    using n by (simp add: word_less_nat_alt)
  then have "lba \<le> max_lba"
    using l unfolding word_le_nat_alt by linarith
  then have "ide_read_hd A h lba room cnt s = Ret (rd_secs (media (view (hw s) b) (slave h s)) (unat lba) (unat cnt)) (s\<lparr>hw := c'\<rparr>)"
    using n c(1,7) c'(1) by (simp add: ide_read_hd_def)
  then show ?thesis
    using moved_trans [OF c(5) c'(2)] c'(3) by blast
qed

lemma ide_write_hd_run:
  fixes s :: "'c ide"
  assumes d: "ata_documented A view lag" and q: "cnt = 1 \<or> keeps_up A view lag"
    and f: "channel_free h b s" "ready view lag b (hw s)" and n: "0 < cnt" and l: "unat lba + unat cnt \<le> unat max_lba + 1"
    and len: "unat cnt * 512 \<le> length buf"
  shows "\<exists>c. ide_write_hd A h lba buf cnt s = Ret () (s\<lparr>hw := c\<rparr>) \<and> moved view b (hw s) c ((media (view (hw s) b))
    (slave h s := wr_secs (media (view (hw s) b) (slave h s)) (unat lba) buf (unat cnt))) \<and> ready view lag b c"
proof -
  let ?i = "my_channel (hd_at h s)"
  let ?t = "\<lambda>c. set_ch ?i (\<lambda>c. c\<lparr>ch_lock := True\<rparr>) (s\<lparr>hw := c\<rparr>)"
  let ?M = "(media (view (hw s) b))(slave h s := wr_secs (media (view (hw s) b) (slave h s)) (unat lba) buf (unat cnt))"
  obtain c where c: "thenK (ch_lock_acquire ?i) (thenK (select_disk A h) F) s = F (?t c)" "wired h b (?t c)" "settled h (?t c)"
      "slave h (?t c) = slave h s" "moved view b (hw s) c (media (view (hw s) b))" "ready view lag b c"
      "ch_lock_release ?i (?t c') = Ret () (s\<lparr>hw := c'\<rparr>)" for F :: "('c ide, unit) kop" and c'
    using locked_run [OF d f] by blast
  have q': "unat cnt = 1 \<or> keeps_up A view lag"
    using q by auto
  have m: "media (view c b) = media (view (hw s) b)"
    using c(5) by (simp add: moved_def)
  obtain c' where c': "write_loop A h lba buf (unat cnt) 0 (?t c) = Ret () (?t c')" "moved view b c c' ?M" "ready view lag b c'"
    using write_loop_run [OF d l len q' c(2,3), of 0] c(4,6) m by auto
  have "0 < unat cnt"
    using n by (simp add: word_less_nat_alt)
  then have "lba \<le> max_lba"
    using l unfolding word_le_nat_alt by linarith
  then have "ide_write_hd A h lba buf cnt s = Ret () (s\<lparr>hw := c'\<rparr>)"
    using n c(1,7) c'(1) by (simp add: ide_write_hd_def)
  then show ?thesis
    using moved_trans [OF c(5) c'(2)] c'(3) by blast
qed

text \<open>C10: The driver implements the disk the file system works on. Let the controller keep the part of the ATA standard
  above, with one transfer and one interrupt for each sector, let it wait for a command, let the lock of the channel be free
  and no interrupt outstanding, and let the request lie on the disk. For requests of more than one sector let the controller
  also have the next sector ready at once. Then whenever reading or writing sectors of the array \<open>disk\<close> succeeds, so does the
  request to the driver, which cuts it into commands of at most 256 sectors: a read returns the same bytes and leaves every
  sector, a write leaves the same array behind on this disk, and the other disks, the lock and all of the driver's
  state are as before; the controller waits for a command again.
\<close>

theorem driver_implements_disk:
  assumes d: "ata_documented A view lag" and q: "cnt = 1 \<or> keeps_up A view lag"
    and f: "channel_free h b s" "ready view lag b (hw s)" and l: "unat lba + unat cnt \<le> unat max_lba + 1"
    and ok: "sectors_ok (media (view (hw s) b) (slave h s))" and fs: "disk fs = media (view (hw s) b) (slave h s)"
  shows "(ide_read lba room (unat cnt) fs = Ret bs fs \<longrightarrow>
      (\<exists>c. ide_read_hd A h lba room cnt s = Ret bs (s\<lparr>hw := c\<rparr>) \<and> moved view b (hw s) c (media (view (hw s) b)) \<and>
        ready view lag b c)) \<and>
    (ide_write lba buf (unat cnt) fs = Ret () fs' \<longrightarrow>
      (\<exists>c. ide_write_hd A h lba buf cnt s = Ret () (s\<lparr>hw := c\<rparr>) \<and>
        moved view b (hw s) c ((media (view (hw s) b))(slave h s := disk fs')) \<and> ready view lag b c))"
  using ide_read_hd_run [OF d q f _ l ok, of room] ide_write_hd_run [OF d q f _ l, of buf] fs
  by (auto simp: ide_read_def ide_write_def SECTOR_SIZE_def word_less_nat_alt split: if_splits)

text \<open>A controller that keeps the standard and is never busy: its state is the view itself.\<close>

definition demo_port :: "u16 \<Rightarrow> u16" where
  "demo_port p = (if 0x1f0 \<le> p then 0x1f0 else 0x170)"

fun demo_insw :: "nat \<Rightarrow> (u16 \<Rightarrow> ata_view) \<Rightarrow> u16 \<Rightarrow> u8 list \<times> (u16 \<Rightarrow> ata_view)" where
  "demo_insw 0 c p = ([], c)"
| "demo_insw (Suc n) c p =
     (let (x, c') = (case phase (c p) of Data_In (x # xs) \<Rightarrow> (x, c(p := sector_read xs (c p))) | _ \<Rightarrow> (replicate SECTOR_SIZE 0, c));
          (y, c'') = demo_insw n c' p
      in (x @ y, c''))"

fun demo_outsw :: "nat \<Rightarrow> (u16 \<Rightarrow> ata_view) \<Rightarrow> u16 \<Rightarrow> u8 list \<Rightarrow> (u16 \<Rightarrow> ata_view)" where
  "demo_outsw 0 c p bs = c"
| "demo_outsw (Suc n) c p bs =
     demo_outsw n (case phase (c p) of
         Data_Out dev lba (Suc k) \<Rightarrow> c(p := sector_written dev lba k (take SECTOR_SIZE bs) (c p)) | _ \<Rightarrow> c)
       p (drop SECTOR_SIZE bs)"

definition demo_ata :: "(u16 \<Rightarrow> ata_view) ata" where
  "demo_ata =
     \<lparr>ata_out = \<lambda>c p d. c(demo_port p := ata_port_out (p - demo_port p) d (c (demo_port p))),
      ata_in = \<lambda>c p. (if phase (c (demo_port p)) = Idle then 0x40 else 0x48, c(demo_port p := (c (demo_port p))\<lparr>irq := False\<rparr>)),
      ata_insw = \<lambda>c p n. demo_insw (n div 256) c p,
      ata_outsw = \<lambda>c p bs. demo_outsw (length bs div SECTOR_SIZE) c p bs,
      ata_intr = \<lambda>c v. Some c,
      ata_sleep = \<lambda>c. c\<rparr>"

lemma demo_insw_Suc:
  "demo_insw (Suc n) c p = (let (x, c') = demo_insw 1 c p; (y, c'') = demo_insw n c' p in (x @ y, c''))"
  by (simp add: case_prod_beta)

lemma demo_outsw_append:
  assumes "length x = SECTOR_SIZE"
  shows "demo_outsw (length (x @ y) div SECTOR_SIZE) c p (x @ y) =
    demo_outsw (length y div SECTOR_SIZE) (demo_outsw (length x div SECTOR_SIZE) c p x) p y"
proof -
  have "length (x @ y) div SECTOR_SIZE = Suc (length y div SECTOR_SIZE)" "length x div SECTOR_SIZE = Suc 0"
    "take SECTOR_SIZE (x @ y) = take SECTOR_SIZE x" "drop SECTOR_SIZE (x @ y) = y"
    using assms by (simp_all add: SECTOR_SIZE_def)
  then show ?thesis
    by (simp only: demo_outsw.simps)
qed

lemma demo_ports:
  assumes "(b, v) \<in> ata_ports"
  shows "off \<in> {2, 3, 4, 5, 6, 7} \<Longrightarrow> demo_port (b + off) = b"
  using assms by (auto simp: ata_ports_def demo_port_def)

lemma demo_ata_documented: "ata_documented demo_ata (\<lambda>c. c) (\<lambda>c b. 0)" "keeps_up demo_ata (\<lambda>c. c) (\<lambda>c b. 0)"
proof -
  show "ata_documented demo_ata (\<lambda>c. c) (\<lambda>c b. 0)"
    unfolding ata_documented_def
  proof (intro ballI, clarify, intro allI conjI impI ballI)
    fix b v and c :: "u16 \<Rightarrow> ata_view" and off d
    assume p: "(b, v) \<in> ata_ports"
    show "ata_out demo_ata c (b + off) d = c(b := ata_port_out off d (c b))" if "off \<in> {2, 3, 4, 5, 6, 7}"
      using demo_ports [OF p that] by (simp add: demo_ata_def)
    show "let (st, c') = ata_in demo_ata c (b + 7) in c' = c(b := (c b)\<lparr>irq := False\<rparr>) \<and> (0 :: nat) = 0 \<and>
        st AND BIT_STAT_BSY = 0 \<and> (st AND BIT_STAT_DRQ \<noteq> 0 \<longleftrightarrow> phase (c b) \<noteq> Idle)"
      using demo_ports [OF p, of 7] by (simp add: demo_ata_def BIT_STAT_BSY_def BIT_STAT_DRQ_def)
    show "\<exists>c'. ata_insw demo_ata c b 256 = (x, c') \<and> c' = c(b := sector_read xs (c b)) \<and> (xs = [] \<longrightarrow> (0 :: nat) = 0)"
      if "phase (c b) = Data_In (x # xs)" for x xs
      using that by (simp add: demo_ata_def)
    show "ata_outsw demo_ata c b bs = c(b := sector_written dev lba n bs (c b))"
      if "phase (c b) = Data_Out dev lba (Suc n)" "length bs = SECTOR_SIZE" for dev lba n bs
      using that by (simp add: demo_ata_def SECTOR_SIZE_def)
    show "ata_insw demo_ata c b (256 * Suc n) =
        (let (x, c') = ata_insw demo_ata c b 256; (y, c'') = ata_insw demo_ata c' b (256 * n) in (x @ y, c''))" for n
    proof -
      have "256 * Suc n div 256 = Suc n" "256 * n div 256 = n" "256 div 256 = (1 :: nat)"
        by simp_all
      then show ?thesis
        unfolding demo_ata_def ata.simps using demo_insw_Suc [of n c b] by (simp only:)
    qed
    show "ata_outsw demo_ata c b (x @ y) = ata_outsw demo_ata (ata_outsw demo_ata c b x) b y" if "length x = SECTOR_SIZE" for x y
      unfolding demo_ata_def ata.simps by (rule demo_outsw_append [OF that])
  qed (simp_all add: demo_ata_def)
qed (simp add: keeps_up_def)

definition demo_hard_disk :: "nat \<Rightarrow> hard_disk" where
  "demo_hard_disk d = \<lparr>hd_name = [115, 100, of_nat (97 + d)], my_channel = 0, dev_no = of_nat d,
     prim_parts = replicate 4 \<lparr>dp_start_lba = 0, dp_sec_cnt = 0, dp_my_disk = (0, 0), dp_name = []\<rparr>,
     logic_parts = replicate 8 \<lparr>dp_start_lba = 0, dp_sec_cnt = 0, dp_my_disk = (0, 0), dp_name = []\<rparr>\<rparr>"

definition demo_view :: "(nat \<Rightarrow> u8 list) \<Rightarrow> ata_view" where
  "demo_view D = \<lparr>regs = (\<lambda>_. 0), media = (\<lambda>_. D), ident = (\<lambda>_. replicate 512 0), phase = Idle, irq = False\<rparr>"

definition demo_ide :: "(nat \<Rightarrow> u8 list) \<Rightarrow> (u16 \<Rightarrow> ata_view) ide" where
  "demo_ide D = \<lparr>hw = (\<lambda>_. demo_view D), channel_cnt = 1,
     channels = [\<lparr>ch_name = [105, 100, 101, 48], port_base = 0x1f0, irq_no = 0x2e, ch_lock = False, expecting_intr = False,
       disk_done = 0, devices = [demo_hard_disk 0, demo_hard_disk 1]\<rparr>],
     ext_lba_base = 0, p_no = 0, l_no = 0, partition_list = [], bs_live = 0, hd_vectors = [0x2e]\<rparr>"

lemma demo_ide_ok: "channel_free (0, 1) 0x1f0 (demo_ide D)" "slave (0, 1) (demo_ide D)" "media (hw (demo_ide D) b) e = D"
    "ready (\<lambda>c. c) (\<lambda>c b. 0) b (hw (demo_ide D))"
  by (simp_all add: ready_def channel_free_def wired_def settled_def slave_def hd_at_def demo_ide_def demo_hard_disk_def demo_view_def ata_ports_def)

definition demo_service :: "(nat \<Rightarrow> u8 list) \<Rightarrow> fsys" where
  "demo_service D = \<lparr>disk = D,
     cur_part = \<lparr>start_lba = 0, sec_cnt = 0, sb = \<lparr>magic = 0, sb_sec_cnt = 0, inode_cnt = 0, part_lba_base = 0,
       block_bitmap_lba = 0, block_bitmap_sects = 0, inode_bitmap_lba = 0, inode_bitmap_sects = 0, inode_table_lba = 0,
       inode_table_sects = 0, data_start_lba = 0, root_inode_no = 0, dir_entry_size = 0\<rparr>,
       block_bitmap = \<lparr>btmp_bytes_len = 0, bits = []\<rparr>, inode_bitmap = \<lparr>btmp_bytes_len = 0, bits = []\<rparr>, open_inodes = []\<rparr>,
     inodes = (\<lambda>_. \<lparr>i_no = 0, i_size = 0, i_open_cnts = 0, write_deny = False, i_sectors = []\<rparr>),
     dirs = (\<lambda>_. \<lparr>dir_inode = 0, dir_pos = 0\<rparr>), root_dir = 0, file_table = [], fd_table = [], cwd_inode_nr = 0,
     in_kernel = True, grants = [], live = []\<rparr>"

text \<open>Writing 300 sectors takes two commands.\<close>

theorem driver_implements_disk_witness:
  "\<exists>c. ide_write_hd demo_ata (0, 1) 2048 (replicate (300 * 512) 7) 300 (demo_ide (\<lambda>_. replicate 512 0)) =
      Ret () ((demo_ide (\<lambda>_. replicate 512 0))\<lparr>hw := c\<rparr>) \<and>
    media (c 0x1f0) True 2347 = replicate 512 7 \<and> media (c 0x1f0) False 2347 = replicate 512 0"
proof -
  let ?D = "\<lambda>_. replicate 512 0" and ?buf = "replicate (300 * 512) (7 :: u8)"
  let ?fs = "(demo_service ?D)\<lparr>disk := wr_secs ?D 2048 ?buf 300\<rparr>"
  have "ide_write 2048 ?buf (unat (300 :: u32)) (demo_service ?D) = Ret () ?fs"
    by (simp add: ide_write_def demo_service_def max_lba_def SECTOR_SIZE_def)
  then obtain c where c: "ide_write_hd demo_ata (0, 1) 2048 ?buf 300 (demo_ide ?D) = Ret () ((demo_ide ?D)\<lparr>hw := c\<rparr>)"
      "moved (\<lambda>c. c) 0x1f0 (hw (demo_ide ?D)) c ((media (hw (demo_ide ?D) 0x1f0))(slave (0, 1) (demo_ide ?D) := disk ?fs))"
    using driver_implements_disk [OF demo_ata_documented(1) _ demo_ide_ok(1,4) [where D = ?D], of 300 2048 "demo_service ?D" 0 "[]" ?buf ?fs]
      demo_ata_documented(2) demo_ide_ok(2,3) by (auto simp: sectors_ok_def SECTOR_SIZE_def max_lba_def demo_service_def)
  have "wr_secs ?D 2048 ?buf 300 (2048 + 299) = replicate 512 7"
    using wr_secs_inside [of 299 300 ?D 2048 ?buf] by (simp add: SECTOR_SIZE_def)
  then show ?thesis
    using c demo_ide_ok(2,3) by (intro exI [of _ c]) (simp add: moved_def)
qed

end
