(* ===== verification/Partitions.thy ===== *)
theory Partitions
  imports Ide Stdio
begin

section \<open>The partitions of the disks (device/ide.c)\<close>

text \<open>
  Reading the partition tables and the initialisation of the driver, on the state of theory \<^verbatim>\<open>Ide\<close>. An extended
  partition is a chain of boot sectors, each with the entry of one logical partition and a link to the next.
\<close>

subsection \<open>The partition table\<close>

record partition_table_entry =
  fs_type :: u8
  pe_start_lba :: u32
  pe_sec_cnt :: u32

text \<open>Entry \<open>i\<close> of the table in a boot sector.\<close>

definition table_entry :: "u8 list \<Rightarrow> nat \<Rightarrow> partition_table_entry" where
  "table_entry bs i =
     \<lparr>fs_type = bs ! (446 + 16 * i + 4), pe_start_lba = word_at bs (446 + 16 * i + 8),
      pe_sec_cnt = word_at bs (446 + 16 * i + 12)\<rparr>"

text \<open>\<^verbatim>\<open>sprintf(name, "%s%d", hd->name, n)\<close>: the text that theory \<^verbatim>\<open>Stdio\<close> shows \<^verbatim>\<open>vsprintf\<close> to write for this format.\<close>

definition part_name :: "u8 list \<Rightarrow> nat \<Rightarrow> u8 list" where
  "part_name name n = (case render (\<lambda>_. name) [37, 115, 37, 100] [0, of_nat n] of Some out \<Rightarrow> out | None \<Rightarrow> [])"

definition add_primary :: "nat \<times> nat \<Rightarrow> u32 \<Rightarrow> partition_table_entry \<Rightarrow> ('c ide, unit) kop" where
  "add_primary h ext_lba p s =
     (let i = unat (p_no s);
          part = \<lparr>dp_start_lba = ext_lba + pe_start_lba p, dp_sec_cnt = pe_sec_cnt p, dp_my_disk = h,
                  dp_name = part_name (hd_name (hd_at h s)) (i + 1)\<rparr>
      in bindK (liftR (wr (prim_parts (hd_at h s)) i part)) (\<lambda>parts.
         thenK (modK (set_hd h (\<lambda>d. d\<lparr>prim_parts := parts\<rparr>)))
        (thenK (modK (\<lambda>s. s\<lparr>partition_list := partition_list s @ [(h, True, i)], p_no := p_no s + 1\<rparr>))
               (assertK (\<lambda>s. p_no s < 4)))) s)"

definition add_logical :: "nat \<times> nat \<Rightarrow> u32 \<Rightarrow> partition_table_entry \<Rightarrow> ('c ide, unit) kop" where
  "add_logical h ext_lba p s =
     (let i = unat (l_no s);
          part = \<lparr>dp_start_lba = ext_lba + pe_start_lba p, dp_sec_cnt = pe_sec_cnt p, dp_my_disk = h,
                  dp_name = part_name (hd_name (hd_at h s)) (i + 5)\<rparr>
      in bindK (liftR (wr (logic_parts (hd_at h s)) i part)) (\<lambda>parts.
         thenK (modK (set_hd h (\<lambda>d. d\<lparr>logic_parts := parts\<rparr>)))
               (modK (\<lambda>s. s\<lparr>partition_list := partition_list s @ [(h, False, i)], l_no := l_no s + 1\<rparr>))) s)"

text \<open>The loop over the entries; \<open>scan\<close> is the recursive call. The value is false for the return inside the loop,
  which leaves the buffer allocated.\<close>

fun scan_entries :: "(u32 \<Rightarrow> ('c ide, unit) kop) \<Rightarrow> nat \<times> nat \<Rightarrow> u32 \<Rightarrow> partition_table_entry list \<Rightarrow> ('c ide, bool) kop" where
  "scan_entries scan h ext_lba [] = retK True"
| "scan_entries scan h ext_lba (p # ps) =
     (if fs_type p = 0x5 then
        thenK (\<lambda>s. if ext_lba_base s \<noteq> 0 then scan (pe_start_lba p + ext_lba_base s) s
                   else scan (pe_start_lba p) (s\<lparr>ext_lba_base := pe_start_lba p\<rparr>))
              (scan_entries scan h ext_lba ps)
      else if fs_type p \<noteq> 0 then
        if ext_lba = 0 then thenK (add_primary h ext_lba p) (scan_entries scan h ext_lba ps)
        else
          thenK (add_logical h ext_lba p)
         (bindK (getK l_no) (\<lambda>l. if l \<ge> 8 then retK False else scan_entries scan h ext_lba ps))
      else scan_entries scan h ext_lba ps)"

text \<open>The first argument bounds the depth of the recursion: a chain of extended partitions that returns to itself
  would be followed for ever.\<close>

fun partition_scan :: "nat \<Rightarrow> 'c ata \<Rightarrow> nat \<times> nat \<Rightarrow> u32 \<Rightarrow> ('c ide, unit) kop" where
  "partition_scan 0 A h ext_lba = fltK Diverges"
| "partition_scan (Suc depth) A h ext_lba =
     thenK (modK (\<lambda>s. s\<lparr>bs_live := bs_live s + 1\<rparr>))
    (bindK (ide_read_hd A h ext_lba 512 1) (\<lambda>bs.
     bindK (scan_entries (partition_scan depth A h) h ext_lba (map (table_entry bs) [0..<4])) (\<lambda>fin.
     whenK fin (modK (\<lambda>s. s\<lparr>bs_live := bs_live s - 1\<rparr>)))))"

subsection \<open>Initialisation\<close>

definition init_disk :: "nat \<Rightarrow> 'c ata \<Rightarrow> nat \<Rightarrow> nat \<Rightarrow> ('c ide, unit) kop" where
  "init_disk depth A channel_no dev =
     (let h = (channel_no, dev) in
      thenK (modK (set_hd h (\<lambda>d. d\<lparr>my_channel := channel_no, dev_no := of_nat dev,
        hd_name := [115, 100, of_nat (97 + channel_no * 2 + dev)]\<rparr>)))
     (thenK (identify_disk A h)
     (thenK (whenK (dev \<noteq> 0) (partition_scan depth A h 0))
            (modK (\<lambda>s. s\<lparr>p_no := 0, l_no := 0\<rparr>)))))"

definition init_channel :: "nat \<Rightarrow> 'c ata \<Rightarrow> nat \<Rightarrow> ('c ide, unit) kop" where
  "init_channel depth A channel_no s =
     (if length (channels s) \<le> channel_no then Flt Out_Of_Bounds
      else
        thenK (modK (set_ch channel_no (\<lambda>c. c\<lparr>ch_name := [105, 100, 101, of_nat (48 + channel_no)]\<rparr>)))
       (thenK (modK (set_ch channel_no (\<lambda>c.
          if channel_no = 0 then c\<lparr>port_base := 0x1f0, irq_no := 0x20 + 14\<rparr>
          else c\<lparr>port_base := 0x170, irq_no := 0x20 + 15\<rparr>)))
       (thenK (modK (set_ch channel_no (\<lambda>c. c\<lparr>expecting_intr := False, ch_lock := False, disk_done := 0\<rparr>)))
       (thenK (modK (\<lambda>s. s\<lparr>hd_vectors := hd_vectors s @ [irq_no (channels s ! channel_no)]\<rparr>))
       (thenK (init_disk depth A channel_no 0)
              (init_disk depth A channel_no 1))))) s)"

fun init_channels :: "nat \<Rightarrow> 'c ata \<Rightarrow> nat list \<Rightarrow> ('c ide, unit) kop" where
  "init_channels depth A [] = retK ()"
| "init_channels depth A (c # cs) = thenK (init_channel depth A c) (init_channels depth A cs)"

text \<open>\<open>hd_cnt\<close> is the number of disks the BIOS has left at \<^verbatim>\<open>0x475\<close>.\<close>

definition ide_init :: "nat \<Rightarrow> 'c ata \<Rightarrow> u8 \<Rightarrow> ('c ide, unit) kop" where
  "ide_init depth A hd_cnt =
     thenK (assertK (\<lambda>_. hd_cnt > 0))
    (thenK (modK (\<lambda>s. s\<lparr>partition_list := [], channel_cnt := of_nat ((unat hd_cnt + 1) div 2)\<rparr>))
           (init_channels depth A [0..<(unat hd_cnt + 1) div 2]))"

subsection \<open>Adding partitions\<close>

text \<open>The state with one more partition, given by its first sector and its length.\<close>

definition put_primary :: "nat \<times> nat \<Rightarrow> u32 \<times> u32 \<Rightarrow> 'c ide \<Rightarrow> 'c ide" where
  "put_primary h p s = (set_hd h (\<lambda>d. d\<lparr>prim_parts := (prim_parts d)[unat (p_no s) :=
     \<lparr>dp_start_lba = fst p, dp_sec_cnt = snd p, dp_my_disk = h, dp_name = part_name (hd_name d) (unat (p_no s) + 1)\<rparr>]\<rparr>) s)
     \<lparr>partition_list := partition_list s @ [(h, True, unat (p_no s))], p_no := p_no s + 1\<rparr>"

definition put_logical :: "nat \<times> nat \<Rightarrow> u32 \<times> u32 \<Rightarrow> 'c ide \<Rightarrow> 'c ide" where
  "put_logical h p s = (set_hd h (\<lambda>d. d\<lparr>logic_parts := (logic_parts d)[unat (l_no s) :=
     \<lparr>dp_start_lba = fst p, dp_sec_cnt = snd p, dp_my_disk = h, dp_name = part_name (hd_name d) (unat (l_no s) + 5)\<rparr>]\<rparr>) s)
     \<lparr>partition_list := partition_list s @ [(h, False, unat (l_no s))], l_no := l_no s + 1\<rparr>"

text \<open>The disk exists, with room for four primary and eight logical partitions.\<close>

definition hd_ok :: "nat \<times> nat \<Rightarrow> 'c ide \<Rightarrow> bool" where
  "hd_ok h s \<longleftrightarrow> fst h < length (channels s) \<and> snd h < length (devices (channels s ! fst h)) \<and>
     length (prim_parts (hd_at h s)) = 4 \<and> length (logic_parts (hd_at h s)) = 8"

lemma set_hd_simps [simp]:
  "hw (set_hd h f s) = hw s" "p_no (set_hd h f s) = p_no s" "l_no (set_hd h f s) = l_no s" "bs_live (set_hd h f s) = bs_live s"
  "ext_lba_base (set_hd h f s) = ext_lba_base s" "partition_list (set_hd h f s) = partition_list s"
  "length (channels (set_hd h f s)) = length (channels s)"
  by (simp_all add: set_hd_def set_ch_def)

lemma hd_at_set_hd: "hd_ok h s \<Longrightarrow> hd_at h (set_hd h f s) = f (hd_at h s)"
  by (simp add: hd_ok_def hd_at_def set_hd_def set_ch_def)

lemma chan_set_hd:
  assumes "hd_ok h s"
  shows "\<exists>ds. channels (set_hd h f s) ! i = (channels s ! i)\<lparr>devices := ds\<rparr> \<and> length ds = length (devices (channels s ! i))"
proof (cases "i = fst h")
  case True
  then show ?thesis
    using assms by (intro exI [of _ "(devices (channels s ! i))[snd h := f (devices (channels s ! i) ! snd h)]"])
      (simp add: hd_ok_def set_hd_def set_ch_def)
next
  case False
  then have "channels (set_hd h f s) ! i = (channels s ! i)\<lparr>devices := devices (channels s ! i)\<rparr>"
    by (simp add: set_hd_def set_ch_def)
  then show ?thesis
    by blast
qed

lemma put_state [simp]:
  "hw (put_primary h p s) = hw s" "l_no (put_primary h p s) = l_no s" "bs_live (put_primary h p s) = bs_live s"
  "ext_lba_base (put_primary h p s) = ext_lba_base s" "p_no (put_primary h p s) = p_no s + 1"
  "partition_list (put_primary h p s) = partition_list s @ [(h, True, unat (p_no s))]"
  "hw (put_logical h p s) = hw s" "p_no (put_logical h p s) = p_no s" "bs_live (put_logical h p s) = bs_live s"
  "ext_lba_base (put_logical h p s) = ext_lba_base s" "l_no (put_logical h p s) = l_no s + 1"
  "partition_list (put_logical h p s) = partition_list s @ [(h, False, unat (l_no s))]"
  by (simp_all add: put_primary_def put_logical_def)

lemma set_hd_keeps:
  assumes "hd_ok h s" "\<And>d. my_channel (f d) = my_channel d" "\<And>d. dev_no (f d) = dev_no d"
    "\<And>d. length (prim_parts (f d)) = length (prim_parts d)" "\<And>d. length (logic_parts (f d)) = length (logic_parts d)"
    "channels s' = channels (set_hd h f s)"
  shows "hd_ok h s'" "channel_free h b s' = channel_free h b s" "slave h s' = slave h s"
proof -
  have e: "hd_at h s' = f (hd_at h s)"
    using hd_at_set_hd [OF assms(1), of f] assms(6) by (simp add: hd_at_def)
  obtain ds where ds: "channels (set_hd h f s) ! my_channel (hd_at h s) = (chan h s)\<lparr>devices := ds\<rparr>"
    using chan_set_hd [OF assms(1)] by blast
  obtain es where es: "channels (set_hd h f s) ! fst h = (channels s ! fst h)\<lparr>devices := es\<rparr>" "length es = length (devices (channels s ! fst h))"
    using chan_set_hd [OF assms(1)] by blast
  show "hd_ok h s'"
    using assms(1,4,5,6) e es by (simp add: hd_ok_def)
  show "channel_free h b s' = channel_free h b s" "slave h s' = slave h s"
    using assms(2,3,6) e ds by (simp_all add: channel_free_def wired_def settled_def slave_def)
qed

lemma put_keeps:
  assumes "hd_ok h s"
  shows "hd_ok h (put_primary h p s)" "channel_free h b (put_primary h p s) = channel_free h b s" "slave h (put_primary h p s) = slave h s"
    "hd_ok h (put_logical h p s)" "channel_free h b (put_logical h p s) = channel_free h b s" "slave h (put_logical h p s) = slave h s"
  by (rule set_hd_keeps [OF assms]; simp add: put_primary_def put_logical_def)+

lemma set_hd_cong: "f (hd_at h s) = g (hd_at h s) \<Longrightarrow> set_hd h f s = set_hd h g s"
  by (simp add: hd_at_def set_hd_def set_ch_def)

lemma add_logical_run:
  assumes "hd_ok h s" "unat (l_no s) < 8"
  shows "add_logical h l e s = Ret () (put_logical h (l + pe_start_lba e, pe_sec_cnt e) s)"
proof -
  let ?ps = "(logic_parts (hd_at h s))[unat (l_no s) := \<lparr>dp_start_lba = l + pe_start_lba e, dp_sec_cnt = pe_sec_cnt e,
    dp_my_disk = h, dp_name = part_name (hd_name (hd_at h s)) (unat (l_no s) + 5)\<rparr>]"
  have "set_hd h (\<lambda>d. d\<lparr>logic_parts := ?ps\<rparr>) s = set_hd h (\<lambda>d. d\<lparr>logic_parts := (logic_parts d)[unat (l_no s) :=
     \<lparr>dp_start_lba = l + pe_start_lba e, dp_sec_cnt = pe_sec_cnt e, dp_my_disk = h, dp_name = part_name (hd_name d) (unat (l_no s) + 5)\<rparr>]\<rparr>) s"
    by (rule set_hd_cong) simp
  then show ?thesis
    using assms by (simp add: add_logical_def Let_def put_logical_def hd_ok_def)
qed

lemma add_primary_run:
  assumes "hd_ok h s" "unat (p_no s) < 3"
  shows "add_primary h l e s = Ret () (put_primary h (l + pe_start_lba e, pe_sec_cnt e) s)"
proof -
  let ?ps = "(prim_parts (hd_at h s))[unat (p_no s) := \<lparr>dp_start_lba = l + pe_start_lba e, dp_sec_cnt = pe_sec_cnt e,
    dp_my_disk = h, dp_name = part_name (hd_name (hd_at h s)) (unat (p_no s) + 1)\<rparr>]"
  have "set_hd h (\<lambda>d. d\<lparr>prim_parts := ?ps\<rparr>) s = set_hd h (\<lambda>d. d\<lparr>prim_parts := (prim_parts d)[unat (p_no s) :=
     \<lparr>dp_start_lba = l + pe_start_lba e, dp_sec_cnt = pe_sec_cnt e, dp_my_disk = h, dp_name = part_name (hd_name d) (unat (p_no s) + 1)\<rparr>]\<rparr>) s"
    by (rule set_hd_cong) simp
  moreover have "p_no s + 1 < 4"
    using assms(2) by (simp add: word_less_nat_alt unat_word_ariths)
  ultimately show ?thesis
    using assms by (simp add: add_primary_def Let_def put_primary_def hd_ok_def)
qed

subsection \<open>Partition tables\<close>

definition table_of :: "u8 list \<Rightarrow> partition_table_entry list" where
  "table_of bs = map (table_entry bs) [0..<4]"

abbreviation no_part :: "partition_table_entry \<Rightarrow> bool" where
  "no_part e \<equiv> fs_type e = 0"

abbreviation plain_part :: "partition_table_entry \<Rightarrow> bool" where
  "plain_part e \<equiv> fs_type e \<noteq> 0 \<and> fs_type e \<noteq> 5"

text \<open>
  The chain of an extended partition that begins at sector \<open>base\<close>: the boot sector at \<open>l\<close> has the entry of one
  logical partition, whose first sector is counted from \<open>l\<close>, and a link to the next boot sector, counted from \<open>base\<close>.
  The last argument lists the logical partitions.
\<close>

fun ebr_chain :: "(nat \<Rightarrow> u8 list) \<Rightarrow> u32 \<Rightarrow> u32 \<Rightarrow> (u32 \<times> u32) list \<Rightarrow> bool" where
  "ebr_chain D base l [] = False"
| "ebr_chain D base l (p # ps) =
     (let es = table_of (D (unat l)) in
      l \<noteq> 0 \<and> l \<le> max_lba \<and> plain_part (es ! 0) \<and> p = (l + pe_start_lba (es ! 0), pe_sec_cnt (es ! 0)) \<and>
      no_part (es ! 2) \<and> no_part (es ! 3) \<and>
      (if ps = [] then no_part (es ! 1)
       else fs_type (es ! 1) = 5 \<and> ebr_chain D base (pe_start_lba (es ! 1) + base) ps))"

text \<open>The boot record of the disk: primary partitions, then the extended partition that begins at \<open>base\<close>.\<close>

definition mbr_layout :: "(nat \<Rightarrow> u8 list) \<Rightarrow> (u32 \<times> u32) list \<Rightarrow> u32 \<Rightarrow> bool" where
  "mbr_layout D prims base \<longleftrightarrow>
     (let es = table_of (D 0); k = length prims in
      k < 4 \<and> list_all plain_part (take k es) \<and> map (\<lambda>e. (pe_start_lba e, pe_sec_cnt e)) (take k es) = prims \<and>
      fs_type (es ! k) = 5 \<and> pe_start_lba (es ! k) = base \<and> base \<noteq> 0 \<and> list_all no_part (drop (Suc k) es))"

lemma table_of_4: "table_of bs = [table_of bs ! 0, table_of bs ! 1, table_of bs ! 2, table_of bs ! 3]"
  by (simp add: table_of_def upt_rec)

lemma scan_no_parts: "list_all no_part es \<Longrightarrow> scan_entries scan h l es s = Ret True s"
  by (induction es) simp_all

lemma scan_primaries:
  "hd_ok h s \<Longrightarrow> list_all plain_part es \<Longrightarrow> unat (p_no s) + length es \<le> 3 \<Longrightarrow>
    scan_entries scan h 0 (es @ rest) s = scan_entries scan h 0 rest (fold (put_primary h) (map (\<lambda>e. (pe_start_lba e, pe_sec_cnt e)) es) s)"
proof (induction es arbitrary: s)
  case (Cons e es)
  let ?s = "put_primary h (pe_start_lba e, pe_sec_cnt e) s"
  have "unat (p_no ?s) = unat (p_no s) + 1"
    using Cons.prems(3) by (simp add: unat_word_ariths)
  then show ?case
    using Cons.IH [of ?s] Cons.prems add_primary_run [of h s 0 e] put_keeps(1) [OF Cons.prems(1)] by simp
qed simp

lemma read_sector_run:
  fixes s :: "'c ide"
  assumes d: "ata_documented A view lag" and f: "channel_free h b s" "ready view lag b (hw s)" and l: "lba \<le> max_lba"
    and ok: "sectors_ok (media (view (hw s) b) (slave h s))"
  shows "\<exists>c. ide_read_hd A h lba 512 1 s = Ret (media (view (hw s) b) (slave h s) (unat lba)) (s\<lparr>hw := c\<rparr>) \<and>
    moved view b (hw s) c (media (view (hw s) b)) \<and> ready view lag b c"
  using ide_read_hd_run [OF d _ f, of 1 lba 512] l ok by (simp add: word_le_nat_alt)

lemma put_upd:
  "put_logical h p (s\<lparr>hw := c\<rparr>) = (put_logical h p s)\<lparr>hw := c\<rparr>" "put_logical h p (s\<lparr>bs_live := n\<rparr>) = (put_logical h p s)\<lparr>bs_live := n\<rparr>"
  by (simp_all add: put_logical_def set_hd_def set_ch_def)

lemma fold_put_upd:
  "fold (put_logical h) ps (s\<lparr>hw := c\<rparr>) = (fold (put_logical h) ps s)\<lparr>hw := c\<rparr>"
  "fold (put_logical h) ps (s\<lparr>bs_live := n\<rparr>) = (fold (put_logical h) ps s)\<lparr>bs_live := n\<rparr>"
  by (induction ps arbitrary: s) (simp_all add: put_upd)

lemma fold_put_state [simp]:
  "hw (fold (put_logical h) ps s) = hw s" "bs_live (fold (put_logical h) ps s) = bs_live s"
  "ext_lba_base (fold (put_logical h) ps s) = ext_lba_base s"
  by (induction ps arbitrary: s) simp_all

lemma upd_keeps [simp]:
  "channel_free h b (s\<lparr>hw := c\<rparr>) = channel_free h b s" "channel_free h b (s\<lparr>bs_live := n\<rparr>) = channel_free h b s"
  "slave h (s\<lparr>bs_live := n\<rparr>) = slave h s" "hd_ok h (s\<lparr>hw := c\<rparr>) = hd_ok h s" "hd_ok h (s\<lparr>bs_live := n\<rparr>) = hd_ok h s"
  "channel_free h b (s\<lparr>ext_lba_base := l\<rparr>) = channel_free h b s" "slave h (s\<lparr>ext_lba_base := l\<rparr>) = slave h s"
  "hd_ok h (s\<lparr>ext_lba_base := l\<rparr>) = hd_ok h s"
  by (simp_all add: channel_free_def wired_def settled_def slave_def hd_ok_def hd_at_def)

lemma scan_chain:
  fixes s :: "'c ide"
  assumes d: "ata_documented A view lag" and D: "sectors_ok D" "base \<noteq> 0"
  shows "ebr_chain D base l logs \<Longrightarrow> media (view (hw s) b) (slave h s) = D \<Longrightarrow> channel_free h b s \<Longrightarrow> hd_ok h s \<Longrightarrow>
    ext_lba_base s = base \<Longrightarrow> unat (l_no s) + length logs \<le> 7 \<Longrightarrow> ready view lag b (hw s) \<Longrightarrow>
    \<exists>c. partition_scan (length logs) A h l s = Ret () ((fold (put_logical h) logs s)\<lparr>hw := c\<rparr>) \<and>
      moved view b (hw s) c (media (view (hw s) b)) \<and> ready view lag b c"
proof (induction logs arbitrary: l s)
  case (Cons p ps)
  let ?s1 = "s\<lparr>bs_live := bs_live s + 1\<rparr>"
  obtain e0 e1 e2 e3 where t: "map (table_entry (D (unat l))) [0..<4] = [e0, e1, e2, e3]"
    by (rule that [OF table_of_4 [unfolded table_of_def]])
  have e: "l \<noteq> 0" "l \<le> max_lba" "plain_part e0" "p = (l + pe_start_lba e0, pe_sec_cnt e0)" "no_part e2" "no_part e3"
      "if ps = [] then no_part e1 else fs_type e1 = 5 \<and> ebr_chain D base (pe_start_lba e1 + base) ps"
    using Cons.prems(1) by (simp_all add: Let_def table_of_def t cong: if_cong)
  obtain c1 where c1: "ide_read_hd A h l 512 1 ?s1 = Ret (D (unat l)) (?s1\<lparr>hw := c1\<rparr>)"
      "moved view b (hw s) c1 (media (view (hw s) b))" "ready view lag b c1"
    using read_sector_run [OF d, of h b ?s1 l] Cons.prems(2,3,7) e(2) D(1) by auto
  let ?s2 = "put_logical h p (?s1\<lparr>hw := c1\<rparr>)"
  have add: "add_logical h l e0 (?s1\<lparr>hw := c1\<rparr>) = Ret () ?s2"
    using add_logical_run [of h "?s1\<lparr>hw := c1\<rparr>" l e0] Cons.prems(4,6) e(4) by simp
  have ln: "unat (l_no ?s2) = unat (l_no s) + 1"
    using Cons.prems(6) by (simp add: unat_word_ariths)
  then have "\<not> 8 \<le> l_no ?s2"
    using Cons.prems(6) by (simp add: word_le_nat_alt)
  then have run: "partition_scan (length (p # ps)) A h l s =
      bindK (scan_entries (partition_scan (length ps) A h) h l [e1, e2, e3])
        (\<lambda>fin. whenK fin (modK (\<lambda>s. s\<lparr>bs_live := bs_live s - 1\<rparr>))) ?s2"
    using c1(1) add e(1,3) by (simp add: t bindK_def thenK_def)
  show ?case
  proof (cases "ps = []")
    case True
    then have "scan_entries (partition_scan (length ps) A h) h l [e1, e2, e3] ?s2 = Ret True ?s2"
      using e(5-7) by (intro scan_no_parts) simp
    then have "partition_scan (length (p # ps)) A h l s = Ret () ((fold (put_logical h) (p # ps) s)\<lparr>hw := c1\<rparr>)"
      using run True by (simp add: put_upd)
    then show ?thesis
      using c1(2,3) by blast
  next
    case False
    have m: "media (view c1 b) = media (view (hw s) b)"
      using c1(2) by (simp add: moved_def)
    have "hd_ok h (?s1\<lparr>hw := c1\<rparr>)"
      using Cons.prems(4) by simp
    note k = put_keeps(4-6) [OF this, where p = p]
    obtain c2 where c2: "partition_scan (length ps) A h (pe_start_lba e1 + base) ?s2 = Ret () ((fold (put_logical h) ps ?s2)\<lparr>hw := c2\<rparr>)"
        "moved view b c1 c2 (media (view (hw s) b))" "ready view lag b c2"
      using Cons.IH [of "pe_start_lba e1 + base" ?s2] False e(7) Cons.prems k m ln c1(3) by auto
    then have "scan_entries (partition_scan (length ps) A h) h l [e1, e2, e3] ?s2 = Ret True ((fold (put_logical h) ps ?s2)\<lparr>hw := c2\<rparr>)"
      using False e(5-7) D(2) Cons.prems(5) by simp
    then have "partition_scan (length (p # ps)) A h l s = Ret () ((fold (put_logical h) (p # ps) s)\<lparr>hw := c2\<rparr>)"
      using run by (simp add: put_upd fold_put_upd)
    then show ?thesis
      using moved_trans [OF c1(2) c2(2)] c2(3) by blast
  qed
qed simp

text \<open>What is recorded for the partitions numbered from \<open>n\<close> on, in their order.\<close>

definition parts_from :: "nat \<Rightarrow> nat \<times> nat \<Rightarrow> u8 list \<Rightarrow> (u32 \<times> u32) list \<Rightarrow> disk_part list" where
  "parts_from n h name ps =
     map (\<lambda>i. \<lparr>dp_start_lba = fst (ps ! i), dp_sec_cnt = snd (ps ! i), dp_my_disk = h, dp_name = part_name name (i + n)\<rparr>) [0..<length ps]"

lemma parts_from_snoc:
  "parts_from n h name (ps @ [p]) = parts_from n h name ps @
    [\<lparr>dp_start_lba = fst p, dp_sec_cnt = snd p, dp_my_disk = h, dp_name = part_name name (length ps + n)\<rparr>]"
  by (simp add: parts_from_def nth_append)

lemma take_update_end: "n < length xs \<Longrightarrow> take (Suc n) (xs[n := v]) = take n xs @ [v]"
  by (simp add: take_Suc_conv_app_nth)

lemma hd_at_put:
  assumes "hd_ok h s"
  shows "hd_at h (put_primary h p s) = (hd_at h s)\<lparr>prim_parts := (prim_parts (hd_at h s))[unat (p_no s) :=
      \<lparr>dp_start_lba = fst p, dp_sec_cnt = snd p, dp_my_disk = h, dp_name = part_name (hd_name (hd_at h s)) (unat (p_no s) + 1)\<rparr>]\<rparr>"
    "hd_at h (put_logical h p s) = (hd_at h s)\<lparr>logic_parts := (logic_parts (hd_at h s))[unat (l_no s) :=
      \<lparr>dp_start_lba = fst p, dp_sec_cnt = snd p, dp_my_disk = h, dp_name = part_name (hd_name (hd_at h s)) (unat (l_no s) + 5)\<rparr>]\<rparr>"
  using hd_at_set_hd [OF assms] by (simp_all add: put_primary_def put_logical_def hd_at_def)

lemma fold_primary:
  assumes "hd_ok h s" "p_no s = 0" "length ps \<le> 3"
  defines "s' \<equiv> fold (put_primary h) ps s"
  shows "hd_ok h s' \<and> p_no s' = of_nat (length ps) \<and> hd_name (hd_at h s') = hd_name (hd_at h s) \<and>
    take (length ps) (prim_parts (hd_at h s')) = parts_from 1 h (hd_name (hd_at h s)) ps \<and>
    partition_list s' = partition_list s @ map (\<lambda>i. (h, True, i)) [0..<length ps] \<and>
    channel_free h b s' = channel_free h b s \<and> slave h s' = slave h s \<and> hw s' = hw s \<and> bs_live s' = bs_live s \<and>
    l_no s' = l_no s \<and> ext_lba_base s' = ext_lba_base s"
  using assms(3) unfolding s'_def
proof (induction ps rule: rev_induct)
  case (snoc p ps)
  let ?t = "fold (put_primary h) ps s"
  have k: "hd_ok h ?t" "p_no ?t = of_nat (length ps)"
    using snoc by auto
  then have u: "unat (p_no ?t) = length ps"
    using snoc.prems by (simp add: unat_of_nat)
  have "length ps < length (prim_parts (hd_at h ?t))"
    using k(1) snoc.prems by (simp add: hd_ok_def)
  then show ?case
    using snoc k u by (simp add: hd_at_put put_keeps take_update_end parts_from_snoc)
qed (use assms in \<open>simp_all add: parts_from_def\<close>)

lemma fold_logical:
  assumes "hd_ok h s" "l_no s = 0" "length ps \<le> 7"
  defines "s' \<equiv> fold (put_logical h) ps s"
  shows "hd_ok h s' \<and> l_no s' = of_nat (length ps) \<and> hd_name (hd_at h s') = hd_name (hd_at h s) \<and>
    prim_parts (hd_at h s') = prim_parts (hd_at h s) \<and>
    take (length ps) (logic_parts (hd_at h s')) = parts_from 5 h (hd_name (hd_at h s)) ps \<and>
    partition_list s' = partition_list s @ map (\<lambda>i. (h, False, i)) [0..<length ps] \<and>
    channel_free h b s' = channel_free h b s"
  using assms(3) unfolding s'_def
proof (induction ps rule: rev_induct)
  case (snoc p ps)
  let ?t = "fold (put_logical h) ps s"
  have k: "hd_ok h ?t" "l_no ?t = of_nat (length ps)"
    using snoc by auto
  then have u: "unat (l_no ?t) = length ps"
    using snoc.prems by (simp add: unat_of_nat)
  have "length ps < length (logic_parts (hd_at h ?t))"
    using k(1) snoc.prems by (simp add: hd_ok_def)
  then show ?case
    using snoc k u by (simp add: hd_at_put put_keeps take_update_end parts_from_snoc)
qed (use assms in \<open>simp_all add: parts_from_def\<close>)

subsection \<open>Properties\<close>

text \<open>C11: All partitions of a disk are found. Let the controller keep the ATA standard and wait for a command; only commands
  for one sector are used. On a disk with up to three primary partitions and an extended one whose
  chain of boot sectors lists up to seven logical ones, \<^verbatim>\<open>partition_scan\<close> of sector 0 returns; a recursion of one
  level more than there are logical partitions is enough. Afterwards the disk has the partitions in order, each with its
  absolute first sector, its length and its name (numbers from 1 for primary, from 5 for logical ones), the list of
  partitions has grown by exactly these, every buffer has been given back, and no sector has changed.
\<close>

theorem partition_scan_finds_all:
  fixes s :: "'c ide"
  assumes d: "ata_documented A view lag" and f: "channel_free h b s" "hd_ok h s" "ready view lag b (hw s)"
    and D: "media (view (hw s) b) (slave h s) = D" "sectors_ok D"
    and z: "ext_lba_base s = 0" "p_no s = 0" "l_no s = 0"
    and m: "mbr_layout D prims base" and c: "ebr_chain D base base logs" "length logs \<le> 7"
  shows "\<exists>s'. partition_scan (length logs + 1) A h 0 s = Ret () s' \<and>
    take (length prims) (prim_parts (hd_at h s')) = parts_from 1 h (hd_name (hd_at h s)) prims \<and>
    take (length logs) (logic_parts (hd_at h s')) = parts_from 5 h (hd_name (hd_at h s)) logs \<and>
    partition_list s' = partition_list s @ map (\<lambda>i. (h, True, i)) [0..<length prims] @ map (\<lambda>i. (h, False, i)) [0..<length logs] \<and>
    bs_live s' = bs_live s \<and> channel_free h b s' \<and> moved view b (hw s) (hw s') (media (view (hw s) b)) \<and>
    ready view lag b (hw s')"
proof -
  let ?s1 = "s\<lparr>bs_live := bs_live s + 1\<rparr>" and ?es = "table_of (D 0)" and ?k = "length prims"
  let ?scan = "partition_scan (length logs) A h"
  have e: "?k < 4" "list_all plain_part (take ?k ?es)" "map (\<lambda>e. (pe_start_lba e, pe_sec_cnt e)) (take ?k ?es) = prims"
      "fs_type (?es ! ?k) = 5" "pe_start_lba (?es ! ?k) = base" "base \<noteq> 0" "list_all no_part (drop (Suc ?k) ?es)"
    using m by (simp_all add: mbr_layout_def Let_def)
  have split: "?es = take ?k ?es @ ?es ! ?k # drop (Suc ?k) ?es"
    by (rule id_take_nth_drop) (use e(1) in \<open>simp add: table_of_def\<close>)
  obtain c1 where c1: "ide_read_hd A h 0 512 1 ?s1 = Ret (D 0) (?s1\<lparr>hw := c1\<rparr>)" "moved view b (hw s) c1 (media (view (hw s) b))"
      "ready view lag b c1"
    using read_sector_run [OF d, of h b ?s1 0] f(1,3) D by auto
  define s2 where "s2 = fold (put_primary h) prims (?s1\<lparr>hw := c1\<rparr>)"
  have "hd_ok h (?s1\<lparr>hw := c1\<rparr>)" "p_no (?s1\<lparr>hw := c1\<rparr>) = 0" "length prims \<le> 3"
    using f(2) z(2) e(1) by simp_all
  note p = fold_primary [OF this, where b = b, folded s2_def]
  let ?s3 = "s2\<lparr>ext_lba_base := base\<rparr>"
  have m1: "media (view c1 b) = media (view (hw s) b)"
    using c1(2) by (simp add: moved_def)
  obtain c2 where c2: "?scan base ?s3 = Ret () ((fold (put_logical h) logs ?s3)\<lparr>hw := c2\<rparr>)" "moved view b c1 c2 (media (view (hw s) b))"
      "ready view lag b c2"
    using scan_chain [OF d D(2) e(6) c(1), where s = ?s3 and b = b and h = h] p D(1) f(1) z(3) c(2) m1 c1(3) by auto
  let ?s4 = "(fold (put_logical h) logs ?s3)\<lparr>hw := c2\<rparr>"
  have "scan_entries ?scan h 0 ?es (?s1\<lparr>hw := c1\<rparr>) = scan_entries ?scan h 0 (?es ! ?k # drop (Suc ?k) ?es) s2"
    using scan_primaries [of h "?s1\<lparr>hw := c1\<rparr>" "take ?k ?es" ?scan "?es ! ?k # drop (Suc ?k) ?es"] split f(2) e(1-3) z(2)
    by (simp add: s2_def)
  also have "\<dots> = Ret True ?s4"
    using e(4-7) p z(1) c2(1) by (simp add: scan_no_parts)
  finally have "partition_scan (length logs + 1) A h 0 s = Ret () (?s4\<lparr>bs_live := bs_live s\<rparr>)"
    using c1(1) p by (simp add: table_of_def)
  moreover have "hd_ok h ?s3" "l_no ?s3 = 0"
    using p z(3) by simp_all
  note q = fold_logical [OF this c(2), where b = b]
  ultimately show ?thesis
    using p q f(1) moved_trans [OF c1(2) c2(2)] c2(3) by (intro exI [of _ "?s4\<lparr>bs_live := bs_live s\<rparr>"]) (simp add: hd_at_def)
qed

text \<open>Boot sectors with a given table, and a disk with one primary and two logical partitions.\<close>

definition entry_bytes_of :: "u8 \<times> u32 \<times> u32 \<Rightarrow> u8 list" where
  "entry_bytes_of e = (case e of (t, l, n) \<Rightarrow> [0, 0, 0, 0, t, 0, 0, 0] @ le32 l @ le32 n)"

definition demo_boot :: "(u8 \<times> u32 \<times> u32) list \<Rightarrow> u8 list" where
  "demo_boot es = replicate 446 0 @ concat (map entry_bytes_of es) @ [0x55, 0xaa]"

definition demo_disk :: "nat \<Rightarrow> u8 list" where
  "demo_disk l =
     (if l = 0 then demo_boot [(0x83, 2048, 1000), (5, 4096, 9000), (0, 0, 0), (0, 0, 0)]
      else if l = 4096 then demo_boot [(0x66, 63, 500), (5, 1000, 2000), (0, 0, 0), (0, 0, 0)]
      else if l = 5096 then demo_boot [(0x66, 63, 600), (0, 0, 0), (0, 0, 0), (0, 0, 0)]
      else replicate 512 0)"

lemma length_entry_bytes_of [simp]: "length (entry_bytes_of e) = 16"
  by (simp add: entry_bytes_of_def case_prod_beta)

lemma drop_entries: "i < length es \<Longrightarrow> \<exists>r. drop (16 * i) (concat (map entry_bytes_of es) @ q) = entry_bytes_of (es ! i) @ r"
proof (induction es arbitrary: i)
  case (Cons e es)
  then show ?case
    by (cases i) simp_all
qed simp

lemma demo_boot_entry:
  assumes "i < length es"
  shows "table_entry (demo_boot es) i = \<lparr>fs_type = fst (es ! i), pe_start_lba = fst (snd (es ! i)), pe_sec_cnt = snd (snd (es ! i))\<rparr>"
proof -
  obtain r where r: "drop (446 + 16 * i) (demo_boot es) = entry_bytes_of (es ! i) @ r"
    using drop_entries [OF assms] by (auto simp: demo_boot_def)
  have len: "446 + 16 * i + 16 \<le> length (demo_boot es)"
    using assms by (simp add: demo_boot_def length_concat comp_def sum_list_triv)
  have w: "word_at (demo_boot es) (446 + 16 * i + k) = word_at (entry_bytes_of (es ! i) @ r) k" for k
    unfolding word_at_def r [symmetric] by (simp add: add.commute)
  have "demo_boot es ! (446 + 16 * i + 4) = (entry_bytes_of (es ! i) @ r) ! 4"
    unfolding r [symmetric] using len by (subst nth_drop) simp_all
  then show ?thesis
    using w [of 8] w [of 12] by (cases "es ! i") (simp add: table_entry_def entry_bytes_of_def word_at_def)
qed

theorem partition_scan_finds_all_witness:
  "\<exists>s'. partition_scan 3 demo_ata (0, 1) 0 (demo_ide demo_disk) = Ret () s' \<and>
    partition_list s' = [((0, 1), True, 0), ((0, 1), False, 0), ((0, 1), False, 1)] \<and>
    dp_start_lba (logic_parts (hd_at (0, 1) s') ! 1) = 5159 \<and> dp_name (logic_parts (hd_at (0, 1) s') ! 1) = [115, 100, 98, 54]"
proof -
  let ?s = "demo_ide demo_disk" and ?logs = "[(4159, 500), (5159, 600 :: u32)]"
  have m: "mbr_layout demo_disk [(2048, 1000)] 4096"
    by (simp add: mbr_layout_def demo_disk_def table_of_def demo_boot_entry upt_rec)
  have e: "ebr_chain demo_disk 4096 4096 ?logs"
    by (simp add: demo_disk_def table_of_def demo_boot_entry upt_rec max_lba_def)
  have o: "sectors_ok demo_disk"
    by (simp add: sectors_ok_def demo_disk_def demo_boot_def SECTOR_SIZE_def)
  have h: "hd_ok (0, 1) ?s"
    by (simp add: hd_ok_def demo_ide_def hd_at_def demo_hard_disk_def)
  have z: "ext_lba_base ?s = 0" "p_no ?s = 0" "l_no ?s = 0" "partition_list ?s = []" "hd_name (hd_at (0, 1) ?s) = [115, 100, 98]"
    by (simp_all add: demo_ide_def hd_at_def demo_hard_disk_def)
  have d: "media (hw ?s 0x1f0) (slave (0, 1) ?s) = demo_disk"
    by (rule demo_ide_ok)
  have l: "length ?logs \<le> 7"
    by simp
  obtain s' where s': "partition_scan 3 demo_ata (0, 1) 0 ?s = Ret () s'"
      "take 2 (logic_parts (hd_at (0, 1) s')) = parts_from 5 (0, 1) [115, 100, 98] ?logs"
      "partition_list s' = [((0, 1), True, 0), ((0, 1), False, 0), ((0, 1), False, 1)]"
    using partition_scan_finds_all [where view = "\<lambda>c. c", OF demo_ata_documented(1) demo_ide_ok(1) h demo_ide_ok(4) d o z(1-3) m e l] z(4,5)
    by (auto simp: numeral_3_eq_3 numeral_2_eq_2)
  have name: "part_name [115, 100, 98] 6 = [115, 100, 98, 54]"
    by code_simp
  have "logic_parts (hd_at (0, 1) s') ! 1 = parts_from 5 (0, 1) [115, 100, 98] ?logs ! 1"
    unfolding s'(2) [symmetric] by simp
  then show ?thesis
    using s'(1,3) name by (intro exI [of _ s']) (simp add: parts_from_def)
qed

end
