(* ===== verification/Spec2Isabelle.thy ===== *)
theory Spec2Isabelle
  imports Prelude Bitmap Cpu KList CString Stdio Machine Thread Switch Sync Memory Heap Ioqueue
    Disk Path Inode File Dir Fs Mount Shell Keyboard Ide Partitions
begin

text \<open>
  \<^bold>\<open>A model of the x86 kernel under \<^verbatim>\<open>src/\<close>.\<close>

  The program is a small kernel for a 32-bit PC: interrupts and a clock, threads with a round-robin scheduler,
  semaphores and locks, paging with a page allocator and a heap, a driver for IDE disks, a file system with
  inodes and directories, pipes and a keyboard, and a shell. This library models these parts and proves what
  makes them correct. The rest of this text says how the theories correspond to the code, what is proved, which
  bounds were chosen, and what is left out.

  \<^bold>\<open>How routines are modelled.\<close> A C function is a HOL function of its arguments and of a record that holds the
  global variables it uses. A pure routine that may fail returns \<open>'a res\<close>; a routine on the state is a \<open>kop\<close>: it
  returns (\<open>Ret\<close>), leaves the processor to another thread (\<open>Blk\<close>), or ends in a fault (\<open>Flt\<close>). The faults
  are a failed assertion (\<open>Panic\<close>), an access outside an array (\<open>Out_Of_Bounds\<close>), an access to an address that is not
  mapped (\<open>Page_Fault\<close>) and a recursion deeper than its bound (\<open>Diverges\<close>). Machine integers are words of their
  width; an index is a natural number where the text of its theory says why the sums do not wrap. A handler or a
  thread is named by its address. Output to the screen is left out everywhere.

  The state of the kernel proper is a chain of records, each theory extending the one below:
  \<open>cpu\<close> (\<^verbatim>\<open>Cpu\<close>), \<open>machine\<close> (\<^verbatim>\<open>Machine\<close>), \<open>sched\<close> (\<^verbatim>\<open>Thread\<close>), \<open>sync\<close> (\<^verbatim>\<open>Sync\<close>), \<open>memory\<close> (\<^verbatim>\<open>Memory\<close>), \<open>io\<close> (\<^verbatim>\<open>Ioqueue\<close>),
  \<open>kbd\<close> (\<^verbatim>\<open>Keyboard\<close>). The file system has a record of its own, \<open>fsys\<close> (\<^verbatim>\<open>Disk\<close>), above an array of sectors and a
  heap that may refuse any request; the driver has \<open>ide\<close> (\<^verbatim>\<open>Ide\<close>), above a controller that is a parameter. The
  string library works on a byte memory, the lists on a heap of list elements.

  \<^bold>\<open>Theories, sources and what is proved.\<close>

  \<^item> \<^verbatim>\<open>Prelude\<close>: the monads and their rules, triples, bounded search, words and lists.

  \<^item> \<^verbatim>\<open>Bitmap\<close> (\<^verbatim>\<open>lib/kernel/bitmap.c\<close>): the scan finds the first run of clear bits when there is one inside the map;
  setting a bit changes that bit; on a full map, or one clear up to its end, the scan does not do what its comment says.

  \<^item> \<^verbatim>\<open>Cpu\<close> (\<^verbatim>\<open>kernel/interrupt.c\<close>, \<^verbatim>\<open>device/timer.c\<close>, \<^verbatim>\<open>userprog/tss.c\<close>): the descriptors the initialisation writes decode
  to the intended segments and, for the vectors the entry table has, gates; for the vectors behind the table the gates lead to
  whatever follows it; the limit of the TSS is counted in pages; the timer chip is programmed without the high byte of its counter.

  \<^item> \<^verbatim>\<open>KList\<close> (\<^verbatim>\<open>lib/kernel/list.c\<close>): every run of list operations on one heap acts like operations on HOL lists. The
  contract is the locale \<open>queue_lists\<close>, interpreted on the heap; the later theories use lists on that ground.

  \<^item> \<^verbatim>\<open>CString\<close>, \<^verbatim>\<open>Stdio\<close> (\<^verbatim>\<open>lib/string.c\<close>, \<^verbatim>\<open>lib/stdio.c\<close>): the string functions on possibly overlapping memory, number
  conversion and formatted output against a reference that renders a format.

  \<^item> \<^verbatim>\<open>Machine\<close> (\<^verbatim>\<open>kernel/memory.c\<close>): the two-level translation and the window of the page tables onto themselves.

  \<^item> \<^verbatim>\<open>Thread\<close>, \<^verbatim>\<open>Switch\<close> (\<^verbatim>\<open>thread/thread.c\<close>, \<^verbatim>\<open>thread/switch.S\<close>): queues and states of threads agree after every sequence
  of clock ticks, blocks, wake-ups and yields (rule induction on \<open>sched_step\<close>); the scheduler is round robin; a
  thread that was switched away resumes with its registers, whatever the others do.

  \<^item> \<^verbatim>\<open>Sync\<close> (\<^verbatim>\<open>thread/sync.c\<close>): the two lock routines are sequences of pieces, and in every interleaving of the pieces of all
  threads with timer interrupts (\<open>call_step\<close>) at most one thread is between taking a lock and giving it back and no assertion fails;
  a wake-up is not lost (\<open>lock_step\<close>, where a thread gives back what it took); locks nest. The contract of a lock is the locale \<open>mutex\<close>.

  \<^item> \<^verbatim>\<open>Memory\<close>, \<^verbatim>\<open>Heap\<close> (\<^verbatim>\<open>kernel/memory.c\<close>): pages and blocks that are handed out are fresh, mapped and disjoint from
  all others; giving them back restores the pools, and the last block of an arena takes the page with it.

  \<^item> \<^verbatim>\<open>Ioqueue\<close> (\<^verbatim>\<open>device/ioqueue.c\<close>, \<^verbatim>\<open>shell/pipe.c\<close>): a ring buffer is a bounded first-in first-out queue (locale
  \<open>bounded_queue\<close>), and so is a pipe; a write that fills a pipe sleeps.

  \<^item> \<^verbatim>\<open>Keyboard\<close> (\<^verbatim>\<open>device/keyboard.c\<close>): the scan codes of a text typed on a keyboard with the US layout put that
  text into the ring buffer.

  \<^item> \<^verbatim>\<open>Disk\<close>, \<^verbatim>\<open>Path\<close>, \<^verbatim>\<open>Inode\<close>, \<^verbatim>\<open>File\<close>, \<^verbatim>\<open>Dir\<close>, \<^verbatim>\<open>Fs\<close>, \<^verbatim>\<open>Mount\<close> (\<^verbatim>\<open>fs/\<close>): writing appends to a file's contents, marks
  the new blocks in memory and on the disk and leaves other files alone; what was written is read back after a seek; an inode written to the disk is the one opened from it;
  formatting a partition and mounting it gives a well-formed empty file system; and where the code truncates an inode number
  or overruns a buffer, that it does.

  \<^item> \<^verbatim>\<open>Shell\<close> (\<^verbatim>\<open>shell/shell.c\<close>, \<^verbatim>\<open>shell/buildin_cmd.c\<close>): normalising a path and splitting a command line agree with references
  on the list of components and of words.

  \<^item> \<^verbatim>\<open>Ide\<close>, \<^verbatim>\<open>Partitions\<close> (\<^verbatim>\<open>device/ide.c\<close>): with a controller that keeps the ATA standard (\<open>ata_documented\<close>: sectors
  are moved one by one, with an interrupt for each) and, for more than one sector, never makes the driver wait between two sectors
  (\<open>keeps_up\<close>), the driver implements the array of sectors of \<^verbatim>\<open>Disk\<close>; the scan of the partition tables finds every partition.

  \<^bold>\<open>How the parts meet.\<close> The scheduler runs on the list contract; semaphores and locks on the scheduler; the
  allocators and the ring buffers take locks and wake threads through them; the keyboard feeds a ring buffer; the
  file system calls the disk, which the driver implements; the shell calls the file system.

  \<^bold>\<open>Bounds and fuel.\<close> Loops are structural or have a termination proof. A walk over a string or a list that need not
  end is a partial function with value \<open>None\<close>, and the properties prove that it returns. \<^verbatim>\<open>partition_scan\<close> takes a bound on the
  depth of its recursion, since the links on a disk may form a cycle: one level more than there are logical
  partitions is proved to be enough. The wait for the controller is bounded by the code itself, at 29999 rounds. One call
  of the file system or of the driver runs alone, under the lock of its channel.

  \<^bold>\<open>Not modelled.\<close> Creating processes, loading programs and their exit (\<^verbatim>\<open>userprog/process.c\<close> apart from the activation of an
  address space, \<^verbatim>\<open>userprog/fork.c\<close>, \<^verbatim>\<open>userprog/exec.c\<close>, \<^verbatim>\<open>userprog/wait_exit.c\<close>, and the pid pool, start and exit of threads in
  \<^verbatim>\<open>thread/thread.c\<close>): they join the address spaces, the file system and the scheduler, whose states are separate here. The
  dispatch of \<^verbatim>\<open>sys_read\<close> and \<^verbatim>\<open>sys_write\<close> between files, pipes, keyboard and screen; running commands and printing
  in the shell. The system call table and its user side, the console and \<^verbatim>\<open>print.S\<close>, the interrupt entries of
  \<^verbatim>\<open>kernel/kernel.S\<close>, the boot code and the start of the kernel: assembly, tables and output. The translation cache of the processor.
\<close>

end
